(* ===== verification/Prelude.thy ===== *)
theory Prelude
  imports "HOL-Library.Word"
begin

text \<open>
  Shared vocabulary of the development: the machine integer types of \<^verbatim>\<open>kernel/types.h\<close>, the
  outcome of running kernel code (it returns, it calls \<^verbatim>\<open>panic\<close>, or it gives up the CPU in
  \<^verbatim>\<open>sleep\<close>), sequencing of such outcomes, the total-correctness predicate \<open>returns\<close> with its
  rules, and generic lemmas on lists and words used by the components.
\<close>

unbundle bit_operations_syntax

section \<open>Machine integers\<close>

type_synonym u8 = "8 word"
type_synonym u16 = "16 word"
type_synonym u32 = "32 word"
type_synonym u64 = "64 word"

section \<open>Outcomes of kernel code\<close>

text \<open>
  Wait channels. The C code uses the address of some kernel object as the channel of
  \<^verbatim>\<open>sleep\<close>/\<^verbatim>\<open>wakeup\<close>; the model names the object.
\<close>

datatype chan =
    ChLog                  \<comment> \<open>\<^verbatim>\<open>&log\<close>\<close>
  | ChBufLock nat          \<comment> \<open>\<^verbatim>\<open>&b->lock\<close> of buffer i\<close>
  | ChInodeLock nat        \<comment> \<open>\<^verbatim>\<open>&ip->lock\<close> of inode cache entry i\<close>
  | ChProc nat             \<comment> \<open>\<^verbatim>\<open>p\<close>, a slot of the process table\<close>
  | ChTicks                \<comment> \<open>\<^verbatim>\<open>&ticks\<close>\<close>
  | ChPipeRead u64         \<comment> \<open>\<^verbatim>\<open>&pi->nread\<close>\<close>
  | ChPipeWrite u64        \<comment> \<open>\<^verbatim>\<open>&pi->nwrite\<close>\<close>
  | ChCons                 \<comment> \<open>\<^verbatim>\<open>&cons.r\<close>\<close>
  | ChDiskFree nat         \<comment> \<open>\<^verbatim>\<open>&disk[n].free[0]\<close>\<close>
  | ChBuf nat              \<comment> \<open>\<^verbatim>\<open>b\<close>, a buffer owned by the disk\<close>

text \<open>
  \<open>Panic m\<close> is a call of \<^verbatim>\<open>panic(m)\<close>, which never returns; \<open>Sleep c\<close> is reached when the
  code would block in \<^verbatim>\<open>sleep\<close> on channel \<open>c\<close>.
\<close>

datatype 'a outcome = Ok 'a | Panic string | Sleep chan

primrec obind :: "'a outcome \<Rightarrow> ('a \<Rightarrow> 'b outcome) \<Rightarrow> 'b outcome" where
  "obind (Ok x) f = f x"
| "obind (Panic m) f = Panic m"
| "obind (Sleep c) f = Sleep c"

text \<open>The loop \<^verbatim>\<open>for (x in xs) s = f(x, s)\<close> over a state that may stop the computation.\<close>

primrec ofold :: "('b \<Rightarrow> 'a \<Rightarrow> 'a outcome) \<Rightarrow> 'b list \<Rightarrow> 'a \<Rightarrow> 'a outcome" where
  "ofold f [] s = Ok s"
| "ofold f (x # xs) s = obind (f x s) (ofold f xs)"

definition returns :: "'a outcome \<Rightarrow> ('a \<Rightarrow> bool) \<Rightarrow> bool" where
  "returns m Q \<longleftrightarrow> (\<exists>x. m = Ok x \<and> Q x)"

named_theorems outcome_rules "introduction rules for returns"

lemma returns_Ok [simp]: "returns (Ok x) Q = Q x"
  by (simp add: returns_def)

lemma returns_Panic [simp]: "\<not> returns (Panic m) Q"
  by (simp add: returns_def)

lemma returns_Sleep [simp]: "\<not> returns (Sleep c) Q"
  by (simp add: returns_def)

lemma returns_obind [outcome_rules]:
  "returns m (\<lambda>x. returns (f x) Q) \<Longrightarrow> returns (obind m f) Q"
  by (auto simp: returns_def)

lemma returns_weaken: "returns m P \<Longrightarrow> (\<And>x. P x \<Longrightarrow> Q x) \<Longrightarrow> returns m Q"
  by (auto simp: returns_def)

lemma returnsE: "returns m Q \<Longrightarrow> (\<And>x. m = Ok x \<Longrightarrow> Q x \<Longrightarrow> R) \<Longrightarrow> R"
  by (auto simp: returns_def)

lemma returnsI: "m = Ok x \<Longrightarrow> Q x \<Longrightarrow> returns m Q"
  by (auto simp: returns_def)

lemma obind_assoc: "obind (obind m f) g = obind m (\<lambda>x. obind (f x) g)"
  by (cases m) auto

lemma obind_Ok_iff: "obind m f = Ok y \<longleftrightarrow> (\<exists>x. m = Ok x \<and> f x = Ok y)"
  by (cases m) auto

lemma obind_Ok_right [simp]: "obind m Ok = m"
  by (cases m) auto

lemma obind_cong [fundef_cong]:
  "m = m' \<Longrightarrow> (\<And>x. m' = Ok x \<Longrightarrow> f x = g x) \<Longrightarrow> obind m f = obind m' g"
  by (cases m') auto

lemma ofold_Nil_eq: "ofold f [] = Ok"
  by (rule ext) simp

lemma ofold_append: "ofold f (xs @ ys) s = obind (ofold f xs s) (ofold f ys)"
proof (induction xs arbitrary: s)
  case Nil
  show ?case by simp
next
  case (Cons x xs)
  then have "ofold f (xs @ ys) = (\<lambda>s. obind (ofold f xs s) (ofold f ys))" by (simp add: fun_eq_iff)
  then show ?case by (simp add: obind_assoc)
qed

text \<open>An invariant indexed by the part of the list already processed.\<close>

lemma returns_ofold:
  assumes "I [] s"
    and "\<And>ys x zs t. xs = ys @ x # zs \<Longrightarrow> I ys t \<Longrightarrow> returns (f x t) (I (ys @ [x]))"
  shows "returns (ofold f xs s) (I xs)"
  using assms
proof (induction xs rule: rev_induct)
  case Nil
  then show ?case by simp
next
  case (snoc x xs)
  have "returns (ofold f xs s) (I xs)"
  proof (rule snoc.IH)
    fix ys y zs t assume "xs = ys @ y # zs" and I: "I ys t"
    then have "xs @ [x] = ys @ y # (zs @ [x])" by simp
    then show "returns (f y t) (I (ys @ [y]))" using I by (rule snoc.prems(2))
  qed (rule snoc.prems(1))
  then obtain t where t: "ofold f xs s = Ok t" "I xs t" by (rule returnsE)
  have "returns (f x t) (I (xs @ [x]))"
    by (rule snoc.prems(2)[of xs x "[]"]) (simp_all add: t)
  then show ?case by (simp add: ofold_append t ofold_Nil_eq)
qed

text \<open>A partial-correctness invariant of the same loop.\<close>

lemma ofold_invariant:
  assumes "ofold f xs s = Ok t" and "I s"
    and "\<And>x s s'. x \<in> set xs \<Longrightarrow> I s \<Longrightarrow> f x s = Ok s' \<Longrightarrow> I s'"
  shows "I t"
  using assms
proof (induction xs arbitrary: s)
  case Nil
  then show ?case by simp
next
  case (Cons x xs)
  from Cons.prems(1) obtain s' where "f x s = Ok s'" "ofold f xs s' = Ok t"
    by (auto simp: obind_Ok_iff)
  with Cons show ?case by (metis list.set_intros)
qed

section \<open>Lists\<close>

lemma nth_list_update_if:
  "(xs[i := v]) ! j = (if i = j \<and> i < length xs then v else xs ! j)"
  by (cases "i < length xs") (auto simp: nth_list_update list_update_beyond)

text \<open>The slice of \<open>xs\<close> starting at \<open>off\<close> is overwritten with \<open>ys\<close>.\<close>

definition splice :: "'a list \<Rightarrow> nat \<Rightarrow> 'a list \<Rightarrow> 'a list" where
  "splice xs off ys = take off xs @ ys @ drop (off + length ys) xs"

lemma length_splice [simp]: "off + length ys \<le> length xs \<Longrightarrow> length (splice xs off ys) = length xs"
  by (simp add: splice_def)

lemma nth_splice:
  assumes "off + length ys \<le> length xs" and "i < length xs"
  shows "splice xs off ys ! i = (if off \<le> i \<and> i < off + length ys then ys ! (i - off) else xs ! i)"
  using assms by (auto simp: splice_def nth_append min_def)

lemma splice_self_slice: "off + length ys \<le> length xs \<Longrightarrow> take (length ys) (drop off (splice xs off ys)) = ys"
  by (simp add: splice_def min_def)

lemma find_SomeD: "find P xs = Some x \<Longrightarrow> x \<in> set xs \<and> P x"
  by (induction xs) (auto split: if_splits)

section \<open>Words\<close>

lemma unat_of_nat_u64 [simp]: "n < 18446744073709551616 \<Longrightarrow> unat (of_nat n :: u64) = n"
  by (simp add: unat_of_nat)

lemma unat_of_nat_u32 [simp]: "n < 4294967296 \<Longrightarrow> unat (of_nat n :: u32) = n"
  by (simp add: unat_of_nat)

lemma unat_lt_u64: "unat (a :: u64) < 18446744073709551616"
  using unsigned_less[of a] by simp

lemma unat_lt_u32: "unat (a :: u32) < 4294967296"
  using unsigned_less[of a] by simp

lemma unat_plus_u64: "unat (a :: u64) + unat b < 18446744073709551616 \<Longrightarrow> unat (a + b) = unat a + unat b"
  by (simp add: unat_word_ariths)

lemma unat_plus_u32: "unat (a :: u32) + unat b < 4294967296 \<Longrightarrow> unat (a + b) = unat a + unat b"
  by (simp add: unat_word_ariths)

lemma unat_minus_word: "b \<le> (a :: 'a::len word) \<Longrightarrow> unat (a - b) = unat a - unat b"
  by (simp add: unat_sub)

lemma word_eq_of_nat_iff:
  fixes x :: "'a::len word"
  assumes "n < 2 ^ LENGTH('a)"
  shows "x = of_nat n \<longleftrightarrow> unat x = n"
  using assms by (auto simp: unat_of_nat take_bit_nat_eq_self)

lemma unat_ucast_32_64 [simp]: "unat (ucast (n::u32) :: u64) = unat n"
  using unat_lt_u32[of n] by (simp add: unsigned_ucast_eq take_bit_nat_eq_self)

text \<open>Clearing the low \<open>n\<close> bits rounds down to a multiple of \<open>2 ^ n\<close>.\<close>

lemma unat_and_not_mask: "unat (a AND NOT (mask n) :: 'a::len word) = unat a div 2 ^ n * 2 ^ n"
proof -
  have "unat (a AND NOT (mask n)) = push_bit n (drop_bit n (unat a))"
    by (rule bit_eqI) (auto simp: bit_simps dest: bit_imp_le_length)
  then show ?thesis by (simp add: push_bit_eq_mult drop_bit_eq_div)
qed

end
