(* ===== verification/KString.thy ===== *)
theory KString
  imports Prelude
begin

text \<open>
  \<^verbatim>\<open>kernel/string.c\<close>: the byte-block and C-string routines of the kernel, over a flat
  memory of bytes indexed by 64-bit addresses. Address arithmetic wraps, as on the machine.
  \<^verbatim>\<open>char\<close> is unsigned on RISC-V; \<^verbatim>\<open>int\<close> results are mathematical integers, which the
  differences of two bytes never leave.
\<close>

type_synonym mem = "u64 \<Rightarrow> u8"

section \<open>Block operations\<close>

text \<open>\<^verbatim>\<open>for(i = 0; i < n; i++) cdst[i] = c;\<close>\<close>

definition memset :: "mem \<Rightarrow> u64 \<Rightarrow> u32 \<Rightarrow> u32 \<Rightarrow> mem" where
  "memset m dst c n = fold (\<lambda>i m. m(dst + of_nat i := ucast c)) [0..<unat n] m"

text \<open>\<^verbatim>\<open>while(n-- > 0)\<close>: compare, then step both pointers.\<close>

primrec memcmp_loop :: "nat \<Rightarrow> mem \<Rightarrow> u64 \<Rightarrow> u64 \<Rightarrow> int" where
  "memcmp_loop 0 m s1 s2 = 0"
| "memcmp_loop (Suc n) m s1 s2 =
     (if m s1 \<noteq> m s2 then uint (m s1) - uint (m s2) else memcmp_loop n m (s1 + 1) (s2 + 1))"

definition memcmp :: "mem \<Rightarrow> u64 \<Rightarrow> u64 \<Rightarrow> u32 \<Rightarrow> int" where
  "memcmp m v1 v2 n = memcmp_loop (unat n) m v1 v2"

text \<open>The two copy loops of \<^verbatim>\<open>memmove\<close>: \<^verbatim>\<open>*d++ = *s++\<close> and \<^verbatim>\<open>*--d = *--s\<close>.\<close>

primrec copy_up :: "nat \<Rightarrow> mem \<Rightarrow> u64 \<Rightarrow> u64 \<Rightarrow> mem" where
  "copy_up 0 m d s = m"
| "copy_up (Suc n) m d s = copy_up n (m(d := m s)) (d + 1) (s + 1)"

primrec copy_down :: "nat \<Rightarrow> mem \<Rightarrow> u64 \<Rightarrow> u64 \<Rightarrow> mem" where
  "copy_down 0 m d s = m"
| "copy_down (Suc n) m d s = copy_down n (m(d - 1 := m (s - 1))) (d - 1) (s - 1)"

definition memmove :: "mem \<Rightarrow> u64 \<Rightarrow> u64 \<Rightarrow> u32 \<Rightarrow> mem" where
  "memmove m dst src n =
     (if src < dst \<and> dst < src + ucast n
      then copy_down (unat n) m (dst + ucast n) (src + ucast n)
      else copy_up (unat n) m dst src)"

definition memcpy :: "mem \<Rightarrow> u64 \<Rightarrow> u64 \<Rightarrow> u32 \<Rightarrow> mem" where
  "memcpy m dst src n = memmove m dst src n"

section \<open>C strings\<close>

text \<open>
  The loop runs at most \<open>n\<close> times; when it leaves with \<open>n = 0\<close> the result is 0, otherwise the
  difference of the two bytes it stopped at.
\<close>

primrec strncmp_loop :: "nat \<Rightarrow> mem \<Rightarrow> u64 \<Rightarrow> u64 \<Rightarrow> int" where
  "strncmp_loop 0 m p q = 0"
| "strncmp_loop (Suc n) m p q =
     (if m p \<noteq> 0 \<and> m p = m q then strncmp_loop n m (p + 1) (q + 1)
      else uint (m p) - uint (m q))"

definition strncmp :: "mem \<Rightarrow> u64 \<Rightarrow> u64 \<Rightarrow> u32 \<Rightarrow> int" where
  "strncmp m p q n = strncmp_loop (unat n) m p q"

text \<open>\<^verbatim>\<open>while(n-- > 0) *s++ = 0;\<close>\<close>

primrec zero_fill :: "nat \<Rightarrow> mem \<Rightarrow> u64 \<Rightarrow> mem" where
  "zero_fill 0 m s = m"
| "zero_fill (Suc n) m s = zero_fill n (m(s := 0)) (s + 1)"

text \<open>
  \<^verbatim>\<open>while(n-- > 0 && (*s++ = *t++) != 0);\<close> followed by the zero fill: after the
  terminating NUL has been copied the rest of the field is filled with zeroes.
\<close>

primrec strncpy_loop :: "nat \<Rightarrow> mem \<Rightarrow> u64 \<Rightarrow> u64 \<Rightarrow> mem" where
  "strncpy_loop 0 m s t = m"
| "strncpy_loop (Suc n) m s t =
     (let m' = m(s := m t) in
      if m t \<noteq> 0 then strncpy_loop n m' (s + 1) (t + 1) else zero_fill n m' (s + 1))"

definition strncpy :: "mem \<Rightarrow> u64 \<Rightarrow> u64 \<Rightarrow> int \<Rightarrow> mem" where
  "strncpy m s t n = strncpy_loop (nat n) m s t"

text \<open>\<^verbatim>\<open>while(--n > 0 && (*s++ = *t++) != 0); *s = 0;\<close> with \<open>n\<close> already decremented.\<close>

primrec safestrcpy_loop :: "nat \<Rightarrow> mem \<Rightarrow> u64 \<Rightarrow> u64 \<Rightarrow> mem" where
  "safestrcpy_loop 0 m s t = m(s := 0)"
| "safestrcpy_loop (Suc n) m s t =
     (let m' = m(s := m t) in
      if m t \<noteq> 0 then safestrcpy_loop n m' (s + 1) (t + 1) else m'(s + 1 := 0))"

definition safestrcpy :: "mem \<Rightarrow> u64 \<Rightarrow> u64 \<Rightarrow> int \<Rightarrow> mem" where
  "safestrcpy m s t n = (if n \<le> 0 then m else safestrcpy_loop (nat n - 1) m s t)"

text \<open>\<^verbatim>\<open>for(n = 0; s[n]; n++);\<close> runs until it meets a NUL; without one it does not return.\<close>

partial_function (option) strlen_from :: "mem \<Rightarrow> u64 \<Rightarrow> nat \<Rightarrow> nat option" where
  "strlen_from m s n = (if m (s + of_nat n) \<noteq> 0 then strlen_from m s (Suc n) else Some n)"

definition strlen :: "mem \<Rightarrow> u64 \<Rightarrow> nat option" where
  "strlen m s = strlen_from m s 0"

section \<open>Block operations: correctness\<close>

lemma fold_fill:
  assumes "n \<le> 2 ^ 64"
  shows "fold (\<lambda>i m. m(p + of_nat i := v)) [0..<n] m a = (if unat (a - p :: u64) < n then v else m a)"
  using assms
proof (induction n)
  case 0
  then show ?case by simp
next
  case (Suc n)
  have "a = p + of_nat n \<longleftrightarrow> a - p = of_nat n" by (auto simp: algebra_simps)
  also have "\<dots> \<longleftrightarrow> unat (a - p) = n" using Suc.prems by (intro word_eq_of_nat_iff) simp
  finally have eq: "a = p + of_nat n \<longleftrightarrow> unat (a - p) = n" .
  have "n \<le> 2 ^ 64" using Suc.prems by simp
  from Suc.IH [OF this] show ?case by (simp add: eq less_Suc_eq)
qed

lemma memset_apply: "memset m dst c n a = (if unat (a - dst) < unat n then ucast c else m a)"
proof -
  have "unat n \<le> 2 ^ 64" using unat_lt_u32[of n] by simp
  then show ?thesis by (simp only: memset_def fold_fill)
qed

lemma copy_up_apply:
  assumes "n < 2 ^ 64" and "d = s \<or> n \<le> unat (d - s)"
  shows "copy_up n m d s a = (if unat (a - d) < n then m (s + (a - d)) else m a)"
  using assms
proof (induction n arbitrary: m d s)
  case 0
  then show ?case by simp
next
  case (Suc n)
  let ?m = "m(d := m s)"
  have IH: "copy_up n ?m (d + 1) (s + 1) a =
      (if unat (a - (d + 1)) < n then ?m (s + 1 + (a - (d + 1))) else ?m a)"
    by (rule Suc.IH) (use Suc.prems in auto)
  have step: "unat (a - (d + 1)) < n \<longleftrightarrow> a \<noteq> d \<and> unat (a - d) < Suc n"
  proof -
    have eq: "a - (d + 1) = (a - d) - 1" by (rule diff_diff_eq [symmetric])
    have "unat ((a - d) - 1) = (if a = d then 2 ^ 64 - 1 else unat (a - d) - 1)"
      using unat_gt_0[of "a - d"] by (subst unat_sub_if') auto
    then show ?thesis unfolding eq using Suc.prems(1) unat_gt_0[of "a - d"] by (auto split: if_splits)
  qed
  have src: "s + 1 + (a - (d + 1)) = s + (a - d)" by simp
  have "s + (a - d) \<noteq> d" if "a \<noteq> d" "unat (a - d) < Suc n"
  proof
    assume "s + (a - d) = d"
    then have eq: "a - d = d - s" by (simp add: algebra_simps)
    with Suc.prems(2) that show False by auto
  qed
  then show ?case unfolding copy_up.simps IH step src by auto
qed

lemma copy_down_apply:
  assumes "n < 2 ^ 64" and "d = s \<or> n \<le> unat (s - d)"
  shows "copy_down n m (d + of_nat n) (s + of_nat n) a = (if unat (a - d) < n then m (s + (a - d)) else m a)"
  using assms
proof (induction n arbitrary: m)
  case 0
  then show ?case by simp
next
  case (Suc n)
  let ?m = "m(d + of_nat n := m (s + of_nat n))"
  have IH: "copy_down n ?m (d + of_nat n) (s + of_nat n) a =
      (if unat (a - d) < n then ?m (s + (a - d)) else ?m a)"
    by (rule Suc.IH) (use Suc.prems in auto)
  have at: "a = d + of_nat n \<longleftrightarrow> unat (a - d) = n"
  proof -
    have "a = d + of_nat n \<longleftrightarrow> a - d = of_nat n" by (auto simp: algebra_simps)
    also have "\<dots> \<longleftrightarrow> unat (a - d) = n" using Suc.prems by (intro word_eq_of_nat_iff) simp
    finally show ?thesis .
  qed
  have "s + (a - d) \<noteq> d + of_nat n" if lt: "unat (a - d) < n"
  proof
    assume "s + (a - d) = d + of_nat n"
    then have "s - d = of_nat n - (a - d)" by (simp add: algebra_simps)
    also have "a - d = of_nat (unat (a - d))" by simp
    also have "of_nat n - of_nat (unat (a - d)) = (of_nat (n - unat (a - d)) :: u64)"
      using lt by simp
    finally have "unat (s - d) = n - unat (a - d)" using Suc.prems(1) by simp
    with Suc.prems(2) lt show False by auto
  qed
  then have "(if unat (a - d) < n then ?m (s + (a - d)) else ?m a) =
      (if unat (a - d) < Suc n then m (s + (a - d)) else m a)"
    using at by auto
  moreover have "d + of_nat (Suc n) - 1 = d + of_nat n" "s + of_nat (Suc n) - 1 = s + of_nat n" by simp_all
  ultimately show ?case unfolding copy_down.simps using IH by simp
qed

lemma memmove_apply:
  assumes "unat src + unat n < 2 ^ 64" and "unat dst + unat n \<le> 2 ^ 64"
  shows "memmove m dst src n a = (if unat (a - dst) < unat n then m (src + (a - dst)) else m a)"
proof -
  have end_src: "unat (src + ucast n) = unat src + unat n"
    using assms(1) by (simp add: unat_plus_u64)
  have cast: "(ucast n :: u64) = of_nat (unat n)" by simp
  have lt: "unat n < 2 ^ 64" using unat_lt_u32[of n] by simp
  show ?thesis
  proof (cases "src < dst \<and> dst < src + ucast n")
    case True
    then have "unat src < unat dst" "unat dst < unat src + unat n"
      using end_src by (auto simp: word_less_nat_alt)
    then have "unat n \<le> unat (src - dst)"
      using unat_lt_u32[of n] by (subst unat_sub_if') simp
    then have "copy_down (unat n) m (dst + of_nat (unat n)) (src + of_nat (unat n)) a =
        (if unat (a - dst) < unat n then m (src + (a - dst)) else m a)"
      using lt by (intro copy_down_apply) auto
    then show ?thesis using True unfolding memmove_def cast by simp
  next
    case False
    have "dst = src \<or> unat n \<le> unat (dst - src)"
    proof (cases "src < dst")
      case True
      then have "unat src + unat n \<le> unat dst" "unat src < unat dst"
        using False end_src by (auto simp: word_le_nat_alt word_less_nat_alt)
      then have "unat n \<le> unat (dst - src)" by (subst unat_sub_if') simp
      then show ?thesis ..
    next
      case ge: False
      then have "unat dst \<le> unat src" by (simp add: word_less_nat_alt)
      moreover have "unat n \<le> unat (dst - src)" if "unat dst < unat src"
        using that assms(1) by (subst unat_sub_if') simp
      ultimately show ?thesis by (metis le_neq_implies_less word_unat_eq_iff)
    qed
    then have "copy_up (unat n) m dst src a = (if unat (a - dst) < unat n then m (src + (a - dst)) else m a)"
      using lt by (intro copy_up_apply) auto
    then show ?thesis unfolding memmove_def using False by auto
  qed
qed

text \<open>
  C38. \<^verbatim>\<open>memmove\<close> copies as if the whole source were read before the first byte is written,
  also when source and destination overlap: every destination byte holds the byte the source had
  at the start, every other byte is unchanged. The blocks must not run past the end of the
  address space.
\<close>

theorem memmove_simultaneous:
  assumes "unat src + unat n < 2 ^ 64" and "unat dst + unat n \<le> 2 ^ 64"
  shows "memmove m dst src n a = (if unat (a - dst) < unat n then m (src + (a - dst)) else m a)"
  using assms by (rule memmove_apply)

lemma memmove_overlap_witness:
  "unat (100 :: u64) + unat (4 :: u32) < 2 ^ 64 \<and> unat (102 :: u64) + unat (4 :: u32) \<le> 2 ^ 64 \<and>
   memmove (\<lambda>a. ucast a) 102 100 4 104 = 102 \<and> memmove (\<lambda>a. ucast a) 102 100 4 106 = 106"
  using memmove_simultaneous[of 100 4 102 "\<lambda>a. ucast a" 104]
    memmove_simultaneous[of 100 4 102 "\<lambda>a. ucast a" 106]
  by simp

section \<open>String routines\<close>

text \<open>The C string at \<open>p\<close>, cut after \<open>n\<close> bytes.\<close>

primrec cstrn :: "nat \<Rightarrow> mem \<Rightarrow> u64 \<Rightarrow> u8 list" where
  "cstrn 0 m p = []"
| "cstrn (Suc n) m p = (if m p = 0 then [] else m p # cstrn n m (p + 1))"

lemma length_cstrn: "length (cstrn n m p) \<le> n"
  by (induction n arbitrary: p) auto

text \<open>Stepping a pointer moves an address one byte closer.\<close>

lemma unat_diff_step:
  assumes "Suc n \<le> unat (a - p :: u64)"
  shows "n \<le> unat (a - (p + 1))"
proof -
  have eq: "a - (p + 1) = (a - p) - 1" by (rule diff_diff_eq [symmetric])
  have "unat ((a - p) - 1) = unat (a - p) - 1" using assms by (subst unat_sub_if') simp
  then show ?thesis unfolding eq using assms by simp
qed

lemma in_field_Suc:
  assumes "Suc n < 2 ^ 64"
  shows "unat (a - p :: u64) < Suc n \<longleftrightarrow> a = p \<or> unat (a - (p + 1)) < n"
    and "a \<noteq> p \<Longrightarrow> unat (a - p) = Suc (unat (a - (p + 1)))"
    and "a = p \<Longrightarrow> \<not> unat (a - (p + 1)) < n"
proof -
  have eq: "a - (p + 1) = (a - p) - 1" by (rule diff_diff_eq [symmetric])
  have *: "unat ((a - p) - 1) = (if a = p then 2 ^ 64 - 1 else unat (a - p) - 1)"
    using unat_gt_0[of "a - p"] by (subst unat_sub_if') auto
  show "unat (a - p) < Suc n \<longleftrightarrow> a = p \<or> unat (a - (p + 1)) < n"
    "a \<noteq> p \<Longrightarrow> unat (a - p) = Suc (unat (a - (p + 1)))"
    "a = p \<Longrightarrow> \<not> unat (a - (p + 1)) < n"
    unfolding eq * using assms unat_gt_0[of "a - p"] by auto
qed

lemma cstrn_upd:
  assumes "n \<le> unat (a - p)" and "n < 2 ^ 64"
  shows "cstrn n (m(a := v)) p = cstrn n m p"
  using assms
proof (induction n arbitrary: p)
  case 0
  then show ?case by simp
next
  case (Suc n)
  have "(m(a := v)) p = m p" using Suc.prems by auto
  moreover have "cstrn n (m(a := v)) (p + 1) = cstrn n m (p + 1)"
    using Suc.prems by (intro Suc.IH unat_diff_step) auto
  ultimately show ?case by (simp del: fun_upd_apply)
qed

lemma strncmp_loop_eq_0: "strncmp_loop n m p q = 0 \<longleftrightarrow> cstrn n m p = cstrn n m q"
proof (induction n arbitrary: p q)
  case 0
  then show ?case by simp
next
  case (Suc n)
  have "uint (m p) - uint (m q) = 0 \<longleftrightarrow> m p = m q" by (simp add: word_uint_eq_iff)
  with Suc.IH show ?case by auto
qed

lemma memcmp_loop_eq_0:
  "memcmp_loop n m p q = 0 \<longleftrightarrow> (\<forall>i<n. m (p + of_nat i) = m (q + of_nat i))"
proof (induction n arbitrary: p q)
  case 0
  then show ?case by simp
next
  case (Suc n)
  have "(\<forall>i<Suc n. m (p + of_nat i) = m (q + of_nat i)) \<longleftrightarrow>
      m p = m q \<and> (\<forall>i<n. m (p + 1 + of_nat i) = m (q + 1 + of_nat i))"
    by (subst All_less_Suc2) (simp add: add.assoc)
  with Suc.IH show ?case by (simp add: word_uint_eq_iff)
qed

lemma zero_fill_apply:
  "n < 2 ^ 64 \<Longrightarrow> zero_fill n m s a = (if unat (a - s) < n then 0 else m a)"
proof (induction n arbitrary: m s)
  case 0
  then show ?case by simp
next
  case (Suc n)
  then show ?case by (auto simp: in_field_Suc)
qed

lemma strncpy_loop_apply:
  assumes "n < 2 ^ 64" and "n \<le> unat (s - t)"
  shows "strncpy_loop n m s t a =
    (if unat (a - s) < n
     then (let w = cstrn n m t; i = unat (a - s) in if i < length w then w ! i else 0)
     else m a)"
  using assms
proof (induction n arbitrary: m s t)
  case 0
  then show ?case by simp
next
  case (Suc n)
  let ?m = "m(s := m t)"
  have IH: "strncpy_loop n ?m (s + 1) (t + 1) a =
    (if unat (a - (s + 1)) < n
     then (let w = cstrn n ?m (t + 1); i = unat (a - (s + 1)) in if i < length w then w ! i else 0)
     else ?m a)"
    using Suc.prems by (intro Suc.IH) auto
  have str: "cstrn n ?m (t + 1) = cstrn n m (t + 1)"
    using Suc.prems by (intro cstrn_upd unat_diff_step) auto
  have n: "n < 2 ^ 64" "Suc n < 2 ^ 64" using Suc.prems by auto
  show ?case
  proof (cases "m t = 0")
    case True
    then show ?thesis using in_field_Suc[OF n(2), of a s] n(1)
      by (auto simp: zero_fill_apply Let_def)
  next
    case False
    then show ?thesis using in_field_Suc[OF n(2), of a s] IH
      by (cases "a = s") (auto simp: str Let_def)
  qed
qed

lemma safestrcpy_loop_outside:
  "Suc n < 2 ^ 64 \<Longrightarrow> \<not> unat (a - s) < Suc n \<Longrightarrow> safestrcpy_loop n m s t a = m a"
proof (induction n arbitrary: m s t)
  case 0
  then have "a \<noteq> s" by auto
  then show ?case by simp
next
  case (Suc n)
  have "a \<noteq> s" "\<not> unat (a - (s + 1)) < Suc n"
    using Suc.prems in_field_Suc(1)[of "Suc n" a s] by auto
  moreover have "a \<noteq> s + 1" using calculation by auto
  ultimately show ?case using Suc by (auto simp: Let_def)
qed

lemma safestrcpy_loop_string:
  assumes "Suc n < 2 ^ 64" and "n \<le> unat (s - t)"
  shows "cstrn (Suc n) (safestrcpy_loop n m s t) s = cstrn n m t"
  using assms
proof (induction n arbitrary: m s t)
  case 0
  then show ?case by simp
next
  case (Suc n)
  let ?m = "m(s := m t)"
  have str: "cstrn n ?m (t + 1) = cstrn n m (t + 1)"
    using Suc.prems by (intro cstrn_upd unat_diff_step) auto
  have IH: "cstrn (Suc n) (safestrcpy_loop n ?m (s + 1) (t + 1)) (s + 1) = cstrn n ?m (t + 1)"
    using Suc.prems by (intro Suc.IH) auto
  have "safestrcpy_loop n ?m (s + 1) (t + 1) s = ?m s"
    using Suc.prems in_field_Suc(3)[of "Suc n" s s] by (intro safestrcpy_loop_outside) auto
  then show ?case using IH str by (simp add: Let_def)
qed

lemma strlen_from_Some:
  assumes "\<And>i. n \<le> i \<Longrightarrow> i < k \<Longrightarrow> m (s + of_nat i) \<noteq> 0" and "m (s + of_nat k) = 0" and "n \<le> k"
  shows "strlen_from m s n = Some k"
  using assms
proof (induction "k - n" arbitrary: n)
  case 0
  then show ?case by (simp add: strlen_from.simps)
next
  case (Suc d)
  then have "strlen_from m s (Suc n) = Some k" by simp
  then show ?case using Suc by (subst strlen_from.simps) auto
qed

lemma cstrn_nonzero: "x \<in> set (cstrn n m p) \<Longrightarrow> x \<noteq> 0"
  by (induction n arbitrary: p) (auto split: if_splits)

lemma cstrn_of_bytes:
  assumes "\<And>x. x \<in> set w \<Longrightarrow> x \<noteq> 0" and "length w \<le> n"
    and "\<And>i. i < n \<Longrightarrow> m (s + of_nat i) = (if i < length w then w ! i else 0)"
  shows "cstrn n m s = w"
  using assms
proof (induction n arbitrary: w s)
  case 0
  then show ?case by simp
next
  case (Suc n)
  show ?case
  proof (cases w)
    case Nil
    then show ?thesis using Suc.prems(3)[of 0] by simp
  next
    case (Cons x xs)
    have "cstrn n m (s + 1) = xs"
    proof (rule Suc.IH)
      fix i assume "i < n"
      then show "m (s + 1 + of_nat i) = (if i < length xs then xs ! i else 0)"
        using Suc.prems(3)[of "Suc i"] Cons by (simp add: add.assoc)
    qed (use Suc.prems Cons in auto)
    moreover have "m s = x" using Suc.prems(3)[of 0] Cons by simp
    ultimately show ?thesis using Suc.prems(1) Cons by simp
  qed
qed

lemma cstrn_agree:
  assumes "\<And>i. i < n \<Longrightarrow> m' (p + of_nat i) = m (p + of_nat i)"
  shows "cstrn n m' p = cstrn n m p"
  using assms
proof (induction n arbitrary: p)
  case 0
  then show ?case by simp
next
  case (Suc n)
  have "cstrn n m' (p + 1) = cstrn n m (p + 1)"
  proof (rule Suc.IH)
    fix i assume "i < n"
    then show "m' (p + 1 + of_nat i) = m (p + 1 + of_nat i)"
      using Suc.prems[of "Suc i"] by (simp add: add.assoc)
  qed
  then show ?case using Suc.prems[of 0] by simp
qed

text \<open>A write to the \<open>n\<close> bytes at \<open>s\<close> does not reach the \<open>n\<close> bytes at \<open>u\<close>.\<close>

lemma fields_apart:
  assumes "n \<le> unat (s - u :: u64)" and "n \<le> unat (u - s)" and "i < n"
  shows "n \<le> unat (u + of_nat i - s)"
proof (rule ccontr)
  assume "\<not> n \<le> unat (u + of_nat i - s)"
  then have lt: "unat (u + of_nat i - s) < n" by simp
  have "n < 2 ^ 64" using assms(1) unat_lt_u64[of "s - u"] by simp
  then have i: "unat (of_nat i :: u64) = i" using assms(3) by simp
  have "u - s = (u + of_nat i - s) - of_nat i" by simp
  then have "unat (u - s) < n \<or> unat (u + of_nat i - s) < i"
    using lt i by (simp only: unat_sub_if') auto
  moreover have "s - u = of_nat i - (u + of_nat i - s)" by simp
  then have "unat (u + of_nat i - s) < i \<Longrightarrow> unat (s - u) < n"
    using i assms(3) by (simp only: unat_sub_if') auto
  ultimately show False using assms(1,2) by auto
qed

text \<open>
  C39. A name stored in a fixed-size field with \<^verbatim>\<open>strncpy\<close> is found again under \<^verbatim>\<open>strncmp\<close> with the
  same bound by exactly the right names (this is how directory entries are written and looked up): a string
  anywhere outside the field, the original among them, compares equal to the field if and only if its first
  \<open>n\<close> bytes up to a NUL are those of the original. The field is padded with zeroes after the name, and
  nothing outside the field changes.
\<close>

theorem strncpy_strncmp:
  assumes "n < 2 ^ 31" and "n \<le> unat (s - t)" and "n \<le> unat (t - s)" and "n \<le> unat (s - u)" and "n \<le> unat (u - s)"
  shows "(strncmp (strncpy m s t (int n)) u s (of_nat n) = 0 \<longleftrightarrow> cstrn n m u = cstrn n m t) \<and>
    (\<forall>i<n. strncpy m s t (int n) (s + of_nat i) = (if i < length (cstrn n m t) then cstrn n m t ! i else 0)) \<and>
    (\<forall>a. n \<le> unat (a - s) \<longrightarrow> strncpy m s t (int n) a = m a)"
proof -
  let ?m = "strncpy m s t (int n)" and ?w = "cstrn n m t"
  have k: "n < 2 ^ 64" using assms(1) by simp
  have app: "?m a = (if unat (a - s) < n then (let w = ?w; i = unat (a - s) in if i < length w then w ! i else 0) else m a)" for a
    using strncpy_loop_apply[OF k assms(2)] by (simp add: strncpy_def)
  have at: "?m (s + of_nat i) = (if i < length ?w then ?w ! i else 0)" if "i < n" for i
    using that k by (simp add: app Let_def)
  have "cstrn n ?m s = ?w" using cstrn_nonzero length_cstrn at by (rule cstrn_of_bytes)
  moreover have "cstrn n ?m u = cstrn n m u"
  proof (rule cstrn_agree)
    fix i assume "i < n"
    then have "n \<le> unat (u + of_nat i - s)" by (rule fields_apart[OF assms(4,5)])
    then show "?m (u + of_nat i) = m (u + of_nat i)" by (simp add: app)
  qed
  moreover have "unat (of_nat n :: u32) = n" using assms(1) by simp
  ultimately have "strncmp ?m u s (of_nat n) = 0 \<longleftrightarrow> cstrn n m u = ?w"
    by (simp add: strncmp_def strncmp_loop_eq_0)
  then show ?thesis using at by (simp add: app)
qed

lemma strncpy_strncmp_witness:
  "strncmp (strncpy (\<lambda>a. if a = 200 then 97 else 0) 100 200 (int 14)) 200 100 (of_nat 14) = 0 \<and>
   strncmp (strncpy (\<lambda>a. if a = 200 then 97 else 0) 100 200 (int 14)) 300 100 (of_nat 14) \<noteq> 0"
proof -
  let ?m = "\<lambda>a :: u64. if a = 200 then 97 else 0 :: u8"
  have "cstrn 14 ?m 200 \<noteq> cstrn 14 ?m 300" by code_simp
  then show ?thesis
    using strncpy_strncmp[of 14 100 200 200 ?m] strncpy_strncmp[of 14 100 200 300 ?m] by simp
qed

text \<open>
  C40. \<^verbatim>\<open>safestrcpy\<close> always leaves a NUL-terminated string inside the \<open>n\<close> bytes of the
  destination: the first \<open>n - 1\<close> bytes of the source string, and nothing outside those \<open>n\<close>
  bytes is written.
\<close>

theorem safestrcpy_bounded:
  assumes "0 < n" and "n < 2 ^ 31" and "n \<le> unat (s - t)"
  shows "cstrn n (safestrcpy m s t (int n)) s = cstrn (n - 1) m t \<and>
    length (cstrn n (safestrcpy m s t (int n)) s) < n \<and>
    (\<forall>a. n \<le> unat (a - s) \<longrightarrow> safestrcpy m s t (int n) a = m a)"
proof -
  obtain k where n: "n = Suc k" using assms(1) by (cases n) auto
  have eq: "safestrcpy m s t (int n) = safestrcpy_loop k m s t"
    unfolding safestrcpy_def n nat_int by simp
  have k: "Suc k < 2 ^ 64" using assms(2) n by simp
  have "cstrn n (safestrcpy m s t (int n)) s = cstrn k m t"
    unfolding eq using safestrcpy_loop_string[OF k, of s t m] assms(3) n by simp
  moreover have "length (cstrn k m t) < n" using length_cstrn[of k m t] n by simp
  moreover have "\<forall>a. n \<le> unat (a - s) \<longrightarrow> safestrcpy m s t (int n) a = m a"
    unfolding eq using k n by (auto intro: safestrcpy_loop_outside)
  ultimately show ?thesis using n by simp
qed

lemma safestrcpy_bounded_witness:
  "cstrn (Suc (Suc (Suc 0))) (safestrcpy (\<lambda>a. 97) 100 200 (int (Suc (Suc (Suc 0))))) 100 = [97, 97]"
  using safestrcpy_bounded[of "Suc (Suc (Suc 0))" 100 200 "\<lambda>a. 97"] by simp

lemma strlen_Some:
  assumes "\<And>i. i < k \<Longrightarrow> m (s + of_nat i) \<noteq> 0" and "m (s + of_nat k) = 0"
  shows "strlen m s = Some k"
  unfolding strlen_def using assms by (intro strlen_from_Some) auto

end
