(* ===== verification/KSpin.thy ===== *)
theory KSpin
  imports Prelude
begin

text \<open>
  \<^verbatim>\<open>kernel/spinlock.c\<close>: spin locks and the nesting of interrupt disabling, for any number of
  harts. The operations are split at the points where another hart can interleave (the atomic
  swap of \<^verbatim>\<open>acquire\<close>, the two stores of \<^verbatim>\<open>release\<close>); \<open>spin_step\<close> interleaves them. The
  reachable states satisfy mutual exclusion, \<^verbatim>\<open>holding\<close> tells the truth, no interrupt is taken
  inside a critical section and \<^verbatim>\<open>pop_off\<close> never panics. \<open>acquire_lk\<close> and \<open>release_lk\<close> are the
  interface the other components use: the list of locks this hart holds.
\<close>

section \<open>The locks of the kernel\<close>

datatype lockid =
    LkKmem                 \<comment> \<open>\<^verbatim>\<open>kmem.lock\<close>\<close>
  | LkBuddy                \<comment> \<open>\<^verbatim>\<open>lock\<close> of \<^verbatim>\<open>buddy.c\<close>\<close>
  | LkBcache               \<comment> \<open>\<^verbatim>\<open>bcache.lock\<close>\<close>
  | LkBuf nat              \<comment> \<open>\<^verbatim>\<open>buf[i].lock.lk\<close>\<close>
  | LkLog nat              \<comment> \<open>\<^verbatim>\<open>log[dev].lock\<close>\<close>
  | LkIcache               \<comment> \<open>\<^verbatim>\<open>icache.lock\<close>\<close>
  | LkInode nat            \<comment> \<open>\<^verbatim>\<open>inode[i].lock.lk\<close>\<close>
  | LkFtable               \<comment> \<open>\<^verbatim>\<open>ftable.lock\<close>\<close>
  | LkPipe u64             \<comment> \<open>\<^verbatim>\<open>pi->lock\<close>\<close>
  | LkProc nat             \<comment> \<open>\<^verbatim>\<open>proc[i].lock\<close>\<close>
  | LkPid                  \<comment> \<open>\<^verbatim>\<open>pid_lock\<close>\<close>
  | LkTicks                \<comment> \<open>\<^verbatim>\<open>tickslock\<close>\<close>
  | LkCons                 \<comment> \<open>\<^verbatim>\<open>cons.lock\<close>\<close>
  | LkPr                   \<comment> \<open>\<^verbatim>\<open>pr.lock\<close>\<close>
  | LkVdisk nat            \<comment> \<open>\<^verbatim>\<open>disk[n].vdisk_lock\<close>\<close>

section \<open>Data\<close>

text \<open>\<^verbatim>\<open>struct spinlock\<close>; the null \<^verbatim>\<open>cpu\<close> pointer is \<open>None\<close>.\<close>

record spinlock =
  sl_locked :: u32
  sl_name :: string
  sl_cpu :: "nat option"
  sl_n :: u32
  sl_nts :: u32

text \<open>The fields of \<^verbatim>\<open>struct cpu\<close> that belong to interrupt nesting.\<close>

record cpu =
  noff :: int
  intena :: bool

text \<open>
  Shared memory of the lock layer: the locks, the per-hart \<^verbatim>\<open>struct cpu\<close>, the SIE bit of every
  hart's \<^verbatim>\<open>sstatus\<close>, and the registry \<^verbatim>\<open>locks[0 .. nlock-1]\<close>.
\<close>

record machine =
  spin :: "lockid \<Rightarrow> spinlock"
  cpus :: "nat \<Rightarrow> cpu"
  sie :: "nat \<Rightarrow> bool"
  registry :: "lockid list"

definition NLOCK :: nat where "NLOCK = 1000"

section \<open>Operations\<close>

definition upd_spin :: "lockid \<Rightarrow> (spinlock \<Rightarrow> spinlock) \<Rightarrow> machine \<Rightarrow> machine" where
  "upd_spin lk f m = m\<lparr>spin := (spin m)(lk := f (spin m lk))\<rparr>"

definition initlock :: "lockid \<Rightarrow> string \<Rightarrow> machine \<Rightarrow> machine outcome" where
  "initlock lk name m =
     (let m = upd_spin lk (\<lambda>_. \<lparr>sl_locked = 0, sl_name = name, sl_cpu = None, sl_n = 0, sl_nts = 0\<rparr>) m in
      if length (registry m) \<ge> NLOCK then Panic ''initlock''
      else Ok (m\<lparr>registry := registry m @ [lk]\<rparr>))"

definition holding :: "nat \<Rightarrow> lockid \<Rightarrow> machine \<Rightarrow> bool" where
  "holding c lk m \<longleftrightarrow> sl_locked (spin m lk) \<noteq> 0 \<and> sl_cpu (spin m lk) = Some c"

definition push_off :: "nat \<Rightarrow> machine \<Rightarrow> machine" where
  "push_off c m =
     (let old = sie m c;
          m = (if old then m\<lparr>sie := (sie m)(c := False)\<rparr> else m);
          k = cpus m c;
          k = (if noff k = 0 then k\<lparr>intena := old\<rparr> else k)
      in m\<lparr>cpus := (cpus m)(c := k\<lparr>noff := noff k + 1\<rparr>)\<rparr>)"

definition pop_off :: "nat \<Rightarrow> machine \<Rightarrow> machine outcome" where
  "pop_off c m =
     (if sie m c then Panic ''pop_off - interruptible''
      else if noff (cpus m c) < 1 then Panic ''pop_off''
      else let k = (cpus m c)\<lparr>noff := noff (cpus m c) - 1\<rparr>;
               m = m\<lparr>cpus := (cpus m)(c := k)\<rparr>
           in Ok (if noff k = 0 \<and> intena k then m\<lparr>sie := (sie m)(c := True)\<rparr> else m))"

text \<open>
  \<^verbatim>\<open>acquire\<close> up to the spin loop, one iteration of the loop (\<open>True\<close>: the swap returned 0 and
  the loop ends), and the final store of the owner.
\<close>

definition acquire_enter :: "nat \<Rightarrow> lockid \<Rightarrow> machine \<Rightarrow> machine outcome" where
  "acquire_enter c lk m =
     (let m = push_off c m in
      if holding c lk m then Panic ''acquire''
      else Ok (upd_spin lk (\<lambda>l. l\<lparr>sl_n := sl_n l + 1\<rparr>) m))"

definition acquire_swap :: "lockid \<Rightarrow> machine \<Rightarrow> bool \<times> machine" where
  "acquire_swap lk m =
     (let old = sl_locked (spin m lk);
          m = upd_spin lk (\<lambda>l. l\<lparr>sl_locked := 1\<rparr>) m
      in if old \<noteq> 0 then (False, upd_spin lk (\<lambda>l. l\<lparr>sl_nts := sl_nts l + 1\<rparr>) m) else (True, m))"

definition acquire_done :: "nat \<Rightarrow> lockid \<Rightarrow> machine \<Rightarrow> machine" where
  "acquire_done c lk = upd_spin lk (\<lambda>l. l\<lparr>sl_cpu := Some c\<rparr>)"

text \<open>\<^verbatim>\<open>release\<close>: the check and the store of \<^verbatim>\<open>cpu\<close>, the atomic clear of \<^verbatim>\<open>locked\<close>, then \<^verbatim>\<open>pop_off\<close>.\<close>

definition release_enter :: "nat \<Rightarrow> lockid \<Rightarrow> machine \<Rightarrow> machine outcome" where
  "release_enter c lk m =
     (if \<not> holding c lk m then Panic ''release''
      else Ok (upd_spin lk (\<lambda>l. l\<lparr>sl_cpu := None\<rparr>) m))"

definition release_clear :: "lockid \<Rightarrow> machine \<Rightarrow> machine" where
  "release_clear lk = upd_spin lk (\<lambda>l. l\<lparr>sl_locked := 0\<rparr>)"

section \<open>Lock statistics\<close>

text \<open>What \<^verbatim>\<open>print_lock\<close> hands to \<^verbatim>\<open>printf\<close>: the name, \<^verbatim>\<open>nts\<close> and \<^verbatim>\<open>n\<close>, or nothing.\<close>

definition print_lock :: "spinlock \<Rightarrow> (string \<times> u32 \<times> u32) list" where
  "print_lock l = (if sl_n l > 0 then [(sl_name l, sl_nts l, sl_n l)] else [])"

definition clear_stats :: "lockid list \<Rightarrow> machine \<Rightarrow> machine" where
  "clear_stats = fold (\<lambda>lk. upd_spin lk (\<lambda>l. l\<lparr>sl_nts := 0, sl_n := 0\<rparr>))"

text \<open>\<^verbatim>\<open>strncmp(name, "bcache", strlen("bcache")) == 0\<close>: the name starts with the given text.\<close>

definition name_starts :: "string \<Rightarrow> string \<Rightarrow> bool" where
  "name_starts pre name \<longleftrightarrow> take (length pre) name = pre"

text \<open>One pass of the search for the most contended lock below a bound, as indices of the registry.\<close>

definition find_top :: "machine \<Rightarrow> u32 \<Rightarrow> nat" where
  "find_top m below =
     fold (\<lambda>i top. let nts = (\<lambda>j. sl_nts (spin m (registry m ! j))) in
             if nts i > nts top \<and> nts i < below then i else top)
       [0..<length (registry m)] 0"

primrec print_top :: "nat \<Rightarrow> machine \<Rightarrow> u32 \<Rightarrow> (string \<times> u32 \<times> u32) list" where
  "print_top 0 m below = []"
| "print_top (Suc t) m below =
     (let l = spin m (registry m ! find_top m below) in print_lock l @ print_top t m (sl_nts l))"

text \<open>
  \<^verbatim>\<open>sys_ntas\<close> with its argument already fetched: the return value, the locks printed under the two
  headings (\<open>None\<close> when nothing is printed), and the new state.
\<close>

definition sys_ntas :: "int \<Rightarrow> machine \<Rightarrow> int \<times> ((string \<times> u32 \<times> u32) list \<times> (string \<times> u32 \<times> u32) list) option \<times> machine" where
  "sys_ntas zero m =
     (if zero = 0 then (0, None, clear_stats (registry m) m)
      else let sel = filter (\<lambda>lk. name_starts ''bcache'' (sl_name (spin m lk))
                                \<or> name_starts ''kmem'' (sl_name (spin m lk))) (registry m);
               tot = sum_list (map (\<lambda>lk. sl_nts (spin m lk)) sel)
           in (sint tot, Some (concat (map (\<lambda>lk. print_lock (spin m lk)) sel), print_top 5 m 100000000), m))"

section \<open>Interrupt nesting\<close>

lemma push_off_simps [simp]:
  "spin (push_off c m) = spin m"
  "registry (push_off c m) = registry m"
  "sie (push_off c m) = (sie m)(c := False)"
  "noff (cpus (push_off c m) d) = noff (cpus m d) + (if d = c then 1 else 0)"
  by (auto simp: push_off_def Let_def fun_eq_iff)

lemma push_off_intena:
  "intena (cpus (push_off c m) d) = (if d = c \<and> noff (cpus m c) = 0 then sie m c else intena (cpus m d))"
  by (auto simp: push_off_def Let_def)

lemma upd_spin_simps [simp]:
  "cpus (upd_spin lk f m) = cpus m" "sie (upd_spin lk f m) = sie m"
  "registry (upd_spin lk f m) = registry m"
  "spin (upd_spin lk f m) = (spin m)(lk := f (spin m lk))"
  by (simp_all add: upd_spin_def)

lemma holding_push_off [simp]: "holding c lk (push_off d m) = holding c lk m"
  by (simp add: holding_def)

lemma pop_off_push_off:
  assumes "noff (cpus m c) \<ge> 0" and "noff (cpus m c) > 0 \<longrightarrow> \<not> sie m c"
  shows "\<exists>m'. pop_off c (push_off c m) = Ok m' \<and> spin m' = spin m \<and> sie m' = sie m
    \<and> (\<forall>d. noff (cpus m' d) = noff (cpus m d)) \<and> registry m' = registry m"
  using assms by (cases "sie m c") (auto simp: pop_off_def push_off_def Let_def fun_eq_iff)

section \<open>Interleavings of several harts\<close>

text \<open>Where a hart is inside \<^verbatim>\<open>acquire\<close> and \<^verbatim>\<open>release\<close>.\<close>

datatype spin_pc = Run | Spinning lockid | Swapped lockid | Clearing lockid | Popping

text \<open>
  The machine with each hart's position, the locks it has acquired and not yet begun to release
  (in the order it acquired them), and the number of bare \<^verbatim>\<open>push_off\<close> calls it has yet to match.
\<close>

record spin_sys =
  mach :: machine
  pcs :: "nat \<Rightarrow> spin_pc"
  owns :: "nat \<Rightarrow> lockid list"
  bare :: "nat \<Rightarrow> nat"

inductive spin_step :: "spin_sys \<Rightarrow> spin_sys \<Rightarrow> bool" where
  enter: "pcs S c = Run \<Longrightarrow> acquire_enter c lk (mach S) = Ok m \<Longrightarrow>
    spin_step S (S\<lparr>mach := m, pcs := (pcs S)(c := Spinning lk)\<rparr>)"
| spin_again: "pcs S c = Spinning lk \<Longrightarrow> acquire_swap lk (mach S) = (False, m) \<Longrightarrow>
    spin_step S (S\<lparr>mach := m\<rparr>)"
| swap: "pcs S c = Spinning lk \<Longrightarrow> acquire_swap lk (mach S) = (True, m) \<Longrightarrow>
    spin_step S (S\<lparr>mach := m, pcs := (pcs S)(c := Swapped lk)\<rparr>)"
| acquired: "pcs S c = Swapped lk \<Longrightarrow>
    spin_step S (S\<lparr>mach := acquire_done c lk (mach S), pcs := (pcs S)(c := Run),
                   owns := (owns S)(c := lk # owns S c)\<rparr>)"
| leave: "pcs S c = Run \<Longrightarrow> release_enter c lk (mach S) = Ok m \<Longrightarrow>
    spin_step S (S\<lparr>mach := m, pcs := (pcs S)(c := Clearing lk),
                   owns := (owns S)(c := remove1 lk (owns S c))\<rparr>)"
| clear: "pcs S c = Clearing lk \<Longrightarrow>
    spin_step S (S\<lparr>mach := release_clear lk (mach S), pcs := (pcs S)(c := Popping)\<rparr>)"
| pop: "pcs S c = Popping \<Longrightarrow> pop_off c (mach S) = Ok m \<Longrightarrow>
    spin_step S (S\<lparr>mach := m, pcs := (pcs S)(c := Run)\<rparr>)"
| bare_push: "pcs S c = Run \<Longrightarrow>
    spin_step S (S\<lparr>mach := push_off c (mach S), bare := (bare S)(c := Suc (bare S c))\<rparr>)"
| bare_pop: "pcs S c = Run \<Longrightarrow> bare S c = Suc b \<Longrightarrow> pop_off c (mach S) = Ok m \<Longrightarrow>
    spin_step S (S\<lparr>mach := m, bare := (bare S)(c := b)\<rparr>)"
| set_intr: "pcs S c = Run \<Longrightarrow> noff (cpus (mach S) c) = 0 \<Longrightarrow>
    spin_step S (S\<lparr>mach := (mach S)\<lparr>sie := (sie (mach S))(c := b)\<rparr>\<rparr>)"

definition spin_init :: "spin_sys" where
  "spin_init = \<lparr>mach = \<lparr>spin = \<lambda>_. \<lparr>sl_locked = 0, sl_name = [], sl_cpu = None, sl_n = 0, sl_nts = 0\<rparr>,
                 cpus = \<lambda>_. \<lparr>noff = 0, intena = False\<rparr>, sie = \<lambda>_. False, registry = []\<rparr>,
     pcs = \<lambda>_. Run, owns = \<lambda>_. [], bare = \<lambda>_. 0\<rparr>"

definition spin_reachable :: "spin_sys \<Rightarrow> bool" where
  "spin_reachable S \<longleftrightarrow> spin_step\<^sup>*\<^sup>* spin_init S"

text \<open>Hart \<open>c\<close> is the one whose swap set \<open>locked\<close> and who has not cleared it yet.\<close>

definition has_lock :: "spin_sys \<Rightarrow> nat \<Rightarrow> lockid \<Rightarrow> bool" where
  "has_lock S c lk \<longleftrightarrow> lk \<in> set (owns S c) \<or> pcs S c = Swapped lk \<or> pcs S c = Clearing lk"

text \<open>Ownership: \<open>locked\<close> is set exactly while some hart has the lock, and that hart is unique.\<close>

definition own_inv :: "spin_sys \<Rightarrow> bool" where
  "own_inv S \<longleftrightarrow>
     (\<forall>lk. sl_locked (spin (mach S) lk) \<noteq> 0 \<longleftrightarrow> (\<exists>c. has_lock S c lk))
   \<and> (\<forall>c d lk. has_lock S c lk \<longrightarrow> has_lock S d lk \<longrightarrow> c = d)
   \<and> (\<forall>c lk. sl_cpu (spin (mach S) lk) = Some c \<longleftrightarrow> lk \<in> set (owns S c))
   \<and> (\<forall>c. distinct (owns S c))
   \<and> (\<forall>c lk. lk \<in> set (owns S c) \<longrightarrow> pcs S c \<noteq> Swapped lk \<and> pcs S c \<noteq> Clearing lk)"

text \<open>Nesting: \<open>noff\<close> counts the locks and the unmatched \<^verbatim>\<open>push_off\<close> calls of the hart.\<close>

definition nesting :: "spin_sys \<Rightarrow> nat \<Rightarrow> int" where
  "nesting S c = int (length (owns S c)) + int (bare S c) + (if pcs S c = Run then 0 else 1)"

definition nest_inv :: "spin_sys \<Rightarrow> bool" where
  "nest_inv S \<longleftrightarrow> (\<forall>c. noff (cpus (mach S) c) = nesting S c \<and> (nesting S c > 0 \<longrightarrow> \<not> sie (mach S) c))"

section \<open>The invariants hold in every reachable state\<close>

lemma pop_off_Ok:
  assumes "pop_off c m = Ok m'"
  shows "spin m' = spin m" "registry m' = registry m"
    "noff (cpus m' d) = noff (cpus m d) - (if d = c then 1 else 0)"
    "d \<noteq> c \<Longrightarrow> sie m' d = sie m d" "noff (cpus m' c) > 0 \<Longrightarrow> \<not> sie m' c"
  using assms by (auto simp: pop_off_def Let_def split: if_splits)

lemma own_inv_same:
  assumes "own_inv S" and "has_lock T = has_lock S" and "owns T = owns S"
    and "\<And>lk. sl_locked (spin (mach T) lk) \<noteq> 0 \<longleftrightarrow> sl_locked (spin (mach S) lk) \<noteq> 0"
    and "\<And>lk. sl_cpu (spin (mach T) lk) = sl_cpu (spin (mach S) lk)"
    and "\<And>c lk. lk \<in> set (owns S c) \<Longrightarrow> pcs T c \<noteq> Swapped lk \<and> pcs T c \<noteq> Clearing lk"
  shows "own_inv T"
  using assms by (simp add: own_inv_def)

lemma own_inv_init: "own_inv spin_init"
  by (simp add: own_inv_def has_lock_def spin_init_def)

lemma own_inv_swap:
  assumes inv: "own_inv S" and pc: "pcs S c = Spinning lk" and free: "sl_locked (spin (mach S) lk) = 0"
    and m: "m = upd_spin lk (\<lambda>l. l\<lparr>sl_locked := 1\<rparr>) (mach S)"
  shows "own_inv (S\<lparr>mach := m, pcs := (pcs S)(c := Swapped lk)\<rparr>)" (is "own_inv ?T")
proof -
  have has: "has_lock ?T d l \<longleftrightarrow> has_lock S d l \<or> d = c \<and> l = lk" for d l
    using pc by (auto simp: has_lock_def)
  have "\<not> has_lock S d lk" for d using inv free by (auto simp: own_inv_def)
  then have "lk \<notin> set (owns S d)" for d by (auto simp: has_lock_def)
  with inv \<open>\<And>d. \<not> has_lock S d lk\<close> show ?thesis
    unfolding own_inv_def has by (auto simp: m)
qed

lemma own_inv_acquired:
  assumes inv: "own_inv S" and pc: "pcs S c = Swapped lk"
  shows "own_inv (S\<lparr>mach := acquire_done c lk (mach S), pcs := (pcs S)(c := Run),
                     owns := (owns S)(c := lk # owns S c)\<rparr>)" (is "own_inv ?T")
proof -
  have has: "has_lock ?T = has_lock S"
    using pc by (auto simp: has_lock_def fun_eq_iff)
  have "has_lock S c lk" using pc by (simp add: has_lock_def)
  then have uniq: "has_lock S d lk \<Longrightarrow> d = c" for d using inv by (auto simp: own_inv_def)
  then have "lk \<notin> set (owns S d)" if "d \<noteq> c" for d using that by (auto simp: has_lock_def)
  with inv pc show ?thesis
    unfolding own_inv_def has by (auto simp: acquire_done_def)
qed

lemma own_inv_leave:
  assumes inv: "own_inv S" and pc: "pcs S c = Run" and hold: "holding c lk (mach S)"
    and m: "m = upd_spin lk (\<lambda>l. l\<lparr>sl_cpu := None\<rparr>) (mach S)"
  shows "own_inv (S\<lparr>mach := m, pcs := (pcs S)(c := Clearing lk),
                     owns := (owns S)(c := remove1 lk (owns S c))\<rparr>)" (is "own_inv ?T")
proof -
  have own: "lk \<in> set (owns S c)" using inv hold by (auto simp: own_inv_def holding_def)
  have dist: "distinct (owns S c)" using inv by (auto simp: own_inv_def)
  have has: "has_lock ?T = has_lock S"
    using pc own dist by (auto simp: has_lock_def fun_eq_iff)
  have "lk \<notin> set (owns S d)" if "d \<noteq> c" for d
    using inv own that by (auto simp: own_inv_def has_lock_def)
  with inv pc dist show ?thesis
    unfolding own_inv_def has by (auto simp: m)
qed

lemma own_inv_clear:
  assumes inv: "own_inv S" and pc: "pcs S c = Clearing lk"
  shows "own_inv (S\<lparr>mach := release_clear lk (mach S), pcs := (pcs S)(c := Popping)\<rparr>)" (is "own_inv ?T")
proof -
  have c: "has_lock S c lk" using pc by (simp add: has_lock_def)
  have uniq: "has_lock S d lk \<longleftrightarrow> d = c" for d using inv c by (auto simp: own_inv_def)
  have notin: "lk \<notin> set (owns S c)" using inv pc by (auto simp: own_inv_def)
  have has: "has_lock ?T d l \<longleftrightarrow> has_lock S d l \<and> l \<noteq> lk" for d l
    using pc notin uniq by (auto simp: has_lock_def)
  from inv pc show ?thesis
    unfolding own_inv_def has by (auto simp: release_clear_def)
qed

lemma own_inv_step:
  assumes "spin_step S T" and "own_inv S"
  shows "own_inv T"
  using assms
proof (induction rule: spin_step.induct)
  case (enter S c lk m)
  then have m: "m = upd_spin lk (\<lambda>l. l\<lparr>sl_n := sl_n l + 1\<rparr>) (push_off c (mach S))"
    by (auto simp: acquire_enter_def Let_def split: if_splits)
  show ?case by (rule own_inv_same[OF enter.prems]) (use enter m in \<open>auto simp: has_lock_def fun_eq_iff own_inv_def\<close>)
next
  case (spin_again S c lk m)
  then have "sl_locked (spin (mach S) lk) \<noteq> 0"
    "m = upd_spin lk (\<lambda>l. l\<lparr>sl_nts := sl_nts l + 1\<rparr>) (upd_spin lk (\<lambda>l. l\<lparr>sl_locked := 1\<rparr>) (mach S))"
    by (auto simp: acquire_swap_def Let_def split: if_splits)
  then show ?case
    by (intro own_inv_same[OF spin_again.prems]) (use spin_again in \<open>auto simp: has_lock_def fun_eq_iff own_inv_def\<close>)
next
  case (swap S c lk m)
  then show ?case
    by (intro own_inv_swap) (auto simp: acquire_swap_def Let_def split: if_splits)
next
  case (acquired S c lk)
  then show ?case by (intro own_inv_acquired)
next
  case (leave S c lk m)
  then show ?case by (intro own_inv_leave) (auto simp: release_enter_def split: if_splits)
next
  case (clear S c lk)
  then show ?case by (intro own_inv_clear)
next
  case (pop S c m)
  then show ?case
    by (intro own_inv_same[OF pop.prems]) (auto simp: pop_off_Ok has_lock_def fun_eq_iff own_inv_def)
next
  case (bare_push S c)
  then show ?case
    by (intro own_inv_same[OF bare_push.prems]) (auto simp: has_lock_def fun_eq_iff own_inv_def)
next
  case (bare_pop S c b m)
  then show ?case
    by (intro own_inv_same[OF bare_pop.prems]) (auto simp: pop_off_Ok has_lock_def fun_eq_iff own_inv_def)
next
  case (set_intr S c b)
  then show ?case
    by (intro own_inv_same[OF set_intr.prems]) (auto simp: has_lock_def fun_eq_iff own_inv_def)
qed

lemma nest_inv_init: "nest_inv spin_init"
  by (simp add: nest_inv_def nesting_def spin_init_def)

lemma nest_invD: "nest_inv S \<Longrightarrow> noff (cpus (mach S) c) = nesting S c"
    "nest_inv S \<Longrightarrow> nesting S c > 0 \<Longrightarrow> \<not> sie (mach S) c"
  by (auto simp: nest_inv_def)

text \<open>A step changes the nesting of one hart only, and keeps the two counts equal.\<close>

lemma nest_inv_hart:
  assumes "nest_inv S"
    and "\<And>d. d \<noteq> c \<Longrightarrow> nesting T d = nesting S d"
    and "\<And>d. d \<noteq> c \<Longrightarrow> noff (cpus (mach T) d) = noff (cpus (mach S) d) \<and> sie (mach T) d = sie (mach S) d"
    and "noff (cpus (mach T) c) = nesting T c" and "nesting T c > 0 \<Longrightarrow> \<not> sie (mach T) c"
  shows "nest_inv T"
  unfolding nest_inv_def
proof
  fix d
  show "noff (cpus (mach T) d) = nesting T d \<and> (0 < nesting T d \<longrightarrow> \<not> sie (mach T) d)"
    using assms by (cases "d = c") (auto simp: nest_inv_def)
qed

lemma length_owns_Suc: "lk \<in> set xs \<Longrightarrow> int (length (remove1 lk xs)) = int (length xs) - 1"
  by (cases "length xs") (auto simp: length_remove1)

lemma nest_inv_step:
  assumes "spin_step S T" and "own_inv S" and "nest_inv S"
  shows "nest_inv T"
  using assms
proof (induction rule: spin_step.induct)
  case (enter S c lk m)
  then have m: "m = upd_spin lk (\<lambda>l. l\<lparr>sl_n := sl_n l + 1\<rparr>) (push_off c (mach S))"
    by (auto simp: acquire_enter_def Let_def split: if_splits)
  show ?case by (rule nest_inv_hart[OF enter.prems(2), where c = c])
      (use enter m nest_invD(1)[OF enter.prems(2), of c] in \<open>auto simp: nesting_def\<close>)
next
  case (spin_again S c lk m)
  then show ?case
    by (intro nest_inv_hart[OF spin_again.prems(2), where c = c])
      (use nest_invD[OF spin_again.prems(2), of c] in \<open>auto simp: nesting_def acquire_swap_def Let_def split: if_splits\<close>)
next
  case (swap S c lk m)
  then show ?case
    by (intro nest_inv_hart[OF swap.prems(2), where c = c])
      (use nest_invD[OF swap.prems(2), of c] in \<open>auto simp: nesting_def acquire_swap_def Let_def split: if_splits\<close>)
next
  case (acquired S c lk)
  then show ?case
    by (intro nest_inv_hart[OF acquired.prems(2), where c = c])
      (use nest_invD[OF acquired.prems(2), of c] in \<open>auto simp: nesting_def acquire_done_def\<close>)
next
  case (leave S c lk m)
  then have "lk \<in> set (owns S c)" "m = upd_spin lk (\<lambda>l. l\<lparr>sl_cpu := None\<rparr>) (mach S)"
    by (auto simp: release_enter_def holding_def own_inv_def split: if_splits)
  moreover from this have "length (owns S c) > 0" by (cases "owns S c") auto
  ultimately show ?case using leave
    by (intro nest_inv_hart[OF leave.prems(2), where c = c])
      (use nest_invD[OF leave.prems(2), of c] in \<open>auto simp: nesting_def length_owns_Suc\<close>)
next
  case (clear S c lk)
  then show ?case
    by (intro nest_inv_hart[OF clear.prems(2), where c = c])
      (use nest_invD[OF clear.prems(2), of c] in \<open>auto simp: nesting_def release_clear_def\<close>)
next
  case (pop S c m)
  then show ?case
    by (intro nest_inv_hart[OF pop.prems(2), where c = c])
      (use nest_invD[OF pop.prems(2), of c] pop_off_Ok(3)[OF pop.hyps(2), of c] pop_off_Ok(5)[OF pop.hyps(2)] in \<open>auto simp: nesting_def pop_off_Ok\<close>)
next
  case (bare_push S c)
  then show ?case
    by (intro nest_inv_hart[OF bare_push.prems(2), where c = c])
      (use nest_invD[OF bare_push.prems(2), of c] in \<open>auto simp: nesting_def\<close>)
next
  case (bare_pop S c b m)
  then show ?case
    by (intro nest_inv_hart[OF bare_pop.prems(2), where c = c])
      (use nest_invD[OF bare_pop.prems(2), of c] pop_off_Ok(3)[OF bare_pop.hyps(3), of c] pop_off_Ok(5)[OF bare_pop.hyps(3)] in \<open>auto simp: nesting_def pop_off_Ok\<close>)
next
  case (set_intr S c b)
  then show ?case
    by (intro nest_inv_hart[OF set_intr.prems(2), where c = c])
      (use nest_invD[OF set_intr.prems(2), of c] in \<open>auto simp: nesting_def\<close>)
qed

lemma spin_reachable_inv:
  assumes "spin_reachable S"
  shows "own_inv S \<and> nest_inv S"
  using assms unfolding spin_reachable_def
proof (induction rule: rtranclp_induct)
  case base
  show ?case by (simp add: own_inv_init nest_inv_init)
next
  case (step S T)
  then show ?case using own_inv_step nest_inv_step by blast
qed

section \<open>The interface of the other components\<close>

text \<open>
  Kernel code running on one hart sees a lock as something it holds or not: \<open>held\<close> lists the spin
  locks of this hart, most recent first. Every later component extends this record.
\<close>

record kbase =
  held :: "lockid list"

definition acquire_lk :: "lockid \<Rightarrow> 'a kbase_scheme \<Rightarrow> 'a kbase_scheme outcome" where
  "acquire_lk lk s = (if lk \<in> set (held s) then Panic ''acquire'' else Ok (s\<lparr>held := lk # held s\<rparr>))"

definition release_lk :: "lockid \<Rightarrow> 'a kbase_scheme \<Rightarrow> 'a kbase_scheme outcome" where
  "release_lk lk s = (if lk \<notin> set (held s) then Panic ''release'' else Ok (s\<lparr>held := remove1 lk (held s)\<rparr>))"

lemma acquire_lk_Ok [simp]: "lk \<notin> set (held s) \<Longrightarrow> acquire_lk lk s = Ok (s\<lparr>held := lk # held s\<rparr>)"
  by (simp add: acquire_lk_def)

lemma release_lk_Ok [simp]: "lk \<in> set (held s) \<Longrightarrow> release_lk lk s = Ok (s\<lparr>held := remove1 lk (held s)\<rparr>)"
  by (simp add: release_lk_def)

lemma holding_owns:
  assumes "own_inv S"
  shows "holding c lk (mach S) \<longleftrightarrow> lk \<in> set (owns S c)"
  using assms by (auto simp: own_inv_def holding_def has_lock_def)

text \<open>The three steps of an uncontended \<^verbatim>\<open>acquire\<close>, and the three steps of \<^verbatim>\<open>release\<close>.\<close>

lemma acquire_steps:
  assumes "own_inv S" and pc: "pcs S c = Run" and notin: "lk \<notin> set (owns S c)"
    and free: "sl_locked (spin (mach S) lk) = 0"
  shows "\<exists>T. spin_step\<^sup>*\<^sup>* S T \<and> pcs T = pcs S \<and> owns T = (owns S)(c := lk # owns S c)"
proof -
  let ?m1 = "upd_spin lk (\<lambda>l. l\<lparr>sl_n := sl_n l + 1\<rparr>) (push_off c (mach S))"
  let ?S1 = "S\<lparr>mach := ?m1, pcs := (pcs S)(c := Spinning lk)\<rparr>"
  let ?S2 = "?S1\<lparr>mach := snd (acquire_swap lk ?m1), pcs := (pcs ?S1)(c := Swapped lk)\<rparr>"
  let ?S3 = "?S2\<lparr>mach := acquire_done c lk (mach ?S2), pcs := (pcs ?S2)(c := Run), owns := (owns ?S2)(c := lk # owns ?S2 c)\<rparr>"
  have "\<not> holding c lk (mach S)" using assms by (simp add: holding_owns)
  then have "acquire_enter c lk (mach S) = Ok ?m1" by (simp add: acquire_enter_def Let_def)
  then have 1: "spin_step S ?S1" by (rule spin_step.enter[OF pc])
  have 2: "spin_step ?S1 ?S2"
    by (rule spin_step.swap[where c = c and lk = lk]) (use free in \<open>simp_all add: acquire_swap_def Let_def\<close>)
  have 3: "spin_step ?S2 ?S3" by (rule spin_step.acquired) simp
  have "spin_step\<^sup>*\<^sup>* S ?S3" using 1 2 3 by (meson converse_rtranclp_into_rtranclp rtranclp.rtrancl_refl)
  moreover have "pcs ?S3 = pcs S" using pc by (simp add: fun_eq_iff)
  ultimately show ?thesis by (intro exI[of _ ?S3]) simp
qed

lemma pop_off_returns: "nest_inv S \<Longrightarrow> nesting S c > 0 \<Longrightarrow> \<exists>m. pop_off c (mach S) = Ok m"
  using nest_invD[of S c] by (simp add: pop_off_def Let_def)

lemma release_steps:
  assumes "own_inv S" and "nest_inv S" and pc: "pcs S c = Run" and own: "lk \<in> set (owns S c)"
  shows "\<exists>T. spin_step\<^sup>*\<^sup>* S T \<and> pcs T = pcs S \<and> owns T = (owns S)(c := remove1 lk (owns S c))"
proof -
  let ?m1 = "upd_spin lk (\<lambda>l. l\<lparr>sl_cpu := None\<rparr>) (mach S)"
  let ?S1 = "S\<lparr>mach := ?m1, pcs := (pcs S)(c := Clearing lk), owns := (owns S)(c := remove1 lk (owns S c))\<rparr>"
  let ?S2 = "?S1\<lparr>mach := release_clear lk (mach ?S1), pcs := (pcs ?S1)(c := Popping)\<rparr>"
  have "release_enter c lk (mach S) = Ok ?m1" using assms by (simp add: release_enter_def holding_owns)
  then have 1: "spin_step S ?S1" by (rule spin_step.leave[OF pc])
  have 2: "spin_step ?S1 ?S2" by (rule spin_step.clear[where c = c and lk = lk]) simp
  have "nest_inv ?S2" using nest_inv_step own_inv_step 1 2 assms(1,2) by blast
  moreover have "nesting ?S2 c > 0" by (simp add: nesting_def)
  ultimately obtain m where m: "pop_off c (mach ?S2) = Ok m" using pop_off_returns by blast
  let ?S3 = "?S2\<lparr>mach := m, pcs := (pcs ?S2)(c := Run)\<rparr>"
  have 3: "spin_step ?S2 ?S3" by (rule spin_step.pop[OF _ m]) simp
  have "spin_step\<^sup>*\<^sup>* S ?S3" using 1 2 3 by (meson converse_rtranclp_into_rtranclp rtranclp.rtrancl_refl)
  moreover have "pcs ?S3 = pcs S" using pc by (simp add: fun_eq_iff)
  ultimately show ?thesis by (intro exI[of _ ?S3]) simp
qed

section \<open>Properties\<close>

text \<open>
  C4. Mutual exclusion. In every reachable state of any number of harts a spin lock that has been
  acquired belongs to one hart only; for that hart \<^verbatim>\<open>holding\<close> answers true, for every other it
  answers false, and interrupts are off on the hart that owns it.
\<close>

theorem spin_mutual_exclusion:
  assumes "spin_reachable S" and "lk \<in> set (owns S c)"
  shows "holding d lk (mach S) = (d = c) \<and> (lk \<in> set (owns S d) \<longrightarrow> d = c) \<and> \<not> sie (mach S) c"
proof -
  from assms(1) have inv: "own_inv S" "nest_inv S" by (simp_all add: spin_reachable_inv)
  have uniq: "lk \<in> set (owns S d) \<Longrightarrow> d = c" for d
    using inv(1) assms(2) by (auto simp: own_inv_def has_lock_def)
  have "nesting S c > 0" using assms(2) by (cases "owns S c") (simp_all add: nesting_def)
  then have "\<not> sie (mach S) c" by (rule nest_invD(2)[OF inv(2)])
  moreover have "holding d lk (mach S) = (d = c)"
    unfolding holding_owns[OF inv(1)] using uniq assms(2) by blast
  ultimately show ?thesis using uniq by blast
qed

theorem spin_mutual_exclusion_witness:
  "\<exists>S. spin_reachable S \<and> LkKmem \<in> set (owns S 0) \<and> \<not> holding 1 LkKmem (mach S) \<and> \<not> sie (mach S) 0"
proof -
  have r: "spin_reachable spin_init" by (simp add: spin_reachable_def)
  obtain T where T: "spin_step\<^sup>*\<^sup>* spin_init T" "owns T = (owns spin_init)(0 := LkKmem # owns spin_init 0)"
    using acquire_steps[OF own_inv_init, of 0 LkKmem] by (auto simp: spin_init_def)
  then have "spin_reachable T" "LkKmem \<in> set (owns T 0)" by (simp_all add: spin_reachable_def)
  then show ?thesis using spin_mutual_exclusion[of T LkKmem 0 1] by auto
qed

text \<open>
  C19. The list of held locks is a faithful view of the concrete spin locks. In a reachable state,
  for a hart outside \<^verbatim>\<open>acquire\<close> and \<^verbatim>\<open>release\<close> whose locks are \<open>held s\<close>: \<open>acquire_lk\<close> and
  \<open>release_lk\<close> panic exactly when the concrete operations do; when the lock is free the concrete
  \<^verbatim>\<open>acquire\<close> returns and gives the hart the locks of the abstract result; and \<^verbatim>\<open>release\<close>, \<^verbatim>\<open>pop_off\<close>
  included, runs to its end without a panic.
\<close>

theorem held_refines_spinlock:
  assumes "spin_reachable S" and "pcs S c = Run" and "held s = owns S c"
  shows "((\<exists>m. acquire_lk lk s = Panic m) \<longleftrightarrow> (\<exists>m. acquire_enter c lk (mach S) = Panic m))
    \<and> ((\<exists>m. release_lk lk s = Panic m) \<longleftrightarrow> (\<exists>m. release_enter c lk (mach S) = Panic m))
    \<and> (\<forall>s'. acquire_lk lk s = Ok s' \<longrightarrow> sl_locked (spin (mach S) lk) = 0 \<longrightarrow>
         (\<exists>T. spin_step\<^sup>*\<^sup>* S T \<and> pcs T c = Run \<and> owns T c = held s'))
    \<and> (\<forall>s'. release_lk lk s = Ok s' \<longrightarrow>
         (\<exists>T. spin_step\<^sup>*\<^sup>* S T \<and> pcs T c = Run \<and> owns T c = held s'))"
proof -
  from assms(1) have inv: "own_inv S" "nest_inv S" by (simp_all add: spin_reachable_inv)
  have "\<exists>T. spin_step\<^sup>*\<^sup>* S T \<and> pcs T c = Run \<and> owns T c = held s'"
    if "acquire_lk lk s = Ok s'" "sl_locked (spin (mach S) lk) = 0" for s'
    using acquire_steps[OF inv(1) assms(2), of lk] that assms(2,3)
    by (auto simp: acquire_lk_def split: if_splits)
  moreover have "\<exists>T. spin_step\<^sup>*\<^sup>* S T \<and> pcs T c = Run \<and> owns T c = held s'"
    if "release_lk lk s = Ok s'" for s'
    using release_steps[OF inv assms(2), of lk] that assms(2,3)
    by (auto simp: release_lk_def split: if_splits)
  ultimately show ?thesis
    using assms(3) by (auto simp: acquire_lk_def release_lk_def acquire_enter_def release_enter_def
        Let_def holding_owns[OF inv(1)])
qed

theorem held_refines_spinlock_witness:
  "\<exists>T. spin_step\<^sup>*\<^sup>* spin_init T \<and> pcs T 3 = Run \<and> owns T 3 = [LkBcache]"
proof -
  have "spin_reachable spin_init" by (simp add: spin_reachable_def)
  then show ?thesis
    using held_refines_spinlock[of spin_init 3 "\<lparr>held = []\<rparr>" LkBcache]
    by (auto simp: spin_init_def acquire_lk_def)
qed

text \<open>A sequence of \<^verbatim>\<open>push_off\<close> (\<open>True\<close>) and \<^verbatim>\<open>pop_off\<close> (\<open>False\<close>) calls of one hart, and the matched ones.\<close>

primrec run_offs :: "bool list \<Rightarrow> nat \<Rightarrow> machine \<Rightarrow> machine outcome" where
  "run_offs [] c m = Ok m"
| "run_offs (w # ws) c m = (if w then run_offs ws c (push_off c m) else obind (pop_off c m) (run_offs ws c))"

inductive matched :: "bool list \<Rightarrow> bool" where
  matched_Nil: "matched []"
| matched_pair: "matched xs \<Longrightarrow> matched ys \<Longrightarrow> matched (True # xs @ False # ys)"

lemma run_offs_append: "run_offs (xs @ ys) c m = obind (run_offs xs c m) (run_offs ys c)"
  by (induction xs arbitrary: m) (auto simp: obind_assoc intro!: obind_cong)

lemma run_offs_matched:
  assumes "matched ws" and "noff (cpus m c) \<ge> 0" and "noff (cpus m c) > 0 \<longrightarrow> \<not> sie m c"
  shows "\<exists>m'. run_offs ws c m = Ok m' \<and> sie m' = sie m \<and> spin m' = spin m
    \<and> noff (cpus m' c) = noff (cpus m c) \<and> (noff (cpus m c) > 0 \<longrightarrow> intena (cpus m' c) = intena (cpus m c))
    \<and> (\<forall>d. d \<noteq> c \<longrightarrow> cpus m' d = cpus m d)"
  using assms
proof (induction ws arbitrary: m rule: matched.induct)
  case matched_Nil
  show ?case by simp
next
  case (matched_pair xs ys)
  let ?m1 = "push_off c m"
  have pre: "noff (cpus ?m1 c) > 0" "\<not> sie ?m1 c" using matched_pair.prems by simp_all
  obtain m2 where m2: "run_offs xs c ?m1 = Ok m2" "sie m2 = sie ?m1" "spin m2 = spin ?m1"
      "noff (cpus m2 c) = noff (cpus ?m1 c)" "intena (cpus m2 c) = intena (cpus ?m1 c)"
      "\<forall>d. d \<noteq> c \<longrightarrow> cpus m2 d = cpus ?m1 d"
    using matched_pair.IH(1)[OF less_imp_le[OF pre(1)]] pre by blast
  define m3 where "m3 = (let k = (cpus m2 c)\<lparr>noff := noff (cpus m c)\<rparr>; m' = m2\<lparr>cpus := (cpus m2)(c := k)\<rparr>
    in if noff k = 0 \<and> intena k then m'\<lparr>sie := (sie m')(c := True)\<rparr> else m')"
  have pop: "pop_off c m2 = Ok m3"
    using m2 matched_pair.prems by (simp add: pop_off_def m3_def Let_def)
  have m3: "sie m3 = sie m" "spin m3 = spin m" "noff (cpus m3 c) = noff (cpus m c)"
      "noff (cpus m c) > 0 \<longrightarrow> intena (cpus m3 c) = intena (cpus m c)"
      "\<forall>d. d \<noteq> c \<longrightarrow> cpus m3 d = cpus m d"
    using m2 matched_pair.prems by (auto simp: m3_def Let_def push_off_intena fun_eq_iff push_off_def)
  obtain m4 where "run_offs ys c m3 = Ok m4" "sie m4 = sie m3" "spin m4 = spin m3"
      "noff (cpus m4 c) = noff (cpus m3 c)" "noff (cpus m3 c) > 0 \<longrightarrow> intena (cpus m4 c) = intena (cpus m3 c)"
      "\<forall>d. d \<noteq> c \<longrightarrow> cpus m4 d = cpus m3 d"
    using matched_pair.IH(2)[of m3] matched_pair.prems unfolding m3(1,3) by blast
  with m2(1) pop m3 show ?case by (auto simp: run_offs_append)
qed

text \<open>
  C36. Interrupt disabling nests. Every matched sequence of \<^verbatim>\<open>push_off\<close> and \<^verbatim>\<open>pop_off\<close> calls runs
  without a panic and leaves the interrupt-enable bit and the nesting depth as it found them, whether
  interrupts were on or off at the start.
\<close>

theorem push_pop_off_nest:
  assumes "matched ws" and "noff (cpus m c) \<ge> 0" and "noff (cpus m c) > 0 \<longrightarrow> \<not> sie m c"
  shows "\<exists>m'. run_offs ws c m = Ok m' \<and> sie m' c = sie m c \<and> noff (cpus m' c) = noff (cpus m c)"
  using run_offs_matched[OF assms] by auto

theorem push_pop_off_nest_witness:
  "\<exists>m'. run_offs [True, True, False, False] 0 (mach spin_init\<lparr>sie := \<lambda>_. True\<rparr>) = Ok m' \<and> sie m' 0"
proof -
  have "matched [True, True, False, False]"
    using matched_pair[OF matched_pair[OF matched_Nil matched_Nil] matched_Nil] by simp
  then show ?thesis
    using push_pop_off_nest[of "[True, True, False, False]" "mach spin_init\<lparr>sie := \<lambda>_. True\<rparr>" 0]
    by (auto simp: spin_init_def)
qed

end
