(* ===== verification/KList.thy ===== *)
theory KList
  imports Prelude
begin

text \<open>
  \<^verbatim>\<open>kernel/list.c\<close>: circular doubly linked lists over an explicit store of \<^verbatim>\<open>next\<close> and \<^verbatim>\<open>prev\<close>
  fields. The pointer type is a parameter, so the same theory serves the free lists of the buddy
  allocator and the buffer cache, whose code manipulates the same two fields in place. \<open>is_list\<close>
  relates the store to the list of elements it represents; every operation is shown to be the
  corresponding list operation and to leave disjoint lists alone.
\<close>

section \<open>Operations\<close>

text \<open>The \<^verbatim>\<open>next\<close> and \<^verbatim>\<open>prev\<close> fields of every \<^verbatim>\<open>struct list\<close>.\<close>

record 'p links =
  nxt :: "'p \<Rightarrow> 'p"
  prv :: "'p \<Rightarrow> 'p"

definition set_nxt :: "'p \<Rightarrow> 'p \<Rightarrow> 'p links \<Rightarrow> 'p links" where
  "set_nxt p q l = l\<lparr>nxt := (nxt l)(p := q)\<rparr>"

definition set_prv :: "'p \<Rightarrow> 'p \<Rightarrow> 'p links \<Rightarrow> 'p links" where
  "set_prv p q l = l\<lparr>prv := (prv l)(p := q)\<rparr>"

definition lst_init :: "'p \<Rightarrow> 'p links \<Rightarrow> 'p links" where
  "lst_init lst l = set_prv lst lst (set_nxt lst lst l)"

definition lst_empty :: "'p \<Rightarrow> 'p links \<Rightarrow> bool" where
  "lst_empty lst l \<longleftrightarrow> nxt l lst = lst"

definition lst_remove :: "'p \<Rightarrow> 'p links \<Rightarrow> 'p links" where
  "lst_remove e l =
     (let l = set_nxt (prv l e) (nxt l e) l
      in set_prv (nxt l e) (prv l e) l)"

definition lst_pop :: "'p \<Rightarrow> 'p links \<Rightarrow> ('p \<times> 'p links) outcome" where
  "lst_pop lst l =
     (if nxt l lst = lst then Panic ''lst_pop''
      else let p = nxt l lst in Ok (p, lst_remove p l))"

definition lst_push :: "'p \<Rightarrow> 'p \<Rightarrow> 'p links \<Rightarrow> 'p links" where
  "lst_push lst e l =
     (let l = set_nxt e (nxt l lst) l;
          l = set_prv e lst l;
          l = set_prv (nxt l lst) e l
      in set_nxt lst e l)"

text \<open>
  The pointers \<^verbatim>\<open>lst_print\<close> prints, in order. The loop runs until it is back at the head; on a
  store that is not a list it need not end.
\<close>

partial_function (option) lst_print_from :: "'p \<Rightarrow> 'p links \<Rightarrow> 'p \<Rightarrow> 'p list option" where
  "lst_print_from lst l p =
     (if p = lst then Some []
      else Option.bind (lst_print_from lst l (nxt l p)) (\<lambda>ps. Some (p # ps)))"

definition lst_print :: "'p \<Rightarrow> 'p links \<Rightarrow> 'p list option" where
  "lst_print lst l = lst_print_from lst l (nxt l lst)"

section \<open>Representation\<close>

lemma set_links_simps [simp]:
  "nxt (set_nxt p q l) = (nxt l)(p := q)" "prv (set_nxt p q l) = prv l"
  "prv (set_prv p q l) = (prv l)(p := q)" "nxt (set_prv p q l) = nxt l"
  by (simp_all add: set_nxt_def set_prv_def)

text \<open>\<open>seg l a xs b\<close>: following \<^verbatim>\<open>next\<close> from \<open>a\<close> visits \<open>xs\<close> and then \<open>b\<close>, and \<^verbatim>\<open>prev\<close> leads back.\<close>

primrec seg :: "'p links \<Rightarrow> 'p \<Rightarrow> 'p list \<Rightarrow> 'p \<Rightarrow> bool" where
  "seg l a [] b \<longleftrightarrow> nxt l a = b \<and> prv l b = a"
| "seg l a (x # xs) b \<longleftrightarrow> nxt l a = x \<and> prv l x = a \<and> seg l x xs b"

definition is_list :: "'p links \<Rightarrow> 'p \<Rightarrow> 'p list \<Rightarrow> bool" where
  "is_list l h xs \<longleftrightarrow> distinct (h # xs) \<and> seg l h xs h"

lemma seg_append: "seg l a (xs @ y # ys) b \<longleftrightarrow> seg l a xs y \<and> seg l y ys b"
  by (induction xs arbitrary: a) auto

lemma seg_cong:
  assumes "\<And>x. x \<in> set (a # xs) \<Longrightarrow> nxt l' x = nxt l x" and "\<And>x. x \<in> set (xs @ [b]) \<Longrightarrow> prv l' x = prv l x"
  shows "seg l' a xs b = seg l a xs b"
  using assms by (induction xs arbitrary: a) auto

lemma seg_nxt: "seg l a xs b \<Longrightarrow> nxt l a = hd (xs @ [b])"
  by (cases xs) auto

lemma seg_prv: "seg l a xs b \<Longrightarrow> prv l b = last (a # xs)"
  by (induction xs arbitrary: a) auto

lemma is_list_empty: "is_list l h xs \<Longrightarrow> lst_empty h l \<longleftrightarrow> xs = []"
  by (cases xs) (auto simp: is_list_def lst_empty_def)

lemma is_list_init: "is_list (lst_init h l) h []"
  by (simp add: is_list_def lst_init_def)

lemma is_list_push:
  assumes "is_list l h xs" and "e \<notin> set (h # xs)"
  shows "is_list (lst_push h e l) h (e # xs)"
proof (cases xs)
  case Nil
  then show ?thesis using assms by (auto simp: is_list_def lst_push_def Let_def)
next
  case (Cons y ys)
  let ?l = "lst_push h e l"
  have y: "nxt l h = y" and yh: "y \<noteq> h" "e \<noteq> y" "e \<noteq> h" using assms Cons by (auto simp: is_list_def)
  have "seg ?l y ys h = seg l y ys h"
    by (rule seg_cong) (use assms Cons y in \<open>auto simp: is_list_def lst_push_def Let_def\<close>)
  then show ?thesis using assms Cons y yh by (auto simp: is_list_def lst_push_def Let_def)
qed

text \<open>Unlinking \<open>e\<close> joins its neighbours.\<close>

lemma seg_skip:
  assumes "seg l x [] e" and "seg l e ys b" and "distinct (x # e # ys)" and "b \<notin> set (e # ys)"
  shows "seg (lst_remove e l) x ys b"
proof (cases ys)
  case Nil
  then show ?thesis using assms by (auto simp: lst_remove_def Let_def)
next
  case (Cons y zs)
  have "seg (lst_remove e l) y zs b = seg l y zs b"
    by (rule seg_cong) (use assms Cons in \<open>auto simp: lst_remove_def Let_def\<close>)
  then show ?thesis using assms Cons by (auto simp: lst_remove_def Let_def)
qed

lemma is_list_remove:
  assumes "is_list l h (xs @ e # ys)"
  shows "is_list (lst_remove e l) h (xs @ ys)"
proof -
  have s: "seg l h xs e" "seg l e ys h" and d: "distinct (h # xs @ e # ys)"
    using assms by (simp_all add: is_list_def seg_append)
  show ?thesis
  proof (cases xs rule: rev_cases)
    case Nil
    then show ?thesis using s d by (auto simp: is_list_def intro!: seg_skip)
  next
    case (snoc zs z)
    have z: "seg l h zs z" "seg l z [] e" using s snoc by (simp_all add: seg_append)
    have "seg (lst_remove e l) z ys h" using z s d snoc by (intro seg_skip) auto
    moreover have "nxt l e = hd (ys @ [h])" "prv l e = z" using s(2) z(2) by (auto dest: seg_nxt)
    then have "seg (lst_remove e l) h zs z = seg l h zs z"
      using d snoc by (intro seg_cong) (cases ys; auto simp: lst_remove_def Let_def)+
    ultimately show ?thesis using z d snoc by (simp add: is_list_def seg_append)
  qed
qed

lemma is_list_pop:
  assumes "is_list l h (x # xs)"
  shows "lst_pop h l = Ok (x, lst_remove x l) \<and> is_list (lst_remove x l) h xs"
  using assms is_list_remove[of l h "[]" x xs] by (auto simp: lst_pop_def is_list_def)

text \<open>Operations on one list leave a list of other nodes alone.\<close>

lemma is_list_frame_push:
  assumes "is_list l h xs" and "is_list l k ys" and "e \<notin> set (k # ys)" and "set (h # xs) \<inter> set (k # ys) = {}"
  shows "is_list (lst_push h e l) k ys"
proof -
  have "nxt l h \<in> set (h # xs)" using assms(1) by (cases xs) (auto simp: is_list_def)
  then have "seg (lst_push h e l) k ys k = seg l k ys k"
    using assms by (intro seg_cong) (auto simp: lst_push_def Let_def)
  then show ?thesis using assms(2) by (simp add: is_list_def)
qed

lemma is_list_nxt_prv:
  assumes "is_list l h xs" and "e \<in> set xs"
  shows "nxt l e \<in> set (h # xs)" "prv l e \<in> set (h # xs)"
proof -
  obtain us vs where xs: "xs = us @ e # vs" using assms(2) by (meson split_list)
  then have "seg l h us e" "seg l e vs h" using assms(1) by (simp_all add: is_list_def seg_append)
  then have "nxt l e = hd (vs @ [h])" "prv l e = last (h # us)" 
    using seg_nxt[of l e vs h] seg_prv[of l h us e] by blast+
  moreover have "hd (vs @ [h]) \<in> set (vs @ [h])" "last (h # us) \<in> set (h # us)"
    by (rule hd_in_set, simp) (rule last_in_set, simp)
  ultimately show "nxt l e \<in> set (h # xs)" "prv l e \<in> set (h # xs)" using xs by auto
qed

text \<open>An element is not its own neighbour.\<close>

lemma is_list_neighbours:
  assumes "is_list l h xs" and "e \<in> set xs"
  shows "nxt l e \<noteq> e" "prv l e \<noteq> e"
proof -
  obtain us vs where xs: "xs = us @ e # vs" using assms(2) by (meson split_list)
  then have "seg l h us e" "seg l e vs h" and d: "distinct (h # us @ e # vs)"
    using assms(1) by (simp_all add: is_list_def seg_append)
  then have "nxt l e = hd (vs @ [h])" "prv l e = last (h # us)"
    using seg_nxt[of l e vs h] seg_prv[of l h us e] by blast+
  moreover have "hd (vs @ [h]) \<in> set (vs @ [h])" "last (h # us) \<in> set (h # us)"
    by (rule hd_in_set, simp) (rule last_in_set, simp)
  ultimately show "nxt l e \<noteq> e" "prv l e \<noteq> e" using d by auto
qed

lemma is_list_frame_remove:
  assumes "is_list l h xs" and "e \<in> set xs" and "is_list l k ys" and "set (h # xs) \<inter> set (k # ys) = {}"
  shows "is_list (lst_remove e l) k ys"
proof -
  have "nxt l e \<notin> set (k # ys)" "prv l e \<notin> set (k # ys)" "e \<notin> set (k # ys)"
    using is_list_nxt_prv[OF assms(1,2)] assms(2,4) by auto
  then have "seg (lst_remove e l) k ys k = seg l k ys k"
    using assms(3) by (intro seg_cong) (auto simp: lst_remove_def Let_def)
  then show ?thesis using assms(3) by (simp add: is_list_def)
qed

lemma lst_print_from_seg:
  assumes "seg l a xs h" and "h \<notin> set xs"
  shows "lst_print_from h l (nxt l a) = Some xs"
  using assms
proof (induction xs arbitrary: a)
  case Nil
  then show ?case by (simp add: lst_print_from.simps)
next
  case (Cons x xs)
  then show ?case by (auto simp: lst_print_from.simps[of h l x])
qed

lemma is_list_unique: "is_list l h xs \<Longrightarrow> is_list l h ys \<Longrightarrow> xs = ys"
  using lst_print_from_seg[of l h xs h] lst_print_from_seg[of l h ys h] by (simp add: is_list_def)

section \<open>The interface of linked lists\<close>

text \<open>
  A store that represents a list of distinct nodes, supports pushing a new node at the front and
  unlinking any node. Clients (the buddy allocator, the buffer cache) use the derived laws.
\<close>

locale linked_list =
  fixes rep :: "'s \<Rightarrow> 'p list \<Rightarrow> bool" and push :: "'p \<Rightarrow> 's \<Rightarrow> 's" and unlink :: "'p \<Rightarrow> 's \<Rightarrow> 's"
    and node :: "'p \<Rightarrow> bool"
  assumes rep_distinct: "rep s xs \<Longrightarrow> distinct xs"
    and rep_push: "rep s xs \<Longrightarrow> node e \<Longrightarrow> e \<notin> set xs \<Longrightarrow> rep (push e s) (e # xs)"
    and rep_unlink: "rep s (xs @ e # ys) \<Longrightarrow> rep (unlink e s) (xs @ ys)"
begin

lemma unlink_remove1:
  assumes "rep s xs" and "e \<in> set xs"
  shows "rep (unlink e s) (remove1 e xs)"
proof -
  obtain us vs where xs: "xs = us @ e # vs" "e \<notin> set us" using assms(2) by (meson split_list_first)
  then show ?thesis using rep_unlink[of s us e vs] assms(1) by (simp add: remove1_append)
qed

lemma move_to_front:
  assumes "rep s xs" and "e \<in> set xs" and "node e"
  shows "rep (push e (unlink e s)) (e # remove1 e xs)"
  using rep_push[OF unlink_remove1[OF assms(1,2)] assms(3)] rep_distinct[OF assms(1)] by simp

lemma push_all:
  assumes "rep s xs" and "distinct ys" and "set ys \<inter> set xs = {}" and "\<And>y. y \<in> set ys \<Longrightarrow> node y"
  shows "rep (fold push ys s) (rev ys @ xs)"
  using assms
proof (induction ys arbitrary: s xs)
  case Nil
  then show ?case by simp
next
  case (Cons y ys)
  have "rep (push y s) (y # xs)" using Cons.prems by (intro rep_push) auto
  then have "rep (fold push ys (push y s)) (rev ys @ y # xs)" using Cons.prems by (intro Cons.IH) auto
  then show ?case by simp
qed

end

interpretation lst: linked_list "\<lambda>l. is_list l h" "lst_push h" lst_remove "\<lambda>e. e \<noteq> h" for h
proof
  fix l :: "'a links" and xs ys e
  show "is_list l h xs \<Longrightarrow> distinct xs" by (simp add: is_list_def)
  show "is_list l h xs \<Longrightarrow> e \<noteq> h \<Longrightarrow> e \<notin> set xs \<Longrightarrow> is_list (lst_push h e l) h (e # xs)"
    by (rule is_list_push) auto
  show "is_list l h (xs @ e # ys) \<Longrightarrow> is_list (lst_remove e l) h (xs @ ys)" by (rule is_list_remove)
qed

section \<open>Properties\<close>

text \<open>
  On a store that represents the list \<open>xs\<close> at head \<open>h\<close>, \<^verbatim>\<open>lst_empty\<close> decides emptiness,
  \<^verbatim>\<open>lst_print\<close> visits exactly \<open>xs\<close> and terminates, \<^verbatim>\<open>lst_push\<close> adds a new node in front,
  \<^verbatim>\<open>lst_remove\<close> unlinks any element wherever it is, and \<^verbatim>\<open>lst_pop\<close> panics on the empty list and
  otherwise returns and unlinks the first element.
\<close>

theorem list_operations:
  assumes "is_list l h xs" and "n \<notin> set (h # xs)"
  shows "(lst_empty h l \<longleftrightarrow> xs = []) \<and> lst_print h l = Some xs
    \<and> is_list (lst_push h n l) h (n # xs)
    \<and> (\<forall>e \<in> set xs. is_list (lst_remove e l) h (remove1 e xs))
    \<and> (case xs of [] \<Rightarrow> lst_pop h l = Panic ''lst_pop''
        | y # ys \<Rightarrow> \<exists>l'. lst_pop h l = Ok (y, l') \<and> is_list l' h ys)"
proof -
  have "lst_print h l = Some xs"
    using assms(1) lst_print_from_seg[of l h xs h] by (simp add: lst_print_def is_list_def)
  moreover have "lst_pop h l = Panic ''lst_pop''" if "xs = []"
    using assms(1) that by (simp add: lst_pop_def is_list_def)
  moreover have "\<exists>l'. lst_pop h l = Ok (y, l') \<and> is_list l' h ys" if "xs = y # ys" for y ys
    using is_list_pop[of l h y ys] assms(1) that by simp
  ultimately show ?thesis
    using is_list_empty[OF assms(1)] is_list_push[OF assms] lst.unlink_remove1[OF assms(1)]
    by (simp split: list.split)
qed

theorem list_operations_witness:
  "is_list (lst_push (0::u64) 16 (lst_init 0 \<lparr>nxt = \<lambda>_. 0, prv = \<lambda>_. 0\<rparr>)) 0 [16]"
  using list_operations[OF is_list_init[of "0::u64" "\<lparr>nxt = \<lambda>_. 0, prv = \<lambda>_. 0\<rparr>"], of 16] by simp

end
