(* ===== verification/KSched.thy ===== *)
theory KSched
  imports KSpin
begin

text \<open>
  The process table of \<^verbatim>\<open>kernel/proc.h\<close> and the part of \<^verbatim>\<open>kernel/proc.c\<close> that moves processes
  between states without touching memory or files: \<^verbatim>\<open>allocpid\<close>, \<^verbatim>\<open>sched\<close>, \<^verbatim>\<open>yield\<close>, \<^verbatim>\<open>sleep\<close>,
  \<^verbatim>\<open>wakeup\<close>, \<^verbatim>\<open>wakeup1\<close>, \<^verbatim>\<open>kill\<close>, \<^verbatim>\<open>reparent\<close>, the scheduler loop and \<^verbatim>\<open>procdump\<close>; and the
  sleep locks of \<^verbatim>\<open>kernel/sleeplock.c\<close> built on them. A call of \<^verbatim>\<open>sleep\<close> is split at the point
  where the CPU is given up.
\<close>

section \<open>Data\<close>

definition NPROC :: nat where "NPROC = 10"
definition NOFILE :: nat where "NOFILE = 16"

datatype procstate = UNUSED | SLEEPING | RUNNABLE | RUNNING | ZOMBIE

text \<open>\<^verbatim>\<open>struct context\<close>: return address, stack pointer and \<^verbatim>\<open>s0\<close> to \<^verbatim>\<open>s11\<close>.\<close>

record kcontext =
  ctx_ra :: u64
  ctx_sp :: u64
  ctx_s :: "u64 list"

text \<open>
  \<^verbatim>\<open>struct proc\<close>. Pointers into the process, file and inode tables are indices (\<open>None\<close> for a null
  pointer); \<^verbatim>\<open>pagetable\<close> and \<^verbatim>\<open>tf\<close> are physical addresses of pages, 0 for null; \<^verbatim>\<open>name\<close> is the
  array of 16 bytes.
\<close>

record proc =
  pstate :: procstate
  parent :: "nat option"
  chan :: "chan option"
  killed :: bool
  xstate :: int
  pid :: int
  kstack :: u64
  psz :: u64
  pagetable :: u64
  tf :: u64
  pcontext :: kcontext
  ofile :: "nat option list"
  cwd :: "nat option"
  pname :: "u8 list"

record kproc = kbase +
  procs :: "proc list"
  curp :: "nat option"
  nextpid :: int
  initproc :: "nat option"

abbreviation myproc :: "'a kproc_scheme \<Rightarrow> nat" where "myproc s \<equiv> the (curp s)"

definition p_upd :: "nat \<Rightarrow> (proc \<Rightarrow> proc) \<Rightarrow> 'a kproc_scheme \<Rightarrow> 'a kproc_scheme" where
  "p_upd i f s = s\<lparr>procs := (procs s)[i := f (procs s ! i)]\<rparr>"

text \<open>The statically allocated table: every field zero.\<close>

definition zero_proc :: proc where
  "zero_proc = \<lparr>pstate = UNUSED, parent = None, chan = None, killed = False, xstate = 0, pid = 0, kstack = 0,
     psz = 0, pagetable = 0, tf = 0, pcontext = \<lparr>ctx_ra = 0, ctx_sp = 0, ctx_s = replicate 12 0\<rparr>,
     ofile = replicate NOFILE None, cwd = None, pname = replicate 16 0\<rparr>"

definition boot_procs :: kproc where
  "boot_procs = \<lparr>held = [], procs = replicate NPROC zero_proc, curp = None, nextpid = 1, initproc = None\<rparr>"

section \<open>Operations on the table\<close>

definition allocpid :: "'a kproc_scheme \<Rightarrow> (int \<times> 'a kproc_scheme) outcome" where
  "allocpid s =
     obind (acquire_lk LkPid s) (\<lambda>s.
     let pid = nextpid s; s = s\<lparr>nextpid := nextpid s + 1\<rparr> in
     obind (release_lk LkPid s) (\<lambda>s. Ok (pid, s)))"

text \<open>
  The checks of \<^verbatim>\<open>sched\<close> before the switch. \<^verbatim>\<open>noff\<close> is the number of locks held and interrupts
  are off whenever a lock is held, as \<open>KSpin\<close> shows; so the last check of the code, that interrupts
  are off, never fails after the first one and is left out.
\<close>

definition sched :: "'a kproc_scheme \<Rightarrow> 'a kproc_scheme outcome" where
  "sched s =
     (let p = myproc s in
      if LkProc p \<notin> set (held s) then Panic ''sched p->lock''
      else if length (held s) \<noteq> 1 then Panic ''sched locks''
      else if pstate (procs s ! p) = RUNNING then Panic ''sched running''
      else Ok s)"

text \<open>\<^verbatim>\<open>yield\<close> up to the switch; the process resumes holding its lock and releases it.\<close>

definition yield_enter :: "'a kproc_scheme \<Rightarrow> 'a kproc_scheme outcome" where
  "yield_enter s =
     obind (acquire_lk (LkProc (myproc s)) s) (\<lambda>s.
     sched (p_upd (myproc s) (\<lambda>p. p\<lparr>pstate := RUNNABLE\<rparr>) s))"

definition yield_exit :: "'a kproc_scheme \<Rightarrow> 'a kproc_scheme outcome" where
  "yield_exit s = release_lk (LkProc (myproc s)) s"

definition sleep_enter :: "chan \<Rightarrow> lockid \<Rightarrow> 'a kproc_scheme \<Rightarrow> 'a kproc_scheme outcome" where
  "sleep_enter ch lk s =
     (let p = myproc s in
      obind (if lk \<noteq> LkProc p then obind (acquire_lk (LkProc p) s) (release_lk lk) else Ok s) (\<lambda>s.
      sched (p_upd p (\<lambda>p. p\<lparr>chan := Some ch, pstate := SLEEPING\<rparr>) s)))"

definition sleep_exit :: "lockid \<Rightarrow> 'a kproc_scheme \<Rightarrow> 'a kproc_scheme outcome" where
  "sleep_exit lk s =
     (let p = myproc s; s = p_upd p (\<lambda>p. p\<lparr>chan := None\<rparr>) s in
      if lk \<noteq> LkProc p then obind (release_lk (LkProc p) s) (acquire_lk lk) else Ok s)"

definition wakeup :: "chan \<Rightarrow> 'a kproc_scheme \<Rightarrow> 'a kproc_scheme outcome" where
  "wakeup ch s =
     ofold (\<lambda>i s. obind (acquire_lk (LkProc i) s) (\<lambda>s.
        let s = (if pstate (procs s ! i) = SLEEPING \<and> chan (procs s ! i) = Some ch
                 then p_upd i (\<lambda>p. p\<lparr>pstate := RUNNABLE\<rparr>) s else s)
        in release_lk (LkProc i) s)) [0..<NPROC] s"

definition wakeup1 :: "nat \<Rightarrow> 'a kproc_scheme \<Rightarrow> 'a kproc_scheme outcome" where
  "wakeup1 p s =
     (if LkProc p \<notin> set (held s) then Panic ''wakeup1''
      else if chan (procs s ! p) = Some (ChProc p) \<and> pstate (procs s ! p) = SLEEPING
      then Ok (p_upd p (\<lambda>p. p\<lparr>pstate := RUNNABLE\<rparr>) s) else Ok s)"

primrec kill_from :: "nat list \<Rightarrow> int \<Rightarrow> 'a kproc_scheme \<Rightarrow> (int \<times> 'a kproc_scheme) outcome" where
  "kill_from [] k s = Ok (-1, s)"
| "kill_from (i # is) k s =
     obind (acquire_lk (LkProc i) s) (\<lambda>s.
     if pid (procs s ! i) = k
     then let s = p_upd i (\<lambda>p. p\<lparr>killed := True\<rparr>) s;
              s = (if pstate (procs s ! i) = SLEEPING then p_upd i (\<lambda>p. p\<lparr>pstate := RUNNABLE\<rparr>) s else s)
          in obind (release_lk (LkProc i) s) (\<lambda>s. Ok (0, s))
     else obind (release_lk (LkProc i) s) (kill_from is k))"

definition kill :: "int \<Rightarrow> 'a kproc_scheme \<Rightarrow> (int \<times> 'a kproc_scheme) outcome" where
  "kill k s = kill_from [0..<NPROC] k s"

definition reparent :: "nat \<Rightarrow> 'a kproc_scheme \<Rightarrow> 'a kproc_scheme outcome" where
  "reparent p s =
     ofold (\<lambda>i s. if parent (procs s ! i) = Some p
        then obind (acquire_lk (LkProc i) s) (\<lambda>s.
             release_lk (LkProc i) (p_upd i (\<lambda>q. q\<lparr>parent := initproc s\<rparr>) s))
        else Ok s) [0..<NPROC] s"

text \<open>
  One pass of the scheduler over the table. What a process does between the switch to it and its
  switch back is the parameter \<open>run\<close>. The result lists the processes that were given the CPU. The
  assignment of \<^verbatim>\<open>c->intena\<close> concerns the interrupt flag only, which is in \<open>KSpin\<close>.
\<close>

primrec scheduler_pass ::
    "(nat \<Rightarrow> 'a kproc_scheme \<Rightarrow> 'a kproc_scheme outcome) \<Rightarrow> nat list \<Rightarrow> 'a kproc_scheme
      \<Rightarrow> (nat list \<times> 'a kproc_scheme) outcome" where
  "scheduler_pass run [] s = Ok ([], s)"
| "scheduler_pass run (i # is) s =
     obind (acquire_lk (LkProc i) s) (\<lambda>s.
     obind (if pstate (procs s ! i) = RUNNABLE
            then obind (run i ((p_upd i (\<lambda>p. p\<lparr>pstate := RUNNING\<rparr>) s)\<lparr>curp := Some i\<rparr>))
                   (\<lambda>s. Ok ([i], s\<lparr>curp := None\<rparr>))
            else Ok ([], s)) (\<lambda>(found, s).
     obind (release_lk (LkProc i) s) (\<lambda>s.
     obind (scheduler_pass run is s) (\<lambda>(found', s). Ok (found @ found', s)))))"

definition scheduler_round ::
    "(nat \<Rightarrow> 'a kproc_scheme \<Rightarrow> 'a kproc_scheme outcome) \<Rightarrow> 'a kproc_scheme
      \<Rightarrow> (nat list \<times> 'a kproc_scheme) outcome" where
  "scheduler_round run s = scheduler_pass run [0..<NPROC] s"

text \<open>The lines \<^verbatim>\<open>procdump\<close> prints: pid, state and name of every used slot.\<close>

definition state_name :: "procstate \<Rightarrow> string" where
  "state_name st = (case st of UNUSED \<Rightarrow> ''unused'' | SLEEPING \<Rightarrow> ''sleep '' | RUNNABLE \<Rightarrow> ''runble''
     | RUNNING \<Rightarrow> ''run   '' | ZOMBIE \<Rightarrow> ''zombie'')"

definition procdump :: "'a kproc_scheme \<Rightarrow> (int \<times> string \<times> u8 list) list" where
  "procdump s = map (\<lambda>p. (pid p, state_name (pstate p), takeWhile (\<lambda>c. c \<noteq> 0) (pname p)))
     (filter (\<lambda>p. pstate p \<noteq> UNUSED) (procs s))"

section \<open>Sleep locks\<close>

text \<open>
  \<^verbatim>\<open>struct sleeplock\<close> without its name. Sleep locks live inside buffers and inodes; the operations
  take the identity of the inner spin lock, the wait channel (the address of the lock itself), and
  how to read and write the lock in the state.
\<close>

record sleeplock =
  slk_locked :: bool
  slk_pid :: int

definition initsleeplock :: "sleeplock" where
  "initsleeplock = \<lparr>slk_locked = False, slk_pid = 0\<rparr>"

definition acquiresleep :: "lockid \<Rightarrow> chan \<Rightarrow> ('a kproc_scheme \<Rightarrow> sleeplock) \<Rightarrow>
    (sleeplock \<Rightarrow> 'a kproc_scheme \<Rightarrow> 'a kproc_scheme) \<Rightarrow> 'a kproc_scheme \<Rightarrow> 'a kproc_scheme outcome" where
  "acquiresleep lk ch get put s =
     obind (acquire_lk lk s) (\<lambda>s.
     if slk_locked (get s) then Sleep ch
     else release_lk lk (put \<lparr>slk_locked = True, slk_pid = pid (procs s ! myproc s)\<rparr> s))"

definition releasesleep :: "lockid \<Rightarrow> chan \<Rightarrow>
    (sleeplock \<Rightarrow> 'a kproc_scheme \<Rightarrow> 'a kproc_scheme) \<Rightarrow> 'a kproc_scheme \<Rightarrow> 'a kproc_scheme outcome" where
  "releasesleep lk ch put s =
     obind (acquire_lk lk s) (\<lambda>s.
     obind (wakeup ch (put \<lparr>slk_locked = False, slk_pid = 0\<rparr> s)) (release_lk lk))"

definition holdingsleep :: "lockid \<Rightarrow> ('a kproc_scheme \<Rightarrow> sleeplock) \<Rightarrow> 'a kproc_scheme
    \<Rightarrow> (bool \<times> 'a kproc_scheme) outcome" where
  "holdingsleep lk get s =
     obind (acquire_lk lk s) (\<lambda>s.
     let r = (slk_locked (get s) \<and> slk_pid (get s) = pid (procs s ! myproc s)) in
     obind (release_lk lk s) (\<lambda>s. Ok (r, s)))"

section \<open>Effects\<close>

lemma p_upd_simps [simp]:
  "held (p_upd i f s) = held s" "curp (p_upd i f s) = curp s" "nextpid (p_upd i f s) = nextpid s"
  "initproc (p_upd i f s) = initproc s" "length (procs (p_upd i f s)) = length (procs s)"
  "procs (p_upd i f s) = (procs s)[i := f (procs s ! i)]"
  by (simp_all add: p_upd_def)

text \<open>No lock of the process table is held: the precondition of \<^verbatim>\<open>wakeup\<close>.\<close>

definition no_proc_lock :: "'a kbase_scheme \<Rightarrow> bool" where
  "no_proc_lock s \<longleftrightarrow> (\<forall>i. LkProc i \<notin> set (held s))"

definition wake_proc :: "chan \<Rightarrow> proc \<Rightarrow> proc" where
  "wake_proc ch p = (if pstate p = SLEEPING \<and> chan p = Some ch then p\<lparr>pstate := RUNNABLE\<rparr> else p)"

lemma map_prefix_update:
  "i < length xs \<Longrightarrow> (map f (take i xs) @ drop i xs)[i := f (xs ! i)] = map f (take (Suc i) xs) @ drop (Suc i) xs"
  by (simp add: list_update_append take_Suc_conv_app_nth Cons_nth_drop_Suc [symmetric])

lemma ofold_table:
  fixes s :: "'a kproc_scheme"
  assumes step: "\<And>i ps. i < n \<Longrightarrow> length ps = length (procs s) \<Longrightarrow> ps ! i = procs s ! i \<Longrightarrow>
      g i (s\<lparr>procs := ps\<rparr>) = Ok (s\<lparr>procs := ps[i := f (procs s ! i)]\<rparr>)"
    and n: "n \<le> length (procs s)"
  shows "ofold g [0..<n] s = Ok (s\<lparr>procs := map f (take n (procs s)) @ drop n (procs s)\<rparr>)"
  using assms
proof (induction n)
  case 0
  then show ?case by simp
next
  case (Suc n)
  let ?ps = "map f (take n (procs s)) @ drop n (procs s)"
  have IH: "ofold g [0..<n] s = Ok (s\<lparr>procs := ?ps\<rparr>)" using Suc.prems by (intro Suc.IH) auto
  have "g n (s\<lparr>procs := ?ps\<rparr>) = Ok (s\<lparr>procs := ?ps[n := f (procs s ! n)]\<rparr>)"
    using Suc.prems by (intro Suc.prems(1)) (simp_all add: nth_append)
  also have "?ps[n := f (procs s ! n)] = map f (take (Suc n) (procs s)) @ drop (Suc n) (procs s)"
    using map_prefix_update[of n "procs s" f] Suc.prems by simp
  finally show ?case using IH by (simp add: ofold_append)
qed

definition wakeup_at :: "chan \<Rightarrow> nat \<Rightarrow> 'a kproc_scheme \<Rightarrow> 'a kproc_scheme outcome" where
  "wakeup_at ch i s = obind (acquire_lk (LkProc i) s) (\<lambda>s.
        let s = (if pstate (procs s ! i) = SLEEPING \<and> chan (procs s ! i) = Some ch
                 then p_upd i (\<lambda>p. p\<lparr>pstate := RUNNABLE\<rparr>) s else s)
        in release_lk (LkProc i) s)"

lemma wakeup_eq: "wakeup ch s = ofold (wakeup_at ch) [0..<NPROC] s"
  by (simp add: wakeup_def wakeup_at_def [abs_def])

lemma wakeup_prefix:
  assumes "n \<le> length (procs s)" and "\<And>i. i < n \<Longrightarrow> LkProc i \<notin> set (held s)"
  shows "ofold (wakeup_at ch) [0..<n] s = Ok (s\<lparr>procs := map (wake_proc ch) (take n (procs s)) @ drop n (procs s)\<rparr>)"
proof (rule ofold_table)
  fix i ps assume "i < n" "length ps = length (procs s)" "ps ! i = procs s ! i"
  moreover from this have "ps[i := procs s ! i] = ps" by (metis list_update_id)
  ultimately show "wakeup_at ch i (s\<lparr>procs := ps\<rparr>) = Ok (s\<lparr>procs := ps[i := wake_proc ch (procs s ! i)]\<rparr>)"
    using assms by (auto simp: wakeup_at_def wake_proc_def p_upd_def Let_def)
qed (rule assms(1))

lemma wakeup_Ok:
  assumes "length (procs s) = NPROC" and "no_proc_lock s"
  shows "wakeup ch s = Ok (s\<lparr>procs := map (wake_proc ch) (procs s)\<rparr>)"
  using wakeup_prefix[of NPROC s ch] assms by (simp add: wakeup_eq no_proc_lock_def)

lemma wakeup_Panic:
  assumes "length (procs s) = NPROC" and "i < NPROC" and "LkProc i \<in> set (held s)"
  shows "wakeup ch s = Panic ''acquire''"
proof -
  let ?P = "\<lambda>i. i < NPROC \<and> LkProc i \<in> set (held s)"
  define k where "k = (LEAST i. ?P i)"
  have k: "k < NPROC" "LkProc k \<in> set (held s)" using LeastI[of ?P i] assms by (simp_all add: k_def)
  have "LkProc j \<notin> set (held s)" if "j < k" for j
    using not_less_Least[of j ?P] that k by (auto simp: k_def)
  then have pre: "ofold (wakeup_at ch) [0..<k] s
      = Ok (s\<lparr>procs := map (wake_proc ch) (take k (procs s)) @ drop k (procs s)\<rparr>)"
    using k assms(1) by (intro wakeup_prefix) auto
  have "[0..<NPROC] = [0..<k] @ k # [Suc k..<NPROC]"
    using k(1) by (metis upt_conv_Cons upt_add_eq_append le_add_diff_inverse less_imp_le zero_le)
  then show ?thesis using k by (simp add: wakeup_eq ofold_append pre wakeup_at_def acquire_lk_def)
qed

text \<open>Killing marks the first slot with the given pid; the scan never leaves a lock held.\<close>

definition kill_proc :: "proc \<Rightarrow> proc" where
  "kill_proc p = p\<lparr>killed := True, pstate := (if pstate p = SLEEPING then RUNNABLE else pstate p)\<rparr>"

lemma kill_from_Ok:
  assumes "no_proc_lock s" and "\<forall>i \<in> set is. i < length (procs s)"
  shows "kill_from is k s = Ok (case find (\<lambda>i. pid (procs s ! i) = k) is of
      None \<Rightarrow> (-1, s) | Some i \<Rightarrow> (0, p_upd i kill_proc s))"
  using assms
proof (induction "is")
  case Nil
  then show ?case by simp
next
  case (Cons i "is")
  have "LkProc i \<notin> set (held s)" using Cons.prems by (simp add: no_proc_lock_def)
  with Cons show ?case by (auto simp: Let_def p_upd_def kill_proc_def)
qed

lemma reparent_Ok:
  assumes "length (procs s) = NPROC" and "\<forall>i < NPROC. parent (procs s ! i) = Some p \<longrightarrow> LkProc i \<notin> set (held s)"
  shows "reparent p s = Ok (s\<lparr>procs := map (\<lambda>q. if parent q = Some p then q\<lparr>parent := initproc s\<rparr> else q) (procs s)\<rparr>)"
proof -
  let ?f = "\<lambda>q. if parent q = Some p then q\<lparr>parent := initproc s\<rparr> else q"
  have "reparent p s = Ok (s\<lparr>procs := map ?f (take NPROC (procs s)) @ drop NPROC (procs s)\<rparr>)"
    unfolding reparent_def
  proof (rule ofold_table)
    fix i ps assume i: "i < NPROC" "length ps = length (procs s)" "ps ! i = procs s ! i"
    moreover from this have "ps[i := procs s ! i] = ps" by (metis list_update_id)
    ultimately show "(if parent (procs (s\<lparr>procs := ps\<rparr>) ! i) = Some p
        then obind (acquire_lk (LkProc i) (s\<lparr>procs := ps\<rparr>)) (\<lambda>s.
             release_lk (LkProc i) (p_upd i (\<lambda>q. q\<lparr>parent := initproc s\<rparr>) s))
        else Ok (s\<lparr>procs := ps\<rparr>)) = Ok (s\<lparr>procs := ps[i := ?f (procs s ! i)]\<rparr>)"
      using assms by (auto simp: p_upd_def)
  qed (simp add: assms(1))
  then show ?thesis using assms(1) by simp
qed

section \<open>The interface of sleep locks\<close>

text \<open>
  A place in the state that holds a sleep lock: what the operations need to know of the accessor
  functions. Buffers and inodes each provide one such place per table entry.
\<close>

locale sleeplock_place =
  fixes lk :: lockid and ch :: chan
    and get :: "'a kproc_scheme \<Rightarrow> sleeplock" and put :: "sleeplock \<Rightarrow> 'a kproc_scheme \<Rightarrow> 'a kproc_scheme"
  assumes get_held: "get (s\<lparr>held := h\<rparr>) = get s"
    and put_held: "put l (s\<lparr>held := h\<rparr>) = (put l s)\<lparr>held := h\<rparr>"
    and held_put: "held (put l s) = held s"
    and procs_put: "procs (put l s) = procs s"
    and not_proc: "\<And>i. lk \<noteq> LkProc i"
begin

lemma acquiresleep_Ok:
  assumes "lk \<notin> set (held s)" and "\<not> slk_locked (get s)"
  shows "acquiresleep lk ch get put s = Ok (put \<lparr>slk_locked = True, slk_pid = pid (procs s ! myproc s)\<rparr> s)"
  using assms by (simp add: acquiresleep_def get_held put_held held_put)

lemma acquiresleep_Sleep:
  "lk \<notin> set (held s) \<Longrightarrow> slk_locked (get s) \<Longrightarrow> acquiresleep lk ch get put s = Sleep ch"
  by (simp add: acquiresleep_def get_held)

lemma holdingsleep_Ok:
  "lk \<notin> set (held s) \<Longrightarrow>
   holdingsleep lk get s = Ok (slk_locked (get s) \<and> slk_pid (get s) = pid (procs s ! myproc s), s)"
  by (simp add: holdingsleep_def get_held Let_def)

lemma releasesleep_Ok:
  assumes "lk \<notin> set (held s)" and "no_proc_lock s" and "length (procs s) = NPROC"
  shows "releasesleep lk ch put s =
    Ok ((put \<lparr>slk_locked = False, slk_pid = 0\<rparr> s)\<lparr>procs := map (wake_proc ch) (procs s)\<rparr>)"
proof -
  let ?s = "put \<lparr>slk_locked = False, slk_pid = 0\<rparr> (s\<lparr>held := lk # held s\<rparr>)"
  have "wakeup ch ?s = Ok (?s\<lparr>procs := map (wake_proc ch) (procs ?s)\<rparr>)"
    using assms not_proc by (intro wakeup_Ok) (auto simp: no_proc_lock_def held_put procs_put)
  then show ?thesis using assms by (simp add: releasesleep_def held_put procs_put put_held)
qed

end

section \<open>Interleaving of sleep and wakeup\<close>

text \<open>
  One process waits under lock \<open>lk\<close> for a condition with \<^verbatim>\<open>while(!cond) sleep(chan, lk)\<close> and
  another sets the condition under \<open>lk\<close> and calls \<^verbatim>\<open>wakeup(chan)\<close>, on different harts. Each rule
  is the code between two lock operations of \<^verbatim>\<open>sleep\<close>, \<^verbatim>\<open>wakeup\<close>, \<^verbatim>\<open>scheduler\<close> or \<^verbatim>\<open>kill\<close>.
\<close>

datatype agent = Sleeper | Waker

datatype sleeper_pc =
    S_out      \<comment> \<open>not interested\<close>
  | S_check    \<comment> \<open>holds \<open>lk\<close>, tests the condition\<close>
  | S_plock    \<comment> \<open>in \<^verbatim>\<open>sleep\<close>, about to acquire \<^verbatim>\<open>p->lock\<close>\<close>
  | S_rel      \<comment> \<open>holds both, about to release \<open>lk\<close>\<close>
  | S_commit   \<comment> \<open>holds \<^verbatim>\<open>p->lock\<close>, about to set \<^verbatim>\<open>chan\<close> and \<^verbatim>\<open>SLEEPING\<close> and to switch\<close>
  | S_gone     \<comment> \<open>off the CPU\<close>
  | S_woken    \<comment> \<open>switched back to, holds \<^verbatim>\<open>p->lock\<close>\<close>
  | S_reacq    \<comment> \<open>about to reacquire \<open>lk\<close>\<close>
  | S_done     \<comment> \<open>holds \<open>lk\<close> and has seen the condition\<close>

datatype waker_pc =
    W_out
  | W_set      \<comment> \<open>holds \<open>lk\<close>, about to set the condition\<close>
  | W_wake     \<comment> \<open>in \<^verbatim>\<open>wakeup\<close>, about to acquire \<^verbatim>\<open>p->lock\<close>\<close>
  | W_test     \<comment> \<open>holds \<open>lk\<close> and \<^verbatim>\<open>p->lock\<close>\<close>
  | W_rel      \<comment> \<open>about to release \<open>lk\<close>\<close>

record sw =
  cond :: bool
  sw_state :: procstate
  on_chan :: bool
  lk_own :: "agent option"
  pl_own :: "agent option"
  spc :: sleeper_pc
  wpc :: waker_pc

inductive sleeper_step :: "sw \<Rightarrow> sw \<Rightarrow> bool" where
  s_start: "spc S = S_out \<Longrightarrow> lk_own S = None \<Longrightarrow> sleeper_step S (S\<lparr>lk_own := Some Sleeper, spc := S_check\<rparr>)"
| s_true: "spc S = S_check \<Longrightarrow> cond S \<Longrightarrow> sleeper_step S (S\<lparr>spc := S_done\<rparr>)"
| s_false: "spc S = S_check \<Longrightarrow> \<not> cond S \<Longrightarrow> sleeper_step S (S\<lparr>spc := S_plock\<rparr>)"
| s_plock: "spc S = S_plock \<Longrightarrow> pl_own S = None \<Longrightarrow> sleeper_step S (S\<lparr>pl_own := Some Sleeper, spc := S_rel\<rparr>)"
| s_rel: "spc S = S_rel \<Longrightarrow> sleeper_step S (S\<lparr>lk_own := None, spc := S_commit\<rparr>)"
| s_commit: "spc S = S_commit \<Longrightarrow>
    sleeper_step S (S\<lparr>on_chan := True, sw_state := SLEEPING, pl_own := None, spc := S_gone\<rparr>)"
| s_resume: "spc S = S_gone \<Longrightarrow> sw_state S = RUNNABLE \<Longrightarrow> pl_own S = None \<Longrightarrow>
    sleeper_step S (S\<lparr>pl_own := Some Sleeper, sw_state := RUNNING, spc := S_woken\<rparr>)"
| s_tidy: "spc S = S_woken \<Longrightarrow> sleeper_step S (S\<lparr>on_chan := False, pl_own := None, spc := S_reacq\<rparr>)"
| s_reacq: "spc S = S_reacq \<Longrightarrow> lk_own S = None \<Longrightarrow> sleeper_step S (S\<lparr>lk_own := Some Sleeper, spc := S_check\<rparr>)"
| s_done: "spc S = S_done \<Longrightarrow> sleeper_step S (S\<lparr>cond := False, lk_own := None, spc := S_out\<rparr>)"

inductive other_step :: "sw \<Rightarrow> sw \<Rightarrow> bool" where
  w_start: "wpc S = W_out \<Longrightarrow> lk_own S = None \<Longrightarrow> other_step S (S\<lparr>lk_own := Some Waker, wpc := W_set\<rparr>)"
| w_set: "wpc S = W_set \<Longrightarrow> other_step S (S\<lparr>cond := True, wpc := W_wake\<rparr>)"
| w_wake: "wpc S = W_wake \<Longrightarrow> pl_own S = None \<Longrightarrow> other_step S (S\<lparr>pl_own := Some Waker, wpc := W_test\<rparr>)"
| w_test: "wpc S = W_test \<Longrightarrow>
    other_step S (S\<lparr>sw_state := (if sw_state S = SLEEPING \<and> on_chan S then RUNNABLE else sw_state S),
                    pl_own := None, wpc := W_rel\<rparr>)"
| w_rel: "wpc S = W_rel \<Longrightarrow> other_step S (S\<lparr>lk_own := None, wpc := W_out\<rparr>)"
| killed: "pl_own S = None \<Longrightarrow> sw_state S = SLEEPING \<Longrightarrow> other_step S (S\<lparr>sw_state := RUNNABLE\<rparr>)"

definition sw_step :: "sw \<Rightarrow> sw \<Rightarrow> bool" where
  "sw_step S T \<longleftrightarrow> sleeper_step S T \<or> other_step S T"

definition sw_init :: sw where
  "sw_init = \<lparr>cond = False, sw_state = RUNNING, on_chan = False, lk_own = None, pl_own = None,
     spc = S_out, wpc = W_out\<rparr>"

definition sw_inv :: "sw \<Rightarrow> bool" where
  "sw_inv S \<longleftrightarrow>
     (lk_own S = Some Sleeper \<longleftrightarrow> spc S \<in> {S_check, S_plock, S_rel, S_done})
   \<and> (lk_own S = Some Waker \<longleftrightarrow> wpc S \<noteq> W_out)
   \<and> (pl_own S = Some Sleeper \<longleftrightarrow> spc S \<in> {S_rel, S_commit, S_woken})
   \<and> (pl_own S = Some Waker \<longleftrightarrow> wpc S = W_test)
   \<and> (spc S = S_gone \<longrightarrow> sw_state S \<in> {SLEEPING, RUNNABLE} \<and> on_chan S)
   \<and> (spc S \<noteq> S_gone \<longrightarrow> sw_state S = RUNNING)
   \<and> (spc S \<in> {S_plock, S_rel} \<longrightarrow> \<not> cond S)
   \<and> (spc S = S_done \<longrightarrow> cond S)
   \<and> (spc S = S_commit \<and> cond S \<longrightarrow> wpc S = W_wake)
   \<and> (spc S = S_gone \<and> sw_state S = SLEEPING \<and> cond S \<longrightarrow> wpc S \<in> {W_wake, W_test})"

lemma sw_inv_init: "sw_inv sw_init"
  by (simp add: sw_inv_def sw_init_def)

lemma sw_inv_step: "sw_step S T \<Longrightarrow> sw_inv S \<Longrightarrow> sw_inv T"
  unfolding sw_step_def
proof (elim disjE)
  assume "sleeper_step S T" "sw_inv S"
  then show "sw_inv T" 
    by (cases rule: sleeper_step.cases) (cases "wpc S"; auto simp: sw_inv_def; fail)+
next
  assume "other_step S T" "sw_inv S"
  then show "sw_inv T" 
    by (cases rule: other_step.cases) (cases "spc S"; auto simp: sw_inv_def; fail)+
qed

text \<open>The sleeper's own steps from each point where the condition already holds.\<close>

lemma sleeper_finishes:
  assumes "sw_inv S" and "cond S" and "wpc S = W_out" and "spc S \<noteq> S_out"
  shows "\<exists>T. sleeper_step\<^sup>*\<^sup>* S T \<and> spc T = S_done"
proof -
  note inv = assms(1)[unfolded sw_inv_def]
  have lk: "lk_own S \<noteq> Some Waker" and pl: "pl_own S \<noteq> Some Waker" using inv assms(3) by auto
  have check: "\<exists>T. sleeper_step\<^sup>*\<^sup>* U T \<and> spc T = S_done" if "spc U = S_check" "cond U" for U
    using s_true[OF that] by (intro exI[of _ "U\<lparr>spc := S_done\<rparr>"]) auto
  have reacq: "\<exists>T. sleeper_step\<^sup>*\<^sup>* U T \<and> spc T = S_done" if "spc U = S_reacq" "cond U" "lk_own U = None" for U
    using check[of "U\<lparr>lk_own := Some Sleeper, spc := S_check\<rparr>"] s_reacq[OF that(1,3)] that(2)
    by (auto intro: converse_rtranclp_into_rtranclp)
  have woken: "\<exists>T. sleeper_step\<^sup>*\<^sup>* U T \<and> spc T = S_done" if "spc U = S_woken" "cond U" "lk_own U = None" for U
    using reacq[of "U\<lparr>on_chan := False, pl_own := None, spc := S_reacq\<rparr>"] s_tidy[OF that(1)] that(2,3)
    by (auto intro: converse_rtranclp_into_rtranclp)
  have own_cases: "a = None \<or> a = Some Sleeper \<or> a = Some Waker" for a
    by (metis (full_types) agent.exhaust option.exhaust)
  show ?thesis
  proof (cases "spc S")
    case S_gone
    then have "sw_state S = RUNNABLE" "pl_own S = None" "lk_own S = None"
      using inv assms own_cases[of "pl_own S"] own_cases[of "lk_own S"] by auto
    then show ?thesis
      using woken[of "S\<lparr>pl_own := Some Sleeper, sw_state := RUNNING, spc := S_woken\<rparr>"] s_resume[OF S_gone] assms(2)
      by (auto intro: converse_rtranclp_into_rtranclp)
  next
    case S_woken
    then have "lk_own S = None" using inv lk own_cases[of "lk_own S"] by auto
    then show ?thesis using woken S_woken assms(2) by auto
  next
    case S_reacq
    then have "lk_own S = None" using inv lk own_cases[of "lk_own S"] by auto
    then show ?thesis using reacq S_reacq assms(2) by auto
  qed (use inv assms check[of S] in auto)
qed

section \<open>Properties\<close>

text \<open>
  C3. No lost wakeup. In every interleaving of a process that waits in \<^verbatim>\<open>sleep\<close> for a condition
  protected by a lock and another that sets the condition under that lock and calls \<^verbatim>\<open>wakeup\<close>:
  once the waker has released the lock with the condition set, the waiting process is not left
  sleeping, and its own steps alone take it back to the test, where it sees the condition.
\<close>

theorem no_lost_wakeup:
  assumes "sw_step\<^sup>*\<^sup>* sw_init S" and "cond S" and "wpc S = W_out" and "spc S \<noteq> S_out"
  shows "\<not> (spc S = S_gone \<and> sw_state S = SLEEPING) \<and> (\<exists>T. sleeper_step\<^sup>*\<^sup>* S T \<and> spc T = S_done)"
proof -
  have "sw_inv S" using assms(1) by (induction rule: rtranclp_induct) (auto intro: sw_inv_init sw_inv_step)
  then show ?thesis using sleeper_finishes[of S] assms by (auto simp: sw_inv_def)
qed

theorem no_lost_wakeup_witness:
  "\<exists>S T. cond S \<and> wpc S = W_out \<and> sw_step\<^sup>*\<^sup>* sw_init S \<and> sleeper_step\<^sup>*\<^sup>* S T \<and> spc T = S_done"
proof -
  let ?S1 = "sw_init\<lparr>lk_own := Some Waker, wpc := W_set\<rparr>"
  let ?S2 = "?S1\<lparr>cond := True, wpc := W_wake\<rparr>"
  let ?S3 = "?S2\<lparr>pl_own := Some Waker, wpc := W_test\<rparr>"
  let ?S4 = "?S3\<lparr>sw_state := (if sw_state ?S3 = SLEEPING \<and> on_chan ?S3 then RUNNABLE else sw_state ?S3), pl_own := None, wpc := W_rel\<rparr>"
  let ?S5 = "?S4\<lparr>lk_own := None, wpc := W_out\<rparr>"
  let ?S6 = "?S5\<lparr>lk_own := Some Sleeper, spc := S_check\<rparr>"
  have "sw_step sw_init ?S1" unfolding sw_step_def by (intro disjI2 w_start) (simp_all add: sw_init_def)
  moreover have "sw_step ?S1 ?S2" unfolding sw_step_def by (intro disjI2 w_set) simp
  moreover have "sw_step ?S2 ?S3" unfolding sw_step_def by (intro disjI2 w_wake) (simp_all add: sw_init_def)
  moreover have "sw_step ?S3 ?S4" unfolding sw_step_def by (intro disjI2 w_test) simp
  moreover have "sw_step ?S4 ?S5" unfolding sw_step_def by (intro disjI2 w_rel) simp
  moreover have "sw_step ?S5 ?S6" unfolding sw_step_def by (intro disjI1 s_start) (simp_all add: sw_init_def)
  ultimately have r: "sw_step\<^sup>*\<^sup>* sw_init ?S6"
    by (meson rtranclp.rtrancl_refl rtranclp.rtrancl_into_rtrancl)
  have "cond ?S6" "wpc ?S6 = W_out" "spc ?S6 \<noteq> S_out" by simp_all
  with r show ?thesis using no_lost_wakeup[OF r] by blast
qed

text \<open>
  C37. \<^verbatim>\<open>wakeup\<close>, called with no process lock held, returns with the same locks held; the processes
  sleeping on the channel become \<^verbatim>\<open>RUNNABLE\<close> and nothing else of the state changes. Called with
  the lock of some process held it panics.
\<close>

theorem wakeup_exact:
  assumes "length (procs s) = NPROC"
  shows "(no_proc_lock s \<longrightarrow> wakeup ch s = Ok (s\<lparr>procs := map (\<lambda>p.
            if pstate p = SLEEPING \<and> chan p = Some ch then p\<lparr>pstate := RUNNABLE\<rparr> else p) (procs s)\<rparr>))
    \<and> (\<forall>i < NPROC. LkProc i \<in> set (held s) \<longrightarrow> wakeup ch s = Panic ''acquire'')"
  using wakeup_Ok[OF assms, of ch] wakeup_Panic[OF assms] by (auto simp: wake_proc_def [abs_def])

theorem wakeup_exact_witness:
  "wakeup ChTicks boot_procs = Ok boot_procs"
  using wakeup_exact[of boot_procs ChTicks]
  by (simp add: no_proc_lock_def boot_procs_def zero_proc_def)

text \<open>
  C20. A process never sleeps holding a spin lock other than its own. \<^verbatim>\<open>sleep(chan, lk)\<close> gives up the
  CPU exactly when \<open>lk\<close> is the only lock held, also when it is the process's own lock, as in \<^verbatim>\<open>wait\<close>: then
  the process is \<^verbatim>\<open>SLEEPING\<close> on \<open>chan\<close> with only its own lock held and nothing else changed. In
  every other case it panics: in \<^verbatim>\<open>acquire\<close> when it holds its own lock besides, in \<^verbatim>\<open>release\<close> or
  \<^verbatim>\<open>sched\<close> when it does not hold \<open>lk\<close>, and in \<^verbatim>\<open>sched\<close> when it holds a further lock. Resumed with only its
  own lock held, whatever the others did meanwhile, it leaves \<^verbatim>\<open>sleep\<close> with exactly \<open>lk\<close> held and no channel.
\<close>

theorem sleep_lock_discipline:
  fixes s :: "'a kproc_scheme"
  assumes "curp s = Some p" and "p < length (procs s)"
  shows "sleep_enter ch lk s =
      (if held s = [lk] then Ok (s\<lparr>held := [LkProc p], procs := (procs s)[p := (procs s ! p)\<lparr>chan := Some ch, pstate := SLEEPING\<rparr>]\<rparr>)
       else if lk \<noteq> LkProc p \<and> LkProc p \<in> set (held s) then Panic ''acquire''
       else if lk \<notin> set (held s) then Panic (if lk = LkProc p then ''sched p->lock'' else ''release'')
       else Panic ''sched locks'')
    \<and> (\<forall>t :: 'a kproc_scheme. curp t = Some p \<longrightarrow> held t = [LkProc p] \<longrightarrow>
         sleep_exit lk t = Ok (t\<lparr>held := [lk], procs := (procs t)[p := (procs t ! p)\<lparr>chan := None\<rparr>]\<rparr>))"
proof
  show "sleep_enter ch lk s =
      (if held s = [lk] then Ok (s\<lparr>held := [LkProc p], procs := (procs s)[p := (procs s ! p)\<lparr>chan := Some ch, pstate := SLEEPING\<rparr>]\<rparr>)
       else if lk \<noteq> LkProc p \<and> LkProc p \<in> set (held s) then Panic ''acquire''
       else if lk \<notin> set (held s) then Panic (if lk = LkProc p then ''sched p->lock'' else ''release'')
       else Panic ''sched locks'')"
  proof (cases "held s = [lk]")
    case True
    then show ?thesis
      using assms by (auto simp: sleep_enter_def sched_def p_upd_def)
  next
    case False
    then have "length (held s) \<noteq> 1 \<and> remove1 lk (held s) \<noteq> []" if "lk \<in> set (held s)"
      using that by (cases "held s") (auto split: if_splits)
    with False show ?thesis
      using assms by (auto simp: sleep_enter_def sched_def p_upd_def acquire_lk_def release_lk_def)
  qed
  show "\<forall>t :: 'a kproc_scheme. curp t = Some p \<longrightarrow> held t = [LkProc p] \<longrightarrow>
         sleep_exit lk t = Ok (t\<lparr>held := [lk], procs := (procs t)[p := (procs t ! p)\<lparr>chan := None\<rparr>]\<rparr>)"
  proof (intro allI impI)
    fix t :: "'a kproc_scheme" assume "curp t = Some p" "held t = [LkProc p]"
    moreover from this have "t\<lparr>held := [LkProc p], procs := ps\<rparr> = t\<lparr>procs := ps\<rparr>" for ps by (cases t) simp
    ultimately show "sleep_exit lk t = Ok (t\<lparr>held := [lk], procs := (procs t)[p := (procs t ! p)\<lparr>chan := None\<rparr>]\<rparr>)"
      by (simp add: sleep_exit_def p_upd_def Let_def)
  qed
qed

theorem sleep_lock_discipline_witness:
  "returns (sleep_enter ChTicks LkTicks (boot_procs\<lparr>held := [LkTicks], curp := Some 3\<rparr>)) (\<lambda>s. held s = [LkProc 3])
   \<and> returns (sleep_enter (ChProc 3) (LkProc 3) (boot_procs\<lparr>held := [LkProc 3], curp := Some 3\<rparr>)) (\<lambda>s. held s = [LkProc 3])
   \<and> sleep_enter (ChProc 3) LkTicks (boot_procs\<lparr>held := [LkTicks, LkKmem], curp := Some 3\<rparr>) = Panic ''sched locks''"
  using sleep_lock_discipline[of "boot_procs\<lparr>held := [LkTicks], curp := Some 3\<rparr>" 3 ChTicks LkTicks]
    sleep_lock_discipline[of "boot_procs\<lparr>held := [LkProc 3], curp := Some 3\<rparr>" 3 "ChProc 3" "LkProc 3"]
    sleep_lock_discipline[of "boot_procs\<lparr>held := [LkTicks, LkKmem], curp := Some 3\<rparr>" 3 "ChProc 3" LkTicks]
  by (auto simp: boot_procs_def NPROC_def)

text \<open>
  \<^verbatim>\<open>kill(pid)\<close> returns 0 and marks exactly the first slot that carries the pid, waking it if
  it sleeps, or returns -1 and changes nothing when no slot carries it; no lock is left held.
\<close>

theorem kill_exact:
  assumes "length (procs s) = NPROC" and "no_proc_lock s"
  shows "kill k s = (case find (\<lambda>i. pid (procs s ! i) = k) [0..<NPROC] of
      None \<Rightarrow> Ok (-1, s)
    | Some i \<Rightarrow> Ok (0, s\<lparr>procs := (procs s)[i := (procs s ! i)\<lparr>killed := True,
        pstate := (if pstate (procs s ! i) = SLEEPING then RUNNABLE else pstate (procs s ! i))\<rparr>]\<rparr>))"
  using kill_from_Ok[of s "[0..<NPROC]" k] assms
  by (auto simp: kill_def p_upd_def kill_proc_def split: option.split)

theorem kill_exact_witness:
  "kill 7 boot_procs = Ok (-1, boot_procs)"
proof -
  have "find (\<lambda>i. pid (procs boot_procs ! i) = 7) [0..<NPROC] = None"
    by (simp add: find_None_iff boot_procs_def zero_proc_def)
  then show ?thesis
    using kill_exact[of boot_procs 7] by (simp add: boot_procs_def no_proc_lock_def)
qed

end
