(* ===== verification/KBytes.thy ===== *)
theory KBytes
  imports KString
begin

text \<open>
  Little-endian layout of machine integers in byte arrays and in memory, used wherever the C code
  reads a structure through a pointer cast: page-table entries and free-list links in memory,
  log headers, inodes, directory entries and the superblock in disk blocks. The round-trip lemmas
  are shared by all of them.
\<close>

section \<open>Encoding\<close>

definition le_bytes :: "nat \<Rightarrow> 'a::len word \<Rightarrow> u8 list" where
  "le_bytes n w = map (\<lambda>i. ucast (drop_bit (8 * i) w)) [0..<n]"

primrec le_word :: "u8 list \<Rightarrow> 'a::len word" where
  "le_word [] = 0"
| "le_word (b # bs) = ucast b OR push_bit 8 (le_word bs)"

lemma length_le_bytes [simp]: "length (le_bytes n w) = n"
  by (simp add: le_bytes_def)

lemma bit_le_word:
  "bit (le_word bs :: 'a::len word) k \<longleftrightarrow> k < LENGTH('a) \<and> k < 8 * length bs \<and> bit (bs ! (k div 8)) (k mod 8)"
proof (induction bs arbitrary: k)
  case Nil
  show ?case by simp
next
  case (Cons b bs)
  show ?case
  proof (cases "k < 8")
    case True
    then show ?thesis
      by (auto simp: bit_or_iff bit_push_bit_iff bit_ucast_iff bit_imp_le_length dest: bit_imp_le_length)
  next
    case False
    then have k: "k div 8 = Suc ((k - 8) div 8)" "k mod 8 = (k - 8) mod 8"
      by (simp_all add: le_div_geq le_mod_geq)
    have "\<not> bit b k" using False by (auto dest: bit_imp_le_length)
    then show ?thesis using False Cons[of "k - 8"] k
      by (auto simp: bit_or_iff bit_push_bit_iff bit_ucast_iff)
  qed
qed

lemma le_word_bytes: "le_word (le_bytes n (w :: 'a::len word)) = take_bit (8 * n) w"
proof (rule bit_word_eqI)
  fix k assume k: "k < LENGTH('a)"
  show "bit (le_word (le_bytes n w) :: 'a word) k \<longleftrightarrow> bit (take_bit (8 * n) w) k"
  proof (cases "k < 8 * n")
    case True
    then have "k div 8 < n" by auto
    then show ?thesis using True k
      by (simp add: bit_le_word le_bytes_def bit_ucast_iff bit_drop_bit_eq bit_take_bit_iff)
  qed (auto simp: bit_le_word bit_take_bit_iff)
qed

lemma le_bytes_word:
  assumes "length bs = n" and "8 * n \<le> LENGTH('a)"
  shows "le_bytes n (le_word bs :: 'a::len word) = bs"
proof (rule nth_equalityI)
  show "length (le_bytes n (le_word bs :: 'a word)) = length bs" using assms by simp
  fix i assume "i < length (le_bytes n (le_word bs :: 'a word))"
  then have i: "i < n" by simp
  show "le_bytes n (le_word bs :: 'a word) ! i = bs ! i"
  proof (rule bit_word_eqI)
    fix k assume "k < LENGTH(8)"
    then have k: "k < 8" by simp
    then have "8 * i + k < 8 * n" "(8 * i + k) div 8 = i" "(8 * i + k) mod 8 = k" using i by auto
    then show "bit (le_bytes n (le_word bs :: 'a word) ! i) k = bit (bs ! i) k"
      using i k assms by (simp add: le_bytes_def bit_ucast_iff bit_drop_bit_eq bit_le_word)
  qed
qed

section \<open>Integers in byte arrays\<close>

definition get16 :: "u8 list \<Rightarrow> nat \<Rightarrow> u16" where
  "get16 bs off = le_word (take 2 (drop off bs))"

definition put16 :: "nat \<Rightarrow> u16 \<Rightarrow> u8 list \<Rightarrow> u8 list" where
  "put16 off v bs = splice bs off (le_bytes 2 v)"

definition get32 :: "u8 list \<Rightarrow> nat \<Rightarrow> u32" where
  "get32 bs off = le_word (take 4 (drop off bs))"

definition put32 :: "nat \<Rightarrow> u32 \<Rightarrow> u8 list \<Rightarrow> u8 list" where
  "put32 off v bs = splice bs off (le_bytes 4 v)"

lemma length_put32 [simp]: "off + 4 \<le> length bs \<Longrightarrow> length (put32 off v bs) = length bs"
  by (simp add: put32_def)

lemma length_put16 [simp]: "off + 2 \<le> length bs \<Longrightarrow> length (put16 off v bs) = length bs"
  by (simp add: put16_def)

lemma get32_put32 [simp]: "off + 4 \<le> length bs \<Longrightarrow> get32 (put32 off v bs) off = v"
  using splice_self_slice[of off "le_bytes 4 v" bs] le_word_bytes[of 4 v]
  by (simp add: get32_def put32_def take_bit_word_eq_self)

lemma get16_put16 [simp]: "off + 2 \<le> length bs \<Longrightarrow> get16 (put16 off v bs) off = v"
  using splice_self_slice[of off "le_bytes 2 v" bs] le_word_bytes[of 2 v]
  by (simp add: get16_def put16_def take_bit_word_eq_self)

text \<open>A slice that does not meet the written one is unchanged.\<close>

lemma slice_splice_other:
  assumes "off + length ys \<le> length xs" and "off' + n \<le> off \<or> off + length ys \<le> off'"
  shows "take n (drop off' (splice xs off ys)) = take n (drop off' xs)"
proof (rule nth_equalityI)
  show "length (take n (drop off' (splice xs off ys))) = length (take n (drop off' xs))"
    using assms by simp
  fix i assume "i < length (take n (drop off' (splice xs off ys)))"
  then show "take n (drop off' (splice xs off ys)) ! i = take n (drop off' xs) ! i"
    using assms by (auto simp: nth_splice)
qed

lemma get32_put32_other:
  "off + 4 \<le> length bs \<Longrightarrow> off' + 4 \<le> off \<or> off + 4 \<le> off' \<Longrightarrow> get32 (put32 off v bs) off' = get32 bs off'"
  unfolding get32_def put32_def by (subst slice_splice_other) auto

lemma get16_put16_other:
  "off + 2 \<le> length bs \<Longrightarrow> off' + 2 \<le> off \<or> off + 2 \<le> off' \<Longrightarrow> get16 (put16 off v bs) off' = get16 bs off'"
  unfolding get16_def put16_def by (subst slice_splice_other) auto

section \<open>Bytes and integers in memory\<close>

definition load_bytes :: "mem \<Rightarrow> u64 \<Rightarrow> nat \<Rightarrow> u8 list" where
  "load_bytes m a n = map (\<lambda>i. m (a + of_nat i)) [0..<n]"

definition store_bytes :: "mem \<Rightarrow> u64 \<Rightarrow> u8 list \<Rightarrow> mem" where
  "store_bytes m a bs = (\<lambda>x. if unat (x - a) < length bs then bs ! unat (x - a) else m x)"

definition load64 :: "mem \<Rightarrow> u64 \<Rightarrow> u64" where
  "load64 m a = le_word (load_bytes m a 8)"

definition store64 :: "mem \<Rightarrow> u64 \<Rightarrow> u64 \<Rightarrow> mem" where
  "store64 m a v = store_bytes m a (le_bytes 8 v)"

lemma length_load_bytes [simp]: "length (load_bytes m a n) = n"
  by (simp add: load_bytes_def)

lemma load_bytes_cong: "(\<And>i. i < n \<Longrightarrow> m (a + of_nat i) = m' (a + of_nat i)) \<Longrightarrow> load_bytes m a n = load_bytes m' a n"
  by (simp add: load_bytes_def)

lemma load_store_bytes:
  assumes "length bs < 2 ^ 64"
  shows "load_bytes (store_bytes m a bs) a (length bs) = bs"
proof (rule nth_equalityI)
  fix i assume "i < length (load_bytes (store_bytes m a bs) a (length bs))"
  then show "load_bytes (store_bytes m a bs) a (length bs) ! i = bs ! i"
    using assms by (simp add: load_bytes_def store_bytes_def)
qed simp

lemma load_store_bytes_other:
  assumes "\<And>i. i < n \<Longrightarrow> length bs \<le> unat (b + of_nat i - a)"
  shows "load_bytes (store_bytes m a bs) b n = load_bytes m b n"
proof (rule load_bytes_cong)
  fix i assume "i < n"
  then show "store_bytes m a bs (b + of_nat i) = m (b + of_nat i)"
    using assms[of i] by (simp add: store_bytes_def)
qed

lemma load64_store64 [simp]: "load64 (store64 m a v) a = v"
  using load_store_bytes[of "le_bytes 8 v" m a] le_word_bytes[of 8 v]
  by (simp add: load64_def store64_def take_bit_word_eq_self)

lemma store64_outside: "8 \<le> unat (x - a) \<Longrightarrow> store64 m a v x = m x"
  by (simp add: store64_def store_bytes_def)

lemma load64_cong: "(\<And>i. i < 8 \<Longrightarrow> m (a + of_nat i) = m' (a + of_nat i)) \<Longrightarrow> load64 m a = load64 m' a"
  unfolding load64_def using load_bytes_cong[of 8 m a m'] by simp

text \<open>A load is not changed by a write elsewhere.\<close>

lemma load64_apart:
  assumes "k \<le> unat (a - p)" and "unat (a - p) \<le> 18446744073709551608" and "\<And>x. k \<le> unat (x - p) \<Longrightarrow> m' x = m x"
  shows "load64 m' a = load64 m a"
proof (rule load64_cong)
  fix i :: nat assume i: "i < 8"
  have "unat (a - p + of_nat i) = unat (a - p) + i" using i assms(2) by (subst unat_plus_u64) simp_all
  moreover have "a - p + of_nat i = a + of_nat i - p" by simp
  ultimately show "m' (a + of_nat i) = m (a + of_nat i)" using assms(1) by (intro assms(3)) simp
qed

lemma load64_store64_apart:
  "8 \<le> unat (a - p) \<Longrightarrow> unat (a - p) \<le> 18446744073709551608 \<Longrightarrow> load64 (store64 m p v) a = load64 m a"
  by (rule load64_apart[OF _ _ store64_outside])

lemma load64_store_bytes_apart:
  "length x \<le> unat (a - p) \<Longrightarrow> unat (a - p) \<le> 18446744073709551608 \<Longrightarrow> load64 (store_bytes m p x) a = load64 m a"
  by (rule load64_apart[of "length x" a p]) (simp_all add: store_bytes_def)

end
