(* ===== verification/KAlloc.thy ===== *)
theory KAlloc
  imports KSched KBytes
begin

text \<open>
  \<^verbatim>\<open>kernel/kalloc.c\<close>: the physical page allocator. Free pages are chained through their own
  first eight bytes; \<open>free_chain\<close> relates the chain in memory to the list of free pages, and
  \<open>kmem_ok\<close> is the allocator's invariant. \<^verbatim>\<open>kalloc\<close> and \<^verbatim>\<open>kfree\<close> are shown to implement the
  interface \<open>page_allocator\<close> on which virtual memory, pipes and processes rely.
\<close>

section \<open>Pages\<close>

definition PGSIZE :: u64 where "PGSIZE = 4096"
definition KERNBASE :: u64 where "KERNBASE = 0x80000000"
definition PHYSTOP :: u64 where "PHYSTOP = KERNBASE + 128 * 1024 * 1024"

definition PGROUNDUP :: "u64 \<Rightarrow> u64" where
  "PGROUNDUP sz = (sz + PGSIZE - 1) AND NOT (PGSIZE - 1)"

definition PGROUNDDOWN :: "u64 \<Rightarrow> u64" where
  "PGROUNDDOWN a = a AND NOT (PGSIZE - 1)"

section \<open>State and operations\<close>

text \<open>Physical memory, the head of the free list, and the address \<^verbatim>\<open>end\<close> set by the linker script.\<close>

record kmem = kproc +
  mem :: mem
  freelist :: u64
  kend :: u64

definition kfree :: "u64 \<Rightarrow> 'a kmem_scheme \<Rightarrow> 'a kmem_scheme outcome" where
  "kfree pa s =
     (if pa mod PGSIZE \<noteq> 0 \<or> pa < kend s \<or> pa \<ge> PHYSTOP then Panic ''kfree''
      else
        let s = s\<lparr>mem := memset (mem s) pa 1 (ucast PGSIZE)\<rparr> in
        obind (acquire_lk LkKmem s) (\<lambda>s.
        let s = s\<lparr>mem := store64 (mem s) pa (freelist s)\<rparr>; s = s\<lparr>freelist := pa\<rparr> in
        release_lk LkKmem s))"

definition kalloc :: "'a kmem_scheme \<Rightarrow> (u64 \<times> 'a kmem_scheme) outcome" where
  "kalloc s =
     obind (acquire_lk LkKmem s) (\<lambda>s.
     let r = freelist s; s = (if r \<noteq> 0 then s\<lparr>freelist := load64 (mem s) r\<rparr> else s) in
     obind (release_lk LkKmem s) (\<lambda>s.
     let s = (if r \<noteq> 0 then s\<lparr>mem := memset (mem s) r 5 (ucast PGSIZE)\<rparr> else s) in
     Ok (r, s)))"

lemma kfree_range: "kfree pa s = Ok s' \<Longrightarrow> unat pa < unat PHYSTOP"
  by (auto simp: kfree_def word_le_nat_alt split: if_splits)

function freerange_loop :: "u64 \<Rightarrow> u64 \<Rightarrow> 'a kmem_scheme \<Rightarrow> 'a kmem_scheme outcome" where
  "freerange_loop p pa_end s =
     (if p + PGSIZE \<le> pa_end then obind (kfree p s) (\<lambda>s'. freerange_loop (p + PGSIZE) pa_end s') else Ok s)"
  by auto

termination
proof (relation "measure (\<lambda>(p, _, _). 2 ^ 64 - unat p)")
  fix p pa_end :: u64 and s s' :: "'a kmem_scheme"
  assume "kfree p s = Ok s'"
  then have "unat p < unat PHYSTOP" by (rule kfree_range)
  then have "unat p < 2281701376" by (simp add: PHYSTOP_def KERNBASE_def)
  then have "unat (p + PGSIZE) = unat p + 4096"
    by (simp add: PGSIZE_def unat_plus_u64)
  then show "((p + PGSIZE, pa_end, s'), p, pa_end, s) \<in> measure (\<lambda>(p, _, _). 2 ^ 64 - unat p)"
    using \<open>unat p < 2281701376\<close> by simp
qed simp

definition freerange :: "u64 \<Rightarrow> u64 \<Rightarrow> 'a kmem_scheme \<Rightarrow> 'a kmem_scheme outcome" where
  "freerange pa_start pa_end s = freerange_loop (PGROUNDUP pa_start) pa_end s"

definition kinit :: "'a kmem_scheme \<Rightarrow> 'a kmem_scheme outcome" where
  "kinit s = freerange (kend s) PHYSTOP s"

declare freerange_loop.simps [simp del]

section \<open>Page arithmetic\<close>

definition aligned :: "u64 \<Rightarrow> bool" where
  "aligned p \<longleftrightarrow> p mod PGSIZE = 0"

definition in_page :: "u64 \<Rightarrow> u64 \<Rightarrow> bool" where
  "in_page p x \<longleftrightarrow> unat (x - p) < 4096"

lemma PGSIZE_unat [simp]: "unat PGSIZE = 4096" "unat (ucast PGSIZE :: u32) = 4096"
  by (simp_all add: PGSIZE_def)

lemma page_aligned_unat: "aligned p \<longleftrightarrow> unat p mod 4096 = 0"
  unfolding aligned_def by (metis PGSIZE_unat(1) unat_0 unat_mod word_unat_eq_iff)

lemma in_page_unat:
  assumes "aligned p"
  shows "in_page p x \<longleftrightarrow> unat x div 4096 = unat p div 4096"
proof -
  obtain k where k: "unat p = 4096 * k" using assms by (auto simp: page_aligned_unat)
  have lt: "unat p < 18446744073709551616" "unat x < 18446744073709551616" by (rule unat_lt_u64)+
  then have "k < 4503599627370496" using k by simp
  have "unat (x - p) = (if unat p \<le> unat x then unat x - unat p else unat x + 18446744073709551616 - unat p)"
    by (subst unat_sub_if') simp
  then show ?thesis using k lt \<open>k < 4503599627370496\<close>
    by (auto simp: in_page_def)
qed

lemma in_page_unique:
  assumes "aligned p" and "aligned q" and "in_page p x" and "in_page q x"
  shows "p = q"
proof -
  have "unat p div 4096 = unat q div 4096" "unat p mod 4096 = 0" "unat q mod 4096 = 0"
    using assms by (simp_all add: in_page_unat page_aligned_unat)
  then have "unat p = unat q"
    using div_mult_mod_eq[of "unat p" 4096] div_mult_mod_eq[of "unat q" 4096] by simp
  then show ?thesis by (simp add: word_unat_eq_iff)
qed

lemma in_page_refl [simp]: "in_page p p"
  by (simp add: in_page_def)

lemma in_page_offset: "i < 4096 \<Longrightarrow> in_page p (p + of_nat i)"
  by (simp add: in_page_def)

lemma memset_page: "memset m p c (ucast PGSIZE) x = (if in_page p x then ucast c else m x)"
  by (simp add: memset_apply in_page_def)

lemma store64_page: "\<not> in_page p x \<Longrightarrow> store64 m p v x = m x"
  by (rule store64_outside) (simp add: in_page_def)

section \<open>The free list\<close>

text \<open>Following the links from \<open>p\<close> visits exactly \<open>qs\<close> and ends in a null pointer.\<close>

primrec free_chain :: "mem \<Rightarrow> u64 \<Rightarrow> u64 list \<Rightarrow> bool" where
  "free_chain m p [] \<longleftrightarrow> p = 0"
| "free_chain m p (q # qs) \<longleftrightarrow> p = q \<and> q \<noteq> 0 \<and> free_chain m (load64 m q) qs"

definition valid_page :: "u64 \<Rightarrow> u64 \<Rightarrow> bool" where
  "valid_page e p \<longleftrightarrow> aligned p \<and> e \<le> p \<and> p < PHYSTOP \<and> p \<noteq> 0"

definition kmem_ok :: "'a kmem_scheme \<Rightarrow> u64 list \<Rightarrow> bool" where
  "kmem_ok s ps \<longleftrightarrow> free_chain (mem s) (freelist s) ps \<and> distinct ps \<and> (\<forall>p \<in> set ps. valid_page (kend s) p)"

lemma free_chain_cong:
  assumes "\<And>q x. q \<in> set qs \<Longrightarrow> in_page q x \<Longrightarrow> m' x = m x"
  shows "free_chain m' p qs = free_chain m p qs"
  using assms
proof (induction qs arbitrary: p)
  case Nil
  show ?case by simp
next
  case (Cons q qs)
  have "load64 m' q = load64 m q"
    by (rule load64_cong) (rule Cons.prems[of q], simp_all add: in_page_offset)
  moreover have "free_chain m' r qs = free_chain m r qs" for r
    by (rule Cons.IH) (rule Cons.prems, simp_all)
  ultimately show ?case by simp
qed

lemma kalloc_empty:
  assumes "kmem_ok s []" and "LkKmem \<notin> set (held s)"
  shows "kalloc s = Ok (0, s)"
  using assms by (simp add: kalloc_def kmem_ok_def Let_def)

lemma kalloc_page:
  assumes "kmem_ok s (p # ps)" and "LkKmem \<notin> set (held s)"
  shows "kalloc s = Ok (p, s\<lparr>freelist := load64 (mem s) p, mem := memset (mem s) p 5 (ucast PGSIZE)\<rparr>)"
  using assms by (simp add: kalloc_def kmem_ok_def Let_def)

lemma kmem_ok_alloc:
  assumes "kmem_ok s (p # ps)"
  shows "kmem_ok (s\<lparr>freelist := load64 (mem s) p, mem := memset (mem s) p 5 (ucast PGSIZE)\<rparr>) ps"
proof -
  have "free_chain (memset (mem s) p 5 (ucast PGSIZE)) q ps = free_chain (mem s) q ps" for q
  proof (rule free_chain_cong)
    fix r x assume r: "r \<in> set ps" "in_page r x"
    then have "\<not> in_page p x"
      using in_page_unique[of p r x] assms by (auto simp: kmem_ok_def valid_page_def)
    then show "memset (mem s) p 5 (ucast PGSIZE) x = mem s x" by (simp add: memset_page)
  qed
  with assms show ?thesis by (simp add: kmem_ok_def)
qed

lemma kfree_page:
  assumes "valid_page (kend s) p" and "LkKmem \<notin> set (held s)"
  shows "kfree p s = Ok (s\<lparr>mem := store64 (memset (mem s) p 1 (ucast PGSIZE)) p (freelist s), freelist := p\<rparr>)"
  using assms by (auto simp: kfree_def valid_page_def aligned_def Let_def not_less not_le)

lemma kmem_ok_free:
  assumes "kmem_ok s ps" and "valid_page (kend s) p" and "p \<notin> set ps"
  shows "kmem_ok (s\<lparr>mem := store64 (memset (mem s) p 1 (ucast PGSIZE)) p (freelist s), freelist := p\<rparr>) (p # ps)"
proof -
  have "free_chain (store64 (memset (mem s) p 1 (ucast PGSIZE)) p (freelist s)) q ps = free_chain (mem s) q ps" for q
  proof (rule free_chain_cong)
    fix r x assume r: "r \<in> set ps" "in_page r x"
    then have "\<not> in_page p x"
      using in_page_unique[of p r x] assms by (auto simp: kmem_ok_def valid_page_def)
    then show "store64 (memset (mem s) p 1 (ucast PGSIZE)) p (freelist s) x = mem s x"
      by (simp add: store64_page memset_page)
  qed
  with assms show ?thesis by (simp add: kmem_ok_def valid_page_def)
qed

section \<open>The interface\<close>

text \<open>
  What the users of the allocator rely on: a set of free pages; allocation takes one of them out or
  reports that there is none; freeing puts one back. \<open>ready\<close> is the condition under which the calls
  are made (the allocator's lock is not held by this hart).
\<close>

locale page_allocator =
  fixes free_set :: "'s \<Rightarrow> u64 set \<Rightarrow> bool" and ready :: "'s \<Rightarrow> bool" and valid :: "'s \<Rightarrow> u64 \<Rightarrow> bool"
    and alloc :: "'s \<Rightarrow> (u64 \<times> 's) outcome" and free :: "u64 \<Rightarrow> 's \<Rightarrow> 's outcome"
  assumes alloc_none: "free_set s {} \<Longrightarrow> ready s \<Longrightarrow> alloc s = Ok (0, s)"
    and alloc_some: "free_set s F \<Longrightarrow> ready s \<Longrightarrow> F \<noteq> {} \<Longrightarrow>
      returns (alloc s) (\<lambda>(p, t). p \<in> F \<and> p \<noteq> 0 \<and> free_set t (F - {p}) \<and> ready t \<and> valid t = valid s)"
    and free_law: "free_set s F \<Longrightarrow> ready s \<Longrightarrow> valid s p \<Longrightarrow> p \<notin> F \<Longrightarrow>
      returns (free p s) (\<lambda>t. free_set t (insert p F) \<and> ready t \<and> valid t = valid s)"
    and free_valid: "free_set s F \<Longrightarrow> p \<in> F \<Longrightarrow> valid s p"
begin

text \<open>Allocating and freeing again restores the set of free pages.\<close>

lemma alloc_free:
  assumes "free_set s F" and "ready s" and "F \<noteq> {}"
  shows "returns (obind (alloc s) (\<lambda>(p, t). free p t)) (\<lambda>t. free_set t F)"
proof -
  obtain p t where t: "alloc s = Ok (p, t)" "p \<in> F" "free_set t (F - {p})" "ready t" "valid t = valid s"
    using alloc_some[OF assms] by (auto elim!: returnsE)
  then have "returns (free p t) (\<lambda>u. free_set u (insert p (F - {p})) \<and> ready u \<and> valid u = valid t)"
    using free_valid[OF assms(1)] by (intro free_law) auto
  then show ?thesis using t(1,2) by (auto elim!: returnsE simp: insert_absorb)
qed

text \<open>Two allocations in a row never return the same page.\<close>

lemma alloc_twice:
  assumes "free_set s F" and "ready s" and "F \<noteq> {}"
  shows "returns (obind (alloc s) (\<lambda>(p, t). obind (alloc t) (\<lambda>(q, u). Ok (p, q, u))))
    (\<lambda>(p, q, u). p \<noteq> q \<and> (q \<noteq> 0 \<longrightarrow> free_set u (F - {p, q})))"
proof -
  obtain p t where t: "alloc s = Ok (p, t)" "p \<in> F" "p \<noteq> 0" "free_set t (F - {p})" "ready t"
    using alloc_some[OF assms] by (auto elim!: returnsE)
  show ?thesis
  proof (cases "F - {p} = {}")
    case True
    have "free_set t {}" using t(4) unfolding True .
    then have "alloc t = Ok (0, t)" using t(5) by (rule alloc_none)
    then show ?thesis using t by simp
  next
    case False
    then obtain q u where "alloc t = Ok (q, u)" "q \<in> F - {p}" "free_set u (F - {p} - {q})"
      using alloc_some[OF t(4,5)] by (auto elim!: returnsE)
    moreover have "F - {p} - {q} = F - {p, q}" by auto
    ultimately show ?thesis using t by auto
  qed
qed

end

definition free_pages :: "'a kmem_scheme \<Rightarrow> u64 set \<Rightarrow> bool" where
  "free_pages s F \<longleftrightarrow> (\<exists>ps. kmem_ok s ps \<and> set ps = F)"

definition kmem_ready :: "'a kmem_scheme \<Rightarrow> bool" where
  "kmem_ready s \<longleftrightarrow> LkKmem \<notin> set (held s)"

interpretation kmem: page_allocator free_pages kmem_ready "\<lambda>s. valid_page (kend s)" kalloc kfree
proof
  fix s :: "'a kmem_scheme" and F p
  show "free_pages s {} \<Longrightarrow> kmem_ready s \<Longrightarrow> kalloc s = Ok (0, s)"
    by (auto simp: free_pages_def kmem_ready_def kalloc_empty)
  show "returns (kalloc s) (\<lambda>(p, t). p \<in> F \<and> p \<noteq> 0 \<and> free_pages t (F - {p}) \<and> kmem_ready t \<and> valid_page (kend t) = valid_page (kend s))"
    if prem: "free_pages s F" "kmem_ready s" "F \<noteq> {}"
  proof -
    obtain ps where ps: "kmem_ok s ps" "set ps = F" using prem(1) by (auto simp: free_pages_def)
    then obtain q qs where q: "kmem_ok s (q # qs)" "F = set (q # qs)" using prem(3) by (cases ps) auto
    then have "set qs = F - {q}" by (auto simp: kmem_ok_def)
    then show ?thesis
      using kalloc_page[OF q(1)] kmem_ok_alloc[OF q(1)] prem(2) q
      by (auto simp: kmem_ready_def free_pages_def kmem_ok_def valid_page_def)
  qed
  show "returns (kfree p s) (\<lambda>t. free_pages t (insert p F) \<and> kmem_ready t \<and> valid_page (kend t) = valid_page (kend s))"
    if prem: "free_pages s F" "kmem_ready s" "valid_page (kend s) p" "p \<notin> F"
  proof -
    obtain ps where ps: "kmem_ok s ps" "set ps = F" using prem by (auto simp: free_pages_def)
    let ?t = "s\<lparr>mem := store64 (memset (mem s) p 1 (ucast PGSIZE)) p (freelist s), freelist := p\<rparr>"
    have "kmem_ok ?t (p # ps)" by (rule kmem_ok_free) (use prem ps in simp_all)
    moreover have "set (p # ps) = insert p F" using ps(2) by simp
    ultimately have "free_pages ?t (insert p F)" unfolding free_pages_def by blast
    moreover have "kfree p s = Ok ?t" using prem by (intro kfree_page) (simp_all add: kmem_ready_def)
    ultimately show ?thesis using prem(2) by (simp add: kmem_ready_def)
  qed
  show "free_pages s F \<Longrightarrow> p \<in> F \<Longrightarrow> valid_page (kend s) p"
    by (auto simp: free_pages_def kmem_ok_def)
qed

section \<open>Initialisation\<close>

lemma PHYSTOP_unat [simp]: "unat PHYSTOP = 2281701376"
  by (simp add: PHYSTOP_def KERNBASE_def)

lemma page_step:
  assumes "aligned p" and "p \<le> PHYSTOP"
  shows "p + PGSIZE \<le> PHYSTOP \<longleftrightarrow> p < PHYSTOP" "unat (p + PGSIZE) = unat p + 4096"
    "aligned (p + PGSIZE)"
proof -
  have a: "unat p mod 4096 = 0" "unat p \<le> 2281701376"
    using assms by (simp_all add: page_aligned_unat word_le_nat_alt)
  then show u: "unat (p + PGSIZE) = unat p + 4096" by (simp add: unat_plus_u64)
  then show "aligned (p + PGSIZE)" using a by (simp add: page_aligned_unat)
  obtain k where "unat p = 4096 * k" using a by auto
  then show "p + PGSIZE \<le> PHYSTOP \<longleftrightarrow> p < PHYSTOP"
    unfolding word_le_nat_alt word_less_nat_alt u using a(2) by auto
qed

text \<open>The pages the loop still has to free when it stands at \<open>p\<close>.\<close>

definition pages_from :: "u64 \<Rightarrow> u64 set" where
  "pages_from p = {q. aligned q \<and> p \<le> q \<and> q < PHYSTOP}"

lemma pages_from_step:
  assumes "aligned p" and "p < PHYSTOP"
  shows "pages_from p = insert p (pages_from (p + PGSIZE))" "p \<notin> pages_from (p + PGSIZE)"
proof -
  have le: "p \<le> PHYSTOP" using assms(2) by simp
  obtain k where k: "unat p = 4096 * k" using assms by (auto simp: page_aligned_unat)
  have "p \<le> q \<longleftrightarrow> p = q \<or> p + PGSIZE \<le> q" if q: "aligned q" for q
  proof -
    obtain j where "unat q = 4096 * j" using q by (auto simp: page_aligned_unat)
    then show ?thesis
      unfolding word_le_nat_alt word_unat_eq_iff page_step(2)[OF assms(1) le] using k by auto
  qed
  then show "pages_from p = insert p (pages_from (p + PGSIZE))" using assms by (auto simp: pages_from_def)
  show "p \<notin> pages_from (p + PGSIZE)"
    by (simp add: pages_from_def word_le_nat_alt page_step(2)[OF assms(1) le])
qed

lemma freerange_loop_frees:
  assumes "free_pages s F" and "kmem_ready s" and "aligned p" and "p \<le> PHYSTOP"
    and "kend s \<le> p" and "p \<noteq> 0" and "F \<inter> pages_from p = {}"
  shows "returns (freerange_loop p PHYSTOP s) (\<lambda>t. free_pages t (F \<union> pages_from p) \<and> kmem_ready t)"
  using assms
proof (induction p "PHYSTOP" s arbitrary: F rule: freerange_loop.induct)
  case (1 p s)
  show ?case
  proof (cases "p < PHYSTOP")
    case False
    then have "\<not> p + PGSIZE \<le> PHYSTOP" using page_step(1)[OF 1(4,5)] by simp
    moreover have "pages_from p = {}" using False by (auto simp: pages_from_def)
    ultimately show ?thesis using 1(2,3) by (simp add: freerange_loop.simps[of p])
  next
    case True
    then have go: "p + PGSIZE \<le> PHYSTOP" using page_step(1)[OF 1(4,5)] by simp
    note st = pages_from_step[OF 1(4) True] page_step[OF 1(4,5)]
    have v: "valid_page (kend s) p" using 1(4,6,7) True by (simp add: valid_page_def)
    then obtain t where t: "kfree p s = Ok t" "free_pages t (insert p F)" "kmem_ready t"
      using kmem.free_law[OF 1(2,3) v] st(1) 1(8) by (auto elim!: returnsE)
    have "kend t = kend s" using t(1) kfree_page[OF v] 1(3) by (auto simp: kmem_ready_def)
    moreover have "p + PGSIZE \<noteq> 0" "p \<le> p + PGSIZE"
      using st(4) by (auto simp: word_le_nat_alt word_unat_eq_iff)
    ultimately have "returns (freerange_loop (p + PGSIZE) PHYSTOP t)
        (\<lambda>t. free_pages t (insert p F \<union> pages_from (p + PGSIZE)) \<and> kmem_ready t)"
      using 1(1)[OF go t(1,2,3)] st 1(6,8) go by auto
    then show ?thesis using t(1) go st(1) by (simp add: freerange_loop.simps[of p])
  qed
qed

lemma PGROUNDDOWN_unat: "unat (PGROUNDDOWN a) = unat a div 4096 * 4096"
  using unat_and_not_mask[of a 12] by (simp add: PGROUNDDOWN_def PGSIZE_def mask_eq_exp_minus_1)

lemma PGROUNDUP_unat:
  assumes "unat a + 4095 < 18446744073709551616"
  shows "unat (PGROUNDUP a) = (unat a + 4095) div 4096 * 4096"
proof -
  have "PGROUNDUP a = (4095 + a) AND NOT (mask 12)"
    by (simp add: PGROUNDUP_def PGSIZE_def mask_eq_exp_minus_1)
  moreover have "unat (4095 + a) = unat a + 4095" using unat_plus_u64[of 4095 a] assms by simp
  ultimately show ?thesis by (simp only: unat_and_not_mask) simp
qed

section \<open>Properties\<close>

text \<open>
  C7. The allocator's contract. With the free pages \<open>p # ps\<close> chained in memory, \<^verbatim>\<open>kalloc\<close> returns
  \<open>p\<close>, fills it with 5, changes no other byte of memory, and leaves \<open>ps\<close> chained; with no free page
  it returns 0 and changes nothing. \<^verbatim>\<open>kfree\<close> of a valid page that is not free puts it at the front
  and changes no byte outside it; of any other address it panics. Neither leaves a lock held.
\<close>

theorem kalloc_kfree_contract:
  assumes "kmem_ok s ps" and "LkKmem \<notin> set (held s)"
  shows "(case ps of [] \<Rightarrow> kalloc s = Ok (0, s)
      | p # qs \<Rightarrow> \<exists>t. kalloc s = Ok (p, t) \<and> kmem_ok t qs \<and> held t = held s
          \<and> (\<forall>x. mem t x = (if in_page p x then 5 else mem s x)))
    \<and> (\<forall>pa. pa \<notin> set ps \<longrightarrow> (if valid_page (kend s) pa
        then \<exists>t. kfree pa s = Ok t \<and> kmem_ok t (pa # ps) \<and> held t = held s
               \<and> (\<forall>x. \<not> in_page pa x \<longrightarrow> mem t x = mem s x)
        else pa = 0 \<or> kfree pa s = Panic ''kfree''))"
proof -
  have "\<exists>t. kalloc s = Ok (p, t) \<and> kmem_ok t qs \<and> held t = held s
      \<and> (\<forall>x. mem t x = (if in_page p x then 5 else mem s x))" if "ps = p # qs" for p qs
    using assms kalloc_page[of s p qs] kmem_ok_alloc[of s p qs] by (simp add: that memset_page)
  moreover have "\<exists>t. kfree pa s = Ok t \<and> kmem_ok t (pa # ps) \<and> held t = held s
      \<and> (\<forall>x. \<not> in_page pa x \<longrightarrow> mem t x = mem s x)" if "pa \<notin> set ps" "valid_page (kend s) pa" for pa
    using kfree_page[OF that(2) assms(2)] kmem_ok_free[OF assms(1) that(2,1)]
    by (simp add: store64_page memset_page)
  moreover have "pa = 0 \<or> kfree pa s = Panic ''kfree''" if "\<not> valid_page (kend s) pa" for pa
    using that by (auto simp: valid_page_def kfree_def simp flip: aligned_def)
  ultimately show ?thesis using assms kalloc_empty[of s] by (auto split: list.split)
qed

definition boot_mem :: kmem where
  "boot_mem = \<lparr>held = [], procs = replicate NPROC zero_proc, curp = None, nextpid = 1, initproc = None,
     mem = \<lambda>_. 0, freelist = 0, kend = 0x87FFF000\<rparr>"

theorem kalloc_kfree_contract_witness:
  "\<exists>t. kfree 0x87FFF000 boot_mem = Ok t \<and> kmem_ok t [0x87FFF000]"
proof -
  have ok: "kmem_ok boot_mem []" "LkKmem \<notin> set (held boot_mem)" by (simp_all add: boot_mem_def kmem_ok_def)
  have "valid_page (kend boot_mem) 0x87FFF000"
    by (simp add: boot_mem_def valid_page_def aligned_def PGSIZE_def PHYSTOP_def KERNBASE_def)
  then show ?thesis
    using kalloc_kfree_contract[OF ok, THEN conjunct2, THEN spec[of _ "0x87FFF000"]] by auto
qed

text \<open>
  C35. Boot. Started with an empty free list, \<^verbatim>\<open>kinit\<close> returns, and the free pages are exactly the
  page-aligned addresses from the end of the kernel image up to \<^verbatim>\<open>PHYSTOP\<close>.
\<close>

theorem kinit_frees_all:
  assumes "freelist s = 0" and "held s = []" and "0 < kend s" and "kend s \<le> PHYSTOP"
  shows "returns (kinit s) (\<lambda>t. free_pages t {p. aligned p \<and> kend s \<le> p \<and> p < PHYSTOP})"
proof -
  have e: "0 < unat (kend s)" "unat (kend s) \<le> 2281701376"
    using assms(3,4) by (simp_all add: word_le_nat_alt word_less_nat_alt)
  then have r: "unat (PGROUNDUP (kend s)) = (unat (kend s) + 4095) div 4096 * 4096" by (intro PGROUNDUP_unat) simp
  have le: "PGROUNDUP (kend s) \<le> PHYSTOP" "kend s \<le> PGROUNDUP (kend s)"
    unfolding word_le_nat_alt r using e(2) by auto
  have "(unat (kend s) + 4095) div 4096 > 0" using e(1) by (simp add: div_greater_zero_iff)
  then have nz: "PGROUNDUP (kend s) \<noteq> 0" using r by (auto simp: word_unat_eq_iff)
  have al: "aligned (PGROUNDUP (kend s))" by (simp add: page_aligned_unat r)
  have "kend s \<le> p \<longleftrightarrow> PGROUNDUP (kend s) \<le> p" if "aligned p" for p
    using that unfolding word_le_nat_alt r page_aligned_unat by auto
  then have "pages_from (PGROUNDUP (kend s)) = {p. aligned p \<and> kend s \<le> p \<and> p < PHYSTOP}"
    by (auto simp: pages_from_def)
  moreover have "free_pages s {}" using assms(1) by (simp add: free_pages_def kmem_ok_def)
  ultimately have "returns (freerange_loop (PGROUNDUP (kend s)) PHYSTOP s)
      (\<lambda>t. free_pages t ({} \<union> {p. aligned p \<and> kend s \<le> p \<and> p < PHYSTOP}) \<and> kmem_ready t)"
    using freerange_loop_frees[of s "{}" "PGROUNDUP (kend s)"] assms(2) al le nz by (simp add: kmem_ready_def)
  then show ?thesis unfolding kinit_def freerange_def by (rule returns_weaken) simp
qed

theorem kinit_frees_all_witness:
  "returns (kinit boot_mem) (\<lambda>t. free_pages t {p. aligned p \<and> 0x87FFF000 \<le> p \<and> p < PHYSTOP})"
  using kinit_frees_all[of boot_mem] by (simp add: boot_mem_def PHYSTOP_def KERNBASE_def)

end
