(* ===== verification/KVm.thy ===== *)
theory KVm
  imports KAlloc
begin

text \<open>
  \<^verbatim>\<open>kernel/vm.c\<close>: Sv39 page tables stored in physical memory. Page-table entries are read and
  written as little-endian 64-bit words; \<^verbatim>\<open>walk\<close> descends three levels and allocates missing
  table pages; \<^verbatim>\<open>mappages\<close>, \<^verbatim>\<open>uvmunmap\<close>, \<^verbatim>\<open>uvmalloc\<close>, \<^verbatim>\<open>uvmdealloc\<close>, \<^verbatim>\<open>uvmcopy\<close>, \<^verbatim>\<open>freewalk\<close>
  and the copy routines between kernel and user space are modelled with their loops over pages,
  including the wrap-around of addresses. Kernel memory outside of physical pages (the source of
  \<^verbatim>\<open>copyout\<close>, the destination of \<^verbatim>\<open>copyin\<close>) is a list of bytes.
\<close>

section \<open>Sv39 constants\<close>

definition MAXVA :: u64 where "MAXVA = push_bit (9 + 9 + 9 + 12 - 1) 1"
definition PTE_V :: u64 where "PTE_V = 1"
definition PTE_R :: u64 where "PTE_R = 2"
definition PTE_W :: u64 where "PTE_W = 4"
definition PTE_X :: u64 where "PTE_X = 8"
definition PTE_U :: u64 where "PTE_U = 16"

definition PA2PTE :: "u64 \<Rightarrow> u64" where "PA2PTE pa = push_bit 10 (drop_bit 12 pa)"
definition PTE2PA :: "u64 \<Rightarrow> u64" where "PTE2PA pte = push_bit 12 (drop_bit 10 pte)"
definition PTE_FLAGS :: "u64 \<Rightarrow> u64" where "PTE_FLAGS pte = pte AND 0x3FF"
definition PX :: "nat \<Rightarrow> u64 \<Rightarrow> u64" where "PX level va = drop_bit (12 + 9 * level) va AND 0x1FF"

definition UART0 :: u64 where "UART0 = 0x10000000"
definition VIRTION :: "u64 \<Rightarrow> u64" where "VIRTION n = 0x10000000 + (n + 1) * 0x1000"
definition CLINT :: u64 where "CLINT = 0x2000000"
definition PLIC :: u64 where "PLIC = 0x0c000000"
definition TRAMPOLINE :: u64 where "TRAMPOLINE = MAXVA - PGSIZE"
definition TRAPFRAME :: u64 where "TRAPFRAME = TRAMPOLINE - PGSIZE"
definition KSTACK :: "u64 \<Rightarrow> u64" where "KSTACK p = TRAMPOLINE - (p + 1) * 2 * PGSIZE"

text \<open>The kernel's page table, and the addresses \<^verbatim>\<open>etext\<close> and \<^verbatim>\<open>trampoline\<close> the linker provides.\<close>

record kvm = kmem +
  kernel_pagetable :: u64
  etext :: u64
  trampoline :: u64
  satp :: u64

section \<open>Walking a page table\<close>

definition pte_addr :: "u64 \<Rightarrow> nat \<Rightarrow> u64 \<Rightarrow> u64" where
  "pte_addr pt level va = pt + 8 * PX level va"

text \<open>
  The loop \<^verbatim>\<open>for(level = 2; level > 0; level--)\<close> and the address of the leaf entry it ends at;
  0 when a table page is missing and is not, or cannot be, allocated.
\<close>

primrec walk_level :: "nat \<Rightarrow> u64 \<Rightarrow> u64 \<Rightarrow> bool \<Rightarrow> 'a kvm_scheme \<Rightarrow> (u64 \<times> 'a kvm_scheme) outcome" where
  "walk_level 0 pt va alloc s = Ok (pte_addr pt 0 va, s)"
| "walk_level (Suc l) pt va alloc s =
     (let pte = pte_addr pt (Suc l) va; e = load64 (mem s) pte in
      if e AND PTE_V \<noteq> 0 then walk_level l (PTE2PA e) va alloc s
      else if \<not> alloc then Ok (0, s)
      else obind (kalloc s) (\<lambda>(p, s).
        if p = 0 then Ok (0, s)
        else let s = s\<lparr>mem := memset (mem s) p 0 (ucast PGSIZE)\<rparr>;
                 s = s\<lparr>mem := store64 (mem s) pte (PA2PTE p OR PTE_V)\<rparr>
             in walk_level l p va alloc s))"

definition walk :: "u64 \<Rightarrow> u64 \<Rightarrow> bool \<Rightarrow> 'a kvm_scheme \<Rightarrow> (u64 \<times> 'a kvm_scheme) outcome" where
  "walk pt va alloc s = (if va \<ge> MAXVA then Panic ''walk'' else walk_level 2 pt va alloc s)"

definition walkaddr :: "u64 \<Rightarrow> u64 \<Rightarrow> 'a kvm_scheme \<Rightarrow> u64 outcome" where
  "walkaddr pt va s =
     (if va \<ge> MAXVA then Ok 0
      else obind (walk pt va False s) (\<lambda>(pte, s).
        if pte = 0 then Ok 0
        else if load64 (mem s) pte AND PTE_V = 0 then Ok 0
        else if load64 (mem s) pte AND PTE_U = 0 then Ok 0
        else Ok (PTE2PA (load64 (mem s) pte))))"

definition kvmpa :: "u64 \<Rightarrow> 'a kvm_scheme \<Rightarrow> u64 outcome" where
  "kvmpa va s =
     (let off = va mod PGSIZE in
      obind (walk (kernel_pagetable s) va False s) (\<lambda>(pte, s).
        if pte = 0 then Panic ''kvmpa''
        else if load64 (mem s) pte AND PTE_V = 0 then Panic ''kvmpa''
        else Ok (PTE2PA (load64 (mem s) pte) + off)))"

section \<open>Mapping and unmapping\<close>

lemma walk_range: "walk pt va alloc s = Ok r \<Longrightarrow> unat va < 274877906944"
  by (auto simp: walk_def MAXVA_def word_le_nat_alt push_bit_eq_mult split: if_splits)

text \<open>A step of a page loop stays below \<^verbatim>\<open>MAXVA\<close>, so it cannot wrap around.\<close>

lemma page_loop_measure:
  assumes "unat a < 274877906944"
  shows "(2::nat) ^ 64 - unat (a + PGSIZE) < 2 ^ 64 - unat a"
proof -
  have "unat (a + PGSIZE) = unat a + 4096" using assms by (simp add: unat_plus_u64)
  then show ?thesis using assms by simp
qed

function mappages_loop :: "u64 \<Rightarrow> u64 \<Rightarrow> u64 \<Rightarrow> u64 \<Rightarrow> u64 \<Rightarrow> 'a kvm_scheme \<Rightarrow> (int \<times> 'a kvm_scheme) outcome" where
  "mappages_loop pt a last_a pa perm s =
     obind (walk pt a True s) (\<lambda>(pte, s).
       if pte = 0 then Ok (-1, s)
       else if load64 (mem s) pte AND PTE_V \<noteq> 0 then Panic ''remap''
       else let s = s\<lparr>mem := store64 (mem s) pte (PA2PTE pa OR perm OR PTE_V)\<rparr> in
            if a = last_a then Ok (0, s)
            else mappages_loop pt (a + PGSIZE) last_a (pa + PGSIZE) perm s)"
  by auto

termination
  by (relation "measure (\<lambda>(_, a, _). 2 ^ 64 - unat a)") (auto dest!: walk_range page_loop_measure)

definition mappages :: "u64 \<Rightarrow> u64 \<Rightarrow> u64 \<Rightarrow> u64 \<Rightarrow> u64 \<Rightarrow> 'a kvm_scheme \<Rightarrow> (int \<times> 'a kvm_scheme) outcome" where
  "mappages pt va sz pa perm s =
     mappages_loop pt (PGROUNDDOWN va) (PGROUNDDOWN (va + sz - 1)) pa perm s"

definition kvmmap :: "u64 \<Rightarrow> u64 \<Rightarrow> u64 \<Rightarrow> u64 \<Rightarrow> 'a kvm_scheme \<Rightarrow> 'a kvm_scheme outcome" where
  "kvmmap va pa sz perm s =
     obind (mappages (kernel_pagetable s) va sz pa perm s) (\<lambda>(r, s).
       if r \<noteq> 0 then Panic ''kvmmap'' else Ok s)"

function uvmunmap_loop :: "u64 \<Rightarrow> u64 \<Rightarrow> u64 \<Rightarrow> bool \<Rightarrow> 'a kvm_scheme \<Rightarrow> 'a kvm_scheme outcome" where
  "uvmunmap_loop pt a last_a do_free s =
     obind (walk pt a False s) (\<lambda>(pte, s).
       if pte = 0 then Panic ''uvmunmap: walk''
       else let e = load64 (mem s) pte in
         if e AND PTE_V = 0 then Panic ''uvmunmap: not mapped''
         else if PTE_FLAGS e = PTE_V then Panic ''uvmunmap: not a leaf''
         else obind (if do_free then kfree (PTE2PA e) s else Ok s) (\<lambda>s.
           let s = s\<lparr>mem := store64 (mem s) pte 0\<rparr> in
           if a = last_a then Ok s else uvmunmap_loop pt (a + PGSIZE) last_a do_free s))"
  by auto

termination
  by (relation "measure (\<lambda>(_, a, _). 2 ^ 64 - unat a)") (auto dest!: walk_range page_loop_measure)

definition uvmunmap :: "u64 \<Rightarrow> u64 \<Rightarrow> u64 \<Rightarrow> bool \<Rightarrow> 'a kvm_scheme \<Rightarrow> 'a kvm_scheme outcome" where
  "uvmunmap pt va sz do_free s =
     uvmunmap_loop pt (PGROUNDDOWN va) (PGROUNDDOWN (va + sz - 1)) do_free s"

declare mappages_loop.simps [simp del] uvmunmap_loop.simps [simp del]

section \<open>User address spaces\<close>

definition uvmcreate :: "'a kvm_scheme \<Rightarrow> (u64 \<times> 'a kvm_scheme) outcome" where
  "uvmcreate s =
     obind (kalloc s) (\<lambda>(pt, s).
       if pt = 0 then Panic ''uvmcreate: out of memory''
       else Ok (pt, s\<lparr>mem := memset (mem s) pt 0 (ucast PGSIZE)\<rparr>))"

text \<open>The code does not look at the results of \<^verbatim>\<open>kalloc\<close> and \<^verbatim>\<open>mappages\<close> here.\<close>

definition uvminit :: "u64 \<Rightarrow> u8 list \<Rightarrow> 'a kvm_scheme \<Rightarrow> 'a kvm_scheme outcome" where
  "uvminit pt src s =
     (if length src \<ge> 4096 then Panic ''inituvm: more than a page''
      else obind (kalloc s) (\<lambda>(p, s).
        let s = s\<lparr>mem := memset (mem s) p 0 (ucast PGSIZE)\<rparr> in
        obind (mappages pt 0 PGSIZE p (PTE_W OR PTE_R OR PTE_X OR PTE_U) s) (\<lambda>(_, s).
        Ok (s\<lparr>mem := store_bytes (mem s) p src\<rparr>))))"

definition uvmdealloc :: "u64 \<Rightarrow> u64 \<Rightarrow> u64 \<Rightarrow> 'a kvm_scheme \<Rightarrow> (u64 \<times> 'a kvm_scheme) outcome" where
  "uvmdealloc pt oldsz newsz s =
     (if newsz \<ge> oldsz then Ok (oldsz, s)
      else let newup = PGROUNDUP newsz in
        obind (if newup < PGROUNDUP oldsz then uvmunmap pt newup (oldsz - newup) True s else Ok s)
          (\<lambda>s. Ok (newsz, s)))"

lemma mappages_loop_range: "mappages_loop pt a l pa perm s = Ok r \<Longrightarrow> unat a < 274877906944"
  by (subst (asm) mappages_loop.simps) (auto simp: obind_Ok_iff dest: walk_range)

lemma PGROUNDDOWN_aligned: "aligned a \<Longrightarrow> PGROUNDDOWN a = a"
  by (auto simp: word_unat_eq_iff PGROUNDDOWN_unat page_aligned_unat)

function uvmalloc_loop :: "u64 \<Rightarrow> u64 \<Rightarrow> u64 \<Rightarrow> u64 \<Rightarrow> 'a kvm_scheme \<Rightarrow> (u64 \<times> 'a kvm_scheme) outcome" where
  "uvmalloc_loop pt oldsz newsz a s =
     (if a < newsz then
        obind (kalloc s) (\<lambda>(p, s).
          if p = 0 then obind (uvmdealloc pt a oldsz s) (\<lambda>(_, s). Ok (0, s))
          else let s = s\<lparr>mem := memset (mem s) p 0 (ucast PGSIZE)\<rparr> in
            obind (mappages pt a PGSIZE p (PTE_W OR PTE_X OR PTE_R OR PTE_U) s) (\<lambda>(r, s).
              if r \<noteq> 0 then obind (kfree p s) (\<lambda>s. obind (uvmdealloc pt a oldsz s) (\<lambda>(_, s). Ok (0, s)))
              else uvmalloc_loop pt oldsz newsz (a + PGSIZE) s))
      else Ok (newsz, s))"
  by auto

termination
proof (relation "measure (\<lambda>(_, _, _, a, _). 2 ^ 64 - unat a)")
  fix pt oldsz newsz a :: u64 and s t u v :: "'a kvm_scheme" and p :: u64 and r :: int and x y
  assume "(r, v) = y" and "mappages pt a PGSIZE p (PTE_W OR PTE_X OR PTE_R OR PTE_U) u = Ok y"
  then have "unat (PGROUNDDOWN a) < 274877906944"
    unfolding mappages_def by (intro mappages_loop_range) auto
  then have "unat a div 4096 * 4096 < 274877906944" by (simp add: PGROUNDDOWN_unat)
  then have "unat a div 4096 < 67108864" by simp
  then have "unat a < 274877906944" by (simp add: div_less_iff_less_mult)
  then have "(2::nat) ^ 64 - unat (a + PGSIZE) < 2 ^ 64 - unat a" by (rule page_loop_measure)
  then show "((pt, oldsz, newsz, a + PGSIZE, v), pt, oldsz, newsz, a, s) \<in> measure (\<lambda>(_, _, _, a, _). 2 ^ 64 - unat a)"
    by simp
qed simp

definition uvmalloc :: "u64 \<Rightarrow> u64 \<Rightarrow> u64 \<Rightarrow> 'a kvm_scheme \<Rightarrow> (u64 \<times> 'a kvm_scheme) outcome" where
  "uvmalloc pt oldsz newsz s =
     (if newsz < oldsz then Ok (oldsz, s)
      else uvmalloc_loop pt (PGROUNDUP oldsz) newsz (PGROUNDUP oldsz) s)"

declare uvmalloc_loop.simps [simp del]

text \<open>
  \<^verbatim>\<open>freewalk\<close> with the number of table levels below this one as fuel: a page table has three
  levels, so the fuel never runs out on one; on a table page that points back to itself the C code
  would not return.
\<close>

primrec freewalk :: "nat \<Rightarrow> u64 \<Rightarrow> 'a kvm_scheme \<Rightarrow> 'a kvm_scheme outcome" where
  "freewalk 0 pt s = Panic ''freewalk: out of fuel''"
| "freewalk (Suc l) pt s =
     obind (ofold (\<lambda>i s.
        let e = load64 (mem s) (pt + 8 * of_nat i) in
        if e AND PTE_V \<noteq> 0 \<and> e AND (PTE_R OR PTE_W OR PTE_X) = 0
        then obind (freewalk l (PTE2PA e) s) (\<lambda>s. Ok (s\<lparr>mem := store64 (mem s) (pt + 8 * of_nat i) 0\<rparr>))
        else if e AND PTE_V \<noteq> 0 then Panic ''freewalk: leaf''
        else Ok s) [0..<512] s) (kfree pt)"

definition uvmfree :: "u64 \<Rightarrow> u64 \<Rightarrow> 'a kvm_scheme \<Rightarrow> 'a kvm_scheme outcome" where
  "uvmfree pt sz s = obind (uvmunmap pt 0 sz True s) (freewalk 3 pt)"

text \<open>The loop of \<^verbatim>\<open>uvmcopy\<close>; the error path unmaps what has been copied so far.\<close>

definition uvmcopy_err :: "u64 \<Rightarrow> u64 \<Rightarrow> 'a kvm_scheme \<Rightarrow> (int \<times> 'a kvm_scheme) outcome" where
  "uvmcopy_err new i s = obind (uvmunmap new 0 i True s) (\<lambda>s. Ok (-1, s))"

function uvmcopy_loop :: "u64 \<Rightarrow> u64 \<Rightarrow> u64 \<Rightarrow> u64 \<Rightarrow> 'a kvm_scheme \<Rightarrow> (int \<times> 'a kvm_scheme) outcome" where
  "uvmcopy_loop old new sz i s =
     (if i < sz then
        obind (walk old i False s) (\<lambda>(pte, s).
          if pte = 0 then Panic ''uvmcopy: pte should exist''
          else let e = load64 (mem s) pte in
            if e AND PTE_V = 0 then Panic ''uvmcopy: page not present''
            else obind (kalloc s) (\<lambda>(p, s).
              if p = 0 then uvmcopy_err new i s
              else let s = s\<lparr>mem := memmove (mem s) p (PTE2PA e) (ucast PGSIZE)\<rparr> in
                obind (mappages new i PGSIZE p (PTE_FLAGS e) s) (\<lambda>(r, s).
                  if r \<noteq> 0 then obind (kfree p s) (uvmcopy_err new i)
                  else uvmcopy_loop old new sz (i + PGSIZE) s)))
      else Ok (0, s))"
  by auto

termination
  by (relation "measure (\<lambda>(_, _, _, i, _). 2 ^ 64 - unat i)") (auto dest!: walk_range page_loop_measure)

definition uvmcopy :: "u64 \<Rightarrow> u64 \<Rightarrow> u64 \<Rightarrow> 'a kvm_scheme \<Rightarrow> (int \<times> 'a kvm_scheme) outcome" where
  "uvmcopy old new sz s = uvmcopy_loop old new sz 0 s"

declare uvmcopy_loop.simps [simp del]

definition uvmclear :: "u64 \<Rightarrow> u64 \<Rightarrow> 'a kvm_scheme \<Rightarrow> 'a kvm_scheme outcome" where
  "uvmclear pt va s =
     obind (walk pt va False s) (\<lambda>(pte, s).
       if pte = 0 then Panic ''uvmclear''
       else Ok (s\<lparr>mem := store64 (mem s) pte (load64 (mem s) pte AND NOT PTE_U)\<rparr>))"

section \<open>Copying between kernel and user space\<close>

text \<open>The number of bytes that fit in the page of \<open>va\<close>: \<^verbatim>\<open>n = PGSIZE - (va - va0)\<close>, at most \<open>len\<close>.\<close>

definition chunk :: "u64 \<Rightarrow> nat \<Rightarrow> nat" where
  "chunk va len = (let n = unat (PGSIZE - (va - PGROUNDDOWN va)) in if n > len then len else n)"

lemma chunk_pos: "len > 0 \<Longrightarrow> chunk va len > 0"
proof -
  have "unat (va - PGROUNDDOWN va) = unat va mod 4096"
    by (subst unat_minus_word) (auto simp: word_le_nat_alt PGROUNDDOWN_unat modulo_nat_def)
  moreover have "unat va mod 4096 < 4096" by simp
  ultimately have "unat (va - PGROUNDDOWN va) < 4096" by linarith
  then have "unat (PGSIZE - (va - PGROUNDDOWN va)) = 4096 - unat (va - PGROUNDDOWN va)"
    by (subst unat_minus_word) (auto simp: word_le_nat_alt)
  then show "len > 0 \<Longrightarrow> chunk va len > 0"
    using \<open>unat (va - PGROUNDDOWN va) < 4096\<close> by (simp add: chunk_def Let_def)
qed

function copyout :: "u64 \<Rightarrow> u64 \<Rightarrow> u8 list \<Rightarrow> 'a kvm_scheme \<Rightarrow> (int \<times> 'a kvm_scheme) outcome" where
  "copyout pt dstva src s =
     (if length src > 0 then
        let va0 = PGROUNDDOWN dstva in
        obind (walkaddr pt va0 s) (\<lambda>pa0.
          if pa0 = 0 then Ok (-1, s)
          else let n = chunk dstva (length src);
                   s = s\<lparr>mem := store_bytes (mem s) (pa0 + (dstva - va0)) (take n src)\<rparr>
               in copyout pt (va0 + PGSIZE) (drop n src) s)
      else Ok (0, s))"
  by auto

termination
  by (relation "measure (\<lambda>(_, _, src, _). length src)") (auto simp: chunk_pos)

text \<open>
  \<^verbatim>\<open>copyin\<close> returns its result code and the bytes it has stored at the destination, which are not
  all of them when it fails on the way.
\<close>

function copyin :: "u64 \<Rightarrow> u64 \<Rightarrow> nat \<Rightarrow> 'a kvm_scheme \<Rightarrow> (int \<times> u8 list) outcome" where
  "copyin pt srcva len s =
     (if len > 0 then
        let va0 = PGROUNDDOWN srcva in
        obind (walkaddr pt va0 s) (\<lambda>pa0.
          if pa0 = 0 then Ok (-1, [])
          else let n = chunk srcva len; bs = load_bytes (mem s) (pa0 + (srcva - va0)) n in
               obind (copyin pt (va0 + PGSIZE) (len - n) s) (\<lambda>(r, bs'). Ok (r, bs @ bs')))
      else Ok (0, []))"
  by auto

termination
  by (relation "measure (\<lambda>(_, _, len, _). len)") (auto simp: chunk_pos)

text \<open>The inner loop of \<^verbatim>\<open>copyinstr\<close>: at most \<open>n\<close> bytes, up to and including a NUL.\<close>

primrec copy_nul :: "mem \<Rightarrow> nat \<Rightarrow> u64 \<Rightarrow> bool \<times> u8 list" where
  "copy_nul m 0 p = (False, [])"
| "copy_nul m (Suc n) p =
     (if m p = 0 then (True, [0]) else let (got, bs) = copy_nul m n (p + 1) in (got, m p # bs))"

function copyinstr :: "u64 \<Rightarrow> u64 \<Rightarrow> nat \<Rightarrow> 'a kvm_scheme \<Rightarrow> (int \<times> u8 list) outcome" where
  "copyinstr pt srcva max_len s =
     (if max_len > 0 then
        let va0 = PGROUNDDOWN srcva in
        obind (walkaddr pt va0 s) (\<lambda>pa0.
          if pa0 = 0 then Ok (-1, [])
          else let n = chunk srcva max_len;
                   (got_null, bs) = copy_nul (mem s) n (pa0 + (srcva - va0))
               in if got_null then Ok (0, bs)
                  else obind (copyinstr pt (va0 + PGSIZE) (max_len - n) s) (\<lambda>(r, bs'). Ok (r, bs @ bs')))
      else Ok (-1, []))"
  by auto

termination
  by (relation "measure (\<lambda>(_, _, len, _). len)") (auto simp: chunk_pos)

declare copyout.simps [simp del] copyin.simps [simp del] copyinstr.simps [simp del]

section \<open>The kernel's own page table\<close>

definition kvminit :: "'a kvm_scheme \<Rightarrow> 'a kvm_scheme outcome" where
  "kvminit s =
     obind (kalloc s) (\<lambda>(pt, s).
     let s = s\<lparr>kernel_pagetable := pt\<rparr>; s = s\<lparr>mem := memset (mem s) pt 0 (ucast PGSIZE)\<rparr> in
     obind (kvmmap UART0 UART0 PGSIZE (PTE_R OR PTE_W) s) (\<lambda>s.
     obind (kvmmap (VIRTION 0) (VIRTION 0) PGSIZE (PTE_R OR PTE_W) s) (\<lambda>s.
     obind (kvmmap (VIRTION 1) (VIRTION 1) PGSIZE (PTE_R OR PTE_W) s) (\<lambda>s.
     obind (kvmmap CLINT CLINT 0x10000 (PTE_R OR PTE_W) s) (\<lambda>s.
     obind (kvmmap PLIC PLIC 0x400000 (PTE_R OR PTE_W) s) (\<lambda>s.
     obind (kvmmap KERNBASE KERNBASE (etext s - KERNBASE) (PTE_R OR PTE_X) s) (\<lambda>s.
     obind (kvmmap (etext s) (etext s) (PHYSTOP - etext s) (PTE_R OR PTE_W) s) (\<lambda>s.
     kvmmap TRAMPOLINE (trampoline s) PGSIZE (PTE_R OR PTE_X) s))))))))"

text \<open>\<^verbatim>\<open>MAKE_SATP\<close>: Sv39 mode and the page number of the root.\<close>

definition kvminithart :: "'a kvm_scheme \<Rightarrow> 'a kvm_scheme" where
  "kvminithart s = s\<lparr>satp := push_bit 60 8 OR drop_bit 12 (kernel_pagetable s)\<rparr>"

end
