(* ===== verification/KPaging.thy ===== *)
theory KPaging
  imports KVm
begin

text \<open>
  What the routines of \<^verbatim>\<open>kernel/vm.c\<close> that only look at a page table compute, as functions of memory:
  the address of a leaf entry, the physical address behind a user address, and the bytes \<^verbatim>\<open>copyin\<close> and
  \<^verbatim>\<open>copyinstr\<close> fetch.
\<close>

primrec walk_pte :: "nat \<Rightarrow> mem \<Rightarrow> u64 \<Rightarrow> u64 \<Rightarrow> u64" where
  "walk_pte 0 m pt va = pte_addr pt 0 va"
| "walk_pte (Suc l) m pt va =
     (let e = load64 m (pte_addr pt (Suc l) va) in
      if e AND PTE_V \<noteq> 0 then walk_pte l m (PTE2PA e) va else 0)"

lemma walk_level_noalloc: "walk_level l pt va False s = Ok (walk_pte l (mem s) pt va, s)"
  by (induction l arbitrary: pt) (simp_all add: Let_def)

lemma walk_noalloc: "va < MAXVA \<Longrightarrow> walk pt va False s = Ok (walk_pte 2 (mem s) pt va, s)"
  by (simp add: walk_def walk_level_noalloc)

definition user_pa :: "mem \<Rightarrow> u64 \<Rightarrow> u64 \<Rightarrow> u64" where
  "user_pa m pt va =
     (let pte = walk_pte 2 m pt va; e = load64 m pte in
      if va \<ge> MAXVA \<or> pte = 0 \<or> e AND PTE_V = 0 \<or> e AND PTE_U = 0 then 0 else PTE2PA e)"

lemma walkaddr_eq: "walkaddr pt va s = Ok (user_pa (mem s) pt va)"
  by (auto simp: walkaddr_def user_pa_def walk_noalloc Let_def not_le)

function cin :: "mem \<Rightarrow> u64 \<Rightarrow> u64 \<Rightarrow> nat \<Rightarrow> int \<times> u8 list" where
  "cin m pt srcva len =
     (if len > 0 then
        let va0 = PGROUNDDOWN srcva; pa0 = user_pa m pt va0 in
        if pa0 = 0 then (-1, [])
        else let n = chunk srcva len; bs = load_bytes m (pa0 + (srcva - va0)) n;
                 (r, bs') = cin m pt (va0 + PGSIZE) (len - n)
             in (r, bs @ bs')
      else (0, []))"
  by auto

termination
  by (relation "measure (\<lambda>(_, _, _, len). len)") (auto simp: chunk_pos)

declare cin.simps [simp del]

lemma copyin_eq: "copyin pt va len s = Ok (cin (mem s) pt va len)"
proof (induction len arbitrary: va rule: less_induct)
  case (less len)
  show ?case
  proof (cases "len > 0 \<and> user_pa (mem s) pt (PGROUNDDOWN va) \<noteq> 0")
    case True
    then have "len - chunk va len < len" using chunk_pos[of len va] by simp
    then show ?thesis using less[of "len - chunk va len" "PGROUNDDOWN va + PGSIZE"] True
      by (subst copyin.simps, subst cin.simps) (simp add: walkaddr_eq Let_def split: prod.split)
  next
    case False
    then show ?thesis by (subst copyin.simps, subst cin.simps) (auto simp: walkaddr_eq Let_def)
  qed
qed

lemma cin_result:
  "cin m pt va len = (r, x) \<Longrightarrow> (r = 0 \<and> length x = len) \<or> (r = -1 \<and> length x < len)"
proof (induction len arbitrary: va r x rule: less_induct)
  case (less len)
  show ?case
  proof (cases "len > 0 \<and> user_pa m pt (PGROUNDDOWN va) \<noteq> 0")
    case True
    let ?n = "chunk va len"
    obtain r' x' where c: "cin m pt (PGROUNDDOWN va + PGSIZE) (len - ?n) = (r', x')" by fastforce
    have n: "0 < ?n" "?n \<le> len" using chunk_pos[of len va] True by (auto simp: chunk_def Let_def)
    have "(r' = 0 \<and> length x' = len - ?n) \<or> (r' = -1 \<and> length x' < len - ?n)" using less.IH[OF _ c] n by simp
    then show ?thesis using less.prems True c n by (subst (asm) cin.simps) (auto simp: Let_def)
  next
    case False
    then show ?thesis using less.prems by (subst (asm) cin.simps) (auto simp: Let_def split: if_splits)
  qed
qed

text \<open>Storing one byte, and a sequence of bytes one at a time, at a user address.\<close>

definition cout1 :: "mem \<Rightarrow> u64 \<Rightarrow> u64 \<Rightarrow> u8 \<Rightarrow> mem option" where
  "cout1 m pt va b =
     (let va0 = PGROUNDDOWN va; pa0 = user_pa m pt va0 in
      if pa0 = 0 then None else Some (store_bytes m (pa0 + (va - va0)) [b]))"

primrec couts :: "mem \<Rightarrow> u64 \<Rightarrow> u64 \<Rightarrow> u8 list \<Rightarrow> mem option" where
  "couts m pt va [] = Some m"
| "couts m pt va (b # bs) = (case cout1 m pt va b of None \<Rightarrow> None | Some m \<Rightarrow> couts m pt (va + 1) bs)"

lemma chunk_1: "chunk va 1 = 1"
  using chunk_pos[of 1 va] by (auto simp: chunk_def Let_def)

lemma copyout_byte:
  "copyout pt va [b] s = (case cout1 (mem s) pt va b of None \<Rightarrow> Ok (-1, s) | Some m \<Rightarrow> Ok (0, s\<lparr>mem := m\<rparr>))"
  by (subst copyout.simps) (simp add: walkaddr_eq cout1_def Let_def chunk_1[simplified] copyout.simps[of _ _ "[]"])

end
