(* ===== verification/KMap.thy ===== *)
theory KMap
  imports KPaging
begin

text \<open>
  Page tables as trees of pages in memory. A table owns a set of pages; walking it with allocation takes pages off the
  free list and changes no translation; \<^verbatim>\<open>mappages\<close> of \<^verbatim>\<open>kernel/vm.c\<close> then sets exactly the entries of its range, and
  \<^verbatim>\<open>uvmunmap\<close> clears them.
\<close>

unbundle bit_operations_syntax

section \<open>Entries of a table page\<close>

definition px :: "nat \<Rightarrow> u64 \<Rightarrow> nat" where
  "px l va = unat va div 2 ^ (12 + 9 * l) mod 512"

definition ent :: "u64 \<Rightarrow> nat \<Rightarrow> u64" where
  "ent pt i = pt + of_nat (8 * i)"

lemma u64_nat: "of_nat (unat (w :: u64)) = w"
  by simp

lemma px_less [simp]: "px l va < 512"
  by (simp add: px_def)

lemma pte_addr_ent: "pte_addr pt l va = ent pt (px l va)"
proof -
  have "PX l va = take_bit 9 (drop_bit (12 + 9 * l) va)"
    by (simp add: PX_def take_bit_eq_mask mask_eq_exp_minus_1)
  then have "unat (PX l va) = px l va"
    by (simp only: px_def unsigned_take_bit_eq unat_drop_bit_eq) (simp add: drop_bit_eq_div take_bit_eq_mod)
  then have "PX l va = of_nat (px l va)" by (metis u64_nat)
  then show ?thesis by (simp add: pte_addr_def ent_def)
qed

lemma ent_page:
  assumes "i < 512" and "r < 8"
  shows "in_page pt (ent pt i + of_nat r)"
proof -
  have "ent pt i + of_nat r = pt + of_nat (8 * i + r)" by (simp add: ent_def)
  then show ?thesis using in_page_offset[of "8 * i + r" pt] assms by (simp add: add.assoc)
qed

lemma ent_page0: "i < 512 \<Longrightarrow> in_page pt (ent pt i)"
  using ent_page[of i 0 pt] by simp

lemma ent_nonzero: "aligned pt \<Longrightarrow> pt \<noteq> 0 \<Longrightarrow> i < 512 \<Longrightarrow> ent pt i \<noteq> 0"
proof
  assume a: "aligned pt" "pt \<noteq> 0" "i < 512" "ent pt i = 0"
  then have "in_page pt 0" using ent_page0[of i pt] by simp
  then have "unat pt div 4096 = 0" using in_page_unat[OF a(1), of 0] by simp
  then have "unat pt = 0" using a(1) div_mult_mod_eq[of "unat pt" 4096] by (simp add: page_aligned_unat)
  then show False using a(2) by (simp add: word_unat_eq_iff)
qed

lemma store_ent:
  assumes "i < 512" and "j < 512"
  shows "load64 (store64 m (ent pt i) v) (ent pt j) = (if i = j then v else load64 m (ent pt j))"
proof (cases "i = j")
  case False
  have "8 \<le> unat (ent pt j + of_nat r - ent pt i)" if r: "r < 8" for r
  proof (rule ccontr)
    assume "\<not> 8 \<le> unat (ent pt j + of_nat r - ent pt i)"
    then obtain q where q: "q < 8" "ent pt j + of_nat r - ent pt i = of_nat q" by (metis not_le u64_nat)
    then have "(of_nat (8 * j + r) :: u64) = of_nat (8 * i + q)" by (simp add: ent_def algebra_simps)
    then have "8 * j + r = 8 * i + q" using assms r q(1) unat_of_nat_u64[of "8 * j + r"] unat_of_nat_u64[of "8 * i + q"] by simp
    then show False using False r q(1) by linarith
  qed
  then show ?thesis using False by (auto intro!: load64_cong store64_outside)
qed simp

lemma store_ent_outside: "i < 512 \<Longrightarrow> \<not> in_page pt x \<Longrightarrow> store64 m (ent pt i) v x = m x"
proof (rule store64_outside, rule ccontr)
  assume a: "i < 512" "\<not> in_page pt x" "\<not> 8 \<le> unat (x - ent pt i)"
  then obtain q where "q < 8" "x = ent pt i + of_nat q" by (metis add.commute diff_add_cancel not_le u64_nat)
  then show False using ent_page[OF a(1)] a(2) by simp
qed

lemma load_ent_cong: "i < 512 \<Longrightarrow> (\<And>x. in_page pt x \<Longrightarrow> m' x = m x) \<Longrightarrow> load64 m' (ent pt i) = load64 m (ent pt i)"
  by (rule load64_cong) (simp add: ent_page)

text \<open>An entry that points to a page.\<close>

lemma PTE2PA_PA2PTE:
  assumes "aligned p" and "p < PHYSTOP"
  shows "PTE2PA (PA2PTE p OR PTE_V) = p" and "(PA2PTE p OR PTE_V) AND PTE_V \<noteq> 0"
proof -
  have z: "take_bit 12 p = 0" using assms(1) by (simp add: aligned_def PGSIZE_def take_bit_eq_mod)
  have low: "\<not> bit p n" if "n < 12" for n
    using arg_cong[OF z, of "\<lambda>w. bit w n"] that by (simp add: bit_simps)
  have high: "\<not> bit p n" if "32 \<le> n" for n
  proof -
    have "unat p < 2 ^ 32" using assms(2) by (simp add: word_less_nat_alt)
    then have "unat (take_bit 32 p) = unat p" by (simp only: unsigned_take_bit_eq take_bit_nat_eq_self)
    then have "take_bit 32 p = p" by (simp only: word_unat_eq_iff)
    from arg_cong[OF this, of "\<lambda>w. bit w n"] show ?thesis using that by (simp add: bit_simps)
  qed
  show "PTE2PA (PA2PTE p OR PTE_V) = p"
  proof (rule bit_word_eqI)
    fix n
    show "bit (PTE2PA (PA2PTE p OR PTE_V)) n = bit p n"
      using low[of n] high[of n] by (cases "n < 12"; cases "32 \<le> n") (auto simp: PTE2PA_def PA2PTE_def PTE_V_def bit_simps)
  qed
  have "bit ((PA2PTE p OR PTE_V) AND PTE_V) 0" by (simp add: PTE_V_def bit_simps)
  then show "(PA2PTE p OR PTE_V) AND PTE_V \<noteq> 0" by auto
qed

section \<open>Tables in memory\<close>

definition table_page :: "u64 \<Rightarrow> bool" where
  "table_page pt \<longleftrightarrow> aligned pt \<and> pt \<noteq> 0"

text \<open>A table of level \<open>l\<close> at \<open>pt\<close> that owns the pages \<open>S\<close>; no two entries lead to a common page.\<close>

primrec tbl :: "nat \<Rightarrow> mem \<Rightarrow> u64 \<Rightarrow> u64 set \<Rightarrow> bool" where
  "tbl 0 m pt S \<longleftrightarrow> table_page pt \<and> S = {pt}"
| "tbl (Suc l) m pt S \<longleftrightarrow> table_page pt \<and> (\<exists>C.
     (\<forall>i < 512. if load64 m (ent pt i) AND PTE_V \<noteq> 0 then tbl l m (PTE2PA (load64 m (ent pt i))) (C i) else C i = {})
     \<and> (\<forall>i < 512. \<forall>j < 512. i \<noteq> j \<longrightarrow> C i \<inter> C j = {}) \<and> (\<forall>i < 512. pt \<notin> C i)
     \<and> S = insert pt (\<Union>i < 512. C i))"

definition leafv :: "nat \<Rightarrow> mem \<Rightarrow> u64 \<Rightarrow> u64 \<Rightarrow> u64" where
  "leafv l m pt va = (let a = walk_pte l m pt va in if a = 0 then 0 else load64 m a)"

definition same_path :: "nat \<Rightarrow> u64 \<Rightarrow> u64 \<Rightarrow> bool" where
  "same_path l va va' \<longleftrightarrow> (\<forall>j \<le> l. px j va = px j va')"

lemma leafv_Suc:
  "leafv (Suc l) m pt va = (let e = load64 m (ent pt (px (Suc l) va)) in if e AND PTE_V \<noteq> 0 then leafv l m (PTE2PA e) va else 0)"
  by (simp add: leafv_def pte_addr_ent Let_def)

lemma leafv_0: "table_page pt \<Longrightarrow> leafv 0 m pt va = load64 m (ent pt (px 0 va))"
  using ent_nonzero[of pt "px 0 va"] by (simp add: leafv_def pte_addr_ent Let_def table_page_def)

lemma tblE:
  assumes "tbl (Suc l) m pt S"
  obtains C where "table_page pt" and "\<And>i. i < 512 \<Longrightarrow> load64 m (ent pt i) AND PTE_V \<noteq> 0 \<Longrightarrow> tbl l m (PTE2PA (load64 m (ent pt i))) (C i)"
    and "\<And>i. i < 512 \<Longrightarrow> load64 m (ent pt i) AND PTE_V = 0 \<Longrightarrow> C i = {}"
    and "\<And>i j. i < 512 \<Longrightarrow> j < 512 \<Longrightarrow> i \<noteq> j \<Longrightarrow> C i \<inter> C j = {}" and "\<And>i. i < 512 \<Longrightarrow> pt \<notin> C i"
    and "S = insert pt (\<Union>i < 512. C i)"
proof -
  from assms obtain C where C: "table_page pt"
    "\<forall>i < 512. if load64 m (ent pt i) AND PTE_V \<noteq> 0 then tbl l m (PTE2PA (load64 m (ent pt i))) (C i) else C i = {}"
    "\<forall>i < 512. \<forall>j < 512. i \<noteq> j \<longrightarrow> C i \<inter> C j = {}" "\<forall>i < 512. pt \<notin> C i" "S = insert pt (\<Union>i < 512. C i)"
    unfolding tbl.simps by blast
  show ?thesis by (rule that[of C]) (use C in \<open>auto split: if_splits\<close>)
qed

lemma tbl_pages: "tbl l m pt S \<Longrightarrow> p \<in> S \<Longrightarrow> table_page p"
proof (induction l arbitrary: pt S)
  case (Suc l)
  then obtain C where C: "table_page pt" "S = insert pt (\<Union>i < 512. C i)"
    "\<And>i. i < 512 \<Longrightarrow> load64 m (ent pt i) AND PTE_V \<noteq> 0 \<Longrightarrow> tbl l m (PTE2PA (load64 m (ent pt i))) (C i)"
    "\<And>i. i < 512 \<Longrightarrow> load64 m (ent pt i) AND PTE_V = 0 \<Longrightarrow> C i = {}" by (elim tblE) blast
  show ?case
  proof (cases "p = pt")
    case False
    then obtain i where i: "i < 512" "p \<in> C i" using Suc.prems(2) C(2) by auto
    then show ?thesis using C(3,4)[OF i(1)] Suc.IH by fastforce
  qed (use C in simp)
qed simp

lemma tbl_cong:
  assumes "tbl l m pt S" and "\<And>p x. p \<in> S \<Longrightarrow> in_page p x \<Longrightarrow> m' x = m x"
  shows "tbl l m' pt S" and "walk_pte l m' pt va = walk_pte l m pt va" and "leafv l m' pt va = leafv l m pt va"
proof -
  have "tbl l m' pt S \<and> walk_pte l m' pt va = walk_pte l m pt va \<and> leafv l m' pt va = leafv l m pt va"
    using assms
  proof (induction l arbitrary: pt S)
    case 0
    then show ?case using load_ent_cong[of "px 0 va" pt m' m] by (simp add: leafv_def pte_addr_ent Let_def)
  next
    case (Suc l)
    obtain C where C: "table_page pt" "\<And>i. i < 512 \<Longrightarrow> load64 m (ent pt i) AND PTE_V \<noteq> 0 \<Longrightarrow> tbl l m (PTE2PA (load64 m (ent pt i))) (C i)"
      "\<And>i. i < 512 \<Longrightarrow> load64 m (ent pt i) AND PTE_V = 0 \<Longrightarrow> C i = {}"
      "\<And>i j. i < 512 \<Longrightarrow> j < 512 \<Longrightarrow> i \<noteq> j \<Longrightarrow> C i \<inter> C j = {}" "\<And>i. i < 512 \<Longrightarrow> pt \<notin> C i" "S = insert pt (\<Union>i < 512. C i)"
      using Suc.prems(1) by (elim tblE) blast
    have e: "load64 m' (ent pt i) = load64 m (ent pt i)" if "i < 512" for i
      using Suc.prems(2)[of pt] C(6) that by (intro load_ent_cong) auto
    have ih: "tbl l m' (PTE2PA (load64 m (ent pt i))) (C i) \<and> walk_pte l m' (PTE2PA (load64 m (ent pt i))) va = walk_pte l m (PTE2PA (load64 m (ent pt i))) va
        \<and> leafv l m' (PTE2PA (load64 m (ent pt i))) va = leafv l m (PTE2PA (load64 m (ent pt i))) va"
      if "i < 512" "load64 m (ent pt i) AND PTE_V \<noteq> 0" for i
      by (rule Suc.IH[OF C(2)[OF that]]) (use Suc.prems(2) C(6) that(1) in auto)
    have "tbl (Suc l) m' pt S" unfolding tbl.simps using C(1,3-6) e ih by (intro conjI exI[of _ C]) auto
    moreover have "walk_pte (Suc l) m' pt va = walk_pte (Suc l) m pt va" using e ih by (simp add: pte_addr_ent Let_def)
    moreover have "leafv (Suc l) m' pt va = leafv (Suc l) m pt va"
      using e ih[of "px (Suc l) va"] by (simp add: leafv_Suc Let_def)
    ultimately show ?case by blast
  qed
  then show "tbl l m' pt S" "walk_pte l m' pt va = walk_pte l m pt va" "leafv l m' pt va = leafv l m pt va" by blast+
qed

lemma walk_pte_page: "tbl l m pt S \<Longrightarrow> walk_pte l m pt va \<noteq> 0 \<Longrightarrow> \<exists>p \<in> S. \<exists>i < 512. walk_pte l m pt va = ent p i"
proof (induction l arbitrary: pt S)
  case 0
  then show ?case by (auto simp: pte_addr_ent intro: px_less)
next
  case (Suc l)
  then obtain C where C: "S = insert pt (\<Union>i < 512. C i)"
    "\<And>i. i < 512 \<Longrightarrow> load64 m (ent pt i) AND PTE_V \<noteq> 0 \<Longrightarrow> tbl l m (PTE2PA (load64 m (ent pt i))) (C i)" by (elim tblE) blast
  let ?i = "px (Suc l) va"
  have e: "load64 m (ent pt ?i) AND PTE_V \<noteq> 0" "walk_pte (Suc l) m pt va = walk_pte l m (PTE2PA (load64 m (ent pt ?i))) va"
    using Suc.prems(2) by (auto simp: pte_addr_ent Let_def split: if_splits)
  have "\<exists>p \<in> C ?i. \<exists>i < 512. walk_pte l m (PTE2PA (load64 m (ent pt ?i))) va = ent p i"
    by (rule Suc.IH[OF C(2)[OF px_less e(1)]]) (use Suc.prems(2) e(2) in simp)
  then show ?case unfolding e(2) C(1) using px_less[of "Suc l" va] by blast
qed

lemma same_path_Suc: "same_path (Suc l) va va' \<longleftrightarrow> px (Suc l) va = px (Suc l) va' \<and> same_path l va va'"
  by (auto simp: same_path_def le_Suc_eq)

text \<open>Writing a leaf entry changes the translation of its page and nothing else.\<close>

lemma store_leaf:
  assumes "tbl l m pt S" and "walk_pte l m pt va \<noteq> 0"
  shows "tbl l (store64 m (walk_pte l m pt va) v) pt S \<and> walk_pte l (store64 m (walk_pte l m pt va) v) pt va' = walk_pte l m pt va'
    \<and> leafv l (store64 m (walk_pte l m pt va) v) pt va' = (if same_path l va va' then v else leafv l m pt va')"
  using assms
proof (induction l arbitrary: pt S)
  case 0
  then show ?case using store_ent[of "px 0 va" "px 0 va'" m pt v]
    by (simp add: leafv_0 pte_addr_ent same_path_def)
next
  case (Suc l)
  obtain C where C: "table_page pt" "\<And>i. i < 512 \<Longrightarrow> load64 m (ent pt i) AND PTE_V \<noteq> 0 \<Longrightarrow> tbl l m (PTE2PA (load64 m (ent pt i))) (C i)"
    "\<And>i. i < 512 \<Longrightarrow> load64 m (ent pt i) AND PTE_V = 0 \<Longrightarrow> C i = {}"
    "\<And>i j. i < 512 \<Longrightarrow> j < 512 \<Longrightarrow> i \<noteq> j \<Longrightarrow> C i \<inter> C j = {}" "\<And>i. i < 512 \<Longrightarrow> pt \<notin> C i" "S = insert pt (\<Union>i < 512. C i)"
    using Suc.prems(1) by (elim tblE) blast
  let ?k = "px (Suc l) va" and ?c = "\<lambda>i. PTE2PA (load64 m (ent pt i))"
  have valid: "load64 m (ent pt ?k) AND PTE_V \<noteq> 0" "walk_pte (Suc l) m pt va = walk_pte l m (?c ?k) va"
    using Suc.prems(2) by (auto simp: pte_addr_ent Let_def split: if_splits)
  define a where "a = walk_pte l m (?c ?k) va"
  define m' where "m' = store64 m a v"
  have a0: "a \<noteq> 0" using Suc.prems(2) valid(2) by (simp add: a_def)
  have tk: "tbl l m (?c ?k) (C ?k)" by (rule C(2)[OF px_less valid(1)])
  obtain p i where p: "p \<in> C ?k" "i < 512" "a = ent p i" using walk_pte_page[OF tk, of va] a0 unfolding a_def by blast
  have pp: "table_page p" by (rule tbl_pages[OF tk p(1)])
  have out: "m' x = m x" if "in_page q x" "table_page q" "q \<noteq> p" for q x
    using that pp in_page_unique[of q p x] store_ent_outside[OF p(2)] unfolding m'_def p(3) table_page_def by metis
  have e: "load64 m' (ent pt j) = load64 m (ent pt j)" if "j < 512" for j
    using out[of pt] C(1) C(5)[OF px_less, of "Suc l" va] p(1) that by (intro load_ent_cong) auto
  have k: "tbl l m' (?c ?k) (C ?k) \<and> walk_pte l m' (?c ?k) va' = walk_pte l m (?c ?k) va'
      \<and> leafv l m' (?c ?k) va' = (if same_path l va va' then v else leafv l m (?c ?k) va')"
    using Suc.IH[OF tk] a0 unfolding m'_def a_def by simp
  have j: "tbl l m' (?c j) (C j) \<and> walk_pte l m' (?c j) va' = walk_pte l m (?c j) va' \<and> leafv l m' (?c j) va' = leafv l m (?c j) va'"
    if "j < 512" "j \<noteq> ?k" "load64 m (ent pt j) AND PTE_V \<noteq> 0" for j
  proof -
    have tj: "tbl l m (?c j) (C j)" by (rule C(2)[OF that(1,3)])
    have "m' x = m x" if "q \<in> C j" "in_page q x" for q x
      using out[of q x] that tbl_pages[OF tj] C(4)[OF \<open>j < 512\<close> px_less \<open>j \<noteq> ?k\<close>] p(1) by blast
    then show ?thesis using tbl_cong[OF tj, of m'] by blast
  qed
  have all: "tbl l m' (?c j) (C j)" if "j < 512" "load64 m (ent pt j) AND PTE_V \<noteq> 0" for j
    using that j k by (cases "j = ?k") auto
  have "tbl (Suc l) m' pt S" unfolding tbl.simps using C(1,3-6) e all by (intro conjI exI[of _ C]) auto
  moreover have "walk_pte (Suc l) m' pt va' = walk_pte (Suc l) m pt va'"
    using e k j[of "px (Suc l) va'"] by (cases "px (Suc l) va' = ?k") (auto simp: pte_addr_ent Let_def)
  moreover have "leafv (Suc l) m' pt va' = (if same_path (Suc l) va va' then v else leafv (Suc l) m pt va')"
    using e k j[of "px (Suc l) va'"] valid(1) by (cases "px (Suc l) va' = ?k") (auto simp: leafv_Suc Let_def same_path_Suc)
  ultimately show ?case unfolding valid(2) a_def[symmetric] m'_def[symmetric] by blast
qed

section \<open>Walking with allocation\<close>

lemma load64_zero: "(\<And>r. r < 8 \<Longrightarrow> m (a + of_nat r) = 0) \<Longrightarrow> load64 m a = 0"
proof -
  assume "\<And>r. r < 8 \<Longrightarrow> m (a + of_nat r) = 0"
  then have "load64 m a = load64 (\<lambda>_. 0) a" by (intro load64_cong) simp
  also have "\<dots> = 0" by (simp add: load64_def load_bytes_def map_replicate_const numeral_eq_Suc)
  finally show ?thesis .
qed

lemma zero_table:
  assumes "table_page p" and "\<And>x. in_page p x \<Longrightarrow> m x = 0"
  shows "tbl l m p {p}" and "leafv l m p va = 0"
proof -
  have z: "load64 m (ent p i) = 0" if "i < 512" for i using assms(2) ent_page[OF that] by (intro load64_zero) simp
  show "tbl l m p {p}" using assms(1) z by (cases l) (auto intro!: exI[of _ "\<lambda>_. {}"])
  show "leafv l m p va = 0" using assms(1) z by (cases l) (auto simp: leafv_0 leafv_Suc)
qed

text \<open>A table after one of its entries has got a new child.\<close>

lemma tbl_child:
  assumes C: "table_page pt" "\<And>i. i < 512 \<Longrightarrow> load64 m (ent pt i) AND PTE_V \<noteq> 0 \<Longrightarrow> tbl l m (PTE2PA (load64 m (ent pt i))) (C i)"
      "\<And>i. i < 512 \<Longrightarrow> load64 m (ent pt i) AND PTE_V = 0 \<Longrightarrow> C i = {}"
      "\<And>i j. i < 512 \<Longrightarrow> j < 512 \<Longrightarrow> i \<noteq> j \<Longrightarrow> C i \<inter> C j = {}" "\<And>i. i < 512 \<Longrightarrow> pt \<notin> C i" "S = insert pt (\<Union>i < 512. C i)"
    and k: "k < 512" and e: "\<And>j. j < 512 \<Longrightarrow> j \<noteq> k \<Longrightarrow> load64 m' (ent pt j) = load64 m (ent pt j)"
    and new: "load64 m' (ent pt k) AND PTE_V \<noteq> 0" "tbl l m' (PTE2PA (load64 m' (ent pt k))) D"
    and D: "D \<inter> (S - C k) = {}" and keep: "\<And>p x. p \<in> S - C k - {pt} \<Longrightarrow> in_page p x \<Longrightarrow> m' x = m x"
  shows "tbl (Suc l) m' pt (S - C k \<union> D)"
    and "px (Suc l) va \<noteq> k \<Longrightarrow> leafv (Suc l) m' pt va = leafv (Suc l) m pt va"
proof -
  have cj: "C j \<subseteq> S - C k - {pt}" if "j < 512" "j \<noteq> k" for j
    using C(4)[OF that(1) k that(2)] C(5)[OF that(1)] C(6) that(1) by auto
  have j: "tbl l m' (PTE2PA (load64 m (ent pt j))) (C j) \<and> leafv l m' (PTE2PA (load64 m (ent pt j))) va = leafv l m (PTE2PA (load64 m (ent pt j))) va"
    if "j < 512" "j \<noteq> k" "load64 m (ent pt j) AND PTE_V \<noteq> 0" for j
    using tbl_cong(1)[OF C(2)[OF that(1,3)], of m'] tbl_cong(3)[OF C(2)[OF that(1,3)], of m' va] keep cj[OF that(1,2)] by blast
  let ?C = "C(k := D)"
  have "\<forall>i < 512. if load64 m' (ent pt i) AND PTE_V \<noteq> 0 then tbl l m' (PTE2PA (load64 m' (ent pt i))) (?C i) else ?C i = {}"
    using new j e C(3) by auto
  moreover have "?C i \<inter> ?C j = {}" if "i < 512" "j < 512" "i \<noteq> j" for i j
    using that C(4)[OF that] cj[of i] cj[of j] D by (auto split: if_splits)
  moreover have "pt \<notin> ?C i" if "i < 512" for i using C(5)[OF that] C(5)[OF k] C(6) D by auto
  moreover have "S - C k \<union> D = insert pt (\<Union>i < 512. ?C i)"
  proof -
    have "S - C k = insert pt (\<Union>i \<in> {..<512} - {k}. C i)" using C(5)[OF k] cj unfolding C(6) by fastforce
    moreover have "(\<Union>i < 512. ?C i) = (\<Union>i \<in> {..<512} - {k}. C i) \<union> D" using k by auto
    ultimately show ?thesis by auto
  qed
  ultimately show "tbl (Suc l) m' pt (S - C k \<union> D)"
    unfolding tbl.simps using C(1) by (intro conjI exI[of _ ?C]) blast+
  show "leafv (Suc l) m' pt va = leafv (Suc l) m pt va" if "px (Suc l) va \<noteq> k"
    using e[OF px_less that] j[OF px_less that] by (simp add: leafv_Suc Let_def)
qed

lemma kmem_ok_cong:
  assumes "kmem_ok s ps" and "\<And>q x. q \<in> set ps \<Longrightarrow> in_page q x \<Longrightarrow> m' x = mem s x"
  shows "kmem_ok (s\<lparr>mem := m'\<rparr>) ps"
  using assms free_chain_cong[of ps m' "mem s"] by (simp add: kmem_ok_def)

text \<open>
  What a walk with allocation leaves: pages \<open>us\<close> have moved from the front of the free list into the table, and
  no translation has changed.
\<close>

definition grown :: "nat \<Rightarrow> u64 \<Rightarrow> u64 set \<Rightarrow> u64 list \<Rightarrow> 'a kvm_scheme \<Rightarrow> u64 list \<Rightarrow> u64 list \<Rightarrow> 'a kvm_scheme \<Rightarrow> bool" where
  "grown l pt S ps s us qs t \<longleftrightarrow> ps = us @ qs \<and> kmem_ok t qs \<and> tbl l (mem t) pt (S \<union> set us)
     \<and> t = s\<lparr>mem := mem t, freelist := freelist t\<rparr>
     \<and> (\<forall>x. (\<forall>p \<in> S \<union> set us. \<not> in_page p x) \<longrightarrow> mem t x = mem s x)"

definition walk_ok :: "nat \<Rightarrow> u64 \<Rightarrow> u64 \<Rightarrow> u64 set \<Rightarrow> u64 list \<Rightarrow> 'a kvm_scheme \<Rightarrow> bool" where
  "walk_ok l pt va S ps s \<longleftrightarrow> (\<exists>a t us qs. walk_level l pt va True s = Ok (a, t) \<and> grown l pt S ps s us qs t
     \<and> length us \<le> l \<and> (\<forall>va'. leafv l (mem t) pt va' = leafv l (mem s) pt va') \<and> (if a = 0 then qs = [] else a = walk_pte l (mem t) pt va))"

text \<open>The table of a state, with its pages apart from the free ones.\<close>

definition tbl_state :: "nat \<Rightarrow> u64 \<Rightarrow> u64 set \<Rightarrow> u64 list \<Rightarrow> 'a kvm_scheme \<Rightarrow> bool" where
  "tbl_state l pt S ps s \<longleftrightarrow> tbl l (mem s) pt S \<and> kmem_ok s ps \<and> LkKmem \<notin> set (held s) \<and> set ps \<inter> S = {}"

lemma pages_disjoint:
  assumes "tbl_state l pt S ps s" and "in_page p x" and "p \<in> S \<union> set ps" and "q \<in> S \<union> set ps" and "p \<noteq> q"
  shows "\<not> in_page q x"
proof -
  have "aligned r" if "r \<in> S \<union> set ps" for r
    using that assms(1) tbl_pages[of l "mem s" pt S r] by (auto simp: tbl_state_def table_page_def kmem_ok_def valid_page_def)
  then show ?thesis using in_page_unique[of p q x] assms(2-5) by blast
qed

text \<open>One level down an existing entry.\<close>

lemma walk_valid:
  assumes st: "tbl_state (Suc l) pt S ps s" and valid: "load64 (mem s) (ent pt (px (Suc l) va)) AND PTE_V \<noteq> 0"
    and IH: "\<And>c D. tbl_state l c D ps s \<Longrightarrow> walk_ok l c va D ps s"
  shows "walk_ok (Suc l) pt va S ps s"
proof -
  have prems: "tbl (Suc l) (mem s) pt S" "kmem_ok s ps" "LkKmem \<notin> set (held s)" "set ps \<inter> S = {}" using st by (simp_all add: tbl_state_def)
  obtain C where C: "table_page pt" "\<And>i. i < 512 \<Longrightarrow> load64 (mem s) (ent pt i) AND PTE_V \<noteq> 0 \<Longrightarrow> tbl l (mem s) (PTE2PA (load64 (mem s) (ent pt i))) (C i)"
    "\<And>i. i < 512 \<Longrightarrow> load64 (mem s) (ent pt i) AND PTE_V = 0 \<Longrightarrow> C i = {}"
    "\<And>i j. i < 512 \<Longrightarrow> j < 512 \<Longrightarrow> i \<noteq> j \<Longrightarrow> C i \<inter> C j = {}" "\<And>i. i < 512 \<Longrightarrow> pt \<notin> C i" "S = insert pt (\<Union>i < 512. C i)"
    using prems(1) by (elim tblE) blast
  let ?k = "px (Suc l) va"
  let ?c = "PTE2PA (load64 (mem s) (ent pt ?k))"
  have kS: "C ?k \<subseteq> S" "pt \<in> S" using C(6) px_less[of "Suc l" va] by auto
  note disj = pages_disjoint[OF st]
  have "tbl_state l ?c (C ?k) ps s" using C(2)[OF px_less valid] prems kS by (auto simp: tbl_state_def)
  then obtain a t us qs where r: "walk_level l ?c va True s = Ok (a, t)" "grown l ?c (C ?k) ps s us qs t" "length us \<le> l"
    "\<forall>va'. leafv l (mem t) ?c va' = leafv l (mem s) ?c va'" "if a = 0 then qs = [] else a = walk_pte l (mem t) ?c va"
    using IH unfolding walk_ok_def by blast
  have g: "ps = us @ qs" "kmem_ok t qs" "tbl l (mem t) ?c (C ?k \<union> set us)" "t = s\<lparr>mem := mem t, freelist := freelist t\<rparr>"
    "\<And>x. \<forall>p \<in> C ?k \<union> set us. \<not> in_page p x \<Longrightarrow> mem t x = mem s x" using r(2) unfolding grown_def by blast+
  have keep: "mem t x = mem s x" if "p \<in> S - C ?k" "in_page p x" for p x
    using g(5)[of x] disj[OF that(2), of _] that(1) prems(4) g(1) kS by fastforce
  have e: "load64 (mem t) (ent pt j) = load64 (mem s) (ent pt j)" if "j < 512" for j
    using keep[of pt] kS C(5)[OF px_less, of "Suc l" va] that by (intro load_ent_cong) auto
  have D: "(C ?k \<union> set us) \<inter> (S - C ?k) = {}" using prems(4) g(1) by auto
  have ch: "tbl (Suc l) (mem t) pt (S - C ?k \<union> (C ?k \<union> set us))"
    "px (Suc l) va' \<noteq> ?k \<Longrightarrow> leafv (Suc l) (mem t) pt va' = leafv (Suc l) (mem s) pt va'" for va'
    by (rule tbl_child[OF C px_less e _ _ D keep]; use valid e g(3) in simp)+
  have "S - C ?k \<union> (C ?k \<union> set us) = S \<union> set us" using kS by auto
  moreover have "leafv (Suc l) (mem t) pt va' = leafv (Suc l) (mem s) pt va'" for va'
    using ch(2)[of va'] r(4) e valid by (cases "px (Suc l) va' = ?k") (auto simp: leafv_Suc Let_def)
  moreover have "mem t x = mem s x" if "\<forall>p \<in> S \<union> set us. \<not> in_page p x" for x using g(5) that kS by blast
  ultimately show ?thesis using r(1,3,5) g(1,2,4) ch(1) e valid unfolding walk_ok_def
    by (intro exI[of _ a] exI[of _ t] exI[of _ us] exI[of _ qs]) (simp add: grown_def pte_addr_ent Let_def)
qed

text \<open>Memory when a free page has become an empty table below the entry at \<open>k\<close>.\<close>

definition link_table :: "mem \<Rightarrow> u64 \<Rightarrow> nat \<Rightarrow> u64 \<Rightarrow> mem" where
  "link_table m pt k p = store64 (memset (memset m p 5 (ucast PGSIZE)) p 0 (ucast PGSIZE)) (ent pt k) (PA2PTE p OR PTE_V)"

lemma link_table:
  assumes "k < 512" and "aligned p" and "aligned pt" and "p \<noteq> pt"
  shows "in_page p x \<Longrightarrow> link_table m pt k p x = 0"
    and "\<not> in_page p x \<Longrightarrow> \<not> in_page pt x \<Longrightarrow> link_table m pt k p x = m x"
    and "j < 512 \<Longrightarrow> load64 (link_table m pt k p) (ent pt j) = (if j = k then PA2PTE p OR PTE_V else load64 m (ent pt j))"
proof -
  have d: "\<not> in_page p x" if "in_page pt x" for x using in_page_unique[of p pt x] assms that by blast
  show "in_page p x \<Longrightarrow> link_table m pt k p x = 0"
    using store_ent_outside[OF assms(1), of pt x] d[of x] by (cases "in_page pt x") (simp_all add: link_table_def memset_page)
  show "\<not> in_page p x \<Longrightarrow> \<not> in_page pt x \<Longrightarrow> link_table m pt k p x = m x"
    using store_ent_outside[OF assms(1), of pt x] by (simp add: link_table_def memset_page)
  show "load64 (link_table m pt k p) (ent pt j) = (if j = k then PA2PTE p OR PTE_V else load64 m (ent pt j))" if "j < 512"
  proof -
    have "load64 (memset (memset m p 5 (ucast PGSIZE)) p 0 (ucast PGSIZE)) (ent pt j) = load64 m (ent pt j)"
      using d that by (intro load_ent_cong) (auto simp: memset_page)
    then show ?thesis using store_ent[OF assms(1) that] by (simp add: link_table_def)
  qed
qed

text \<open>One level down through a new table page.\<close>

lemma walk_new:
  assumes st: "tbl_state (Suc l) pt S (p # ps) s" and inv: "load64 (mem s) (ent pt (px (Suc l) va)) AND PTE_V = 0"
    and IH: "\<And>c D ps s. tbl_state l c D ps (s :: 'a kvm_scheme) \<Longrightarrow> walk_ok l c va D ps s"
  shows "walk_ok (Suc l) pt va S (p # ps) (s :: 'a kvm_scheme)"
proof -
  have prems: "tbl (Suc l) (mem s) pt S" "kmem_ok s (p # ps)" "LkKmem \<notin> set (held s)" "set (p # ps) \<inter> S = {}" using st by (simp_all add: tbl_state_def)
  obtain C where C: "table_page pt" "\<And>i. i < 512 \<Longrightarrow> load64 (mem s) (ent pt i) AND PTE_V \<noteq> 0 \<Longrightarrow> tbl l (mem s) (PTE2PA (load64 (mem s) (ent pt i))) (C i)"
    "\<And>i. i < 512 \<Longrightarrow> load64 (mem s) (ent pt i) AND PTE_V = 0 \<Longrightarrow> C i = {}"
    "\<And>i j. i < 512 \<Longrightarrow> j < 512 \<Longrightarrow> i \<noteq> j \<Longrightarrow> C i \<inter> C j = {}" "\<And>i. i < 512 \<Longrightarrow> pt \<notin> C i" "S = insert pt (\<Union>i < 512. C i)"
    using prems(1) by (elim tblE) blast
  let ?k = "px (Suc l) va"
  note disj = pages_disjoint[OF st]
  have kS: "pt \<in> S" "C ?k = {}" using C(6) C(3)[OF px_less inv] by auto
  have p: "valid_page (kend s) p" "p \<notin> set ps" "p \<notin> S" "p \<noteq> 0" "p \<noteq> pt" "table_page p"
    using prems(2,4) kS by (auto simp: kmem_ok_def valid_page_def table_page_def)
  define m3 where "m3 = link_table (mem s) pt ?k p"
  define s3 where "s3 = s\<lparr>freelist := load64 (mem s) p, mem := m3\<rparr>"
  have "aligned p" "aligned pt" using p(6) C(1) by (simp_all add: table_page_def)
  note lk = link_table[of ?k p pt, OF px_less this p(5), where m = "mem s", folded m3_def]
  have k1: "kalloc s = Ok (p, s\<lparr>freelist := load64 (mem s) p, mem := memset (mem s) p 5 (ucast PGSIZE)\<rparr>)"
    by (rule kalloc_page[OF prems(2,3)])
  have "kmem_ok (s\<lparr>freelist := load64 (mem s) p, mem := memset (mem s) p 5 (ucast PGSIZE)\<rparr>\<lparr>mem := m3\<rparr>) ps"
  proof (rule kmem_ok_cong[OF kmem_ok_alloc[OF prems(2)]])
    fix q x assume q: "q \<in> set ps" "in_page q x"
    then have "q \<noteq> pt" "q \<noteq> p" using prems(4) kS p(2) by auto
    then have "\<not> in_page p x" "\<not> in_page pt x" using disj[OF q(2), of p] disj[OF q(2), of pt] q(1) kS by auto
    then show "m3 x = mem (s\<lparr>freelist := load64 (mem s) p, mem := memset (mem s) p 5 (ucast PGSIZE)\<rparr>) x"
      using lk(2)[of x] by (simp add: memset_page)
  qed
  then have "tbl_state l p {p} ps s3"
    using zero_table(1)[OF p(6), of m3 l] lk(1) p(2) prems(3) by (simp add: tbl_state_def s3_def)
  then obtain a t us qs where r: "walk_level l p va True s3 = Ok (a, t)" "grown l p {p} ps s3 us qs t" "length us \<le> l"
    "\<forall>va'. leafv l (mem t) p va' = leafv l m3 p va'" "if a = 0 then qs = [] else a = walk_pte l (mem t) p va"
    using IH unfolding walk_ok_def s3_def by fastforce
  have g: "ps = us @ qs" "kmem_ok t qs" "tbl l (mem t) p ({p} \<union> set us)" "t = s\<lparr>mem := mem t, freelist := freelist t\<rparr>"
    "\<And>x. \<forall>q \<in> {p} \<union> set us. \<not> in_page q x \<Longrightarrow> mem t x = m3 x" using r(2) unfolding grown_def s3_def by auto
  have keep: "mem t x = m3 x" if "q \<in> S" "in_page q x" for q x
    using g(5)[of x] disj[OF that(2)] that(1) prems(4) g(1) by fastforce
  have e: "load64 (mem t) (ent pt j) = (if j = ?k then PA2PTE p OR PTE_V else load64 (mem s) (ent pt j))" if "j < 512" for j
    using load_ent_cong[of j pt "mem t" m3] keep[of pt] kS lk(3)[OF that] that by simp
  have pe: "PTE2PA (PA2PTE p OR PTE_V) = p" "(PA2PTE p OR PTE_V) AND PTE_V \<noteq> 0"
    using PTE2PA_PA2PTE p(1) by (auto simp: valid_page_def)
  have D: "({p} \<union> set us) \<inter> (S - C ?k) = {}" using prems(4) g(1) p(3) by auto
  have old: "mem t x = mem s x" if "q \<in> S - C ?k - {pt}" "in_page q x" for q x
    using keep[of q x] lk(2)[of x] that disj[OF that(2), of p] disj[OF that(2), of pt] kS p(3) by auto
  have ch: "tbl (Suc l) (mem t) pt (S - C ?k \<union> ({p} \<union> set us))"
    "px (Suc l) va' \<noteq> ?k \<Longrightarrow> leafv (Suc l) (mem t) pt va' = leafv (Suc l) (mem s) pt va'" for va'
    by (rule tbl_child[OF C px_less _ _ _ D old]; use e pe g(3) in simp)+
  have "leafv (Suc l) (mem t) pt va' = leafv (Suc l) (mem s) pt va'" for va'
    using ch(2)[of va'] r(4) inv e pe zero_table(2)[OF p(6), of m3 l va'] lk(1)
    by (cases "px (Suc l) va' = ?k") (auto simp: leafv_Suc Let_def)
  moreover have "mem t x = mem s x" if "\<forall>q \<in> S \<union> set (p # us). \<not> in_page q x" for x
    using g(5)[of x] lk(2)[of x] that kS by simp
  ultimately show ?thesis using r(1,3,5) g(1,2,4) ch(1) e inv pe k1 p(4) kS unfolding walk_ok_def
    by (intro exI[of _ a] exI[of _ t] exI[of _ "p # us"] exI[of _ qs])
      (simp add: grown_def pte_addr_ent Let_def m3_def s3_def link_table_def)
qed

lemma walk_level_alloc: "tbl_state l pt S ps s \<Longrightarrow> walk_ok l pt va S ps s"
proof (induction l arbitrary: pt S s ps)
  case 0
  then have "ent pt (px 0 va) \<noteq> 0" by (intro ent_nonzero) (auto simp: tbl_state_def table_page_def)
  then show ?case using 0 unfolding walk_ok_def
    by (intro exI[of _ "ent pt (px 0 va)"] exI[of _ s] exI[of _ "[]"] exI[of _ ps]) (simp add: tbl_state_def grown_def pte_addr_ent)
next
  case (Suc l)
  show ?case
  proof (cases "load64 (mem s) (ent pt (px (Suc l) va)) AND PTE_V = 0")
    case False
    show ?thesis by (rule walk_valid[OF Suc.prems False Suc.IH])
  next
    case True
    show ?thesis
    proof (cases ps)
      case Nil
      then have "kalloc s = Ok (0, s)" using kalloc_empty[of s] Suc.prems by (simp add: tbl_state_def)
      then show ?thesis using True Suc.prems Nil unfolding walk_ok_def
        by (intro exI[of _ 0] exI[of _ s] exI[of _ "[]"] exI[of _ "[]"]) (simp add: tbl_state_def grown_def pte_addr_ent Let_def)
    next
      case (Cons p ps')
      then show ?thesis using walk_new[of l pt S p ps' s va] Suc.prems True Suc.IH by simp
    qed
  qed
qed

section \<open>Mapping a range\<close>

text \<open>The page number of an address below \<^verbatim>\<open>MAXVA\<close>; it determines the path through the table.\<close>

definition vpn :: "u64 \<Rightarrow> nat" where
  "vpn va = unat va div 4096"

lemma MAXVA_unat: "va < MAXVA \<longleftrightarrow> unat va < 274877906944"
  by (simp add: MAXVA_def word_less_nat_alt)

lemma same_path_vpn:
  assumes "va < MAXVA" and "va' < MAXVA"
  shows "same_path 2 va va' \<longleftrightarrow> vpn va = vpn va'"
proof -
  have px: "px 0 v = vpn v mod 512" "px 1 v = vpn v div 512 mod 512" "px 2 v = vpn v div 262144 mod 512" for v
    by (simp_all add: px_def vpn_def flip: div_mult2_eq)
  have split: "vpn v = px 2 v * 262144 + px 1 v * 512 + px 0 v" if "v < MAXVA" for v
  proof -
    have "vpn v < 134217728" using that by (simp add: MAXVA_unat vpn_def less_mult_imp_div_less)
    then have "vpn v div 262144 mod 512 = vpn v div 512 div 512" by (simp add: less_mult_imp_div_less flip: div_mult2_eq)
    then show ?thesis unfolding px using div_mult_mod_eq[of "vpn v" 512] div_mult_mod_eq[of "vpn v div 512" 512] by linarith
  qed
  have le2: "j \<le> 2 \<longleftrightarrow> j = 0 \<or> j = 1 \<or> j = 2" for j :: nat by linarith
  show ?thesis
  proof
    assume "same_path 2 va va'"
    then show "vpn va = vpn va'" unfolding same_path_def le2 using split[OF assms(1)] split[OF assms(2)] by simp
  next
    assume "vpn va = vpn va'"
    then show "same_path 2 va va'" unfolding same_path_def le2 using px by metis
  qed
qed

lemma grown_trans:
  assumes "grown l pt S ps s us qs t" and "grown l pt (S \<union> set us) qs t vs rs u"
  shows "grown l pt S ps s (us @ vs) rs u"
proof -
  have s: "t = s\<lparr>mem := mem t, freelist := freelist t\<rparr>" "u = t\<lparr>mem := mem u, freelist := freelist u\<rparr>"
    using assms unfolding grown_def by blast+
  have "u = s\<lparr>mem := mem u, freelist := freelist u\<rparr>" by (subst s(2), subst s(1)) simp
  then show ?thesis using assms unfolding grown_def by (auto simp: Un_assoc)
qed

lemma grown_state:
  assumes "tbl_state l pt S ps s" and "grown l pt S ps s us qs t"
  shows "tbl_state l pt (S \<union> set us) qs t" and "held t = held s" and "kend t = kend s"
proof -
  have e: "t = s\<lparr>mem := mem t, freelist := freelist t\<rparr>" using assms(2) unfolding grown_def by blast
  show h: "held t = held s" "kend t = kend s" using arg_cong[OF e, of held] arg_cong[OF e, of kend] by simp_all
  have "distinct ps" using assms(1) by (simp add: tbl_state_def kmem_ok_def)
  then show "tbl_state l pt (S \<union> set us) qs t" using assms h by (auto simp: tbl_state_def grown_def)
qed

text \<open>One page: the walk, and the write of its entry.\<close>

lemma map_page:
  assumes st: "tbl_state 2 pt S ps s" and va: "va < MAXVA" and un: "leafv 2 (mem s) pt va AND PTE_V = 0"
  obtains (none) t us where "walk pt va True s = Ok (0, t)" and "grown 2 pt S ps s us [] t" and "length us \<le> 2"
    and "\<And>va'. leafv 2 (mem t) pt va' = leafv 2 (mem s) pt va'"
  | (page) a t us qs where "walk pt va True s = Ok (a, t)" and "a \<noteq> 0" and "load64 (mem t) a AND PTE_V = 0"
    and "\<And>v. grown 2 pt S ps s us qs (t\<lparr>mem := store64 (mem t) a v\<rparr>)" and "length us \<le> 2"
    and "\<And>v va'. va' < MAXVA \<Longrightarrow> leafv 2 (store64 (mem t) a v) pt va' = (if vpn va' = vpn va then v else leafv 2 (mem s) pt va')"
proof -
  have walk: "walk pt va True s = walk_level 2 pt va True s" using va unfolding not_le[symmetric] by (simp add: walk_def)
  obtain a t us qs where w: "walk pt va True s = Ok (a, t)" "grown 2 pt S ps s us qs t"
    "\<And>va'. leafv 2 (mem t) pt va' = leafv 2 (mem s) pt va'" "length us \<le> 2" "if a = 0 then qs = [] else a = walk_pte 2 (mem t) pt va"
    using walk_level_alloc[OF st, of va] unfolding walk_ok_def walk by blast
  show thesis
  proof (cases "a = 0")
    case True
    then show ?thesis using none w by simp
  next
    case False
    then have a: "a = walk_pte 2 (mem t) pt va" "walk_pte 2 (mem t) pt va \<noteq> 0" using w(5) by auto
    have g: "ps = us @ qs" "kmem_ok t qs" "tbl 2 (mem t) pt (S \<union> set us)" "t = s\<lparr>mem := mem t, freelist := freelist t\<rparr>"
      "\<And>x. \<forall>p \<in> S \<union> set us. \<not> in_page p x \<Longrightarrow> mem t x = mem s x" using w(2) unfolding grown_def by blast+
    note st' = grown_state(1)[OF st w(2)]
    obtain p i where p: "p \<in> S \<union> set us" "i < 512" "a = ent p i" using walk_pte_page[OF g(3) a(2)] a(1) by auto
    have out: "store64 (mem t) a v x = mem t x" if "\<not> in_page p x" for v x
      using store_ent_outside[OF p(2) that] p(3) by simp
    have sl: "tbl 2 (store64 (mem t) a v) pt (S \<union> set us)"
      "leafv 2 (store64 (mem t) a v) pt va' = (if same_path 2 va va' then v else leafv 2 (mem t) pt va')" for v va'
      using store_leaf[OF g(3) a(2)] a(1) by auto
    have "kmem_ok (t\<lparr>mem := store64 (mem t) a v\<rparr>) qs" for v
      using pages_disjoint[OF st', of _ _ p] p(1) st' by (intro kmem_ok_cong[OF g(2)] out) (auto simp: tbl_state_def)
    moreover have "t\<lparr>mem := m\<rparr> = s\<lparr>mem := m, freelist := freelist t\<rparr>" for m by (subst g(4)) simp
    ultimately have gr: "grown 2 pt S ps s us qs (t\<lparr>mem := store64 (mem t) a v\<rparr>)" for v
      using g(1,5) sl(1) out p(1) unfolding grown_def by simp
    have "load64 (mem t) a AND PTE_V = 0" using un w(3)[of va] a False by (simp add: leafv_def Let_def)
    then show ?thesis using page[OF w(1) False _ gr w(4)] sl(2) w(3) same_path_vpn[OF va] by auto
  qed
qed

lemma vpn_step:
  assumes "unat a + 4096 < 274877906944"
  shows "vpn (a + PGSIZE) = Suc (vpn a)" and "unat (a + PGSIZE) = unat a + 4096"
proof -
  show "unat (a + PGSIZE) = unat a + 4096" using assms by (simp add: unat_plus_u64)
  then show "vpn (a + PGSIZE) = Suc (vpn a)" by (simp add: vpn_def)
qed

lemma page_range_end:
  assumes "0 < n" and "unat a + n * 4096 < 274877906944"
  shows "a \<noteq> a + of_nat n * PGSIZE"
proof -
  have e: "of_nat n * PGSIZE = (of_nat (n * 4096) :: u64)" by (simp only: of_nat_mult PGSIZE_def of_nat_numeral)
  have "unat (of_nat (n * 4096) :: u64) = n * 4096" using assms(2) by (intro unat_of_nat_u64) linarith
  then have "(of_nat (n * 4096) :: u64) \<noteq> 0" using assms(1) by (metis mult_eq_0_iff not_less0 unat_0 zero_neq_numeral)
  then show ?thesis unfolding e by (metis add_cancel_right_right)
qed

text \<open>The entry that \<^verbatim>\<open>mappages\<close> writes for the page \<open>j\<close> of its range.\<close>

definition new_pte :: "u64 \<Rightarrow> u64 \<Rightarrow> nat \<Rightarrow> u64" where
  "new_pte pa perm j = PA2PTE (pa + of_nat j * PGSIZE) OR perm OR PTE_V"

text \<open>
  The result of mapping \<open>n + 1\<close> pages from page \<open>i\<close> on: all of them, or the first \<open>k\<close> when no page for a table is left.
  Every other translation is as before.
\<close>

definition maps :: "u64 \<Rightarrow> u64 set \<Rightarrow> u64 list \<Rightarrow> 'a kvm_scheme \<Rightarrow> nat \<Rightarrow> nat \<Rightarrow> u64 \<Rightarrow> u64 \<Rightarrow> (int \<times> 'a kvm_scheme) outcome \<Rightarrow> bool" where
  "maps pt S ps s i n pa perm res \<longleftrightarrow> (\<exists>r t us qs k. res = Ok (r, t) \<and> grown 2 pt S ps s us qs t \<and> length us \<le> 2 * Suc n
     \<and> (if r = 0 then k = Suc n else r = -1 \<and> k \<le> n \<and> qs = [])
     \<and> (\<forall>va < MAXVA. leafv 2 (mem t) pt va =
          (if i \<le> vpn va \<and> vpn va < i + k then new_pte pa perm (vpn va - i) else leafv 2 (mem s) pt va)))"

lemma mapsI:
  assumes "res = Ok (r, t)" and "grown 2 pt S ps s us qs t" and "length us \<le> 2 * Suc n" and "if r = 0 then k = Suc n else r = -1 \<and> k \<le> n \<and> qs = []"
    and "\<And>va. va < MAXVA \<Longrightarrow> leafv 2 (mem t) pt va =
      (if i \<le> vpn va \<and> vpn va < i + k then new_pte pa perm (vpn va - i) else leafv 2 (mem s) pt va)"
  shows "maps pt S ps s i n pa perm res"
  unfolding maps_def using assms by blast

lemma mappages_loop_exact:
  assumes "tbl_state 2 pt S ps s" and "last_a = a + of_nat n * PGSIZE" and "unat a + n * 4096 < 274877906944"
    and "\<And>va. va < MAXVA \<Longrightarrow> vpn a \<le> vpn va \<Longrightarrow> vpn va \<le> vpn a + n \<Longrightarrow> leafv 2 (mem s) pt va AND PTE_V = 0"
  shows "maps pt S ps s (vpn a) n pa perm (mappages_loop pt a last_a pa perm s)"
  using assms
proof (induction n arbitrary: a pa s S ps)
  case 0
  have va: "a < MAXVA" using 0(3) by (simp add: MAXVA_unat)
  have un: "leafv 2 (mem s) pt a AND PTE_V = 0" by (rule 0(4)[OF va]) simp_all
  show ?case
  proof (rule map_page[OF 0(1) va un])
    fix t us assume w: "walk pt a True s = Ok (0, t)" "grown 2 pt S ps s us [] t" "length us \<le> 2" "\<And>va'. leafv 2 (mem t) pt va' = leafv 2 (mem s) pt va'"
    show ?thesis by (rule mapsI[OF _ w(2), where r = "-1" and k = 0]) (use w in \<open>auto simp: mappages_loop.simps[of pt a]\<close>)
  next
    fix x t us qs assume w: "walk pt a True s = Ok (x, t)" "x \<noteq> 0" "load64 (mem t) x AND PTE_V = 0"
      "\<And>v. grown 2 pt S ps s us qs (t\<lparr>mem := store64 (mem t) x v\<rparr>)" "length us \<le> 2"
      "\<And>v va'. va' < MAXVA \<Longrightarrow> leafv 2 (store64 (mem t) x v) pt va' = (if vpn va' = vpn a then v else leafv 2 (mem s) pt va')"
    show ?thesis
      by (rule mapsI[OF _ w(4)[of "PA2PTE pa OR perm OR PTE_V"], where r = 0 and k = "Suc 0"])
        (use 0(2) w(1-3) w(5,6) in \<open>auto simp: mappages_loop.simps[of pt a] Let_def new_pte_def\<close>)
  qed
next
  case (Suc n)
  have va: "a < MAXVA" using Suc(4) by (simp add: MAXVA_unat)
  have un: "leafv 2 (mem s) pt a AND PTE_V = 0" by (rule Suc(5)[OF va]) simp_all
  have b: "unat a + 4096 < 274877906944" using Suc(4) by simp
  have more: "a \<noteq> last_a" using page_range_end[of "Suc n" a] Suc(3,4) by simp
  show ?case
  proof (rule map_page[OF Suc(2) va un])
    fix t us assume w: "walk pt a True s = Ok (0, t)" "grown 2 pt S ps s us [] t" "length us \<le> 2" "\<And>va'. leafv 2 (mem t) pt va' = leafv 2 (mem s) pt va'"
    show ?thesis by (rule mapsI[OF _ w(2), where r = "-1" and k = 0]) (use w in \<open>auto simp: mappages_loop.simps[of pt a]\<close>)
  next
    fix x t us qs assume w: "walk pt a True s = Ok (x, t)" "x \<noteq> 0" "load64 (mem t) x AND PTE_V = 0"
      "\<And>v. grown 2 pt S ps s us qs (t\<lparr>mem := store64 (mem t) x v\<rparr>)" "length us \<le> 2"
      "\<And>v va'. va' < MAXVA \<Longrightarrow> leafv 2 (store64 (mem t) x v) pt va' = (if vpn va' = vpn a then v else leafv 2 (mem s) pt va')"
    define v where "v = PA2PTE pa OR perm OR PTE_V"
    define u where "u = t\<lparr>mem := store64 (mem t) x v\<rparr>"
    have g: "grown 2 pt S ps s us qs u" "leafv 2 (mem u) pt va' = (if vpn va' = vpn a then v else leafv 2 (mem s) pt va')" if "va' < MAXVA" for va'
      using w(4) w(6)[OF that] by (simp_all add: u_def)
    note vs = vpn_step[OF b]
    have "maps pt (S \<union> set us) qs u (vpn (a + PGSIZE)) n (pa + PGSIZE) perm (mappages_loop pt (a + PGSIZE) last_a (pa + PGSIZE) perm u)"
    proof (rule Suc.IH)
      show "tbl_state 2 pt (S \<union> set us) qs u" using grown_state(1)[OF Suc(2)] g(1)[OF va] by simp
      show "last_a = a + PGSIZE + of_nat n * PGSIZE" using Suc(3) by (simp add: algebra_simps)
      show "unat (a + PGSIZE) + n * 4096 < 274877906944" using Suc(4) vs(2) by simp
      show "leafv 2 (mem u) pt va' AND PTE_V = 0" if "va' < MAXVA" "vpn (a + PGSIZE) \<le> vpn va'" "vpn va' \<le> vpn (a + PGSIZE) + n" for va'
        using g(2)[OF that(1)] that Suc(5)[OF that(1)] vs(1) by simp
    qed
    then obtain r t' us' qs' k where ih: "mappages_loop pt (a + PGSIZE) last_a (pa + PGSIZE) perm u = Ok (r, t')"
      "grown 2 pt (S \<union> set us) qs u us' qs' t'" "length us' \<le> 2 * Suc n" "if r = 0 then k = Suc n else r = -1 \<and> k \<le> n \<and> qs' = []"
      "\<And>va. va < MAXVA \<Longrightarrow> leafv 2 (mem t') pt va = (if vpn (a + PGSIZE) \<le> vpn va \<and> vpn va < vpn (a + PGSIZE) + k
           then new_pte (pa + PGSIZE) perm (vpn va - vpn (a + PGSIZE)) else leafv 2 (mem u) pt va)" unfolding maps_def by blast
    have np: "new_pte (pa + PGSIZE) perm (j - Suc i) = new_pte pa perm (j - i)" if "Suc i \<le> j" for i j
    proof -
      have "j - i = Suc (j - Suc i)" using that by simp
      then show ?thesis by (simp add: new_pte_def algebra_simps)
    qed
    have leaf: "leafv 2 (mem t') pt va' = (if vpn a \<le> vpn va' \<and> vpn va' < vpn a + Suc k then new_pte pa perm (vpn va' - vpn a) else leafv 2 (mem s) pt va')"
      if "va' < MAXVA" for va'
      using ih(5)[OF that] g(2)[OF that] np[of "vpn a" "vpn va'"] vs(1) by (auto simp: v_def new_pte_def)
    have "mappages_loop pt a last_a pa perm s = Ok (r, t')"
      using w(1-3) ih(1) more by (simp add: mappages_loop.simps[of pt a] Let_def u_def v_def)
    then show ?thesis by (rule mapsI[OF _ grown_trans[OF g(1)[OF va] ih(2)], where r = r and k = "Suc k"]) (use ih(3,4) w(5) leaf in auto)
  qed
qed

section \<open>Unmapping a range\<close>

text \<open>The pages \<open>fs\<close> behind \<open>n\<close> mapped pages from page \<open>i\<close> on, and what is needed to free them.\<close>

definition frames :: "u64 \<Rightarrow> 'a kvm_scheme \<Rightarrow> nat \<Rightarrow> u64 list \<Rightarrow> bool" where
  "frames pt s i fs \<longleftrightarrow> (\<forall>va < MAXVA. i \<le> vpn va \<longrightarrow> vpn va < i + length fs \<longrightarrow>
     leafv 2 (mem s) pt va AND PTE_V \<noteq> 0 \<and> PTE_FLAGS (leafv 2 (mem s) pt va) \<noteq> PTE_V \<and> PTE2PA (leafv 2 (mem s) pt va) = fs ! (vpn va - i))"

definition can_free :: "'a kvm_scheme \<Rightarrow> u64 set \<Rightarrow> u64 list \<Rightarrow> u64 list \<Rightarrow> bool" where
  "can_free s S ps fs \<longleftrightarrow> distinct fs \<and> set fs \<inter> (S \<union> set ps) = {} \<and> (\<forall>f \<in> set fs. valid_page (kend s) f)"

definition freed_pages :: "bool \<Rightarrow> u64 list \<Rightarrow> u64 list" where
  "freed_pages do_free fs = (if do_free then rev fs else [])"

text \<open>The state after the pages of a range have been unmapped.\<close>

definition unmapped :: "u64 \<Rightarrow> u64 set \<Rightarrow> u64 list \<Rightarrow> 'a kvm_scheme \<Rightarrow> nat \<Rightarrow> u64 list \<Rightarrow> bool \<Rightarrow> 'a kvm_scheme \<Rightarrow> bool" where
  "unmapped pt S ps s i fs do_free t \<longleftrightarrow> tbl_state 2 pt S (freed_pages do_free fs @ ps) t
     \<and> t = s\<lparr>mem := mem t, freelist := freelist t\<rparr>
     \<and> (\<forall>va < MAXVA. leafv 2 (mem t) pt va = (if i \<le> vpn va \<and> vpn va < i + length fs then 0 else leafv 2 (mem s) pt va))
     \<and> (\<forall>x. (\<forall>p \<in> S \<union> set (freed_pages do_free fs). \<not> in_page p x) \<longrightarrow> mem t x = mem s x)"

lemma free_frame:
  assumes st: "tbl_state 2 pt S ps s" and f: "can_free s S ps [f]"
  obtains t where "kfree f s = Ok t" and "tbl_state 2 pt S (f # ps) t" and "t = s\<lparr>mem := mem t, freelist := freelist t\<rparr>"
    and "\<And>va. walk_pte 2 (mem t) pt va = walk_pte 2 (mem s) pt va \<and> leafv 2 (mem t) pt va = leafv 2 (mem s) pt va"
    and "\<And>x. \<not> in_page f x \<Longrightarrow> mem t x = mem s x"
proof -
  let ?t = "s\<lparr>mem := store64 (memset (mem s) f 1 (ucast PGSIZE)) f (freelist s), freelist := f\<rparr>"
  have v: "valid_page (kend s) f" "f \<notin> S" "f \<notin> set ps" using f by (auto simp: can_free_def)
  have st': "tbl 2 (mem s) pt S" "kmem_ok s ps" "LkKmem \<notin> set (held s)" "set ps \<inter> S = {}" using st by (simp_all add: tbl_state_def)
  have out: "mem ?t x = mem s x" if "\<not> in_page f x" for x using that by (simp add: store64_page memset_page)
  have keep: "mem ?t x = mem s x" if "p \<in> S" "in_page p x" for p x
  proof (rule out)
    show "\<not> in_page f x" using in_page_unique[of f p x] that v tbl_pages[OF st'(1) that(1)]
      by (auto simp: table_page_def valid_page_def)
  qed
  show thesis
  proof (rule that[of ?t])
    show "kfree f s = Ok ?t" by (rule kfree_page[OF v(1) st'(3)])
    show "tbl_state 2 pt S (f # ps) ?t"
      using kmem_ok_free[OF st'(2) v(1,3)] tbl_cong(1)[OF st'(1) keep] st'(3,4) v(2) by (simp add: tbl_state_def)
    show "walk_pte 2 (mem ?t) pt va = walk_pte 2 (mem s) pt va \<and> leafv 2 (mem ?t) pt va = leafv 2 (mem s) pt va" for va
      using tbl_cong(2)[OF st'(1), of "mem ?t" va] tbl_cong(3)[OF st'(1), of "mem ?t" va] keep by blast
  qed (use out in simp_all)
qed

lemma clear_leaf:
  assumes st: "tbl_state 2 pt S ps s" and va: "va < MAXVA" and a: "a = walk_pte 2 (mem s) pt va" "a \<noteq> 0"
  shows "tbl_state 2 pt S ps (s\<lparr>mem := store64 (mem s) a 0\<rparr>)"
    and "va' < MAXVA \<Longrightarrow> leafv 2 (store64 (mem s) a 0) pt va' = (if vpn va' = vpn va then 0 else leafv 2 (mem s) pt va')"
    and "\<forall>p \<in> S. \<not> in_page p x \<Longrightarrow> store64 (mem s) a 0 x = mem s x"
proof -
  have st': "tbl 2 (mem s) pt S" "kmem_ok s ps" "LkKmem \<notin> set (held s)" "set ps \<inter> S = {}" using st by (simp_all add: tbl_state_def)
  obtain p i where p: "p \<in> S" "i < 512" "a = ent p i" using walk_pte_page[OF st'(1), of va] a by auto
  have out: "store64 (mem s) a 0 x = mem s x" if "\<not> in_page p x" for x using store_ent_outside[OF p(2) that] p(3) by simp
  note sl = store_leaf[OF st'(1), of va 0, folded a(1), OF a(2)]
  have "kmem_ok (s\<lparr>mem := store64 (mem s) a 0\<rparr>) ps"
    using pages_disjoint[OF st, of _ _ p] p(1) st'(4) by (intro kmem_ok_cong[OF st'(2)] out) auto
  then show "tbl_state 2 pt S ps (s\<lparr>mem := store64 (mem s) a 0\<rparr>)" using sl st'(3,4) by (simp add: tbl_state_def)
  show "leafv 2 (store64 (mem s) a 0) pt va' = (if vpn va' = vpn va then 0 else leafv 2 (mem s) pt va')" if "va' < MAXVA"
    using sl[of va'] same_path_vpn[OF va that] by auto
  show "\<forall>p \<in> S. \<not> in_page p x \<Longrightarrow> store64 (mem s) a 0 x = mem s x" using out p(1) by blast
qed

lemma unmapped_Cons:
  assumes "unmapped pt S ps s i [f] d u" and "unmapped pt S (freed_pages d [f] @ ps) u (Suc i) fs d t"
  shows "unmapped pt S ps s i (f # fs) d t"
proof -
  have e: "u = s\<lparr>mem := mem u, freelist := freelist u\<rparr>" "t = u\<lparr>mem := mem t, freelist := freelist t\<rparr>"
    using assms unfolding unmapped_def by blast+
  have "t = s\<lparr>mem := mem t, freelist := freelist t\<rparr>" by (subst e(2), subst e(1)) simp
  moreover have fp: "freed_pages d (f # fs) = freed_pages d fs @ freed_pages d [f]" by (simp add: freed_pages_def)
  moreover have "leafv 2 (mem t) pt va = (if i \<le> vpn va \<and> vpn va < i + length (f # fs) then 0 else leafv 2 (mem s) pt va)"
    if "va < MAXVA" for va
    using assms that unfolding unmapped_def by (auto split: if_splits)
  moreover have "mem t x = mem s x" if x: "\<forall>p \<in> S \<union> set (freed_pages d (f # fs)). \<not> in_page p x" for x
  proof -
    have "\<forall>p \<in> S \<union> set (freed_pages d fs). \<not> in_page p x" "\<forall>p \<in> S \<union> set (freed_pages d [f]). \<not> in_page p x" using x fp by auto
    then show ?thesis using assms unfolding unmapped_def by simp
  qed
  moreover have "tbl_state 2 pt S (freed_pages d (f # fs) @ ps) t" using assms(2) fp by (simp add: unmapped_def)
  ultimately show ?thesis unfolding unmapped_def by blast
qed

lemma unmap_page:
  assumes st: "tbl_state 2 pt S ps s" and va: "a < MAXVA" and fr: "frames pt s (vpn a) (f # fs)"
    and free: "d \<Longrightarrow> can_free s S ps (f # fs)"
  obtains u where "\<And>last_a. uvmunmap_loop pt a last_a d s = (if a = last_a then Ok u else uvmunmap_loop pt (a + PGSIZE) last_a d u)"
    and "unmapped pt S ps s (vpn a) [f] d u"
proof -
  let ?e = "leafv 2 (mem s) pt a" and ?a = "walk_pte 2 (mem s) pt a"
  have e: "?e AND PTE_V \<noteq> 0" "PTE_FLAGS ?e \<noteq> PTE_V" "PTE2PA ?e = f"
    using fr va unfolding frames_def by fastforce+
  then have a: "?a \<noteq> 0" "load64 (mem s) ?a = ?e" by (auto simp: leafv_def Let_def)
  have w: "walk pt a False s = Ok (?a, s)" by (rule walk_noalloc[OF va])
  obtain t where t: "(if d then kfree f s else Ok s) = Ok t" "tbl_state 2 pt S (freed_pages d [f] @ ps) t"
    "t = s\<lparr>mem := mem t, freelist := freelist t\<rparr>" "\<And>va. walk_pte 2 (mem t) pt va = walk_pte 2 (mem s) pt va"
    "\<And>va. leafv 2 (mem t) pt va = leafv 2 (mem s) pt va" "\<And>x. (d \<Longrightarrow> \<not> in_page f x) \<Longrightarrow> mem t x = mem s x"
  proof (cases d)
    case True
    have "can_free s S ps [f]" using free[OF True] by (simp add: can_free_def)
    then show ?thesis by (rule free_frame[OF st]) (use that True in \<open>auto simp: freed_pages_def\<close>)
  next
    case False
    show ?thesis by (rule that[of s]) (use False st in \<open>auto simp: freed_pages_def\<close>)
  qed
  let ?u = "t\<lparr>mem := store64 (mem t) ?a 0\<rparr>"
  note cl = clear_leaf[OF t(2) va, of ?a, unfolded t(4), OF refl a(1)]
  have step: "uvmunmap_loop pt a last_a d s = (if a = last_a then Ok ?u else uvmunmap_loop pt (a + PGSIZE) last_a d ?u)" for last_a
    using w a e t(1) by (cases d) (auto simp: uvmunmap_loop.simps[of pt a] Let_def)
  have "t\<lparr>mem := m\<rparr> = s\<lparr>mem := m, freelist := freelist t\<rparr>" for m by (subst t(3)) simp
  moreover have "store64 (mem t) ?a 0 x = mem s x" if "\<forall>p \<in> S \<union> set (freed_pages d [f]). \<not> in_page p x" for x
    using cl(3)[of x] t(6)[of x] that by (auto simp: freed_pages_def)
  moreover have "leafv 2 (store64 (mem t) ?a 0) pt va' = (if vpn a \<le> vpn va' \<and> vpn va' < vpn a + length [f] then 0 else leafv 2 (mem s) pt va')"
    if "va' < MAXVA" for va' using cl(2)[OF that] t(5)[of va'] by auto
  ultimately have "unmapped pt S ps s (vpn a) [f] d ?u" using cl(1) unfolding unmapped_def by simp
  then show thesis using that step by blast
qed

lemma uvmunmap_loop_exact:
  assumes "tbl_state 2 pt S ps s" and "last_a = a + of_nat (length fs) * PGSIZE" and "unat a + length fs * 4096 < 274877906944"
    and "frames pt s (vpn a) (f # fs)" and "d \<Longrightarrow> can_free s S ps (f # fs)"
  shows "returns (uvmunmap_loop pt a last_a d s) (unmapped pt S ps s (vpn a) (f # fs) d)"
  using assms
proof (induction fs arbitrary: a f s ps)
  case Nil
  have va: "a < MAXVA" using Nil(3) by (simp add: MAXVA_unat)
  obtain u where u: "\<And>last_a. uvmunmap_loop pt a last_a d s = (if a = last_a then Ok u else uvmunmap_loop pt (a + PGSIZE) last_a d u)"
    "unmapped pt S ps s (vpn a) [f] d u"
    by (rule unmap_page[OF Nil(1) va Nil(4,5)]) blast+
  have "last_a = a" using Nil(2) by simp
  then show ?case using u(1)[of a] u(2) by simp
next
  case (Cons g fs)
  have va: "a < MAXVA" "unat a + 4096 < 274877906944" using Cons.prems(3) by (simp_all add: MAXVA_unat)
  note vs = vpn_step[OF va(2)]
  have more: "a \<noteq> last_a" using page_range_end[of "length (g # fs)" a] Cons.prems(2,3) by simp
  obtain u where u: "\<And>last_a. uvmunmap_loop pt a last_a d s = (if a = last_a then Ok u else uvmunmap_loop pt (a + PGSIZE) last_a d u)"
    "unmapped pt S ps s (vpn a) [f] d u"
    by (rule unmap_page[OF Cons.prems(1) va(1) Cons.prems(4,5)]) blast+
  have ke: "kend u = kend s"
  proof -
    have "u = s\<lparr>mem := mem u, freelist := freelist u\<rparr>" using u(2) unfolding unmapped_def by blast
    from arg_cong[OF this, of kend] show ?thesis by simp
  qed
  have "returns (uvmunmap_loop pt (a + PGSIZE) last_a d u) (unmapped pt S (freed_pages d [f] @ ps) u (vpn (a + PGSIZE)) (g # fs) d)"
  proof (rule Cons.IH)
    show "tbl_state 2 pt S (freed_pages d [f] @ ps) u" using u(2) by (simp add: unmapped_def)
    show "last_a = a + PGSIZE + of_nat (length fs) * PGSIZE" using Cons.prems(2) by (simp add: algebra_simps)
    show "unat (a + PGSIZE) + length fs * 4096 < 274877906944" using Cons.prems(3) vs(2) by simp
    show "frames pt u (vpn (a + PGSIZE)) (g # fs)" using Cons.prems(4) u(2) unfolding frames_def unmapped_def vs(1)
      by (auto simp: nth_Cons' Suc_le_eq)
    show "can_free u S (freed_pages d [f] @ ps) (g # fs)" if d using Cons.prems(5)[OF that] that ke
      by (auto simp: can_free_def freed_pages_def)
  qed
  then show ?case unfolding u(1) using more unmapped_Cons[OF u(2)] vs(1) by (auto elim!: returnsE)
qed

section \<open>Properties\<close>

lemma range_pages:
  assumes "0 < unat sz" and "unat va + unat sz \<le> 274877906944"
  shows "vpn (PGROUNDDOWN va) = vpn va" and "vpn va \<le> vpn (va + sz - 1)"
    and "PGROUNDDOWN (va + sz - 1) = PGROUNDDOWN va + of_nat (vpn (va + sz - 1) - vpn va) * PGSIZE"
    and "unat (PGROUNDDOWN va) + (vpn (va + sz - 1) - vpn va) * 4096 < 274877906944"
proof -
  have u: "unat (va + sz - 1) = unat va + unat sz - 1"
  proof -
    have "unat (va + sz) = unat va + unat sz" using assms(2) by (intro unat_plus_u64) linarith
    moreover have "1 \<le> va + sz" using assms(1) calculation by (simp add: word_le_nat_alt)
    ultimately show ?thesis by (simp add: unat_minus_word)
  qed
  have d: "unat (PGROUNDDOWN a) = vpn a * 4096" for a by (simp add: PGROUNDDOWN_unat vpn_def)
  show "vpn (PGROUNDDOWN va) = vpn va" by (simp add: vpn_def PGROUNDDOWN_unat)
  show le: "vpn va \<le> vpn (va + sz - 1)" unfolding vpn_def u using assms(1) by (intro div_le_mono) simp
  have top: "vpn (va + sz - 1) * 4096 < 274877906944" using u assms by (simp add: vpn_def)
  have sum: "vpn va * 4096 + (vpn (va + sz - 1) - vpn va) * 4096 = vpn (va + sz - 1) * 4096" using le by (simp add: diff_mult_distrib)
  then show "unat (PGROUNDDOWN va) + (vpn (va + sz - 1) - vpn va) * 4096 < 274877906944" unfolding d using top by simp
  let ?k = "vpn (va + sz - 1) - vpn va"
  have e: "of_nat ?k * PGSIZE = (of_nat (?k * 4096) :: u64)" by (simp only: of_nat_mult PGSIZE_def of_nat_numeral)
  have k: "unat (of_nat (?k * 4096) :: u64) = ?k * 4096" using sum top by (intro unat_of_nat_u64) linarith
  have "unat (PGROUNDDOWN va + of_nat (?k * 4096)) = unat (PGROUNDDOWN (va + sz - 1))"
    using unat_plus_u64[of "PGROUNDDOWN va" "of_nat (?k * 4096)"] k sum top d[of va] d[of "va + sz - 1"] by linarith
  then show "PGROUNDDOWN (va + sz - 1) = PGROUNDDOWN va + of_nat ?k * PGSIZE" unfolding e by (simp only: word_unat_eq_iff)
qed

text \<open>What \<^verbatim>\<open>walkaddr\<close>, and with it \<^verbatim>\<open>copyin\<close> and \<^verbatim>\<open>copyout\<close>, see of a table.\<close>

lemma user_pa_leafv:
  "user_pa m pt va = (let e = leafv 2 m pt va in if va \<ge> MAXVA \<or> e AND PTE_V = 0 \<or> e AND PTE_U = 0 then 0 else PTE2PA e)"
  by (simp add: user_pa_def leafv_def Let_def)

lemma mappages_maps:
  assumes "tbl_state 2 pt S ps s" and "0 < unat sz" and "unat va + unat sz \<le> 274877906944"
    and "\<And>v. v < MAXVA \<Longrightarrow> vpn va \<le> vpn v \<Longrightarrow> vpn v \<le> vpn (va + sz - 1) \<Longrightarrow> leafv 2 (mem s) pt v AND PTE_V = 0"
  shows "maps pt S ps s (vpn va) (vpn (va + sz - 1) - vpn va) pa perm (mappages pt va sz pa perm s)"
proof -
  note r = range_pages[OF assms(2,3)]
  have "maps pt S ps s (vpn (PGROUNDDOWN va)) (vpn (va + sz - 1) - vpn va) pa perm (mappages pt va sz pa perm s)"
    unfolding mappages_def by (rule mappages_loop_exact[OF assms(1) r(3,4)]) (use assms(4) r(1,2) in simp)
  then show ?thesis unfolding r(1) .
qed

text \<open>
  C8. \<^verbatim>\<open>mappages\<close>. For a page table that owns the pages \<open>S\<close>, apart from the free pages \<open>ps\<close>, and a range below
  \<^verbatim>\<open>MAXVA\<close> of which no page is mapped: the call returns. With result 0 every page of the range has the entry of its
  physical page and the permissions; with result -1 the first \<open>k\<close> pages have, and no free page is left. All other
  virtual addresses translate as before. The table has grown by free pages only, at most two for each page, and no
  byte outside the table and those pages has changed.
\<close>

theorem mappages_exact:
  assumes "tbl_state 2 pt S ps s" and "0 < unat sz" and "unat va + unat sz \<le> 274877906944"
    and "\<And>v. v < MAXVA \<Longrightarrow> vpn va \<le> vpn v \<Longrightarrow> vpn v \<le> vpn (va + sz - 1) \<Longrightarrow> leafv 2 (mem s) pt v AND PTE_V = 0"
  shows "\<exists>r t us qs k. mappages pt va sz pa perm s = Ok (r, t)
    \<and> (if r = 0 then k = vpn (va + sz - 1) - vpn va + 1 else r = -1 \<and> k \<le> vpn (va + sz - 1) - vpn va \<and> qs = [])
    \<and> (\<forall>v < MAXVA. leafv 2 (mem t) pt v =
         (if vpn va \<le> vpn v \<and> vpn v < vpn va + k then PA2PTE (pa + of_nat (vpn v - vpn va) * PGSIZE) OR perm OR PTE_V
          else leafv 2 (mem s) pt v))
    \<and> ps = us @ qs \<and> length us \<le> 2 * (vpn (va + sz - 1) - vpn va + 1) \<and> tbl_state 2 pt (S \<union> set us) qs t
    \<and> (\<forall>x. (\<forall>p \<in> S \<union> set us. \<not> in_page p x) \<longrightarrow> mem t x = mem s x)"
proof -
  obtain c t us qs k where m: "mappages pt va sz pa perm s = Ok (c, t)" "grown 2 pt S ps s us qs t"
    "length us \<le> 2 * Suc (vpn (va + sz - 1) - vpn va)"
    "if c = 0 then k = Suc (vpn (va + sz - 1) - vpn va) else c = -1 \<and> k \<le> vpn (va + sz - 1) - vpn va \<and> qs = []"
    "\<forall>v < MAXVA. leafv 2 (mem t) pt v = (if vpn va \<le> vpn v \<and> vpn v < vpn va + k then new_pte pa perm (vpn v - vpn va) else leafv 2 (mem s) pt v)"
    using mappages_maps[where pa = pa and perm = perm, OF assms] unfolding maps_def by blast
  have "tbl_state 2 pt (S \<union> set us) qs t" by (rule grown_state(1)[OF assms(1) m(2)])
  moreover have "ps = us @ qs" "\<forall>x. (\<forall>p \<in> S \<union> set us. \<not> in_page p x) \<longrightarrow> mem t x = mem s x" using m(2) unfolding grown_def by blast+
  ultimately show ?thesis using m(1,3,4,5) unfolding new_pte_def Suc_eq_plus1 by blast
qed

text \<open>A root table and four free pages in otherwise zero memory.\<close>

definition vm_example :: kvm where
  "vm_example = \<lparr>held = [], procs = replicate NPROC zero_proc, curp = None, nextpid = 1, initproc = None,
     mem = store64 (store64 (store64 (\<lambda>_. 0) 0x87FFB000 0x87FFC000) 0x87FFC000 0x87FFD000) 0x87FFD000 0x87FFE000,
     freelist = 0x87FFB000, kend = 0x87000000, kernel_pagetable = 0, etext = 0, trampoline = 0, satp = 0\<rparr>"

lemma vm_example_table: "tbl_state 2 0x87FFF000 {0x87FFF000} [0x87FFB000, 0x87FFC000, 0x87FFD000, 0x87FFE000] vm_example"
  and vm_example_leaf: "leafv 2 (mem vm_example) 0x87FFF000 va = 0"
proof -
  have far: "unat (x - p) \<ge> 8" if "in_page q x" "unat (q - p) \<ge> 4096" "unat (q - p) \<le> 18446744073709547520" for x p q :: u64
  proof -
    have "unat ((x - q) + (q - p)) = unat (x - q) + unat (q - p)" using that by (intro unat_plus_u64) (simp add: in_page_def)
    then show ?thesis using that(2) by simp
  qed
  have z: "mem vm_example x = 0" if "in_page 0x87FFF000 x" for x
    using far[OF that] by (simp add: vm_example_def store64_outside)
  have ld: "load64 (mem vm_example) 0x87FFB000 = 0x87FFC000" "load64 (mem vm_example) 0x87FFC000 = 0x87FFD000"
    "load64 (mem vm_example) 0x87FFD000 = 0x87FFE000" "load64 (mem vm_example) 0x87FFE000 = 0"
    by (simp_all add: vm_example_def load64_store64_apart load64_zero)
  have pg: "table_page 0x87FFF000" by (simp add: table_page_def aligned_def PGSIZE_def)
  have "kmem_ok vm_example [0x87FFB000, 0x87FFC000, 0x87FFD000, 0x87FFE000]"
    unfolding kmem_ok_def by (simp add: ld) (simp add: vm_example_def valid_page_def aligned_def PGSIZE_def PHYSTOP_def KERNBASE_def)
  then show "tbl_state 2 0x87FFF000 {0x87FFF000} [0x87FFB000, 0x87FFC000, 0x87FFD000, 0x87FFE000] vm_example"
    using zero_table(1)[OF pg z] by (simp add: tbl_state_def) (simp add: vm_example_def)
  show "leafv 2 (mem vm_example) 0x87FFF000 va = 0" by (rule zero_table(2)[OF pg z])
qed

lemma vm_example_range:
  "0 < unat (4096 :: u64)" "unat (0x1000 :: u64) + unat (4096 :: u64) \<le> 274877906944"
  "vpn 0x1000 = 1" "vpn (0x1000 + 4096 - 1) = 1"
  by (simp_all add: vpn_def)

theorem mappages_exact_witness:
  "\<exists>t. mappages 0x87FFF000 0x1000 4096 0x87000000 0x16 vm_example = Ok (0, t)
     \<and> leafv 2 (mem t) 0x87FFF000 0x1000 = 0x21C00017 \<and> leafv 2 (mem t) 0x87FFF000 0x2000 = 0"
proof -
  note m = mappages_exact[where pa = "0x87000000" and perm = "0x16", OF vm_example_table vm_example_range(1,2), unfolded vm_example_leaf vm_example_range(3,4) diff_self_eq_0 add_0 mult_1_right, OF zero_and_eq]
  obtain r t us qs k where t: "mappages 0x87FFF000 0x1000 4096 0x87000000 0x16 vm_example = Ok (r, t)"
    "if r = 0 then k = 1 else r = -1 \<and> k \<le> (0::nat) \<and> qs = []"
    "\<forall>v < MAXVA. leafv 2 (mem t) 0x87FFF000 v =
       (if 1 \<le> vpn v \<and> vpn v < 1 + k then PA2PTE (0x87000000 + of_nat (vpn v - 1) * PGSIZE) OR 0x16 OR PTE_V else 0)"
    "[0x87FFB000, 0x87FFC000, 0x87FFD000, 0x87FFE000 :: u64] = us @ qs" "length us \<le> 2"
    using m by blast
  have "length us + length qs = 4" using arg_cong[OF t(4), of length] by simp
  then have "r = 0" "k = 1" using t(2,5) by (auto split: if_splits)
  then show ?thesis using t(1) t(3)[rule_format, of "0x1000"] t(3)[rule_format, of "0x2000"]
    by (simp add: vpn_def MAXVA_def PA2PTE_def PTE_V_def)
qed

text \<open>
  C9. \<^verbatim>\<open>uvmunmap\<close>. For a page table that owns the pages \<open>S\<close>, apart from the free pages \<open>ps\<close>, and a range below
  \<^verbatim>\<open>MAXVA\<close> whose pages are mapped to the frames \<open>fs\<close>: the call returns, without a panic. The entries of the range are
  0 and every other virtual address translates as before. With \<^verbatim>\<open>do_free\<close> the frames, which have to be distinct pages
  of the allocator's range in use, are on the free list, the last one first; without it the free list is as it was.
  No byte outside the table and the freed frames has changed.
\<close>

theorem uvmunmap_exact:
  assumes "tbl_state 2 pt S ps s" and "0 < unat sz" and "unat va + unat sz \<le> 274877906944"
    and "length fs = vpn (va + sz - 1) - vpn va + 1" and "frames pt s (vpn va) fs" and "do_free \<Longrightarrow> can_free s S ps fs"
  shows "\<exists>t. uvmunmap pt va sz do_free s = Ok t
    \<and> (\<forall>v < MAXVA. leafv 2 (mem t) pt v = (if vpn va \<le> vpn v \<and> vpn v \<le> vpn (va + sz - 1) then 0 else leafv 2 (mem s) pt v))
    \<and> tbl_state 2 pt S ((if do_free then rev fs else []) @ ps) t
    \<and> (\<forall>x. (\<forall>p \<in> S \<union> (if do_free then set fs else {}). \<not> in_page p x) \<longrightarrow> mem t x = mem s x)"
proof -
  note r = range_pages[OF assms(2,3)]
  obtain f gs where fs: "fs = f # gs" "length gs = vpn (va + sz - 1) - vpn va" using assms(4) by (cases fs) auto
  have "returns (uvmunmap pt va sz do_free s) (unmapped pt S ps s (vpn (PGROUNDDOWN va)) fs do_free)"
    unfolding uvmunmap_def fs(1) by (rule uvmunmap_loop_exact[OF assms(1)]) (use r assms(5,6) fs in simp_all)
  then obtain t where t: "uvmunmap pt va sz do_free s = Ok t" "unmapped pt S ps s (vpn va) fs do_free t"
    unfolding r(1) by (rule returnsE)
  moreover have "v < vpn va + length fs \<longleftrightarrow> v \<le> vpn (va + sz - 1)" for v using assms(4) r(2) by linarith
  ultimately show ?thesis unfolding unmapped_def freed_pages_def by (intro exI[of _ t]) auto
qed

lemma vm_example_mapped:
  obtains t us qs where "mappages 0x87FFF000 0x1000 4096 0x87000000 0x16 vm_example = Ok (0, t)"
    and "tbl_state 2 0x87FFF000 (insert 0x87FFF000 (set us)) qs t" and "frames 0x87FFF000 t 1 [0x87000000]"
    and "can_free t (insert 0x87FFF000 (set us)) qs [0x87000000]"
proof -
  obtain r t us qs k where t: "mappages 0x87FFF000 0x1000 4096 0x87000000 0x16 vm_example = Ok (r, t)"
    "grown 2 0x87FFF000 {0x87FFF000} [0x87FFB000, 0x87FFC000, 0x87FFD000, 0x87FFE000] vm_example us qs t" "length us \<le> 2"
    "if r = 0 then k = 1 else r = -1 \<and> k \<le> (0::nat) \<and> qs = []"
    "\<forall>v < MAXVA. leafv 2 (mem t) 0x87FFF000 v = (if 1 \<le> vpn v \<and> vpn v < 1 + k then new_pte 0x87000000 0x16 (vpn v - 1) else 0)"
    using mappages_maps[where pa = "0x87000000" and perm = "0x16", OF vm_example_table vm_example_range(1,2),
      unfolded maps_def vm_example_leaf vm_example_range(3,4) diff_self_eq_0 One_nat_def[symmetric] mult_1_right, OF zero_and_eq]
    by blast
  have l: "[0x87FFB000, 0x87FFC000, 0x87FFD000, 0x87FFE000 :: u64] = us @ qs" "kend t = 0x87000000"
    using t(2) by (auto simp: grown_def vm_example_def dest: arg_cong[where f = kend])
  have "length us + length qs = 4" using arg_cong[OF l(1), of length] by simp
  then have r: "r = 0" "k = 1" using t(3,4) by (auto split: if_splits)
  have "set us \<union> set qs = {0x87FFB000, 0x87FFC000, 0x87FFD000, 0x87FFE000}" using arg_cong[OF l(1), of set] by simp
  then have "0x87000000 \<notin> insert 0x87FFF000 (set us) \<union> set qs" by auto
  then have "can_free t (insert 0x87FFF000 (set us)) qs [0x87000000]"
    by (simp add: can_free_def l(2) valid_page_def aligned_def PGSIZE_def PHYSTOP_def KERNBASE_def)
  moreover have "frames 0x87FFF000 t 1 [0x87000000]"
    using t(5) r by (simp add: frames_def new_pte_def PA2PTE_def PTE2PA_def PTE_V_def PTE_FLAGS_def)
  ultimately show thesis using that t(1) grown_state(1)[OF vm_example_table t(2)] r(1) by simp
qed

theorem uvmunmap_exact_witness:
  "\<exists>s t S ps. mappages 0x87FFF000 0x1000 4096 0x87000000 0x16 vm_example = Ok (0, s)
     \<and> uvmunmap 0x87FFF000 0x1000 4096 True s = Ok t \<and> leafv 2 (mem t) 0x87FFF000 0x1000 = 0
     \<and> tbl_state 2 0x87FFF000 S (0x87000000 # ps) t"
proof -
  obtain s us qs where s: "mappages 0x87FFF000 0x1000 4096 0x87000000 0x16 vm_example = Ok (0, s)"
    "tbl_state 2 0x87FFF000 (insert 0x87FFF000 (set us)) qs s" "frames 0x87FFF000 s 1 [0x87000000]"
    "can_free s (insert 0x87FFF000 (set us)) qs [0x87000000]"
    by (rule vm_example_mapped)
  obtain t where "uvmunmap 0x87FFF000 0x1000 4096 True s = Ok t"
    "\<forall>v < MAXVA. leafv 2 (mem t) 0x87FFF000 v = (if 1 \<le> vpn v \<and> vpn v \<le> 1 then 0 else leafv 2 (mem s) 0x87FFF000 v)"
    "tbl_state 2 0x87FFF000 (insert 0x87FFF000 (set us)) (0x87000000 # qs) t"
    using uvmunmap_exact[where fs = "[0x87000000]" and do_free = True, OF s(2) vm_example_range(1,2)] s(3,4)
    unfolding vm_example_range(3,4) by auto
  moreover have "(0x1000 :: u64) < MAXVA" "vpn 0x1000 = 1" by (simp_all add: MAXVA_def vpn_def)
  ultimately show ?thesis using s(1) by fastforce
qed

end
