(* ===== verification/KBio.thy ===== *)
theory KBio
  imports KVm KList
begin

text \<open>
  \<^verbatim>\<open>kernel/bio.c\<close>: the buffer cache. The \<^verbatim>\<open>NBUF\<close> buffers are linked, through their own
  \<^verbatim>\<open>next\<close> and \<^verbatim>\<open>prev\<close> fields, into a circular list in order of recent use. The disks are arrays
  of blocks; every block write is also appended to a trace, so that a crash can be modelled as a
  prefix of the writes. \<open>bio_rel s P\<close> relates the cache to the blocks in use \<open>P\<close> (content, reference
  count and whether this process has locked it, by device and block number): the links form one list
  of all buffers, no block is cached twice, and every buffer of \<open>P\<close> holds what \<open>P\<close> says.
\<close>

section \<open>State\<close>

definition NBUF :: nat where "NBUF = 30"
definition BSIZE :: nat where "BSIZE = 1024"

record buf =
  b_valid :: bool
  b_disk :: bool
  b_dev :: u32
  b_blockno :: u32
  b_lock :: sleeplock
  b_refcnt :: u32
  b_data :: "u8 list"

text \<open>The nodes of the list: \<^verbatim>\<open>bcache.head\<close> and \<^verbatim>\<open>bcache.buf[i]\<close>.\<close>

datatype bnode = BHead | BNode nat

record kbio = kvm +
  bufs :: "nat \<Rightarrow> buf"
  blinks :: "bnode links"
  disks :: "u32 \<Rightarrow> u32 \<Rightarrow> u8 list"
  dtrace :: "(u32 \<times> u32 \<times> u8 list) list"

definition b_upd :: "nat \<Rightarrow> (buf \<Rightarrow> buf) \<Rightarrow> 'a kbio_scheme \<Rightarrow> 'a kbio_scheme" where
  "b_upd i f s = s\<lparr>bufs := (bufs s)(i := f (bufs s i))\<rparr>"

section \<open>Operations\<close>

text \<open>
  The transfer of one block between a buffer and the disk, as the driver \<^verbatim>\<open>virtio_disk_rw\<close>
  completes it.
\<close>

definition disk_rw :: "nat \<Rightarrow> bool \<Rightarrow> 'a kbio_scheme \<Rightarrow> 'a kbio_scheme outcome" where
  "disk_rw i write s =
     (let b = bufs s i in
      if write
      then Ok (s\<lparr>disks := (disks s)(b_dev b := (disks s (b_dev b))(b_blockno b := b_data b)),
                 dtrace := dtrace s @ [(b_dev b, b_blockno b, b_data b)]\<rparr>)
      else Ok (b_upd i (\<lambda>b. b\<lparr>b_data := disks s (b_dev b) (b_blockno b)\<rparr>) s))"

text \<open>
  The loop of \<^verbatim>\<open>binit\<close> links buffer 0, 1, ... in front of the list; the four stores are those of
  \<^verbatim>\<open>lst_push\<close> written out.
\<close>

definition link_front :: "bnode \<Rightarrow> bnode links \<Rightarrow> bnode links" where
  "link_front b l =
     (let l = set_nxt b (nxt l BHead) l;
          l = set_prv b BHead l;
          l = set_prv (nxt l BHead) b l
      in set_nxt BHead b l)"

definition unlink_buf :: "bnode \<Rightarrow> bnode links \<Rightarrow> bnode links" where
  "unlink_buf b l =
     (let l = set_prv (nxt l b) (prv l b) l
      in set_nxt (prv l b) (nxt l b) l)"

definition binit :: "'a kbio_scheme \<Rightarrow> 'a kbio_scheme" where
  "binit s =
     (let s = s\<lparr>blinks := set_nxt BHead BHead (set_prv BHead BHead (blinks s))\<rparr> in
      fold (\<lambda>i s. b_upd i (\<lambda>b. b\<lparr>b_lock := initsleeplock\<rparr>) (s\<lparr>blinks := link_front (BNode i) (blinks s)\<rparr>))
        [0..<NBUF] s)"

definition b_acquiresleep :: "nat \<Rightarrow> 'a kbio_scheme \<Rightarrow> 'a kbio_scheme outcome" where
  "b_acquiresleep i = acquiresleep (LkBuf i) (ChBufLock i) (\<lambda>s. b_lock (bufs s i)) (\<lambda>l. b_upd i (\<lambda>b. b\<lparr>b_lock := l\<rparr>))"

definition b_releasesleep :: "nat \<Rightarrow> 'a kbio_scheme \<Rightarrow> 'a kbio_scheme outcome" where
  "b_releasesleep i = releasesleep (LkBuf i) (ChBufLock i) (\<lambda>l. b_upd i (\<lambda>b. b\<lparr>b_lock := l\<rparr>))"

definition b_holdingsleep :: "nat \<Rightarrow> 'a kbio_scheme \<Rightarrow> (bool \<times> 'a kbio_scheme) outcome" where
  "b_holdingsleep i = holdingsleep (LkBuf i) (\<lambda>s. b_lock (bufs s i))"

text \<open>
  The two scans of \<^verbatim>\<open>bget\<close>: from \<^verbatim>\<open>head.next\<close> along \<^verbatim>\<open>next\<close>, and from \<^verbatim>\<open>head.prev\<close> along
  \<^verbatim>\<open>prev\<close>, until a buffer satisfies the test or the head is reached. The list has \<^verbatim>\<open>NBUF\<close> nodes
  besides the head, so a scan of a proper list meets the head within \<open>Suc NBUF\<close> steps; the fuel
  stands for that.
\<close>

primrec scan_list :: "nat \<Rightarrow> (bnode \<Rightarrow> bnode) \<Rightarrow> (nat \<Rightarrow> bool) \<Rightarrow> bnode \<Rightarrow> nat option" where
  "scan_list 0 next_of test b = None"
| "scan_list (Suc k) next_of test b =
     (case b of BHead \<Rightarrow> None | BNode i \<Rightarrow> if test i then Some i else scan_list k next_of test (next_of b))"

definition find_cached :: "u32 \<Rightarrow> u32 \<Rightarrow> 'a kbio_scheme \<Rightarrow> nat option" where
  "find_cached dev blockno s =
     scan_list (Suc NBUF) (nxt (blinks s)) (\<lambda>i. b_dev (bufs s i) = dev \<and> b_blockno (bufs s i) = blockno)
       (nxt (blinks s) BHead)"

definition find_unused :: "'a kbio_scheme \<Rightarrow> nat option" where
  "find_unused s =
     scan_list (Suc NBUF) (prv (blinks s)) (\<lambda>i. b_refcnt (bufs s i) = 0) (prv (blinks s) BHead)"

definition bget :: "u32 \<Rightarrow> u32 \<Rightarrow> 'a kbio_scheme \<Rightarrow> (nat \<times> 'a kbio_scheme) outcome" where
  "bget dev blockno s =
     obind (acquire_lk LkBcache s) (\<lambda>s.
     case find_cached dev blockno s of
       Some i \<Rightarrow>
         obind (release_lk LkBcache (b_upd i (\<lambda>b. b\<lparr>b_refcnt := b_refcnt b + 1\<rparr>) s)) (\<lambda>s.
         obind (b_acquiresleep i s) (\<lambda>s. Ok (i, s)))
     | None \<Rightarrow>
         (case find_unused s of
            Some i \<Rightarrow>
              obind (release_lk LkBcache
                (b_upd i (\<lambda>b. b\<lparr>b_dev := dev, b_blockno := blockno, b_valid := False, b_refcnt := 1\<rparr>) s)) (\<lambda>s.
              obind (b_acquiresleep i s) (\<lambda>s. Ok (i, s)))
          | None \<Rightarrow> Panic ''bget: no buffers''))"

definition bread :: "u32 \<Rightarrow> u32 \<Rightarrow> 'a kbio_scheme \<Rightarrow> (nat \<times> 'a kbio_scheme) outcome" where
  "bread dev blockno s =
     obind (bget dev blockno s) (\<lambda>(i, s).
     if \<not> b_valid (bufs s i)
     then obind (disk_rw i False s) (\<lambda>s. Ok (i, b_upd i (\<lambda>b. b\<lparr>b_valid := True\<rparr>) s))
     else Ok (i, s))"

definition bwrite :: "nat \<Rightarrow> 'a kbio_scheme \<Rightarrow> 'a kbio_scheme outcome" where
  "bwrite i s =
     obind (b_holdingsleep i s) (\<lambda>(h, s).
     if \<not> h then Panic ''bwrite'' else disk_rw i True s)"

definition brelse :: "nat \<Rightarrow> 'a kbio_scheme \<Rightarrow> 'a kbio_scheme outcome" where
  "brelse i s =
     obind (b_holdingsleep i s) (\<lambda>(h, s).
     if \<not> h then Panic ''brelse''
     else obind (b_releasesleep i s) (\<lambda>s.
       obind (acquire_lk LkBcache s) (\<lambda>s.
       let s = b_upd i (\<lambda>b. b\<lparr>b_refcnt := b_refcnt b - 1\<rparr>) s;
           s = (if b_refcnt (bufs s i) = 0
                then s\<lparr>blinks := link_front (BNode i) (unlink_buf (BNode i) (blinks s))\<rparr> else s)
       in release_lk LkBcache s)))"

definition bpin :: "nat \<Rightarrow> 'a kbio_scheme \<Rightarrow> 'a kbio_scheme outcome" where
  "bpin i s =
     obind (acquire_lk LkBcache s) (\<lambda>s.
     release_lk LkBcache (b_upd i (\<lambda>b. b\<lparr>b_refcnt := b_refcnt b + 1\<rparr>) s))"

definition bunpin :: "nat \<Rightarrow> 'a kbio_scheme \<Rightarrow> 'a kbio_scheme outcome" where
  "bunpin i s =
     obind (acquire_lk LkBcache s) (\<lambda>s.
     release_lk LkBcache (b_upd i (\<lambda>b. b\<lparr>b_refcnt := b_refcnt b - 1\<rparr>) s))"

section \<open>The links as a list\<close>

lemma b_upd_simps [simp]:
  "held (b_upd i f s) = held s" "procs (b_upd i f s) = procs s" "curp (b_upd i f s) = curp s"
  "blinks (b_upd i f s) = blinks s" "disks (b_upd i f s) = disks s" "dtrace (b_upd i f s) = dtrace s"
  "bufs (b_upd i f s) = (bufs s)(i := f (bufs s i))"
  by (simp_all add: b_upd_def)

lemma b_upd_held [simp]: "b_upd i f (s\<lparr>held := h\<rparr>) = (b_upd i f s)\<lparr>held := h\<rparr>"
  by (simp add: b_upd_def)

lemma b_upd_b_upd [simp]: "b_upd i f (b_upd i g s) = b_upd i (\<lambda>b. f (g b)) s"
  by (simp add: b_upd_def)

lemma b_upd_held_id [simp]: "(b_upd i f s)\<lparr>held := held s\<rparr> = b_upd i f s"
  by (simp add: b_upd_def)

lemma b_upd_cong: "f (bufs s i) = g (bufs s i) \<Longrightarrow> b_upd i f s = b_upd i g s"
  by (simp add: b_upd_def)

interpretation buf_lock: sleeplock_place "LkBuf i" "ChBufLock i" "\<lambda>s. b_lock (bufs s i)"
    "\<lambda>l. b_upd i (\<lambda>b. b\<lparr>b_lock := l\<rparr>)" for i
  by unfold_locales auto

lemma link_front_lst_push: "link_front b = lst_push BHead b"
  by (simp add: link_front_def lst_push_def [abs_def] fun_eq_iff)

lemma unlink_buf_lst_remove:
  assumes "is_list l BHead xs" and "b \<in> set xs"
  shows "unlink_buf b l = lst_remove b l"
proof -
  have "nxt l b \<noteq> b" "prv l b \<noteq> b" using is_list_neighbours[OF assms] by simp_all
  then show ?thesis by (simp add: unlink_buf_def lst_remove_def Let_def set_nxt_def set_prv_def)
qed

text \<open>A scan along \<^verbatim>\<open>next\<close> (or \<^verbatim>\<open>prev\<close>) finds the first (or last) buffer that satisfies the test.\<close>

lemma scan_next:
  assumes "seg l a (map BNode xs) BHead" and "length xs < k"
  shows "scan_list k (nxt l) test (nxt l a) = find test xs"
  using assms
proof (induction xs arbitrary: a k)
  case Nil
  then show ?case by (cases k) auto
next
  case (Cons x xs)
  then obtain k' where k: "k = Suc k'" "length xs < k'" by (cases k) auto
  show ?case using Cons.prems Cons.IH[of "BNode x" k'] k by auto
qed

lemma scan_prev:
  assumes "seg l BHead (map BNode xs) b" and "length xs < k"
  shows "scan_list k (prv l) test (prv l b) = find test (rev xs)"
  using assms
proof (induction xs arbitrary: b k rule: rev_induct)
  case Nil
  then show ?case by (cases k) auto
next
  case (snoc x xs)
  then obtain k' where k: "k = Suc k'" "length xs < k'" by (cases k) auto
  show ?case using snoc.prems snoc.IH[of "BNode x" k'] k by (auto simp: seg_append)
qed

definition bkey :: "'a kbio_scheme \<Rightarrow> nat \<Rightarrow> u32 \<times> u32" where
  "bkey s i = (b_dev (bufs s i), b_blockno (bufs s i))"

text \<open>The buffers in order of use.\<close>

definition lru :: "'a kbio_scheme \<Rightarrow> nat list \<Rightarrow> bool" where
  "lru s xs \<longleftrightarrow> is_list (blinks s) BHead (map BNode xs) \<and> distinct xs \<and> set xs = {..<NBUF}"

lemma lru_length: "lru s xs \<Longrightarrow> length xs = NBUF"
  using distinct_card[of xs] by (simp add: lru_def)

lemma find_cached_lru:
  assumes "lru s xs"
  shows "find_cached d n s = find (\<lambda>i. bkey s i = (d, n)) xs"
proof -
  have "seg (blinks s) BHead (map BNode xs) BHead" "length xs < Suc NBUF"
    using assms lru_length[OF assms] by (simp_all add: lru_def is_list_def)
  then show ?thesis unfolding find_cached_def bkey_def prod.inject by (rule scan_next)
qed

lemma find_unused_lru:
  assumes "lru s xs"
  shows "find_unused s = find (\<lambda>i. b_refcnt (bufs s i) = 0) (rev xs)"
proof -
  have "seg (blinks s) BHead (map BNode xs) BHead" "length xs < Suc NBUF"
    using assms lru_length[OF assms] by (simp_all add: lru_def is_list_def)
  then show ?thesis unfolding find_unused_def by (rule scan_prev)
qed

lemma lru_cong: "blinks t = blinks s \<Longrightarrow> lru t xs = lru s xs"
  by (simp add: lru_def)

lemma lru_move_front:
  assumes "lru s xs" and "i < NBUF"
  shows "lru (s\<lparr>blinks := link_front (BNode i) (unlink_buf (BNode i) (blinks s))\<rparr>) (i # remove1 i xs)"
proof -
  have i: "BNode i \<in> set (map BNode xs)" and d: "distinct xs" "set xs = {..<NBUF}"
    using assms by (auto simp: lru_def)
  have l: "is_list (blinks s) BHead (map BNode xs)" using assms by (simp add: lru_def)
  have "is_list (lst_push BHead (BNode i) (lst_remove (BNode i) (blinks s))) BHead
      (BNode i # remove1 (BNode i) (map BNode xs))"
    by (rule lst.move_to_front[OF l i]) simp
  moreover have "remove1 (BNode i) (map BNode xs) = map BNode (remove1 i xs)"
    using d(1) by (simp add: distinct_remove1_removeAll distinct_map inj_on_def removeAll_filter_not_eq filter_map o_def)
  ultimately show ?thesis
    using d assms(2) unlink_buf_lst_remove[OF l i] by (auto simp: lru_def link_front_lst_push)
qed

section \<open>Abstraction of the cache\<close>

text \<open>
  What the users of the cache know of it: the blocks they hold or have pinned, each with its
  contents, reference count and whether this process has it locked. Every other buffer is unused,
  unlocked, and equal to the disk if it is valid at all. All buffers start out labelled with block
  0 of device 0, the boot block, which is never read through the cache.
\<close>

type_synonym bcache_abs = "u32 \<times> u32 \<Rightarrow> (u8 list \<times> u32 \<times> bool) option"

definition my_lock :: "'a kproc_scheme \<Rightarrow> sleeplock" where
  "my_lock s = \<lparr>slk_locked = True, slk_pid = pid (procs s ! myproc s)\<rparr>"

lemma my_lock_simps [simp]:
  "my_lock (s\<lparr>held := h\<rparr>) = my_lock s" "slk_locked (my_lock s)" "slk_pid (my_lock s) = pid (procs s ! myproc s)"
  by (simp_all add: my_lock_def)

lemma my_lock_b_upd [simp]: "my_lock (b_upd i f s) = my_lock s"
  by (simp add: my_lock_def)

definition disk_at :: "'a kbio_scheme \<Rightarrow> u32 \<times> u32 \<Rightarrow> u8 list" where
  "disk_at s k = disks s (fst k) (snd k)"

definition buf_is :: "'a kbio_scheme \<Rightarrow> nat \<Rightarrow> u8 list \<times> u32 \<times> bool \<Rightarrow> bool" where
  "buf_is s i e \<longleftrightarrow> (case e of (d, r, l) \<Rightarrow> b_valid (bufs s i) \<and> b_data (bufs s i) = d \<and> b_refcnt (bufs s i) = r
      \<and> (if l then b_lock (bufs s i) = my_lock s else \<not> slk_locked (b_lock (bufs s i))))"

definition buf_unused :: "'a kbio_scheme \<Rightarrow> nat \<Rightarrow> bool" where
  "buf_unused s i \<longleftrightarrow> b_refcnt (bufs s i) = 0 \<and> \<not> slk_locked (b_lock (bufs s i))
      \<and> (b_valid (bufs s i) \<longrightarrow> b_data (bufs s i) = disk_at s (bkey s i))"

definition bio_rel :: "'a kbio_scheme \<Rightarrow> bcache_abs \<Rightarrow> bool" where
  "bio_rel s P \<longleftrightarrow> (\<exists>xs. lru s xs)
     \<and> length (procs s) = NPROC
     \<and> (\<forall>i < NBUF. \<forall>j < NBUF. bkey s i = bkey s j \<longrightarrow> bkey s i \<noteq> (0, 0) \<longrightarrow> i = j)
     \<and> (\<forall>k \<in> dom P. k \<noteq> (0, 0) \<and> (\<exists>i < NBUF. bkey s i = k))
     \<and> (\<forall>i < NBUF. case P (bkey s i) of Some e \<Rightarrow> buf_is s i e | None \<Rightarrow> buf_unused s i)"

text \<open>No lock the cache takes is held by this hart.\<close>

definition bio_quiet :: "'a kbase_scheme \<Rightarrow> bool" where
  "bio_quiet s \<longleftrightarrow> LkBcache \<notin> set (held s) \<and> (\<forall>i. LkBuf i \<notin> set (held s)) \<and> (\<forall>i. LkProc i \<notin> set (held s))"

text \<open>The parts of the state an operation of the cache may change.\<close>

definition bio_frame :: "'a kbio_scheme \<Rightarrow> 'a kbio_scheme \<Rightarrow> bool" where
  "bio_frame s t \<longleftrightarrow>
     t = s\<lparr>procs := procs t, bufs := bufs t, blinks := blinks t, disks := disks t, dtrace := dtrace t\<rparr>
     \<and> (\<exists>f. procs t = map f (procs s) \<and> (\<forall>p. pid (f p) = pid p))"

lemma bio_rel_lru: "bio_rel s P \<Longrightarrow> \<exists>xs. lru s xs"
  by (simp add: bio_rel_def)

lemma bio_rel_unique: "bio_rel s P \<Longrightarrow> i < NBUF \<Longrightarrow> j < NBUF \<Longrightarrow> bkey s i = bkey s j \<Longrightarrow> bkey s i \<noteq> (0, 0) \<Longrightarrow> i = j"
  by (simp add: bio_rel_def)

lemma bio_rel_Some: "bio_rel s P \<Longrightarrow> i < NBUF \<Longrightarrow> P (bkey s i) = Some e \<Longrightarrow> buf_is s i e"
  unfolding bio_rel_def by (metis option.simps(5))

lemma bio_rel_None: "bio_rel s P \<Longrightarrow> i < NBUF \<Longrightarrow> P (bkey s i) = None \<Longrightarrow> buf_unused s i"
  unfolding bio_rel_def by (metis option.simps(4))

lemma bio_rel_dom: "bio_rel s P \<Longrightarrow> P k = Some e \<Longrightarrow> k \<noteq> (0, 0) \<and> (\<exists>i < NBUF. bkey s i = k)"
  unfolding bio_rel_def by blast

lemma find_cached_Some:
  assumes "bio_rel s P" and "i < NBUF" and "bkey s i = k" and "k \<noteq> (0, 0)"
  shows "find_cached (fst k) (snd k) s = Some i"
proof -
  obtain xs where xs: "lru s xs" using bio_rel_lru[OF assms(1)] ..
  then have "i \<in> set xs" using assms(2) by (simp add: lru_def)
  then have "find (\<lambda>i. bkey s i = k) xs \<noteq> None" using assms(3) by (auto simp: find_None_iff)
  then obtain j where j: "find (\<lambda>i. bkey s i = k) xs = Some j" by auto
  then have "j \<in> set xs" "bkey s j = k" by (auto dest: find_SomeD)
  then have "j = i" using bio_rel_unique[OF assms(1), of j i] assms(2-4) xs by (auto simp: lru_def)
  then show ?thesis using find_cached_lru[OF xs, of "fst k" "snd k"] j by simp
qed

lemma find_cached_None:
  assumes "bio_rel s P" and "\<forall>i < NBUF. bkey s i \<noteq> (d, n)"
  shows "find_cached d n s = None"
proof -
  obtain xs where xs: "lru s xs" using bio_rel_lru[OF assms(1)] ..
  then show ?thesis using assms(2) by (auto simp: find_cached_lru find_None_iff lru_def)
qed

text \<open>If fewer blocks than buffers are in use, the scan for an unused buffer succeeds.\<close>

lemma find_unused_Some:
  assumes rel: "bio_rel s P" and card: "card (dom P) < NBUF" and ref: "\<forall>k d l. P k \<noteq> Some (d, 0, l)"
  shows "\<exists>i. find_unused s = Some i \<and> i < NBUF \<and> P (bkey s i) = None"
proof -
  obtain xs where xs: "lru s xs" using bio_rel_lru[OF rel] ..
  have "\<exists>i < NBUF. P (bkey s i) = None"
  proof (rule ccontr)
    assume none: "\<not> (\<exists>i < NBUF. P (bkey s i) = None)"
    then have sub: "bkey s ` {..<NBUF} \<subseteq> dom P" by auto
    have "inj_on (bkey s) {..<NBUF}"
    proof (rule inj_onI)
      fix i j assume ij: "i \<in> {..<NBUF}" "j \<in> {..<NBUF}" "bkey s i = bkey s j"
      moreover obtain e where "P (bkey s i) = Some e" using none ij(1) by auto
      then have "bkey s i \<noteq> (0, 0)" using bio_rel_dom[OF rel] by auto
      ultimately show "i = j" using bio_rel_unique[OF rel] by auto
    qed
    then have "card (bkey s ` {..<NBUF}) = NBUF" by (simp add: card_image)
    moreover have "dom P \<subseteq> bkey s ` {..<NBUF}"
    proof
      fix k assume "k \<in> dom P"
      then obtain e where "P k = Some e" by blast
      then show "k \<in> bkey s ` {..<NBUF}" using bio_rel_dom[OF rel] by blast
    qed
    ultimately have "card (dom P) = NBUF" using sub by (simp add: subset_antisym)
    then show False using card by simp
  qed
  then obtain i where i: "i < NBUF" "P (bkey s i) = None" by auto
  then have "find (\<lambda>i. b_refcnt (bufs s i) = 0) (rev xs) \<noteq> None"
    using bio_rel_None[OF rel i] xs by (auto simp: find_None_iff lru_def buf_unused_def)
  then obtain j where j: "find (\<lambda>i. b_refcnt (bufs s i) = 0) (rev xs) = Some j" by auto
  then have "j \<in> set (rev xs)" "b_refcnt (bufs s j) = 0" by (auto dest: find_SomeD)
  then have "j < NBUF" using xs by (auto simp: lru_def)
  moreover have "P (bkey s j) = None"
  proof (cases "P (bkey s j)")
    case (Some e)
    then have "buf_is s j e" using bio_rel_Some[OF rel \<open>j < NBUF\<close>] by simp
    then show ?thesis
      using ref[THEN spec, of "bkey s j"] Some \<open>b_refcnt (bufs s j) = 0\<close> by (cases e) (auto simp: buf_is_def)
  qed simp
  ultimately show ?thesis using find_unused_lru[OF xs] j by simp
qed

text \<open>Replacing one buffer, possibly relabelling it, changes one entry of the abstraction.\<close>

lemma bio_rel_change:
  assumes rel: "bio_rel s P" and i: "i < NBUF" and k: "k \<noteq> (0, 0)"
    and t: "bufs t = (bufs s)(i := b)" "disks t = disks s" "curp t = curp s"
    and procs: "procs t = map f (procs s)" "\<And>p. pid (f p) = pid p" "myproc s < length (procs s)"
    and lru: "lru t xs" and key: "(b_dev b, b_blockno b) = k"
    and old: "bkey s i = k \<or> P (bkey s i) = None"
    and uniq: "\<And>j. j < NBUF \<Longrightarrow> bkey s j = k \<Longrightarrow> j = i"
    and new: "case e of Some x \<Rightarrow> buf_is t i x | None \<Rightarrow> buf_unused t i"
  shows "bio_rel t (P(k := e))"
proof -
  have mine: "my_lock t = my_lock s" using t(3) procs by (simp add: my_lock_def)
  have keyi: "bkey t i = k" using key t(1) by (simp add: bkey_def)
  have keyj: "bkey t j = bkey s j" if "j \<noteq> i" for j using that t(1) by (simp add: bkey_def)
  have same: "buf_is t j x = buf_is s j x" "buf_unused t j = buf_unused s j" if "j \<noteq> i" for j x
    using that t keyj mine by (simp_all add: buf_is_def buf_unused_def disk_at_def split: prod.split)
  have ne: "bkey s j \<noteq> k" if "j < NBUF" "j \<noteq> i" for j using uniq that by blast
  have len: "length (procs t) = NPROC" using rel procs by (simp add: bio_rel_def)
  have un: "\<forall>a < NBUF. \<forall>c < NBUF. bkey t a = bkey t c \<longrightarrow> bkey t a \<noteq> (0, 0) \<longrightarrow> a = c"
    using bio_rel_unique[OF rel] ne keyi keyj by metis
  have dom: "x \<noteq> (0, 0) \<and> (\<exists>j < NBUF. bkey t j = x)" if x: "x \<in> dom (P(k := e))" for x
  proof (cases "x = k")
    case True
    then show ?thesis using k i keyi by auto
  next
    case False
    then obtain y where y: "P x = Some y" using x unfolding dom_def by auto
    then obtain j where j: "j < NBUF" "bkey s j = x" using bio_rel_dom[OF rel] by blast
    then have "j \<noteq> i" using old y False by auto
    then show ?thesis using j keyj bio_rel_dom[OF rel y] by auto
  qed
  have "case (P(k := e)) (bkey t j) of Some x \<Rightarrow> buf_is t j x | None \<Rightarrow> buf_unused t j" if j: "j < NBUF" for j
  proof (cases "j = i")
    case True
    show ?thesis unfolding True using new keyi by simp
  next
    case False
    then have "(P(k := e)) (bkey t j) = P (bkey s j)" using ne[OF j False] keyj by simp
    then show ?thesis
      using same[OF False] bio_rel_Some[OF rel j] bio_rel_None[OF rel j] by (auto split: option.split)
  qed
  then show ?thesis unfolding bio_rel_def using lru len un dom by blast
qed

text \<open>Writing a block that is in use.\<close>

lemma bio_rel_disk:
  assumes rel: "bio_rel s P" and P: "P k \<noteq> None"
    and t: "bufs t = bufs s" "blinks t = blinks s" "procs t = procs s" "curp t = curp s"
      "\<And>k'. k' \<noteq> k \<Longrightarrow> disk_at t k' = disk_at s k'"
  shows "bio_rel t P"
proof -
  have mine: "my_lock t = my_lock s" using t by (simp add: my_lock_def)
  have key: "bkey t = bkey s" using t(1) by (simp add: bkey_def fun_eq_iff)
  have "lru t xs = lru s xs" for xs using t(2) by (rule lru_cong)
  moreover have "buf_is t j x = buf_is s j x" for j x by (simp add: buf_is_def t(1) mine split: prod.split)
  moreover have "buf_unused t j" if "j < NBUF" "P (bkey s j) = None" for j
  proof -
    have "bkey s j \<noteq> k" using that P by auto
    then show ?thesis using bio_rel_None[OF rel that] t key by (simp add: buf_unused_def)
  qed
  ultimately show ?thesis
    using rel t(3) unfolding bio_rel_def key by (auto split: option.splits)
qed

section \<open>The operations on the abstraction\<close>

lemma bio_quiet_held [simp]:
  "bio_quiet s \<Longrightarrow> LkBcache \<notin> set (held s)" "bio_quiet s \<Longrightarrow> LkBuf i \<notin> set (held s)"
  "bio_quiet s \<Longrightarrow> LkProc i \<notin> set (held s)" "bio_quiet s \<Longrightarrow> no_proc_lock s"
  by (simp_all add: bio_quiet_def no_proc_lock_def)

lemma find_cached_held [simp]: "find_cached d n (s\<lparr>held := h\<rparr>) = find_cached d n s"
  by (simp add: find_cached_def)

lemma find_unused_held [simp]: "find_unused (s\<lparr>held := h\<rparr>) = find_unused s"
  by (simp add: find_unused_def)

lemma b_acquiresleep_Ok:
  assumes "LkBuf i \<notin> set (held s)" and "\<not> slk_locked (b_lock (bufs s i))"
  shows "b_acquiresleep i s = Ok (b_upd i (\<lambda>b. b\<lparr>b_lock := my_lock s\<rparr>) s)"
  unfolding b_acquiresleep_def my_lock_def using assms by (rule buf_lock.acquiresleep_Ok)

lemma b_holdingsleep_Ok:
  "LkBuf i \<notin> set (held s) \<Longrightarrow> b_holdingsleep i s = Ok (slk_locked (b_lock (bufs s i)) \<and> slk_pid (b_lock (bufs s i)) = pid (procs s ! myproc s), s)"
  unfolding b_holdingsleep_def by (rule buf_lock.holdingsleep_Ok)

lemma b_releasesleep_Ok:
  assumes "bio_quiet s" and "length (procs s) = NPROC"
  shows "b_releasesleep i s = Ok ((b_upd i (\<lambda>b. b\<lparr>b_lock := initsleeplock\<rparr>) s)\<lparr>procs := map (wake_proc (ChBufLock i)) (procs s)\<rparr>)"
  unfolding b_releasesleep_def initsleeplock_def by (rule buf_lock.releasesleep_Ok) (use assms in simp_all)

text \<open>The current process exists.\<close>

definition proc_ctx :: "'a kproc_scheme \<Rightarrow> bool" where
  "proc_ctx s \<longleftrightarrow> myproc s < length (procs s)"

lemma bio_frame_refl [simp]: "bio_frame s s"
  by (auto simp: bio_frame_def intro: exI[of _ id])

lemma bread_cached:
  assumes "bio_quiet s" and "find_cached d n s = Some i" and "\<not> slk_locked (b_lock (bufs s i))"
  shows "bread d n s = Ok (i, b_upd i (\<lambda>b. if b_valid b then b\<lparr>b_refcnt := b_refcnt b + 1, b_lock := my_lock s\<rparr>
      else b\<lparr>b_refcnt := b_refcnt b + 1, b_lock := my_lock s, b_data := disks s (b_dev b) (b_blockno b), b_valid := True\<rparr>) s)"
  using assms
  by (cases "b_valid (bufs s i)") (auto simp: bread_def bget_def b_acquiresleep_Ok disk_rw_def intro!: b_upd_cong)

lemma bread_recycle:
  assumes "bio_quiet s" and "find_cached d n s = None" and "find_unused s = Some i" and "\<not> slk_locked (b_lock (bufs s i))"
  shows "bread d n s = Ok (i, b_upd i (\<lambda>b. b\<lparr>b_dev := d, b_blockno := n, b_refcnt := 1, b_lock := my_lock s,
      b_data := disks s d n, b_valid := True\<rparr>) s)"
  using assms
  by (auto simp: bread_def bget_def b_acquiresleep_Ok disk_rw_def intro!: b_upd_cong)

text \<open>The content of a block as its users see it, its reference count, and when it can be read.\<close>

definition bcontent :: "'a kbio_scheme \<Rightarrow> bcache_abs \<Rightarrow> u32 \<times> u32 \<Rightarrow> u8 list" where
  "bcontent s P k = (case P k of Some (d, r, l) \<Rightarrow> d | None \<Rightarrow> disk_at s k)"

definition brefs :: "bcache_abs \<Rightarrow> u32 \<times> u32 \<Rightarrow> u32" where
  "brefs P k = (case P k of Some (d, r, l) \<Rightarrow> r | None \<Rightarrow> 0)"

definition bavail :: "bcache_abs \<Rightarrow> u32 \<times> u32 \<Rightarrow> bool" where
  "bavail P k \<longleftrightarrow> k \<noteq> (0, 0) \<and> (case P k of Some (d, r, l) \<Rightarrow> \<not> l
      | None \<Rightarrow> card (dom P) < NBUF \<and> (\<forall>k d l. P k \<noteq> Some (d, 0, l)))"

text \<open>
  \<open>bio_next s P t Q\<close>: the operation took the cache from \<open>(s, P)\<close> to \<open>(t, Q)\<close>, kept the buffers of
  the blocks in use where they were, and touched nothing outside the cache.
\<close>

definition bio_next :: "'a kbio_scheme \<Rightarrow> bcache_abs \<Rightarrow> 'a kbio_scheme \<Rightarrow> bcache_abs \<Rightarrow> bool" where
  "bio_next s P t Q \<longleftrightarrow> bio_rel t Q \<and> bio_frame s t \<and> (\<forall>j < NBUF. P (bkey s j) \<noteq> None \<longrightarrow> bkey t j = bkey s j)"

lemma bio_frame_b_upd: "bio_frame s (b_upd i f s)"
  by (auto simp: bio_frame_def b_upd_def intro: exI[of _ id])

lemma lru_b_upd [simp]: "lru (b_upd i f s) xs = lru s xs"
  by (rule lru_cong) simp

lemma bio_rel_b_upd:
  assumes "bio_rel s P" and "proc_ctx s" and "i < NBUF" and "k \<noteq> (0, 0)"
    and "(b_dev (f (bufs s i)), b_blockno (f (bufs s i))) = k"
    and "bkey s i = k \<or> P (bkey s i) = None" and "\<And>j. j < NBUF \<Longrightarrow> bkey s j = k \<Longrightarrow> j = i"
    and "case e of Some x \<Rightarrow> buf_is (b_upd i f s) i x | None \<Rightarrow> buf_unused (b_upd i f s) i"
  shows "bio_next s P (b_upd i f s) (P(k := e)) \<and> bkey (b_upd i f s) i = k"
proof -
  obtain xs where xs: "lru s xs" using bio_rel_lru[OF assms(1)] ..
  have "bio_rel (b_upd i f s) (P(k := e))"
    by (rule bio_rel_change[OF assms(1,3,4), where b = "f (bufs s i)" and f = id and xs = xs])
      (use assms xs in \<open>auto simp: proc_ctx_def\<close>)
  moreover have "\<forall>j < NBUF. P (bkey s j) \<noteq> None \<longrightarrow> bkey (b_upd i f s) j = bkey s j"
    using assms(5,6) by (auto simp: bkey_def)
  moreover have "bkey (b_upd i f s) i = k" using assms(5) by (simp add: bkey_def)
  ultimately show ?thesis using bio_frame_b_upd by (simp add: bio_next_def)
qed

lemma bread_rel:
  assumes rel: "bio_rel s P" and ctx: "proc_ctx s" and q: "bio_quiet s" and av: "bavail P k"
  shows "\<exists>i t. bread (fst k) (snd k) s = Ok (i, t) \<and> i < NBUF \<and> bkey t i = k
    \<and> bio_next s P t (P(k \<mapsto> (bcontent s P k, brefs P k + 1, True)))
    \<and> disks t = disks s \<and> dtrace t = dtrace s \<and> procs t = procs s"
proof -
  have k: "k \<noteq> (0, 0)" using av by (simp add: bavail_def)
  show ?thesis
  proof (cases "\<exists>i < NBUF. bkey s i = k")
    case True
    then obtain i where i: "i < NBUF" "bkey s i = k" by blast
    have fc: "find_cached (fst k) (snd k) s = Some i" using find_cached_Some[OF rel i k] .
    have un: "\<not> slk_locked (b_lock (bufs s i))"
    proof (cases "P k")
      case None
      then show ?thesis using bio_rel_None[OF rel i(1)] i(2) by (simp add: buf_unused_def)
    next
      case (Some e)
      then show ?thesis using bio_rel_Some[OF rel i(1), of e] i(2) av by (cases e) (simp add: bavail_def buf_is_def)
    qed
    let ?f = "\<lambda>b. if b_valid b then b\<lparr>b_refcnt := b_refcnt b + 1, b_lock := my_lock s\<rparr>
      else b\<lparr>b_refcnt := b_refcnt b + 1, b_lock := my_lock s, b_data := disks s (b_dev b) (b_blockno b), b_valid := True\<rparr>"
    have "bread (fst k) (snd k) s = Ok (i, b_upd i ?f s)" by (rule bread_cached[OF q fc un])
    moreover have "bio_next s P (b_upd i ?f s) (P(k \<mapsto> (bcontent s P k, brefs P k + 1, True))) \<and> bkey (b_upd i ?f s) i = k"
    proof (rule bio_rel_b_upd[OF rel ctx i(1) k])
      show "(b_dev (?f (bufs s i)), b_blockno (?f (bufs s i))) = k" using i(2) by (auto simp: bkey_def)
      show "j = i" if "j < NBUF" "bkey s j = k" for j using bio_rel_unique[OF rel that(1) i(1)] that k i by simp
      have "disks s (b_dev (bufs s i)) (b_blockno (bufs s i)) = disk_at s k" using i(2) by (auto simp: disk_at_def bkey_def)
      then show "case Some (bcontent s P k, brefs P k + 1, True) of Some x \<Rightarrow> buf_is (b_upd i ?f s) i x | None \<Rightarrow> buf_unused (b_upd i ?f s) i"
        using bio_rel_None[OF rel i(1)] bio_rel_Some[OF rel i(1)] i(2)
        by (cases "P k") (auto simp: buf_is_def buf_unused_def bcontent_def brefs_def)
    qed (use i in simp)
    ultimately show ?thesis using i(1) by auto
  next
    case False
    then have none: "P k = None" using bio_rel_dom[OF rel, of k] by (cases "P k") auto
    have fc: "find_cached (fst k) (snd k) s = None" using False by (intro find_cached_None[OF rel]) auto
    obtain i where i: "find_unused s = Some i" "i < NBUF" "P (bkey s i) = None"
      using find_unused_Some[OF rel] av none by (auto simp: bavail_def)
    have un: "\<not> slk_locked (b_lock (bufs s i))" using bio_rel_None[OF rel i(2,3)] by (simp add: buf_unused_def)
    let ?f = "\<lambda>b. b\<lparr>b_dev := fst k, b_blockno := snd k, b_refcnt := 1, b_lock := my_lock s, b_data := disks s (fst k) (snd k), b_valid := True\<rparr>"
    have "bread (fst k) (snd k) s = Ok (i, b_upd i ?f s)" by (rule bread_recycle[OF q fc i(1) un])
    moreover have "bio_next s P (b_upd i ?f s) (P(k \<mapsto> (bcontent s P k, brefs P k + 1, True))) \<and> bkey (b_upd i ?f s) i = k"
      by (rule bio_rel_b_upd[OF rel ctx i(2) k])
        (use False i none in \<open>auto simp: buf_is_def bcontent_def brefs_def disk_at_def\<close>)
    ultimately show ?thesis using i(2) by auto
  qed
qed

text \<open>A change of one buffer in use that keeps its label.\<close>

lemma bio_rel_entry:
  assumes rel: "bio_rel s P" and ctx: "proc_ctx s" and i: "i < NBUF" and P: "P (bkey s i) = Some x"
    and key: "b_dev (f (bufs s i)) = b_dev (bufs s i)" "b_blockno (f (bufs s i)) = b_blockno (bufs s i)"
    and new: "buf_is (b_upd i f s) i y"
  shows "bio_next s P (b_upd i f s) (P(bkey s i \<mapsto> y)) \<and> bkey (b_upd i f s) i = bkey s i"
proof (rule bio_rel_b_upd[OF rel ctx i])
  show "bkey s i \<noteq> (0, 0)" using bio_rel_dom[OF rel P] by simp
  then show "j = i" if "j < NBUF" "bkey s j = bkey s i" for j
    using bio_rel_unique[OF rel that(1) i that(2)] that by simp
  show "(b_dev (f (bufs s i)), b_blockno (f (bufs s i))) = bkey s i" using key by (simp add: bkey_def)
qed (use new in simp_all)

lemma bio_set_data:
  assumes "bio_rel s P" and "proc_ctx s" and "i < NBUF" and "P (bkey s i) = Some (d, r, l)"
  shows "bio_next s P (b_upd i (\<lambda>b. b\<lparr>b_data := d'\<rparr>) s) (P(bkey s i \<mapsto> (d', r, l)))
    \<and> bkey (b_upd i (\<lambda>b. b\<lparr>b_data := d'\<rparr>) s) i = bkey s i"
  by (rule bio_rel_entry[OF assms]) (use bio_rel_Some[OF assms(1,3,4)] in \<open>auto simp: buf_is_def\<close>)

lemma bpin_rel:
  assumes "bio_rel s P" and "proc_ctx s" and "bio_quiet s" and "i < NBUF" and "P (bkey s i) = Some (d, r, l)"
  shows "\<exists>t. bpin i s = Ok t \<and> bio_next s P t (P(bkey s i \<mapsto> (d, r + 1, l))) \<and> bkey t i = bkey s i
    \<and> disks t = disks s \<and> dtrace t = dtrace s \<and> procs t = procs s"
proof -
  let ?f = "\<lambda>b. b\<lparr>b_refcnt := b_refcnt b + 1\<rparr>"
  have "bpin i s = Ok (b_upd i ?f s)" using assms(3) by (simp add: bpin_def)
  moreover have "bio_next s P (b_upd i ?f s) (P(bkey s i \<mapsto> (d, r + 1, l))) \<and> bkey (b_upd i ?f s) i = bkey s i"
    by (rule bio_rel_entry[OF assms(1,2,4,5)]) (use bio_rel_Some[OF assms(1,4,5)] in \<open>auto simp: buf_is_def\<close>)
  ultimately show ?thesis by simp
qed

lemma bunpin_rel:
  assumes "bio_rel s P" and "proc_ctx s" and "bio_quiet s" and "i < NBUF" and "P (bkey s i) = Some (d, r, l)"
  shows "\<exists>t. bunpin i s = Ok t \<and> bio_next s P t (P(bkey s i \<mapsto> (d, r - 1, l))) \<and> bkey t i = bkey s i
    \<and> disks t = disks s \<and> dtrace t = dtrace s \<and> procs t = procs s"
proof -
  let ?f = "\<lambda>b. b\<lparr>b_refcnt := b_refcnt b - 1\<rparr>"
  have "bunpin i s = Ok (b_upd i ?f s)" using assms(3) by (simp add: bunpin_def)
  moreover have "bio_next s P (b_upd i ?f s) (P(bkey s i \<mapsto> (d, r - 1, l))) \<and> bkey (b_upd i ?f s) i = bkey s i"
    by (rule bio_rel_entry[OF assms(1,2,4,5)]) (use bio_rel_Some[OF assms(1,4,5)] in \<open>auto simp: buf_is_def\<close>)
  ultimately show ?thesis by simp
qed

lemma bwrite_rel:
  assumes rel: "bio_rel s P" and q: "bio_quiet s" and i: "i < NBUF" and P: "P (bkey s i) = Some (d, r, True)"
  shows "\<exists>t. bwrite i s = Ok t \<and> bio_next s P t P \<and> bkey t i = bkey s i \<and> procs t = procs s
    \<and> disk_at t = (disk_at s)(bkey s i := d) \<and> dtrace t = dtrace s @ [(fst (bkey s i), snd (bkey s i), d)]"
proof -
  have b: "b_lock (bufs s i) = my_lock s" "b_data (bufs s i) = d"
    using bio_rel_Some[OF rel i P] by (simp_all add: buf_is_def)
  let ?t = "s\<lparr>disks := (disks s)(b_dev (bufs s i) := (disks s (b_dev (bufs s i)))(b_blockno (bufs s i) := d)),
              dtrace := dtrace s @ [(b_dev (bufs s i), b_blockno (bufs s i), d)]\<rparr>"
  have w: "bwrite i s = Ok ?t" using q b by (simp add: bwrite_def b_holdingsleep_Ok disk_rw_def Let_def)
  have d: "disk_at ?t = (disk_at s)(bkey s i := d)" by (auto simp: disk_at_def bkey_def fun_eq_iff)
  have "bio_rel ?t P" by (rule bio_rel_disk[OF rel, where k = "bkey s i"]) (use P d in auto)
  moreover have "bkey ?t = bkey s" by (simp add: bkey_def fun_eq_iff)
  moreover have "bio_frame s ?t" by (auto simp: bio_frame_def intro: exI[of _ id])
  ultimately show ?thesis using w d by (auto simp: bio_next_def bkey_def)
qed

lemma wake_proc_pid [simp]: "pid (wake_proc ch p) = pid p"
  by (simp add: wake_proc_def)

text \<open>Releasing a buffer; the last reference makes it the most recently used one.\<close>

definition brelse_buf :: "buf \<Rightarrow> buf" where
  "brelse_buf b = b\<lparr>b_lock := initsleeplock, b_refcnt := b_refcnt b - 1\<rparr>"

lemma brelse_Ok:
  assumes q: "bio_quiet s" and len: "length (procs s) = NPROC" and lock: "b_lock (bufs s i) = my_lock s"
  shows "brelse i s = Ok (s\<lparr>procs := map (wake_proc (ChBufLock i)) (procs s),
      bufs := (bufs s)(i := brelse_buf (bufs s i)),
      blinks := (if b_refcnt (bufs s i) = 1 then link_front (BNode i) (unlink_buf (BNode i) (blinks s)) else blinks s)\<rparr>)"
  using assms
  by (auto simp: brelse_def b_holdingsleep_Ok b_releasesleep_Ok Let_def b_upd_def brelse_buf_def)

lemma brelse_rel:
  assumes rel: "bio_rel s P" and ctx: "proc_ctx s" and q: "bio_quiet s" and i: "i < NBUF"
    and P: "P (bkey s i) = Some (d, r, True)" and clean: "r = 1 \<longrightarrow> d = disk_at s (bkey s i)"
  shows "\<exists>t. brelse i s = Ok t
    \<and> bio_next s P t (P(bkey s i := (if r = 1 then None else Some (d, r - 1, False))))
    \<and> disks t = disks s \<and> dtrace t = dtrace s"
proof -
  have b: "b_lock (bufs s i) = my_lock s" "b_data (bufs s i) = d" "b_refcnt (bufs s i) = r" "b_valid (bufs s i)"
    using bio_rel_Some[OF rel i P] by (simp_all add: buf_is_def)
  have len: "length (procs s) = NPROC" using rel by (simp add: bio_rel_def)
  let ?t = "s\<lparr>procs := map (wake_proc (ChBufLock i)) (procs s), bufs := (bufs s)(i := brelse_buf (bufs s i)),
      blinks := (if b_refcnt (bufs s i) = 1 then link_front (BNode i) (unlink_buf (BNode i) (blinks s)) else blinks s)\<rparr>"
  let ?e = "if r = 1 then None else Some (d, r - 1, False)"
  have t: "brelse i s = Ok ?t" by (rule brelse_Ok[OF q len b(1)])
  obtain xs where xs: "lru s xs" using bio_rel_lru[OF rel] ..
  have "lru ?t (if r = 1 then i # remove1 i xs else xs)"
    using lru_move_front[OF xs i] xs b(3) by (auto simp: lru_def)
  moreover have k: "bkey s i \<noteq> (0, 0)" using bio_rel_dom[OF rel P] by simp
  moreover have "bkey ?t j = bkey s j" for j by (simp add: bkey_def brelse_buf_def)
  moreover have "case ?e of Some x \<Rightarrow> buf_is ?t i x | None \<Rightarrow> buf_unused ?t i"
    using b clean by (auto simp: buf_is_def buf_unused_def brelse_buf_def initsleeplock_def disk_at_def bkey_def)
  ultimately have "bio_rel ?t (P(bkey s i := ?e))"
    using bio_rel_unique[OF rel _ i] ctx
    by (intro bio_rel_change[OF rel i k, where b = "brelse_buf (bufs s i)" and f = "wake_proc (ChBufLock i)"])
      (auto simp: proc_ctx_def bkey_def brelse_buf_def)
  moreover have "bio_frame s ?t" unfolding bio_frame_def by (auto intro!: exI[of _ "wake_proc (ChBufLock i)"])
  ultimately have "bio_next s P ?t (P(bkey s i := ?e))"
    by (auto simp: bio_next_def bkey_def brelse_buf_def)
  then show ?thesis using t by auto
qed

text \<open>Chaining operations.\<close>

lemma bio_frameD:
  assumes "bio_frame s t"
  shows "held t = held s" "curp t = curp s" "length (procs t) = length (procs s)"
    "\<And>i. i < length (procs s) \<Longrightarrow> pid (procs t ! i) = pid (procs s ! i)"
proof -
  have e: "t = s\<lparr>procs := procs t, bufs := bufs t, blinks := blinks t, disks := disks t, dtrace := dtrace t\<rparr>"
    using assms by (simp add: bio_frame_def)
  show "held t = held s" by (subst e) simp
  show "curp t = curp s" by (subst e) simp
  obtain f where "procs t = map f (procs s)" "\<forall>p. pid (f p) = pid p" using assms by (auto simp: bio_frame_def)
  then show "length (procs t) = length (procs s)"
    "\<And>i. i < length (procs s) \<Longrightarrow> pid (procs t ! i) = pid (procs s ! i)" by simp_all
qed

lemma bio_frame_trans:
  assumes "bio_frame s t" and "bio_frame t u"
  shows "bio_frame s u"
proof -
  have t: "t = s\<lparr>procs := procs t, bufs := bufs t, blinks := blinks t, disks := disks t, dtrace := dtrace t\<rparr>"
    and u: "u = t\<lparr>procs := procs u, bufs := bufs u, blinks := blinks u, disks := disks u, dtrace := dtrace u\<rparr>"
    using assms by (simp_all add: bio_frame_def)
  have e: "u = s\<lparr>procs := procs u, bufs := bufs u, blinks := blinks u, disks := disks u, dtrace := dtrace u\<rparr>"
    by (subst u, subst t) simp
  obtain f where f: "procs t = map f (procs s)" "\<forall>p. pid (f p) = pid p"
    using assms(1) unfolding bio_frame_def by blast
  obtain g where g: "procs u = map g (procs t)" "\<forall>p. pid (g p) = pid p"
    using assms(2) unfolding bio_frame_def by blast
  have h: "procs u = map (\<lambda>p. g (f p)) (procs s) \<and> (\<forall>p. pid (g (f p)) = pid p)"
    by (simp add: f g)
  show ?thesis unfolding bio_frame_def 
    by (rule conjI[OF e]) (rule exI[of _ "\<lambda>p. g (f p)"], rule h)
qed

lemma bio_frame_quiet: "bio_frame s t \<Longrightarrow> bio_quiet t = bio_quiet s"
  unfolding bio_quiet_def by (drule bio_frameD(1)) simp

lemma bio_frame_ctx: "bio_frame s t \<Longrightarrow> proc_ctx t = proc_ctx s"
  unfolding proc_ctx_def by (frule bio_frameD(2), drule bio_frameD(3)) simp

lemma bio_next_keys: "bio_next s P t Q \<Longrightarrow> j < NBUF \<Longrightarrow> P (bkey s j) \<noteq> None \<Longrightarrow> bkey t j = bkey s j"
  by (simp add: bio_next_def)

lemma bio_next_rel: "bio_next s P t Q \<Longrightarrow> bio_rel t Q"
  by (simp add: bio_next_def)

lemma bio_next_frame: "bio_next s P t Q \<Longrightarrow> bio_frame s t"
  by (simp add: bio_next_def)

lemma bio_rel_finite: "bio_rel s P \<Longrightarrow> finite (dom P)"
proof -
  assume rel: "bio_rel s P"
  have "dom P \<subseteq> bkey s ` {..<NBUF}"
  proof
    fix k assume "k \<in> dom P"
    then obtain e where "P k = Some e" by blast
    then show "k \<in> bkey s ` {..<NBUF}" using bio_rel_dom[OF rel] by blast
  qed
  then show ?thesis by (rule finite_subset) simp
qed

section \<open>Properties\<close>

text \<open>The cache right after \<^verbatim>\<open>binit\<close>, on zeroed static storage.\<close>

definition binit_step :: "nat \<Rightarrow> 'a kbio_scheme \<Rightarrow> 'a kbio_scheme" where
  "binit_step i s = b_upd i (\<lambda>b. b\<lparr>b_lock := initsleeplock\<rparr>) (s\<lparr>blinks := link_front (BNode i) (blinks s)\<rparr>)"

lemma binit_step_simps [simp]:
  "blinks (binit_step i s) = link_front (BNode i) (blinks s)" "procs (binit_step i s) = procs s"
  "bufs (binit_step i s) = (bufs s)(i := (bufs s i)\<lparr>b_lock := initsleeplock\<rparr>)"
  "disks (binit_step i s) = disks s" "held (binit_step i s) = held s" "curp (binit_step i s) = curp s"
  by (simp_all add: binit_step_def)

lemma binit_fold:
  assumes "is_list (blinks s) BHead []"
  shows "is_list (blinks (fold binit_step [0..<n] s)) BHead (map BNode (rev [0..<n]))
    \<and> bufs (fold binit_step [0..<n] s) = (\<lambda>i. if i < n then (bufs s i)\<lparr>b_lock := initsleeplock\<rparr> else bufs s i)
    \<and> procs (fold binit_step [0..<n] s) = procs s \<and> disks (fold binit_step [0..<n] s) = disks s
    \<and> held (fold binit_step [0..<n] s) = held s \<and> curp (fold binit_step [0..<n] s) = curp s"
proof (induction n)
  case 0
  then show ?case using assms by simp
next
  case (Suc n)
  let ?t = "fold binit_step [0..<n] s"
  have "BNode n \<notin> set (BHead # map BNode (rev [0..<n]))" by auto
  then have "is_list (link_front (BNode n) (blinks ?t)) BHead (BNode n # map BNode (rev [0..<n]))"
    unfolding link_front_lst_push using Suc by (intro is_list_push) auto
  then show ?case using Suc by (auto simp: less_Suc_eq)
qed

lemma binit_eq: "binit s = fold binit_step [0..<NBUF] (s\<lparr>blinks := set_nxt BHead BHead (set_prv BHead BHead (blinks s))\<rparr>)"
  by (simp add: binit_def binit_step_def [abs_def] Let_def)

definition zero_buf :: buf where
  "zero_buf = \<lparr>b_valid = False, b_disk = False, b_dev = 0, b_blockno = 0, b_lock = \<lparr>slk_locked = False, slk_pid = 0\<rparr>,
     b_refcnt = 0, b_data = replicate BSIZE 0\<rparr>"

lemma binit_rel:
  assumes "\<forall>i. bufs s i = zero_buf" and "length (procs s) = NPROC"
  shows "bio_rel (binit s) Map.empty"
proof -
  let ?s = "s\<lparr>blinks := set_nxt BHead BHead (set_prv BHead BHead (blinks s))\<rparr>"
  have "is_list (blinks ?s) BHead []" by (simp add: is_list_def)
  note f = binit_fold[OF this, of NBUF, folded binit_eq]
  have "lru (binit s) (rev [0..<NBUF])" using f by (auto simp: lru_def)
  moreover have "bkey (binit s) i = (0, 0)" "buf_unused (binit s) i" if "i < NBUF" for i
    using f assms that by (simp_all add: bkey_def buf_unused_def zero_buf_def initsleeplock_def)
  ultimately show ?thesis using f assms(2) unfolding bio_rel_def by auto
qed

lemma binit_boot:
  assumes "\<forall>i. bufs s i = zero_buf" and "length (procs s) = NPROC" and "held s = []" and "curp s = Some 0"
  shows "bio_rel (binit s) Map.empty" "proc_ctx (binit s)" "bio_quiet (binit s)" "disks (binit s) = disks s"
proof -
  show "bio_rel (binit s) Map.empty" by (rule binit_rel[OF assms(1,2)])
  have "is_list (blinks (s\<lparr>blinks := set_nxt BHead BHead (set_prv BHead BHead (blinks s))\<rparr>)) BHead []"
    by (simp add: is_list_def)
  note f = binit_fold[OF this, of NBUF, folded binit_eq]
  show "disks (binit s) = disks s" using f by simp
  show "proc_ctx (binit s)" using f assms(2,4) by (simp add: proc_ctx_def NPROC_def)
  show "bio_quiet (binit s)" using f assms(3) by (simp add: bio_quiet_def)
qed

text \<open>
  C2. The cache is transparent. For a block that is not locked, and when fewer than \<^verbatim>\<open>NBUF\<close> other
  blocks are in use, \<^verbatim>\<open>bread\<close> returns a buffer labelled with the block, locked by the calling
  process, whose data is the cached content if the block is in use and the disk's content otherwise;
  no other block in use loses its buffer, content, lock or reference count, whichever buffer is
  recycled; the disks are not written.
\<close>

theorem bread_transparent:
  assumes "bio_rel s P" and "proc_ctx s" and "bio_quiet s" and "k \<noteq> (0, 0)"
    and "case P k of Some (d, r, l) \<Rightarrow> \<not> l | None \<Rightarrow> card (dom P) < NBUF \<and> (\<forall>k d l. P k \<noteq> Some (d, 0, l))"
  shows "returns (bread (fst k) (snd k) s) (\<lambda>(i, t). i < NBUF \<and> bkey t i = k
    \<and> b_valid (bufs t i) \<and> b_data (bufs t i) = bcontent s P k \<and> b_lock (bufs t i) = my_lock t
    \<and> bio_rel t (P(k \<mapsto> (bcontent s P k, brefs P k + 1, True)))
    \<and> (\<forall>j < NBUF. P (bkey s j) \<noteq> None \<longrightarrow> bkey t j = bkey s j)
    \<and> held t = held s \<and> disks t = disks s \<and> dtrace t = dtrace s)"
proof -
  have "bavail P k" using assms(4,5) by (simp add: bavail_def)
  then obtain i t where t: "bread (fst k) (snd k) s = Ok (i, t)" "i < NBUF" "bkey t i = k"
    "bio_next s P t (P(k \<mapsto> (bcontent s P k, brefs P k + 1, True)))" "disks t = disks s" "dtrace t = dtrace s"
    using bread_rel[OF assms(1-3)] by blast
  have "buf_is t i (bcontent s P k, brefs P k + 1, True)"
    by (rule bio_rel_Some[OF bio_next_rel[OF t(4)] t(2)]) (simp add: t(3))
  then show ?thesis
    using t bio_next_keys[OF t(4)] bio_next_rel[OF t(4)] bio_frameD(1)[OF bio_next_frame[OF t(4)]]
    by (simp add: buf_is_def)
qed

definition boot_bio :: "(u32 \<Rightarrow> u32 \<Rightarrow> u8 list) \<Rightarrow> kbio" where
  "boot_bio D = \<lparr>held = [], procs = replicate NPROC zero_proc, curp = Some 0, nextpid = 1, initproc = None,
     mem = \<lambda>_. 0, freelist = 0, kend = 0x87FFF000, kernel_pagetable = 0, etext = 0x80008000,
     trampoline = 0x80007000, satp = 0,
     bufs = \<lambda>_. zero_buf, blinks = \<lparr>nxt = \<lambda>_. BHead, prv = \<lambda>_. BHead\<rparr>, disks = D, dtrace = []\<rparr>"

lemma boot_bio_rel:
  "bio_rel (binit (boot_bio D)) Map.empty" "proc_ctx (binit (boot_bio D))" "bio_quiet (binit (boot_bio D))"
  "disks (binit (boot_bio D)) = D"
  using binit_boot[of "boot_bio D"] by (simp_all add: boot_bio_def)

theorem bread_transparent_witness:
  "returns (bread 0 5 (binit (boot_bio (\<lambda>_ n. replicate BSIZE (ucast n)))))
     (\<lambda>(i, t). b_data (bufs t i) = replicate BSIZE 5)"
proof -
  let ?s = "binit (boot_bio (\<lambda>_ n. replicate BSIZE (ucast n)))"
  obtain i t where "bread 0 5 ?s = Ok (i, t)" "b_data (bufs t i) = bcontent ?s Map.empty (0, 5)"
    using bread_transparent[OF boot_bio_rel(1-3), of "(0, 5)" "\<lambda>_ n. replicate BSIZE (ucast n)"]
    by (auto elim!: returnsE simp: NBUF_def)
  then show ?thesis by (simp add: bcontent_def disk_at_def boot_bio_rel)
qed

lemma find_rev_split:
  assumes "find Q (rev xs) = Some i"
  shows "\<exists>us vs. xs = us @ i # vs \<and> Q i \<and> (\<forall>v \<in> set vs. \<not> Q v)"
  using assms
proof (induction xs rule: rev_induct)
  case Nil
  then show ?case by simp
next
  case (snoc x xs)
  show ?case
  proof (cases "Q x")
    case True
    then have "xs @ [x] = xs @ i # [] \<and> Q i" using snoc.prems by simp
    then show ?thesis by (intro exI[of _ xs] exI[of _ "[]"]) simp
  next
    case False
    then obtain us vs where "xs = us @ i # vs" "Q i" "\<forall>v \<in> set vs. \<not> Q v" using snoc by auto
    then show ?thesis using False by (intro exI[of _ us] exI[of _ "vs @ [x]"]) simp
  qed
qed

text \<open>
  C27. Replacement is least recently used. Releasing the last reference of a buffer puts it at the
  front of the use order and leaves the order of the others; and a block that is not cached takes
  over the buffer that is last in the use order among those with no reference.
\<close>

theorem bcache_lru:
  assumes "bio_rel s P" and "proc_ctx s" and "bio_quiet s" and "lru s xs"
  shows "(\<forall>i < NBUF. P (bkey s i) = Some (disk_at s (bkey s i), 1, True) \<longrightarrow>
            (\<exists>t. brelse i s = Ok t \<and> lru t (i # remove1 i xs) \<and> bio_rel t (P(bkey s i := None))))
    \<and> (\<forall>k. k \<noteq> (0, 0) \<longrightarrow> (\<forall>i < NBUF. bkey s i \<noteq> k) \<longrightarrow> bavail P k \<longrightarrow>
         (\<exists>us i vs t. xs = us @ i # vs \<and> b_refcnt (bufs s i) = 0 \<and> (\<forall>v \<in> set vs. b_refcnt (bufs s v) \<noteq> 0)
            \<and> bread (fst k) (snd k) s = Ok (i, t)))"
proof (intro conjI allI impI)
  fix i assume i: "i < NBUF" and P: "P (bkey s i) = Some (disk_at s (bkey s i), 1, True)"
  have b: "b_lock (bufs s i) = my_lock s" "b_refcnt (bufs s i) = 1"
    using bio_rel_Some[OF assms(1) i P] by (simp_all add: buf_is_def)
  have len: "length (procs s) = NPROC" using assms(1) by (simp add: bio_rel_def)
  obtain t where t: "brelse i s = Ok t" "bio_next s P t (P(bkey s i := None))"
    using brelse_rel[OF assms(1-3) i P] by auto
  have "blinks t = link_front (BNode i) (unlink_buf (BNode i) (blinks s))"
    using brelse_Ok[OF assms(3) len b(1)] t(1) b(2) by auto
  then have "lru t (i # remove1 i xs)" using lru_move_front[OF assms(4) i] by (simp add: lru_def)
  then show "\<exists>t. brelse i s = Ok t \<and> lru t (i # remove1 i xs) \<and> bio_rel t (P(bkey s i := None))"
    using t bio_next_rel by blast
next
  fix k assume k: "k \<noteq> (0, 0)" "\<forall>i < NBUF. bkey s i \<noteq> k" "bavail P k"
  then have none: "P k = None" using bio_rel_dom[OF assms(1), of k] by (cases "P k") auto
  obtain i where i: "find_unused s = Some i" "i < NBUF" "P (bkey s i) = None"
    using find_unused_Some[OF assms(1)] k(3) none by (auto simp: bavail_def)
  have "\<not> slk_locked (b_lock (bufs s i))" using bio_rel_None[OF assms(1) i(2,3)] by (simp add: buf_unused_def)
  moreover have "find_cached (fst k) (snd k) s = None" using k(2) by (intro find_cached_None[OF assms(1)]) auto
  ultimately obtain t where "bread (fst k) (snd k) s = Ok (i, t)" using bread_recycle[OF assms(3) _ i(1)] by blast
  moreover obtain us vs where "xs = us @ i # vs" "b_refcnt (bufs s i) = 0" "\<forall>v \<in> set vs. b_refcnt (bufs s v) \<noteq> 0"
    using find_rev_split[of "\<lambda>i. b_refcnt (bufs s i) = 0" xs i] i(1) find_unused_lru[OF assms(4)] by auto
  ultimately show "\<exists>us i vs t. xs = us @ i # vs \<and> b_refcnt (bufs s i) = 0
      \<and> (\<forall>v \<in> set vs. b_refcnt (bufs s v) \<noteq> 0) \<and> bread (fst k) (snd k) s = Ok (i, t)" by blast
qed

theorem bcache_lru_witness:
  "\<exists>xs us i vs t. lru (binit (boot_bio (\<lambda>_ _. []))) xs \<and> xs = us @ i # vs
     \<and> (\<forall>v \<in> set vs. b_refcnt (bufs (binit (boot_bio (\<lambda>_ _. []))) v) \<noteq> 0)
     \<and> bread 1 7 (binit (boot_bio (\<lambda>_ _. []))) = Ok (i, t)"
proof -
  let ?s = "binit (boot_bio (\<lambda>_ _. []))"
  obtain xs where xs: "lru ?s xs" using bio_rel_lru[OF boot_bio_rel(1)] ..
  have "bavail Map.empty (1, 7)" by (simp add: bavail_def NBUF_def)
  moreover have "\<forall>i < NBUF. bkey ?s i \<noteq> (1, 7)"
  proof -
    have "is_list (blinks ((boot_bio (\<lambda>_ _. []))\<lparr>blinks := set_nxt BHead BHead (set_prv BHead BHead (blinks (boot_bio (\<lambda>_ _. []))))\<rparr>)) BHead []"
      by (simp add: is_list_def)
    note f = binit_fold[OF this, of NBUF, folded binit_eq]
    show ?thesis using f by (simp add: bkey_def boot_bio_def zero_buf_def)
  qed
  ultimately show ?thesis
    using bcache_lru[OF boot_bio_rel(1-3) xs, THEN conjunct2, THEN spec[of _ "(1, 7)"]] xs by fastforce
qed

end
