(* ===== verification/KLog.thy ===== *)
theory KLog
  imports KBio
begin

text \<open>
  \<^verbatim>\<open>kernel/log.c\<close>: the redo log that makes file-system operations atomic. The header of the
  in-memory log lists the home blocks of the current transaction, whose buffers are pinned in the
  cache; \<^verbatim>\<open>commit\<close> writes them to the log area, then the header, then to their home locations, and
  clears the header. What a crash leaves of the writes of a commit is the subject of \<open>KRecover\<close>.
\<close>

section \<open>State\<close>

definition MAXOPBLOCKS :: int where "MAXOPBLOCKS = 10"
definition LOGSIZE :: int where "LOGSIZE = MAXOPBLOCKS * 3"

text \<open>\<^verbatim>\<open>struct log\<close> with its \<^verbatim>\<open>struct logheader\<close>; \<open>l_block\<close> is the array of \<^verbatim>\<open>LOGSIZE\<close> block numbers.\<close>

record dlog =
  l_start :: u32
  l_size :: int
  l_outstanding :: int
  l_committing :: bool
  l_n :: int
  l_block :: "u32 list"

record klog = kbio +
  logs :: "u32 \<Rightarrow> dlog"

definition l_upd :: "u32 \<Rightarrow> (dlog \<Rightarrow> dlog) \<Rightarrow> 'a klog_scheme \<Rightarrow> 'a klog_scheme" where
  "l_upd d f s = s\<lparr>logs := (logs s)(d := f (logs s d))\<rparr>"

section \<open>The on-disk header\<close>

definition hdr_put_blocks :: "u32 list \<Rightarrow> nat \<Rightarrow> u8 list \<Rightarrow> u8 list" where
  "hdr_put_blocks bs n data = fold (\<lambda>i. put32 (4 + 4 * i) (bs ! i)) [0..<n] data"

definition hdr_put :: "int \<Rightarrow> u32 list \<Rightarrow> u8 list \<Rightarrow> u8 list" where
  "hdr_put n bs data = hdr_put_blocks bs (nat n) (put32 0 (of_int n) data)"

definition hdr_n :: "u8 list \<Rightarrow> int" where
  "hdr_n data = sint (get32 data 0)"

definition hdr_block :: "u8 list \<Rightarrow> nat \<Rightarrow> u32" where
  "hdr_block data i = get32 data (4 + 4 * i)"

section \<open>Operations\<close>

text \<open>\<^verbatim>\<open>memmove(dst->data, src->data, BSIZE)\<close>.\<close>

definition copy_data :: "nat \<Rightarrow> nat \<Rightarrow> 'a kbio_scheme \<Rightarrow> 'a kbio_scheme" where
  "copy_data dst src s = b_upd dst (\<lambda>b. b\<lparr>b_data := b_data (bufs s src)\<rparr>) s"

definition install_one :: "u32 \<Rightarrow> nat \<Rightarrow> 'a klog_scheme \<Rightarrow> 'a klog_scheme outcome" where
  "install_one d tail s =
     obind (bread d (l_start (logs s d) + of_nat tail + 1) s) (\<lambda>(lbuf, s).
     obind (bread d (l_block (logs s d) ! tail) s) (\<lambda>(dbuf, s).
     obind (bwrite dbuf (copy_data dbuf lbuf s)) (\<lambda>s.
     obind (bunpin dbuf s) (\<lambda>s.
     obind (brelse lbuf s) (brelse dbuf)))))"

definition install_trans :: "u32 \<Rightarrow> 'a klog_scheme \<Rightarrow> 'a klog_scheme outcome" where
  "install_trans d s = ofold (install_one d) [0..<nat (l_n (logs s d))] s"

definition read_head :: "u32 \<Rightarrow> 'a klog_scheme \<Rightarrow> 'a klog_scheme outcome" where
  "read_head d s =
     obind (bread d (l_start (logs s d)) s) (\<lambda>(b, s).
     let data = b_data (bufs s b);
         s = l_upd d (\<lambda>l. l\<lparr>l_n := hdr_n data\<rparr>) s;
         s = fold (\<lambda>i. l_upd d (\<lambda>l. l\<lparr>l_block := (l_block l)[i := hdr_block data i]\<rparr>)) [0..<nat (hdr_n data)] s
     in brelse b s)"

definition write_head :: "u32 \<Rightarrow> 'a klog_scheme \<Rightarrow> 'a klog_scheme outcome" where
  "write_head d s =
     obind (bread d (l_start (logs s d)) s) (\<lambda>(b, s).
     let s = b_upd b (\<lambda>x. x\<lparr>b_data := hdr_put (l_n (logs s d)) (l_block (logs s d)) (b_data x)\<rparr>) s in
     obind (bwrite b s) (brelse b))"

definition recover_from_log :: "u32 \<Rightarrow> 'a klog_scheme \<Rightarrow> 'a klog_scheme outcome" where
  "recover_from_log d s =
     obind (read_head d s) (\<lambda>s.
     obind (install_trans d s) (\<lambda>s.
     write_head d (l_upd d (\<lambda>l. l\<lparr>l_n := 0\<rparr>) s)))"

text \<open>\<^verbatim>\<open>initlog\<close>; \<^verbatim>\<open>sizeof(struct logheader)\<close> is 4 + 4 * LOGSIZE.\<close>

definition initlog :: "u32 \<Rightarrow> u32 \<Rightarrow> u32 \<Rightarrow> 'a klog_scheme \<Rightarrow> 'a klog_scheme outcome" where
  "initlog d sb_logstart sb_nlog s =
     (if 4 + 4 * LOGSIZE \<ge> int BSIZE then Panic ''initlog: too big logheader''
      else recover_from_log d (l_upd d (\<lambda>l. l\<lparr>l_start := sb_logstart, l_size := sint sb_nlog\<rparr>) s))"

text \<open>\<^verbatim>\<open>begin_op\<close> up to where it proceeds; \<open>Sleep\<close> when it has to wait for a commit.\<close>

definition begin_op :: "u32 \<Rightarrow> 'a klog_scheme \<Rightarrow> 'a klog_scheme outcome" where
  "begin_op d s =
     obind (acquire_lk (LkLog (unat d)) s) (\<lambda>s.
     if l_committing (logs s d) then Sleep ChLog
     else if l_n (logs s d) + (l_outstanding (logs s d) + 1) * MAXOPBLOCKS > LOGSIZE then Sleep ChLog
     else release_lk (LkLog (unat d)) (l_upd d (\<lambda>l. l\<lparr>l_outstanding := l_outstanding l + 1\<rparr>) s))"

definition write_one :: "u32 \<Rightarrow> nat \<Rightarrow> 'a klog_scheme \<Rightarrow> 'a klog_scheme outcome" where
  "write_one d tail s =
     obind (bread d (l_start (logs s d) + of_nat tail + 1) s) (\<lambda>(to, s).
     obind (bread d (l_block (logs s d) ! tail) s) (\<lambda>(from, s).
     obind (bwrite to (copy_data to from s)) (\<lambda>s.
     obind (brelse from s) (brelse to))))"

definition write_log :: "u32 \<Rightarrow> 'a klog_scheme \<Rightarrow> 'a klog_scheme outcome" where
  "write_log d s = ofold (write_one d) [0..<nat (l_n (logs s d))] s"

definition commit :: "u32 \<Rightarrow> 'a klog_scheme \<Rightarrow> 'a klog_scheme outcome" where
  "commit d s =
     (if l_n (logs s d) > 0 then
        obind (write_log d s) (\<lambda>s.
        obind (write_head d s) (\<lambda>s.
        obind (install_trans d s) (\<lambda>s.
        write_head d (l_upd d (\<lambda>l. l\<lparr>l_n := 0\<rparr>) s))))
      else Ok s)"

definition end_op :: "u32 \<Rightarrow> 'a klog_scheme \<Rightarrow> 'a klog_scheme outcome" where
  "end_op d s =
     (let lk = LkLog (unat d) in
      obind (acquire_lk lk s) (\<lambda>s.
      let s = l_upd d (\<lambda>l. l\<lparr>l_outstanding := l_outstanding l - 1\<rparr>) s in
      if l_committing (logs s d) then Panic ''log[dev].committing''
      else obind (if l_outstanding (logs s d) = 0
                  then Ok (True, l_upd d (\<lambda>l. l\<lparr>l_committing := True\<rparr>) s)
                  else obind (wakeup ChLog s) (\<lambda>s. Ok (False, s))) (\<lambda>(do_commit, s).
        obind (release_lk lk s) (\<lambda>s.
        if do_commit then
          obind (commit d s) (\<lambda>s.
          obind (acquire_lk lk s) (\<lambda>s.
          obind (wakeup ChLog (l_upd d (\<lambda>l. l\<lparr>l_committing := False\<rparr>) s)) (release_lk lk)))
        else Ok s))))"

text \<open>The position of the block in the header, or the first free position.\<close>

definition log_slot :: "u32 list \<Rightarrow> nat \<Rightarrow> u32 \<Rightarrow> nat" where
  "log_slot bs n b = (case find (\<lambda>i. bs ! i = b) [0..<n] of Some i \<Rightarrow> i | None \<Rightarrow> n)"

definition log_write :: "nat \<Rightarrow> 'a klog_scheme \<Rightarrow> 'a klog_scheme outcome" where
  "log_write b s =
     (let d = b_dev (bufs s b); l = logs s d in
      if l_n l \<ge> LOGSIZE \<or> l_n l \<ge> l_size l - 1 then Panic ''too big a transaction''
      else if l_outstanding l < 1 then Panic ''log_write outside of trans''
      else obind (acquire_lk (LkLog (unat d)) s) (\<lambda>s.
        let i = log_slot (l_block (logs s d)) (nat (l_n (logs s d))) (b_blockno (bufs s b));
            s = l_upd d (\<lambda>l. l\<lparr>l_block := (l_block l)[i := b_blockno (bufs s b)]\<rparr>) s
        in obind (if int i = l_n (logs s d)
                  then obind (bpin b s) (\<lambda>s. Ok (l_upd d (\<lambda>l. l\<lparr>l_n := l_n l + 1\<rparr>) s))
                  else Ok s) (release_lk (LkLog (unat d)))))"

section \<open>Steps of the cache inside the log code\<close>

lemma l_upd_simps [simp]:
  "held (l_upd d f s) = held s" "procs (l_upd d f s) = procs s" "curp (l_upd d f s) = curp s"
  "bufs (l_upd d f s) = bufs s" "blinks (l_upd d f s) = blinks s" "disks (l_upd d f s) = disks s"
  "dtrace (l_upd d f s) = dtrace s" "logs (l_upd d f s) = (logs s)(d := f (logs s d))"
  by (simp_all add: l_upd_def)

lemma bio_frame_logs:
  assumes "bio_frame s t"
  shows "logs t = logs s"
proof -
  have e: "t = s\<lparr>procs := procs t, bufs := bufs t, blinks := blinks t, disks := disks t, dtrace := dtrace t\<rparr>"
    using assms by (simp add: bio_frame_def)
  show ?thesis by (subst e) simp
qed

text \<open>
  \<open>bst s0 P D T s\<close>: inside the log code started in \<open>s0\<close>, the state is \<open>s\<close>, the blocks in use are
  \<open>P\<close>, the disk is \<open>D\<close> and the writes so far are \<open>T\<close>. The rules below run one cache operation each.
\<close>

type_synonym dsk = "u32 \<times> u32 \<Rightarrow> u8 list"
type_synonym writes = "(u32 \<times> u32 \<times> u8 list) list"

definition bst :: "'a klog_scheme \<Rightarrow> bcache_abs \<Rightarrow> dsk \<Rightarrow> writes \<Rightarrow> 'a klog_scheme \<Rightarrow> bool" where
  "bst s0 P D T s \<longleftrightarrow> bio_frame s0 s \<and> proc_ctx s0 \<and> bio_quiet s0 \<and> bio_rel s P \<and> disk_at s = D \<and> dtrace s = T"

definition bslot :: "'a kbio_scheme \<Rightarrow> nat \<Rightarrow> u32 \<times> u32 \<Rightarrow> bool" where
  "bslot s i k \<longleftrightarrow> i < NBUF \<and> bkey s i = k"

text \<open>The buffers of the blocks in use stay where they are.\<close>

definition bkept :: "bcache_abs \<Rightarrow> 'a kbio_scheme \<Rightarrow> 'a kbio_scheme \<Rightarrow> bool" where
  "bkept P s t \<longleftrightarrow> (\<forall>j k. P k \<noteq> None \<longrightarrow> bslot s j k \<longrightarrow> bslot t j k)"

definition pcontent :: "bcache_abs \<Rightarrow> dsk \<Rightarrow> u32 \<times> u32 \<Rightarrow> u8 list" where
  "pcontent P D k = (case P k of Some (d, r, l) \<Rightarrow> d | None \<Rightarrow> D k)"

lemma bstD:
  assumes "bst s0 P D T s"
  shows "bio_rel s P" "proc_ctx s" "bio_quiet s" "disk_at s = D" "dtrace s = T" "logs s = logs s0"
    "bio_frame s0 s" "proc_ctx s0" "bio_quiet s0"
  using assms bio_frame_ctx[of s0 s] bio_frame_quiet[of s0 s] bio_frame_logs[of s0 s] by (simp_all add: bst_def)

lemma bst_next:
  assumes "bst s0 P D T s" and "bio_next s P t Q" and "disk_at t = D'" and "dtrace t = T'"
  shows "bst s0 Q D' T' t \<and> bkept P s t"
  using assms bio_frame_trans[of s0 s t] by (auto simp: bst_def bio_next_def bkept_def bslot_def)

lemma bst_bread:
  assumes "bst s0 P D T s" and "bavail P (d, n)"
  shows "\<exists>i t. bread d n s = Ok (i, t) \<and> bslot t i (d, n)
    \<and> bst s0 (P((d, n) \<mapsto> (pcontent P D (d, n), brefs P (d, n) + 1, True))) D T t \<and> bkept P s t"
proof -
  note b = bstD[OF assms(1)]
  obtain i t where t: "bread d n s = Ok (i, t)" "i < NBUF" "bkey t i = (d, n)"
    "bio_next s P t (P((d, n) \<mapsto> (bcontent s P (d, n), brefs P (d, n) + 1, True)))" "disks t = disks s" "dtrace t = dtrace s"
    using bread_rel[OF b(1-3) assms(2)] by auto
  have "bcontent s P (d, n) = pcontent P D (d, n)" using b(4) by (auto simp: bcontent_def pcontent_def)
  moreover have "disk_at t = D" using b(4) t(5) by (auto simp: disk_at_def fun_eq_iff)
  ultimately show ?thesis using bst_next[OF assms(1) t(4)] t b(5) by (auto simp: bslot_def)
qed

lemma bst_data:
  assumes "bst s0 P D T s" and "bslot s i k" and "P k = Some (x, r, l)"
  shows "bst s0 (P(k \<mapsto> (y, r, l))) D T (b_upd i (\<lambda>b. b\<lparr>b_data := y\<rparr>) s) \<and> bkept P s (b_upd i (\<lambda>b. b\<lparr>b_data := y\<rparr>) s)
    \<and> b_data (bufs s i) = x"
proof -
  note b = bstD[OF assms(1)]
  have k: "bkey s i = k" "i < NBUF" using assms(2) by (simp_all add: bslot_def)
  have n: "bio_next s P (b_upd i (\<lambda>b. b\<lparr>b_data := y\<rparr>) s) (P(k \<mapsto> (y, r, l)))"
    using bio_set_data[OF b(1,2) k(2)] k(1) assms(3) by auto
  have "b_data (bufs s i) = x" using bio_rel_Some[OF b(1) k(2)] k(1) assms(3) by (simp add: buf_is_def)
  moreover have "disk_at (b_upd i (\<lambda>b. b\<lparr>b_data := y\<rparr>) s) = D" using b(4) by (simp add: disk_at_def fun_eq_iff)
  ultimately show ?thesis using bst_next[OF assms(1) n] b(5) by simp
qed

lemma bst_bwrite:
  assumes "bst s0 P D T s" and "bslot s i k" and "P k = Some (x, r, True)"
  shows "\<exists>t. bwrite i s = Ok t \<and> bst s0 P (D(k := x)) (T @ [(fst k, snd k, x)]) t \<and> bkept P s t"
proof -
  note b = bstD[OF assms(1)]
  have k: "bkey s i = k" "i < NBUF" using assms(2) by (simp_all add: bslot_def)
  obtain t where t: "bwrite i s = Ok t" "bio_next s P t P" "disk_at t = (disk_at s)(k := x)"
      "dtrace t = dtrace s @ [(fst k, snd k, x)]"
    using bwrite_rel[OF b(1,3) k(2)] assms(3) unfolding k(1) by blast
  then show ?thesis using bst_next[OF assms(1) t(2)] b(4,5) by auto
qed

lemma bst_bunpin:
  assumes "bst s0 P D T s" and "bslot s i k" and "P k = Some (x, r, l)"
  shows "\<exists>t. bunpin i s = Ok t \<and> bst s0 (P(k \<mapsto> (x, r - 1, l))) D T t \<and> bkept P s t"
proof -
  note b = bstD[OF assms(1)]
  have k: "bkey s i = k" "i < NBUF" using assms(2) by (simp_all add: bslot_def)
  obtain t where t: "bunpin i s = Ok t" "bio_next s P t (P(k \<mapsto> (x, r - 1, l)))" "disks t = disks s" "dtrace t = dtrace s"
    using bunpin_rel[OF b(1-3) k(2)] assms(3) unfolding k(1) by blast
  moreover have "disk_at t = D" using b(4) t(3) by (auto simp: disk_at_def fun_eq_iff)
  ultimately show ?thesis using bst_next[OF assms(1) t(2)] b(5) by auto
qed

lemma bst_brelse:
  assumes "bst s0 P D T s" and "bslot s i k" and "P k = Some (x, r, True)" and "r = 1 \<longrightarrow> x = D k"
  shows "\<exists>t. brelse i s = Ok t \<and> bst s0 (P(k := (if r = 1 then None else Some (x, r - 1, False)))) D T t \<and> bkept P s t"
proof -
  note b = bstD[OF assms(1)]
  have k: "bkey s i = k" "i < NBUF" using assms(2) by (simp_all add: bslot_def)
  obtain t where t: "brelse i s = Ok t" "bio_next s P t (P(k := (if r = 1 then None else Some (x, r - 1, False))))"
      "disks t = disks s" "dtrace t = dtrace s"
    using brelse_rel[OF b(1-3) k(2)] assms(3,4) b(4) unfolding k(1) by blast
  moreover have "disk_at t = D" using b(4) t(3) by (auto simp: disk_at_def fun_eq_iff)
  ultimately show ?thesis using bst_next[OF assms(1) t(2)] b(5) by auto
qed

lemma bkeptD: "bkept P s t \<Longrightarrow> P k \<noteq> None \<Longrightarrow> bslot s j k \<Longrightarrow> bslot t j k"
  unfolding bkept_def by blast

text \<open>No block in use has a zero reference count, and a buffer is left over.\<close>

definition proom :: "bcache_abs \<Rightarrow> bool" where
  "proom P \<longleftrightarrow> card (dom P) < NBUF \<and> (\<forall>k d l. P k \<noteq> Some (d, 0, l))"

lemma bavail_None: "P k = None \<Longrightarrow> k \<noteq> (0, 0) \<Longrightarrow> proom P \<Longrightarrow> bavail P k"
  by (simp add: bavail_def proom_def)

lemma bavail_Some: "P k = Some (x, r, False) \<Longrightarrow> k \<noteq> (0, 0) \<Longrightarrow> bavail P k"
  by (simp add: bavail_def)

text \<open>One iteration of \<^verbatim>\<open>write_log\<close>: the cached block goes to its log block.\<close>

lemma write_one_step:
  assumes st: "bst s0 P D T s" and room: "proom P"
    and kl: "kl = (d, l_start (logs s0 d) + of_nat tail + 1)" "kl \<noteq> (0, 0)" "P kl = None"
    and kb: "kb = (d, l_block (logs s0 d) ! tail)" "P kb = Some (c, 1, False)"
  shows "\<exists>t. write_one d tail s = Ok t \<and> bst s0 P (D(kl := c)) (T @ [(fst kl, snd kl, c)]) t"
proof -
  have ne: "kl \<noteq> kb" using kl(3) kb(2) by auto
  have kb0: "kb \<noteq> (0, 0)" using bio_rel_dom[OF bstD(1)[OF st] kb(2)] by simp
  define P1 where P1: "P1 = P(kl \<mapsto> (D kl, 1, True))"
  define P2 where P2: "P2 = P1(kb \<mapsto> (c, 2, True))"
  define P3 where P3: "P3 = P2(kl \<mapsto> (c, 1, True))"
  define P4 where P4: "P4 = P3(kb \<mapsto> (c, 1, False))"
  note Ps = P1 P2 P3 P4
  have av: "bavail P kl" "bavail P1 kb"
    using bavail_None[of P kl] bavail_Some[of P1 kb c 1] kl kb kb0 ne room by (simp_all add: P1)
  obtain to s1 where s1: "bread d (snd kl) s = Ok (to, s1)" "bslot s1 to kl" "bst s0 P1 D T s1"
    using bst_bread[OF st, of d "snd kl"] av(1) kl by (auto simp: pcontent_def brefs_def P1)
  obtain from_b s2 where s2: "bread d (snd kb) s1 = Ok (from_b, s2)" "bslot s2 from_b kb" "bst s0 P2 D T s2" "bkept P1 s1 s2"
    using bst_bread[OF s1(3), of d "snd kb"] av(2) kb ne by (auto simp: pcontent_def brefs_def P1 P2)
  have to2: "bslot s2 to kl" using bkeptD[OF s2(4) _ s1(2)] by (simp add: P1)
  have from_data: "b_data (bufs s2 from_b) = c" using bst_data[OF s2(3,2), of c 2 True c] by (simp add: P2)
  let ?s3 = "copy_data to from_b s2"
  have s3: "bst s0 P3 D T ?s3" "bkept P2 s2 ?s3"
    using bst_data[OF s2(3) to2, of "D kl" 1 True c] ne by (simp_all add: copy_data_def from_data P1 P2 P3)
  have slots3: "bslot ?s3 to kl" "bslot ?s3 from_b kb"
    using bkeptD[OF s3(2) _ to2] bkeptD[OF s3(2) _ s2(2)] ne by (simp_all add: P1 P2)
  obtain s4 where s4: "bwrite to ?s3 = Ok s4" "bst s0 P3 (D(kl := c)) (T @ [(fst kl, snd kl, c)]) s4" "bkept P3 ?s3 s4"
    using bst_bwrite[OF s3(1) slots3(1), of c 1] by (auto simp: P3)
  have slots4: "bslot s4 to kl" "bslot s4 from_b kb"
    using bkeptD[OF s4(3) _ slots3(1)] bkeptD[OF s4(3) _ slots3(2)] ne by (simp_all add: P1 P2 P3)
  obtain s5 where s5: "brelse from_b s4 = Ok s5" "bst s0 P4 (D(kl := c)) (T @ [(fst kl, snd kl, c)]) s5" "bkept P3 s4 s5"
    using bst_brelse[OF s4(2) slots4(2), of c 2] ne by (auto simp: P1 P2 P3 P4)
  have slot5: "bslot s5 to kl" using bkeptD[OF s5(3) _ slots4(1)] by (simp add: P3)
  obtain s6 where s6: "brelse to s5 = Ok s6" "bst s0 (P4(kl := None)) (D(kl := c)) (T @ [(fst kl, snd kl, c)]) s6"
    using bst_brelse[OF s5(2) slot5, of c 1] ne by (auto simp: P3 P4)
  have "P4(kl := None) = P" using kl(3) kb(2) ne by (auto simp: fun_eq_iff Ps)
  moreover have "write_one d tail s = Ok s6"
    using s1(1) s2(1) s4(1) s5(1) s6(1) bstD(6)[OF st] bstD(6)[OF s1(3)] kl(1) kb(1)
    by (simp add: write_one_def)
  ultimately show ?thesis using s6(2) by auto
qed

lemma proom_upd:
  assumes "proom P" and "finite (dom P)" and "Suc (card (dom P)) < NBUF" and "r \<noteq> 0"
  shows "proom (P(k \<mapsto> (x, r, l)))"
proof -
  have "card (insert k (dom P)) \<le> Suc (card (dom P))" using assms(2) by (simp add: card_insert_if)
  then show ?thesis using assms by (auto simp: proom_def)
qed

text \<open>
  One iteration of \<^verbatim>\<open>install_trans\<close>: the log block goes home. The reference count of the home
  block ends one below what it was: a block pinned once is let go.
\<close>

lemma install_one_step:
  assumes st: "bst s0 P D T s" and room: "proom P"
    and kl: "kl = (d, l_start (logs s0 d) + of_nat tail + 1)" "kl \<noteq> (0, 0)" "P kl = None"
    and kb: "kb = (d, l_block (logs s0 d) ! tail)" "kb \<noteq> (0, 0)" "kb \<noteq> kl"
      "P kb = None \<and> Suc (card (dom P)) < NBUF \<or> (\<exists>x. P kb = Some (x, brefs P kb, False))"
    and c: "c = D kl" and r: "r = brefs P kb"
  shows "\<exists>t. install_one d tail s = Ok t
    \<and> bst s0 (P(kb := (if r = 1 then None else Some (c, r - 1, False)))) (D(kb := c)) (T @ [(fst kb, snd kb, c)]) t"
proof -
  have ne: "kl \<noteq> kb" using kb(3) by simp
  define P1 where P1: "P1 = P(kl \<mapsto> (c, 1, True))"
  define x where x: "x = pcontent P1 D kb"
  define P2 where P2: "P2 = P1(kb \<mapsto> (x, r + 1, True))"
  define P3 where P3: "P3 = P2(kb \<mapsto> (c, r + 1, True))"
  define P4 where P4: "P4 = P3(kb \<mapsto> (c, r, True))"
  define P5 where P5: "P5 = P4(kl := None)"
  note fin = bio_rel_finite[OF bstD(1)[OF st]]
  have av: "bavail P kl" using bavail_None[of P kl] kl room by simp
  have av1: "bavail P1 kb"
    using kb(4)
  proof
    assume "P kb = None \<and> Suc (card (dom P)) < NBUF"
    then show ?thesis using proom_upd[OF room fin, of 1 kl c True] bavail_None[of P1 kb] kb ne by (simp add: P1)
  next
    assume "\<exists>x. P kb = Some (x, brefs P kb, False)"
    then show ?thesis using bavail_Some[of P1 kb] kb ne by (auto simp: P1)
  qed
  have refs: "brefs P1 kb = r" using ne by (simp add: brefs_def r P1)
  obtain lb s1 where s1: "bread d (snd kl) s = Ok (lb, s1)" "bslot s1 lb kl" "bst s0 P1 D T s1"
    using bst_bread[OF st, of d "snd kl"] av kl by (auto simp: pcontent_def brefs_def P1 c)
  obtain db s2 where s2: "bread d (snd kb) s1 = Ok (db, s2)" "bslot s2 db kb" "bst s0 P2 D T s2" "bkept P1 s1 s2"
    using bst_bread[OF s1(3), of d "snd kb"] av1 kb(1) refs by (auto simp: P2 x)
  have lb2: "bslot s2 lb kl" using bkeptD[OF s2(4) _ s1(2)] by (simp add: P1)
  have lb_data: "b_data (bufs s2 lb) = c" using bst_data[OF s2(3) lb2, of c 1 True c] ne by (simp add: P1 P2)
  let ?s3 = "copy_data db lb s2"
  have s3: "bst s0 P3 D T ?s3" "bkept P2 s2 ?s3"
    using bst_data[OF s2(3,2), of x "r + 1" True c] by (simp_all add: copy_data_def lb_data P2 P3)
  have slots3: "bslot ?s3 lb kl" "bslot ?s3 db kb"
    using bkeptD[OF s3(2) _ lb2] bkeptD[OF s3(2) _ s2(2)] ne by (simp_all add: P1 P2)
  obtain s4 where s4: "bwrite db ?s3 = Ok s4" "bst s0 P3 (D(kb := c)) (T @ [(fst kb, snd kb, c)]) s4" "bkept P3 ?s3 s4"
    using bst_bwrite[OF s3(1) slots3(2), of c "r + 1"] by (auto simp: P3)
  have slots4: "bslot s4 lb kl" "bslot s4 db kb"
    using bkeptD[OF s4(3) _ slots3(1)] bkeptD[OF s4(3) _ slots3(2)] ne by (simp_all add: P1 P2 P3)
  obtain s5 where s5: "bunpin db s4 = Ok s5" "bst s0 P4 (D(kb := c)) (T @ [(fst kb, snd kb, c)]) s5" "bkept P3 s4 s5"
    using bst_bunpin[OF s4(2) slots4(2), of c "r + 1" True] by (auto simp: P3 P4)
  have slots5: "bslot s5 lb kl" "bslot s5 db kb"
    using bkeptD[OF s5(3) _ slots4(1)] bkeptD[OF s5(3) _ slots4(2)] ne by (simp_all add: P1 P2 P3)
  obtain s6 where s6: "brelse lb s5 = Ok s6" "bst s0 P5 (D(kb := c)) (T @ [(fst kb, snd kb, c)]) s6" "bkept P4 s5 s6"
    using bst_brelse[OF s5(2) slots5(1), of c 1] ne c by (auto simp: P1 P2 P3 P4 P5)
  have slot6: "bslot s6 db kb" using bkeptD[OF s6(3) _ slots5(2)] by (simp add: P4)
  have P5kb: "P5 kb = Some (c, r, True)" using ne by (simp add: P4 P5)
  obtain s7 where s7: "brelse db s6 = Ok s7"
      "bst s0 (P5(kb := (if r = 1 then None else Some (c, r - 1, False)))) (D(kb := c)) (T @ [(fst kb, snd kb, c)]) s7"
    using bst_brelse[OF s6(2) slot6 P5kb] by auto
  have "P5(kb := e) = P(kb := e)" for e using kl(3) ne by (auto simp: fun_eq_iff P1 P2 P3 P4 P5)
  moreover have "install_one d tail s = Ok s7"
    using s1(1) s2(1) s4(1) s5(1) s6(1) s7(1) bstD(6)[OF st] bstD(6)[OF s1(3)] kl(1) kb(1)
    by (simp add: install_one_def)
  ultimately show ?thesis using s7(2) by auto
qed

text \<open>\<^verbatim>\<open>write_head\<close> puts the in-memory header into the first block of the log.\<close>

lemma write_head_step:
  assumes st: "bst s0 P D T s" and room: "proom P"
    and kh: "kh = (d, l_start (logs s0 d))" "kh \<noteq> (0, 0)" "P kh = None"
    and h: "h = hdr_put (l_n (logs s0 d)) (l_block (logs s0 d)) (D kh)"
  shows "\<exists>t. write_head d s = Ok t \<and> bst s0 P (D(kh := h)) (T @ [(fst kh, snd kh, h)]) t"
proof -
  define P1 where P1: "P1 = P(kh \<mapsto> (D kh, 1, True))"
  define P2 where P2: "P2 = P1(kh \<mapsto> (h, 1, True))"
  have av: "bavail P kh" using bavail_None[of P kh] kh room by simp
  obtain b s1 where s1: "bread d (snd kh) s = Ok (b, s1)" "bslot s1 b kh" "bst s0 P1 D T s1"
    using bst_bread[OF st, of d "snd kh"] av kh by (auto simp: pcontent_def brefs_def P1)
  have data: "b_data (bufs s1 b) = D kh" using bst_data[OF s1(3,2), of "D kh" 1 True h] by (simp add: P1)
  let ?s2 = "b_upd b (\<lambda>x. x\<lparr>b_data := h\<rparr>) s1"
  have s2: "bst s0 P2 D T ?s2" "bkept P1 s1 ?s2"
    using bst_data[OF s1(3,2), of "D kh" 1 True h] by (simp_all add: P1 P2)
  have slot2: "bslot ?s2 b kh" using bkeptD[OF s2(2) _ s1(2)] by (simp add: P1)
  obtain s3 where s3: "bwrite b ?s2 = Ok s3" "bst s0 P2 (D(kh := h)) (T @ [(fst kh, snd kh, h)]) s3" "bkept P2 ?s2 s3"
    using bst_bwrite[OF s2(1) slot2, of h 1] by (auto simp: P2)
  have slot3: "bslot s3 b kh" using bkeptD[OF s3(3) _ slot2] by (simp add: P2)
  obtain s4 where s4: "brelse b s3 = Ok s4" "bst s0 (P2(kh := None)) (D(kh := h)) (T @ [(fst kh, snd kh, h)]) s4"
    using bst_brelse[OF s3(2) slot3, of h 1] by (auto simp: P2)
  have "P2(kh := None) = P" using kh(3) by (auto simp: fun_eq_iff P1 P2)
  moreover have "b_upd b (\<lambda>x. x\<lparr>b_data := hdr_put (l_n (logs s1 d)) (l_block (logs s1 d)) (b_data x)\<rparr>) s1 = ?s2"
    using bstD(6)[OF s1(3)] data by (intro b_upd_cong) (simp add: h)
  then have "write_head d s = Ok s4"
    using s1(1) s3(1) s4(1) bstD(6)[OF st] kh(1) by (simp add: write_head_def)
  ultimately show ?thesis using s4(2) by auto
qed

lemma bio_rel_l_upd [simp]: "bio_rel (l_upd d f s) P = bio_rel s P"
proof -
  have a: "bkey (l_upd d f s) = bkey s" "lru (l_upd d f s) = lru s"
    by (simp_all add: bkey_def [abs_def] lru_def [abs_def])
  then have b: "buf_is (l_upd d f s) = buf_is s" "buf_unused (l_upd d f s) = buf_unused s"
    by (simp_all add: buf_is_def [abs_def] buf_unused_def [abs_def] disk_at_def my_lock_def)
  have c: "procs (l_upd d f s) = procs s" by simp
  show ?thesis unfolding bio_rel_def a b c by (rule refl)
qed

lemma bst_l_upd:
  assumes "bst s0 P D T s"
  shows "bst (l_upd d f s0) P D T (l_upd d f s)"
proof -
  note b = bstD[OF assms]
  have e: "s = s0\<lparr>procs := procs s, bufs := bufs s, blinks := blinks s, disks := disks s, dtrace := dtrace s\<rparr>"
    using b(7) by (simp add: bio_frame_def)
  obtain g where g: "procs s = map g (procs s0)" "\<forall>p. pid (g p) = pid p"
    using b(7) unfolding bio_frame_def by blast
  have "l_upd d f s = (l_upd d f s0)\<lparr>procs := procs s, bufs := bufs s, blinks := blinks s, disks := disks s, dtrace := dtrace s\<rparr>"
    unfolding l_upd_def b(6) by (subst e) simp
  then have "bio_frame (l_upd d f s0) (l_upd d f s)"
    unfolding bio_frame_def using g by (intro conjI exI[of _ g]) simp_all
  moreover have "bio_rel (l_upd d f s) P"
    using b(1) by simp
  moreover have "disk_at (l_upd d f s) = D" using b(4) by (simp add: disk_at_def [abs_def])
  moreover have "proc_ctx (l_upd d f s0)" "bio_quiet (l_upd d f s0)"
    using b(8,9) unfolding proc_ctx_def bio_quiet_def l_upd_simps by blast+
  ultimately show ?thesis unfolding bst_def using b(5) by simp
qed

section \<open>Sequences of disk writes\<close>

definition apply_writes :: "dsk \<Rightarrow> writes \<Rightarrow> dsk" where
  "apply_writes D ws = fold (\<lambda>(d, n, x) D. D((d, n) := x)) ws D"

lemma apply_writes_simps [simp]:
  "apply_writes D [] = D" "apply_writes D (ws @ vs) = apply_writes (apply_writes D ws) vs"
  "apply_writes D [(d, n, x)] = D((d, n) := x)"
  by (simp_all add: apply_writes_def)

lemma apply_writes_other: "\<forall>(d, n, x) \<in> set ws. (d, n) \<noteq> k \<Longrightarrow> apply_writes D ws k = D k"
  by (induction ws arbitrary: D) (auto simp: apply_writes_def)

text \<open>Writing \<open>xs ! i\<close> to distinct places \<open>f i\<close>.\<close>

definition writes_at :: "u32 \<Rightarrow> (nat \<Rightarrow> u32) \<Rightarrow> u8 list list \<Rightarrow> nat \<Rightarrow> writes" where
  "writes_at d f xs n = map (\<lambda>i. (d, f i, xs ! i)) [0..<n]"

lemma writes_at_Suc: "writes_at d f xs (Suc n) = writes_at d f xs n @ [(d, f n, xs ! n)]"
  by (simp add: writes_at_def)

lemma apply_writes_at_Suc:
  "apply_writes D (writes_at d f xs (Suc n)) = (apply_writes D (writes_at d f xs n))((d, f n) := xs ! n)"
  by (simp add: writes_at_Suc apply_writes_def)

lemma apply_writes_at_outside:
  "k \<notin> (\<lambda>i. (d, f i)) ` {..<n} \<Longrightarrow> apply_writes D (writes_at d f xs n) k = D k"
  by (rule apply_writes_other) (auto simp: writes_at_def)

lemma apply_writes_at_inside:
  assumes "inj_on f {..<n}" and "i < n"
  shows "apply_writes D (writes_at d f xs n) (d, f i) = xs ! i"
  using assms
proof (induction n)
  case 0
  then show ?case by simp
next
  case (Suc n)
  show ?case
  proof (cases "i = n")
    case False
    then have "f i \<noteq> f n" using Suc.prems by (auto dest: inj_onD)
    moreover have "inj_on f {..<n}" using Suc.prems(1) by (rule inj_on_subset) auto
    ultimately show ?thesis using Suc False by (simp add: writes_at_Suc)
  qed (simp add: writes_at_Suc)
qed

section \<open>The phases of a commit\<close>

text \<open>
  A transaction of \<open>n\<close> blocks ready to be committed: \<open>bs\<close> are the home blocks in the header and \<open>cs\<close>
  their contents in the cache. The log area is the header block and the \<open>n\<close> blocks after it.
\<close>

definition log_addr :: "dlog \<Rightarrow> nat \<Rightarrow> u32" where
  "log_addr l i = l_start l + of_nat i + 1"

definition txn_layout :: "u32 \<Rightarrow> dlog \<Rightarrow> bool" where
  "txn_layout d l \<longleftrightarrow>
     0 \<le> l_n l \<and> l_n l < LOGSIZE \<and> length (l_block l) = nat LOGSIZE \<and> distinct (take (nat (l_n l)) (l_block l))
   \<and> 0 < l_start l \<and> unat (l_start l) + nat LOGSIZE < 2 ^ 32
   \<and> (\<forall>b \<in> set (take (nat (l_n l)) (l_block l)). b \<noteq> 0 \<and> (unat b < unat (l_start l) \<or> unat (l_start l) + nat LOGSIZE \<le> unat b))"

text \<open>The blocks \<open>bs\<close> are in use with contents \<open>cs\<close>, each unlocked and referenced \<open>r\<close> times.\<close>

definition pinned :: "u32 \<Rightarrow> u32 \<Rightarrow> u32 list \<Rightarrow> u8 list list \<Rightarrow> bcache_abs" where
  "pinned r d bs cs = map_of (zip (map (Pair d) bs) (map (\<lambda>c. (c, r, False)) cs))"

lemma pinned_Nil [simp]: "pinned r d [] [] = Map.empty"
  by (simp add: pinned_def)

lemma pinned_nth:
  assumes "distinct bs" and "length cs = length bs" and "i < length bs"
  shows "pinned r d bs cs (d, bs ! i) = Some (cs ! i, r, False)"
  using map_of_zip_nth[of "map (Pair d) bs" "map (\<lambda>c. (c, r, False)) cs" i] assms
  by (simp add: pinned_def distinct_map inj_on_def)

lemma pinned_None: "length cs = length bs \<Longrightarrow> k \<notin> Pair d ` set bs \<Longrightarrow> pinned r d bs cs k = None"
  by (simp add: pinned_def)

lemma dom_pinned: "length cs = length bs \<Longrightarrow> dom (pinned r d bs cs) = Pair d ` set bs"
  by (simp add: pinned_def)

lemma card_pinned:
  assumes "length cs = length bs"
  shows "card (dom (pinned r d bs cs)) \<le> length bs"
  unfolding dom_pinned[OF assms] using card_image_le[of "set bs" "Pair d"] card_length[of bs] by simp

lemma pinned_ref: "pinned r d bs cs k = Some (x, q, l) \<Longrightarrow> q = r \<and> \<not> l"
  by (auto simp: pinned_def dest!: map_of_SomeD set_zip_rightD)

lemma proom_pinned:
  assumes "length cs = length bs" and "length bs < NBUF" and "r \<noteq> 0"
  shows "proom (pinned r d bs cs)"
  using card_pinned[OF assms(1)] assms(2,3) by (auto simp: proom_def dest: pinned_ref intro: le_less_trans)

lemma pinned_drop:
  assumes "distinct bs" and "length cs = length bs" and "j < length bs"
  shows "(pinned r d (drop j bs) (drop j cs))((d, bs ! j) := None) = pinned r d (drop (Suc j) bs) (drop (Suc j) cs)"
proof
  fix k
  have bs: "drop j bs = bs ! j # drop (Suc j) bs" "drop j cs = cs ! j # drop (Suc j) cs"
    using assms by (simp_all add: Cons_nth_drop_Suc)
  have "distinct (drop j bs)" using assms(1) by simp
  then have "bs ! j \<notin> set (drop (Suc j) bs)" unfolding bs by simp
  then have "pinned r d (drop (Suc j) bs) (drop (Suc j) cs) (d, bs ! j) = None"
    using assms(2) by (intro pinned_None) auto
  then show "((pinned r d (drop j bs) (drop j cs))((d, bs ! j) := None)) k = pinned r d (drop (Suc j) bs) (drop (Suc j) cs) k"
    unfolding bs by (simp add: pinned_def)
qed

lemma pinned_take:
  assumes "distinct bs" and "length cs = length bs" and "j < length bs"
  shows "(pinned r d (take j bs) (take j cs))((d, bs ! j) \<mapsto> (cs ! j, r, False)) = pinned r d (take (Suc j) bs) (take (Suc j) cs)"
proof
  fix k
  have bs: "take (Suc j) bs = take j bs @ [bs ! j]" "take (Suc j) cs = take j cs @ [cs ! j]"
    using assms by (simp_all add: take_Suc_conv_app_nth)
  have "distinct (take (Suc j) bs)" using assms(1) by simp
  then have "bs ! j \<notin> set (take j bs)" unfolding bs by simp
  then have none: "pinned r d (take j bs) (take j cs) (d, bs ! j) = None"
    using assms(2) by (intro pinned_None) auto
  have "pinned r d (take (Suc j) bs) (take (Suc j) cs) = [(d, bs ! j) \<mapsto> (cs ! j, r, False)] ++ pinned r d (take j bs) (take j cs)"
    using assms(2,3) unfolding bs pinned_def by simp
  then show "((pinned r d (take j bs) (take j cs))((d, bs ! j) \<mapsto> (cs ! j, r, False))) k = pinned r d (take (Suc j) bs) (take (Suc j) cs) k"
    using none by (cases "k = (d, bs ! j)") (simp_all add: map_add_def split: option.split)
qed

text \<open>The addresses of the log area differ from each other and from the home blocks.\<close>

lemma log_addr_unat:
  assumes "txn_layout d l" and "i < 29"
  shows "unat (log_addr l i) = unat (l_start l) + i + 1"
proof -
  have "unat (l_start l) + 30 < 4294967296" using assms(1) by (simp add: txn_layout_def LOGSIZE_def MAXOPBLOCKS_def)
  then have "unat (l_start l + of_nat i) = unat (l_start l) + i"
    using assms(2) by (subst unat_plus_u32) simp_all
  then show ?thesis using \<open>unat (l_start l) + 30 < 4294967296\<close> assms(2) unfolding log_addr_def
    by (subst unat_plus_u32) simp_all
qed

lemma log_addr_inj:
  assumes "txn_layout d l" and "n \<le> 29"
  shows "inj_on (log_addr l) {..<n}"
proof (rule inj_onI)
  fix i j assume ij: "i \<in> {..<n}" "j \<in> {..<n}" "log_addr l i = log_addr l j"
  then have b: "i < 29" "j < 29" using assms(2) by auto
  have "unat (log_addr l i) = unat (log_addr l j)" by (simp only: ij(3))
  then show "i = j" unfolding log_addr_unat[OF assms(1) b(1)] log_addr_unat[OF assms(1) b(2)] by simp
qed

lemma log_area_unat:
  assumes "txn_layout d l"
  shows "0 < unat (l_start l)"
    "b \<in> set (take (nat (l_n l)) (l_block l)) \<Longrightarrow> unat b < unat (l_start l) \<or> unat (l_start l) + 30 \<le> unat b"
    "b \<in> set (take (nat (l_n l)) (l_block l)) \<Longrightarrow> 0 < unat b"
  using assms by (simp_all add: txn_layout_def LOGSIZE_def MAXOPBLOCKS_def word_less_nat_alt unat_gt_0)

lemma log_addr_fresh:
  assumes "txn_layout d l" and "i < 29"
  shows "log_addr l i \<noteq> l_start l" "log_addr l i \<noteq> 0"
    "b \<in> set (take (nat (l_n l)) (l_block l)) \<Longrightarrow> log_addr l i \<noteq> b"
proof -
  note u = log_addr_unat[OF assms]
  show "log_addr l i \<noteq> l_start l" "log_addr l i \<noteq> 0"
    using u by (metis add_eq_self_zero add.assoc add_is_0 one_neq_zero, metis add_is_0 one_neq_zero unat_0)
  assume "b \<in> set (take (nat (l_n l)) (l_block l))"
  then have "unat (log_addr l i) \<noteq> unat b" using log_area_unat(2)[OF assms(1), of b] u assms(2) by linarith
  then show "log_addr l i \<noteq> b" by blast
qed

lemma log_home_start:
  assumes "txn_layout d l" and "b \<in> set (take (nat (l_n l)) (l_block l))"
  shows "b \<noteq> l_start l"
proof -
  have "unat b \<noteq> unat (l_start l)" using log_area_unat(2)[OF assms] by linarith
  then show ?thesis by blast
qed

lemma bst_writes_Suc:
  assumes "bst s0 P ((apply_writes D (writes_at d f xs k))((d, f k) := xs ! k)) ((T @ writes_at d f xs k) @ [(d, f k, xs ! k)]) t"
  shows "bst s0 P (apply_writes D (writes_at d f xs (Suc k))) (T @ writes_at d f xs (Suc k)) t"
  using assms by (simp only: apply_writes_at_Suc) (simp only: writes_at_Suc append_assoc)

text \<open>The three loops, as sequences of disk writes.\<close>

lemma txn_layoutD:
  assumes "txn_layout d l" and "n = nat (l_n l)" and "bs = take n (l_block l)"
  shows "n \<le> 29" "length bs = n" "distinct bs" "\<And>i. i < n \<Longrightarrow> l_block l ! i = bs ! i" "n < NBUF"
  using assms by (auto simp: txn_layout_def LOGSIZE_def MAXOPBLOCKS_def NBUF_def)

lemma write_log_writes:
  assumes lay: "txn_layout d (logs s0 d)" and l: "l = logs s0 d" and n: "n = nat (l_n l)" and bs: "bs = take n (l_block l)"
    and cs: "length cs = n" and st: "bst s0 (pinned 1 d bs cs) D T s" and k: "k \<le> n"
  shows "\<exists>t. ofold (write_one d) [0..<k] s = Ok t \<and> bst s0 (pinned 1 d bs cs)
    (apply_writes D (writes_at d (log_addr l) cs k)) (T @ writes_at d (log_addr l) cs k) t"
  using k
proof (induction k)
  case 0
  then show ?case using st by (simp add: writes_at_def)
next
  case (Suc k)
  note L = txn_layoutD[OF lay[folded l] n bs]
  let ?D = "apply_writes D (writes_at d (log_addr l) cs k)" and ?T = "T @ writes_at d (log_addr l) cs k"
  let ?P = "pinned 1 d bs cs"
  from Suc obtain t where t: "ofold (write_one d) [0..<k] s = Ok t" "bst s0 ?P ?D ?T t" by auto
  have k: "k < n" "k < 29" using Suc.prems L(1) by auto
  have fresh: "(d, log_addr l k) \<noteq> (0, 0)" "?P (d, log_addr l k) = None"
  proof -
    show "(d, log_addr l k) \<noteq> (0, 0)" using log_addr_fresh(2)[OF lay[folded l] k(2)] by simp
    have "log_addr l k \<notin> set bs" using log_addr_fresh(3)[OF lay[folded l] k(2)] bs n by blast
    then show "?P (d, log_addr l k) = None" using cs L(2) by (intro pinned_None) auto
  qed
  have pin: "?P (d, l_block l ! k) = Some (cs ! k, 1, False)"
    using pinned_nth[OF L(3), of cs k 1 d] L(2,4) cs k(1) by simp
  have room: "proom ?P" using cs L(2,5) by (intro proom_pinned) auto
  obtain u where u: "write_one d k t = Ok u"
      "bst s0 ?P (?D((d, log_addr l k) := cs ! k)) (?T @ [(d, log_addr l k, cs ! k)]) u"
    using write_one_step[OF t(2) room, of "(d, log_addr l k)" d k "(d, l_block l ! k)" "cs ! k"] fresh pin
    by (auto simp: log_addr_def l)
  have "ofold (write_one d) [0..<Suc k] s = Ok u" using t(1) u(1) by (simp add: ofold_append ofold_Nil_eq)
  then show ?case using bst_writes_Suc[OF u(2)] by (intro exI[of _ u] conjI)
qed

lemma install_writes:
  assumes lay: "txn_layout d (logs s0 d)" and l: "l = logs s0 d" and n: "n = nat (l_n l)" and bs: "bs = take n (l_block l)"
    and cs: "length cs = n" and st: "bst s0 (pinned 1 d bs cs) D T s" and k: "k \<le> n"
    and log: "\<And>i. i < n \<Longrightarrow> D (d, log_addr l i) = cs ! i"
  shows "\<exists>t. ofold (install_one d) [0..<k] s = Ok t \<and> bst s0 (pinned 1 d (drop k bs) (drop k cs))
    (apply_writes D (writes_at d ((!) bs) cs k)) (T @ writes_at d ((!) bs) cs k) t"
  using k
proof (induction k)
  case 0
  then show ?case using st by (simp add: writes_at_def)
next
  case (Suc k)
  note L = txn_layoutD[OF lay[folded l] n bs]
  let ?D = "apply_writes D (writes_at d ((!) bs) cs k)" and ?T = "T @ writes_at d ((!) bs) cs k"
  let ?P = "pinned 1 d (drop k bs) (drop k cs)"
  from Suc obtain t where t: "ofold (install_one d) [0..<k] s = Ok t" "bst s0 ?P ?D ?T t" by auto
  have k: "k < n" "k < 29" using Suc.prems L(1) by auto
  have notin: "log_addr l k \<notin> set bs" using log_addr_fresh(3)[OF lay[folded l] k(2)] bs n by blast
  have fresh: "(d, log_addr l k) \<noteq> (0, 0)" "?P (d, log_addr l k) = None"
    using log_addr_fresh(2)[OF lay[folded l] k(2)] notin cs L(2)
    by (auto intro!: pinned_None dest: in_set_dropD)
  have Dk: "?D (d, log_addr l k) = cs ! k"
    using notin k(1) L(2) log[OF k(1)] by (subst apply_writes_at_outside) auto
  have hd: "drop k bs ! 0 = bs ! k" "drop k cs ! 0 = cs ! k" "0 < length (drop k bs)" using k(1) L(2) cs by simp_all
  have "distinct (drop k bs)" using L(3) by simp
  then have pin: "?P (d, bs ! k) = Some (cs ! k, 1, False)"
    using pinned_nth[of "drop k bs" "drop k cs" 0 1 d] hd L(2) cs by simp
  have ne: "(d, bs ! k) \<noteq> (d, log_addr l k)" using notin nth_mem[of k bs] k(1) L(2) unfolding prod.inject by metis
  have b0: "(d, bs ! k) \<noteq> (0, 0)" by (rule conjunct1[OF bio_rel_dom[OF bstD(1)[OF t(2)] pin]])
  have room: "proom ?P" using cs L(2,5) by (intro proom_pinned) auto
  have refs: "brefs ?P (d, bs ! k) = 1" using pin by (simp add: brefs_def)
  have kl: "(d, log_addr l k) = (d, l_start (logs s0 d) + of_nat k + 1)" "(d, bs ! k) = (d, l_block (logs s0 d) ! k)"
    using L(4)[OF k(1)] by (simp_all add: log_addr_def l)
  have alt: "?P (d, bs ! k) = None \<and> Suc (card (dom ?P)) < NBUF \<or> (\<exists>x. ?P (d, bs ! k) = Some (x, brefs ?P (d, bs ! k), False))"
    using pin refs by metis
  obtain u where u: "install_one d k t = Ok u"
      "bst s0 (?P((d, bs ! k) := None)) (?D((d, bs ! k) := cs ! k)) (?T @ [(d, bs ! k, cs ! k)]) u"
    using install_one_step[OF t(2) room kl(1) fresh kl(2) b0 ne alt Dk[symmetric] refs[symmetric]]
    unfolding if_P[OF refl] fst_conv snd_conv by blast
  have "ofold (install_one d) [0..<Suc k] s = Ok u" using t(1) u(1) by (simp add: ofold_append ofold_Nil_eq)
  moreover have "?P((d, bs ! k) := None) = pinned 1 d (drop (Suc k) bs) (drop (Suc k) cs)"
    using pinned_drop[OF L(3), of cs k 1 d] L(2) cs k(1) by simp
  then have "bst s0 (pinned 1 d (drop (Suc k) bs) (drop (Suc k) cs)) (?D((d, bs ! k) := cs ! k)) (?T @ [(d, bs ! k, cs ! k)]) u"
    using u(2) by (simp only:)
  then have "bst s0 (pinned 1 d (drop (Suc k) bs) (drop (Suc k) cs))
      (apply_writes D (writes_at d ((!) bs) cs (Suc k))) (T @ writes_at d ((!) bs) cs (Suc k)) u"
    by (rule bst_writes_Suc)
  ultimately show ?case by (intro exI[of _ u] conjI)
qed

end
