(* ===== verification/KRecover.thy ===== *)
theory KRecover
  imports KLog
begin

text \<open>
  Crash safety of \<^verbatim>\<open>kernel/log.c\<close>. The disk writes of \<^verbatim>\<open>commit\<close> and of \<^verbatim>\<open>recover_from_log\<close> are
  computed exactly from the code; the locale \<open>redo_log\<close> fixes the coding of the log header with its laws
  and shows that a crash after any prefix of the writes of a commit, followed by any number of crashed
  recoveries, leaves a disk from which a complete recovery gives all of the transaction or none of it.
  The interpretation is the header format of \<^verbatim>\<open>write_head\<close> and \<^verbatim>\<open>read_head\<close>.
\<close>

section \<open>The header on disk\<close>

lemma hdr_put_blocks_get:
  assumes "4 + 4 * n \<le> length x"
  shows "length (hdr_put_blocks bs n x) = length x" "get32 (hdr_put_blocks bs n x) 0 = get32 x 0"
    "i < n \<Longrightarrow> get32 (hdr_put_blocks bs n x) (4 + 4 * i) = bs ! i"
proof -
  have "length (hdr_put_blocks bs n x) = length x \<and> get32 (hdr_put_blocks bs n x) 0 = get32 x 0
    \<and> (\<forall>i < n. get32 (hdr_put_blocks bs n x) (4 + 4 * i) = bs ! i)"
    using assms
  proof (induction n)
    case 0
    then show ?case by (simp add: hdr_put_blocks_def)
  next
    case (Suc n)
    let ?y = "hdr_put_blocks bs n x"
    have e: "hdr_put_blocks bs (Suc n) x = put32 (4 + 4 * n) (bs ! n) ?y" by (simp add: hdr_put_blocks_def)
    have y: "length ?y = length x" "get32 ?y 0 = get32 x 0" "\<And>i. i < n \<Longrightarrow> get32 ?y (4 + 4 * i) = bs ! i"
      using Suc by simp_all
    have old: "get32 (put32 (4 + 4 * n) (bs ! n) ?y) (4 + 4 * i) = bs ! i" if "i < n" for i
      using y that Suc.prems by (subst get32_put32_other) auto
    have new: "get32 (put32 (4 + 4 * n) (bs ! n) ?y) (4 + 4 * n) = bs ! n" using y Suc.prems by simp
    have "get32 (put32 (4 + 4 * n) (bs ! n) ?y) 0 = get32 x 0" using y Suc.prems by (subst get32_put32_other) auto
    moreover have "length (put32 (4 + 4 * n) (bs ! n) ?y) = length x" using y Suc.prems by simp
    ultimately show ?case unfolding e using old new less_Suc_eq by metis
  qed
  then show "length (hdr_put_blocks bs n x) = length x" "get32 (hdr_put_blocks bs n x) 0 = get32 x 0"
    "i < n \<Longrightarrow> get32 (hdr_put_blocks bs n x) (4 + 4 * i) = bs ! i" by blast+
qed

lemma hdr_put_0: "hdr_put 0 bs x = hdr_put 0 [] x"
  by (simp add: hdr_put_def hdr_put_blocks_def)

lemma sint_of_int_small: "0 \<le> n \<Longrightarrow> n < 30 \<Longrightarrow> sint (of_int n :: u32) = n"
  by (simp add: signed_of_int signed_take_bit_int_eq_self)

text \<open>The coding of the log header: what is written is what is read.\<close>

locale redo_log =
  fixes put :: "int \<Rightarrow> u32 list \<Rightarrow> u8 list \<Rightarrow> u8 list"
    and nof :: "u8 list \<Rightarrow> int"
    and blk :: "u8 list \<Rightarrow> nat \<Rightarrow> u32"
  assumes put_length: "0 \<le> n \<Longrightarrow> n < LOGSIZE \<Longrightarrow> length x = BSIZE \<Longrightarrow> length (put n bs x) = BSIZE"
    and put_n: "0 \<le> n \<Longrightarrow> n < LOGSIZE \<Longrightarrow> length x = BSIZE \<Longrightarrow> nof (put n bs x) = n"
    and put_blk: "0 \<le> n \<Longrightarrow> n < LOGSIZE \<Longrightarrow> length x = BSIZE \<Longrightarrow> i < nat n \<Longrightarrow> blk (put n bs x) i = bs ! i"

interpretation hdr: redo_log hdr_put hdr_n hdr_block
proof
  fix n x bs assume a: "0 \<le> n" "n < LOGSIZE" "length (x :: u8 list) = BSIZE"
  have n: "4 + 4 * nat n \<le> length (put32 0 (of_int n) x)" "n < 30" "4 \<le> length x"
    using a by (simp_all add: LOGSIZE_def MAXOPBLOCKS_def BSIZE_def)
  show "length (hdr_put n bs x) = BSIZE" using hdr_put_blocks_get(1)[OF n(1)] a(3) n(3) by (simp add: hdr_put_def)
  show "hdr_n (hdr_put n bs x) = n"
    using hdr_put_blocks_get(2)[OF n(1)] n(2,3) a(1) by (simp add: hdr_put_def hdr_n_def sint_of_int_small)
  fix i assume "i < nat n"
  then show "hdr_block (hdr_put n bs x) i = bs ! i"
    using hdr_put_blocks_get(3)[OF n(1)] by (simp add: hdr_put_def hdr_block_def)
qed

section \<open>The writes of commit and of recovery\<close>

definition commit_writes :: "(int \<Rightarrow> u32 list \<Rightarrow> u8 list \<Rightarrow> u8 list) \<Rightarrow> u32 \<Rightarrow> dlog \<Rightarrow> u8 list list \<Rightarrow> u8 list \<Rightarrow> writes" where
  "commit_writes put d l cs h =
     (let n = nat (l_n l); h1 = put (l_n l) (l_block l) h in
      writes_at d (log_addr l) cs n @ (d, l_start l, h1) # writes_at d ((!) (take n (l_block l))) cs n @ [(d, l_start l, put 0 [] h1)])"

definition log_copies :: "u32 \<Rightarrow> dlog \<Rightarrow> dsk \<Rightarrow> nat \<Rightarrow> u8 list list" where
  "log_copies d l D n = map (\<lambda>i. D (d, log_addr l i)) [0..<n]"

definition recovery_writes :: "(int \<Rightarrow> u32 list \<Rightarrow> u8 list \<Rightarrow> u8 list) \<Rightarrow> (u8 list \<Rightarrow> int) \<Rightarrow> (u8 list \<Rightarrow> nat \<Rightarrow> u32)
  \<Rightarrow> u32 \<Rightarrow> dlog \<Rightarrow> dsk \<Rightarrow> writes" where
  "recovery_writes put nof blk d l D =
     (let h = D (d, l_start l); n = nat (nof h) in
      writes_at d (blk h) (log_copies d l D n) n @ [(d, l_start l, put 0 [] h)])"

definition log_area :: "u32 \<Rightarrow> dlog \<Rightarrow> (u32 \<times> u32) set" where
  "log_area d l = {(d, b) | b. unat (l_start l) \<le> unat b \<and> unat b < unat (l_start l) + nat LOGSIZE}"

text \<open>Where the log can lie, and which lists of home blocks a header may hold.\<close>

definition area_ok :: "dlog \<Rightarrow> bool" where
  "area_ok l \<longleftrightarrow> 0 < l_start l \<and> unat (l_start l) + nat LOGSIZE < 2 ^ 32"

definition homes_ok :: "dlog \<Rightarrow> u32 list \<Rightarrow> bool" where
  "homes_ok l bs \<longleftrightarrow> int (length bs) < LOGSIZE \<and> distinct bs
     \<and> (\<forall>b \<in> set bs. b \<noteq> 0 \<and> (unat b < unat (l_start l) \<or> unat (l_start l) + nat LOGSIZE \<le> unat b))"

lemma txn_layout_iff:
  "txn_layout d l \<longleftrightarrow> 0 \<le> l_n l \<and> l_n l < LOGSIZE \<and> length (l_block l) = nat LOGSIZE \<and> area_ok l
     \<and> homes_ok l (take (nat (l_n l)) (l_block l))"
  by (auto simp: txn_layout_def area_ok_def homes_ok_def LOGSIZE_def MAXOPBLOCKS_def)

lemma area_ok_layout:
  assumes "area_ok l"
  shows "txn_layout d (l\<lparr>l_n := 0, l_block := replicate 30 0\<rparr>)"
  using assms by (simp add: txn_layout_iff homes_ok_def area_ok_def LOGSIZE_def MAXOPBLOCKS_def)

lemma log_addr_area:
  assumes "area_ok l" and "i < 29"
  shows "unat (log_addr l i) = unat (l_start l) + i + 1" "log_addr l i \<noteq> l_start l" "log_addr l i \<noteq> 0"
    "(d, log_addr l i) \<in> log_area d l"
proof -
  have e: "log_addr (l\<lparr>l_n := 0, l_block := replicate 30 0\<rparr>) i = log_addr l i" by (simp add: log_addr_def)
  show u: "unat (log_addr l i) = unat (l_start l) + i + 1"
    using log_addr_unat[OF area_ok_layout[OF assms(1)] assms(2)] unfolding e by simp
  show "log_addr l i \<noteq> l_start l" "log_addr l i \<noteq> 0"
    using log_addr_fresh(1,2)[OF area_ok_layout[OF assms(1)] assms(2)] unfolding e by simp_all
  show "(d, log_addr l i) \<in> log_area d l" using u assms(2) by (simp add: log_area_def LOGSIZE_def MAXOPBLOCKS_def)
qed

lemma start_area: "(d, l_start l) \<in> log_area d l"
  by (simp add: log_area_def LOGSIZE_def MAXOPBLOCKS_def)

lemma homes_outside: "homes_ok l bs \<Longrightarrow> b \<in> set bs \<Longrightarrow> (d, b) \<notin> log_area d l"
  by (auto simp: homes_ok_def log_area_def)

text \<open>Writing places twice is writing them once.\<close>

lemma apply_writes_at_twice:
  assumes "inj_on f {..<n}" and "j \<le> n"
  shows "apply_writes (apply_writes D (writes_at d f cs j)) (writes_at d f cs n) = apply_writes D (writes_at d f cs n)"
proof
  fix k
  show "apply_writes (apply_writes D (writes_at d f cs j)) (writes_at d f cs n) k = apply_writes D (writes_at d f cs n) k"
  proof (cases "k \<in> (\<lambda>i. (d, f i)) ` {..<n}")
    case True
    then show ?thesis using apply_writes_at_inside[OF assms(1)] by auto
  next
    case False
    then have "k \<notin> (\<lambda>i. (d, f i)) ` {..<j}" using assms(2) by auto
    then show ?thesis using False by (simp add: apply_writes_at_outside)
  qed
qed

lemma take_writes_at: "take j (writes_at d f cs n) = writes_at d f cs (min j n)"
  by (cases "j \<le> n") (simp_all add: writes_at_def take_map min_def)

lemma length_writes_at [simp]: "length (writes_at d f cs n) = n"
  by (simp add: writes_at_def)

lemma writes_at_cong:
  "(\<And>i. i < n \<Longrightarrow> f i = g i) \<Longrightarrow> (\<And>i. i < n \<Longrightarrow> cs ! i = cs' ! i) \<Longrightarrow> writes_at d f cs n = writes_at d g cs' n"
  by (simp add: writes_at_def)

section \<open>Recovery from any crash\<close>

context redo_log
begin

text \<open>
  The disk \<open>D\<close> holds a log of the blocks \<open>bs\<close> with contents \<open>cs\<close>, and carrying it out gives \<open>V\<close> outside
  the log area.
\<close>

definition logged :: "u32 \<Rightarrow> dlog \<Rightarrow> u32 list \<Rightarrow> u8 list list \<Rightarrow> dsk \<Rightarrow> dsk \<Rightarrow> bool" where
  "logged d l bs cs D V \<longleftrightarrow> homes_ok l bs \<and> length cs = length bs
     \<and> length (D (d, l_start l)) = BSIZE \<and> nof (D (d, l_start l)) = int (length bs)
     \<and> (\<forall>i < length bs. blk (D (d, l_start l)) i = bs ! i \<and> D (d, log_addr l i) = cs ! i)
     \<and> (\<forall>k. k \<notin> log_area d l \<longrightarrow> apply_writes D (writes_at d ((!) bs) cs (length bs)) k = V k)"

lemma logged_outcome:
  "logged d l bs cs D V \<Longrightarrow> k \<notin> log_area d l \<Longrightarrow> apply_writes D (writes_at d ((!) bs) cs (length bs)) k = V k"
  unfolding logged_def by blast

lemma home_notin:
  assumes "homes_ok l bs" and "k \<in> log_area d l"
  shows "k \<notin> (\<lambda>i. (d, bs ! i)) ` {..<length bs}"
  using homes_outside[OF assms(1)] assms(2) by auto

lemma homes_inj: "homes_ok l bs \<Longrightarrow> inj_on ((!) bs) {..<length bs}"
  by (auto simp: homes_ok_def inj_on_def nth_eq_iff_index_eq)

lemma logged_writes:
  assumes "logged d l bs cs D V"
  shows "recovery_writes put nof blk d l D
    = writes_at d ((!) bs) cs (length bs) @ [(d, l_start l, put 0 [] (D (d, l_start l)))]"
proof -
  have "writes_at d (blk (D (d, l_start l))) (log_copies d l D (length bs)) (length bs) = writes_at d ((!) bs) cs (length bs)"
    using assms by (intro writes_at_cong) (simp_all add: logged_def log_copies_def)
  then show ?thesis using assms by (simp add: recovery_writes_def logged_def)
qed

lemma logged_install:
  assumes "logged d l bs cs D V" and "area_ok l" and "j \<le> length bs"
  shows "logged d l bs cs (apply_writes D (writes_at d ((!) bs) cs j)) V"
proof -
  let ?D = "apply_writes D (writes_at d ((!) bs) cs j)"
  have ok: "homes_ok l bs" and n: "length bs \<le> 29" using assms(1) by (auto simp: logged_def homes_ok_def LOGSIZE_def MAXOPBLOCKS_def)
  have keep: "?D k = D k" if "k \<in> log_area d l" for k
    using home_notin[OF ok that] assms(3) by (intro apply_writes_at_outside) auto
  have "?D (d, l_start l) = D (d, l_start l)" by (rule keep[OF start_area])
  moreover have "?D (d, log_addr l i) = D (d, log_addr l i)" if "i < length bs" for i
    using that n by (intro keep log_addr_area(4)[OF assms(2)]) simp
  moreover have "apply_writes ?D (writes_at d ((!) bs) cs (length bs)) = apply_writes D (writes_at d ((!) bs) cs (length bs))"
    by (rule apply_writes_at_twice[OF homes_inj[OF ok] assms(3)])
  ultimately show ?thesis using assms(1) unfolding logged_def by simp
qed

lemma logged_clear:
  assumes "length (D (d, l_start l)) = BSIZE" and "\<And>k. k \<notin> log_area d l \<Longrightarrow> D k = V k"
  shows "logged d l [] [] (D((d, l_start l) := put 0 [] (D (d, l_start l)))) V"
proof -
  have "(D((d, l_start l) := put 0 [] (D (d, l_start l)))) k = V k" if "k \<notin> log_area d l" for k
    using start_area[of d l] that assms(2)[OF that] by auto
  then show ?thesis using put_length[of 0, OF _ _ assms(1)] put_n[of 0, OF _ _ assms(1)]
    unfolding logged_def by (simp add: homes_ok_def LOGSIZE_def MAXOPBLOCKS_def writes_at_def)
qed

lemma logged_recovered:
  assumes "logged d l bs cs D V" and "k \<notin> log_area d l"
  shows "apply_writes D (recovery_writes put nof blk d l D) k = V k"
proof -
  have "k \<noteq> (d, l_start l)" using start_area[of d l] assms(2) by auto
  then show ?thesis using logged_outcome[OF assms] unfolding logged_writes[OF assms(1)] by simp
qed

text \<open>A recovery that crashes leaves a disk with the same outcome.\<close>

lemma logged_crash:
  assumes log: "logged d l bs cs D V" and "area_ok l"
  shows "\<exists>bs cs. logged d l bs cs (apply_writes D (take j (recovery_writes put nof blk d l D))) V"
proof (cases "j \<le> length bs")
  case True
  then show ?thesis using logged_install[OF assms True] unfolding logged_writes[OF log]
    by (auto simp: take_writes_at min_def)
next
  case False
  let ?h = "(d, l_start l, put 0 [] (D (d, l_start l)))"
  let ?D = "apply_writes D (writes_at d ((!) bs) cs (length bs))"
  have all: "take j (writes_at d ((!) bs) cs (length bs) @ [?h]) = writes_at d ((!) bs) cs (length bs) @ [?h]"
    using False by (subst take_all) auto
  have D: "?D (d, l_start l) = D (d, l_start l)" "length (?D (d, l_start l)) = BSIZE"
    using log home_notin[OF _ start_area, of l bs d] by (simp_all add: logged_def apply_writes_at_outside)
  have "logged d l [] [] (?D((d, l_start l) := put 0 [] (?D (d, l_start l)))) V"
    by (intro logged_clear D(2) logged_outcome[OF log])
  then have "logged d l [] [] (apply_writes D (take j (recovery_writes put nof blk d l D))) V"
    unfolding logged_writes[OF log] all apply_writes_simps D(1) .
  then show ?thesis by (intro exI)
qed

lemma apply_writes_off:
  assumes "\<And>k. k \<notin> A \<Longrightarrow> D k = E k" and "k \<notin> A"
  shows "apply_writes D ws k = apply_writes E ws k"
  using assms
proof (induction ws arbitrary: D E)
  case Nil
  then show ?case by simp
next
  case (Cons w ws)
  obtain x y z where w: "w = (x, y, z)" by (cases w)
  have "apply_writes (D((x, y) := z)) ws k = apply_writes (E((x, y) := z)) ws k"
    by (rule Cons.IH) (use Cons.prems in auto)
  then show ?case unfolding w by (simp add: apply_writes_def)
qed

lemma log_phase_off:
  assumes "area_ok l" and "n \<le> 29" and "k \<notin> log_area d l"
  shows "apply_writes D (writes_at d (log_addr l) cs n) k = D k"
proof (rule apply_writes_at_outside)
  show "k \<notin> (\<lambda>i. (d, log_addr l i)) ` {..<n}"
    using log_addr_area(4)[OF assms(1), of _ d] assms(2,3) by auto
qed

lemma log_phase_start:
  assumes "area_ok l" and "n \<le> 29"
  shows "apply_writes D (writes_at d (log_addr l) cs n) (d, l_start l) = D (d, l_start l)"
proof (rule apply_writes_at_outside)
  show "(d, l_start l) \<notin> (\<lambda>i. (d, log_addr l i)) ` {..<n}"
    using log_addr_area(2)[OF assms(1)] assms(2) by (metis (no_types, lifting) imageE lessThan_iff less_le_trans prod.inject)
qed

text \<open>The header is on disk: from here on the transaction happens.\<close>

lemma logged_committed:
  assumes lay: "txn_layout d l" and n: "n = nat (l_n l)" and bs: "bs = take n (l_block l)" and cs: "length cs = n"
    and h: "length (D (d, l_start l)) = BSIZE"
  shows "logged d l bs cs ((apply_writes D (writes_at d (log_addr l) cs n))((d, l_start l) := put (l_n l) (l_block l) (D (d, l_start l))))
    (apply_writes D (writes_at d ((!) bs) cs n))" (is "logged d l bs cs ?D2 ?V")
proof -
  note L = txn_layoutD[OF lay n bs]
  have a: "area_ok l" "homes_ok l bs" "0 \<le> l_n l" "l_n l < LOGSIZE" using lay n bs by (simp_all add: txn_layout_iff)
  have log: "?D2 (d, log_addr l i) = cs ! i" if "i < n" for i
    using that L(1) log_addr_area(2)[OF a(1), of i] apply_writes_at_inside[OF log_addr_inj[OF lay L(1)] that] by simp
  have "apply_writes ?D2 (writes_at d ((!) bs) cs n) k = ?V k" if "k \<notin> log_area d l" for k
    using that by (rule apply_writes_off[rotated]) (use log_phase_off[OF a(1) L(1)] start_area[of d l] in auto)
  moreover have "blk (put (l_n l) (l_block l) (D (d, l_start l))) i = bs ! i" if "i < n" for i
    using put_blk[OF a(3,4) h] that n L(4) by simp
  ultimately show ?thesis
    unfolding logged_def L(2) using log a put_length[OF a(3,4) h] put_n[OF a(3,4) h] n cs by simp
qed

lemma commit_crash:
  assumes lay: "txn_layout d l" and n: "n = nat (l_n l)" and bs: "bs = take n (l_block l)" and cs: "length cs = n"
    and h: "length (D (d, l_start l)) = BSIZE" "nof (D (d, l_start l)) = 0"
  shows "\<exists>bs' cs'. logged d l bs' cs' (apply_writes D (take j (commit_writes put d l cs (D (d, l_start l)))))
    (if j \<le> n then D else apply_writes D (writes_at d ((!) bs) cs n))"
proof -
  note L = txn_layoutD[OF lay n bs]
  have a: "area_ok l" using lay by (simp add: txn_layout_iff)
  let ?h1 = "put (l_n l) (l_block l) (D (d, l_start l))"
  let ?lw = "writes_at d (log_addr l) cs n" and ?hw = "writes_at d ((!) bs) cs n"
  have W: "commit_writes put d l cs (D (d, l_start l)) = ?lw @ (d, l_start l, ?h1) # ?hw @ [(d, l_start l, put 0 [] ?h1)]"
    using n bs by (simp add: commit_writes_def Let_def)
  define D2 where D2: "D2 = (apply_writes D ?lw)((d, l_start l) := ?h1)"
  have log2: "logged d l bs cs D2 (apply_writes D ?hw)" unfolding D2 by (rule logged_committed[where D = D, OF lay n bs cs h(1)])
  consider "j \<le> n" | "n < j" "j \<le> n + 1 + n" | "n + 1 + n < j" by linarith
  then show ?thesis
  proof cases
    case 1
    let ?D = "apply_writes D (writes_at d (log_addr l) cs j)"
    have j: "j \<le> 29" using 1 L(1) by simp
    have "logged d l [] [] ?D D"
      using h log_phase_start[OF a j] log_phase_off[OF a j] unfolding logged_def
      by (simp add: homes_ok_def LOGSIZE_def MAXOPBLOCKS_def writes_at_def)
    moreover have "take j (commit_writes put d l cs (D (d, l_start l))) = writes_at d (log_addr l) cs j"
      using 1 by (simp add: W take_writes_at)
    ultimately show ?thesis using 1 by (intro exI[of _ "[]"]) simp
  next
    case 2
    define i where "i = j - n - 1"
    have j: "j = n + Suc i" "i \<le> n" using 2 by (simp_all add: i_def)
    have "take j (commit_writes put d l cs (D (d, l_start l))) = ?lw @ (d, l_start l, ?h1) # writes_at d ((!) bs) cs i"
      using j by (simp add: W take_writes_at)
    then have "apply_writes D (take j (commit_writes put d l cs (D (d, l_start l)))) = apply_writes D2 (writes_at d ((!) bs) cs i)"
      by (simp add: D2 apply_writes_def)
    then show ?thesis using logged_install[OF log2 a] j L(2) 2(1) by auto
  next
    case 3
    let ?D3 = "apply_writes D2 ?hw"
    have "take j (commit_writes put d l cs (D (d, l_start l))) = commit_writes put d l cs (D (d, l_start l))"
      using 3 by (intro take_all) (simp add: W)
    then have e: "apply_writes D (take j (commit_writes put d l cs (D (d, l_start l)))) = ?D3((d, l_start l) := put 0 [] ?h1)"
      unfolding W by (simp add: D2 apply_writes_def)
    have log3: "logged d l bs cs ?D3 (apply_writes D ?hw)" using logged_install[OF log2 a] L(2) by simp
    have h3: "?D3 (d, l_start l) = ?h1"
      using log2 home_notin[OF _ start_area, of l bs d] L(2)
      by (subst apply_writes_at_outside) (simp_all add: logged_def D2)
    have "logged d l [] [] (?D3((d, l_start l) := put 0 [] (?D3 (d, l_start l)))) (apply_writes D ?hw)"
    proof (rule logged_clear)
      show "length (?D3 (d, l_start l)) = BSIZE" using log3 by (simp add: logged_def)
      show "?D3 k = apply_writes D ?hw k" if "k \<notin> log_area d l" for k
        using logged_outcome[OF log2 that] L(2) by simp
    qed
    then show ?thesis using 3 unfolding e h3 by auto
  qed
qed

end

text \<open>Repeated crashes: each restart runs recovery and is cut off after some of its writes.\<close>

inductive crashed :: "u32 \<Rightarrow> dlog \<Rightarrow> dsk \<Rightarrow> dsk \<Rightarrow> bool" for d l where
  crashed_once: "crashed d l D D"
| crashed_again: "crashed d l D E \<Longrightarrow> F = apply_writes E (take j (recovery_writes hdr_put hdr_n hdr_block d l E)) \<Longrightarrow> crashed d l D F"

lemma crashed_logged:
  assumes "crashed d l D E" and "area_ok l" and "\<exists>bs cs. hdr.logged d l bs cs D V"
  shows "\<exists>bs cs. hdr.logged d l bs cs E V"
  using assms by (induction rule: crashed.induct) (auto dest: hdr.logged_crash)

section \<open>The code performs these writes\<close>

text \<open>A transaction ready to commit: its blocks are pinned in the cache, and nothing else is in use.\<close>

definition txn_ready :: "u32 \<Rightarrow> u8 list list \<Rightarrow> 'a klog_scheme \<Rightarrow> bool" where
  "txn_ready d cs s \<longleftrightarrow> txn_layout d (logs s d) \<and> 0 < l_n (logs s d) \<and> length cs = nat (l_n (logs s d))
     \<and> proc_ctx s \<and> bio_quiet s \<and> bio_rel s (pinned 1 d (take (nat (l_n (logs s d))) (l_block (logs s d))) cs)"

lemma pinned_start:
  assumes "txn_layout d l" and "bs = take (nat (l_n l)) (l_block l)" and "length cs = length bs"
  shows "pinned r d bs cs (d, l_start l) = None" "(d, l_start l) \<noteq> (0, 0)"
  using log_home_start[OF assms(1)] assms by (auto intro!: pinned_None simp: txn_layout_def)

lemma commit_runs:
  assumes ready: "txn_ready d cs s" and l: "l = logs s d"
  shows "\<exists>t. commit d s = Ok t \<and> bst (l_upd d (\<lambda>l. l\<lparr>l_n := 0\<rparr>) s) Map.empty
    (apply_writes (disk_at s) (commit_writes hdr_put d l cs (disk_at s (d, l_start l))))
    (dtrace s @ commit_writes hdr_put d l cs (disk_at s (d, l_start l))) t"
proof -
  define n where n: "n = nat (l_n l)"
  define bs where bs: "bs = take n (l_block l)"
  define D where D: "D = disk_at s"
  define hd where hd: "hd = (d, l_start l)"
  define h1 where h1: "h1 = hdr_put (l_n l) (l_block l) (D hd)"
  let ?P = "pinned 1 d bs cs" and ?lw = "writes_at d (log_addr l) cs n" and ?hw = "writes_at d ((!) bs) cs n"
  have lay: "txn_layout d (logs s d)" and cs: "length cs = n" and pos: "0 < l_n (logs s d)"
    using ready by (simp_all add: txn_ready_def l n)
  note lay' = lay[folded l]
  note L = txn_layoutD[OF lay' n bs]
  have a: "area_ok l" using lay' by (simp add: txn_layout_iff)
  have st: "bst s ?P D (dtrace s) s" using ready by (simp add: txn_ready_def bst_def n bs D l)
  have room: "proom ?P" using cs L by (intro proom_pinned) auto
  obtain s1 where s1: "write_log d s = Ok s1" "bst s ?P (apply_writes D ?lw) (dtrace s @ ?lw) s1"
    using write_log_writes[OF lay l n bs cs st order_refl] by (auto simp: write_log_def n l)
  have start: "?P hd = None" "hd \<noteq> (0, 0)" using pinned_start[OF lay', of bs cs] L(2) cs bs n hd by auto
  have D1: "apply_writes D ?lw hd = D hd" unfolding hd by (rule hdr.log_phase_start[OF a L(1)])
  define D2 where D2: "D2 = (apply_writes D ?lw)(hd := h1)"
  have hh: "hd = (d, l_start (logs s d))" "h1 = hdr_put (l_n (logs s d)) (l_block (logs s d)) (apply_writes D ?lw hd)"
    unfolding D1 l[symmetric] by (rule hd, rule h1)
  have hd': "fst hd = d" "snd hd = l_start l" by (simp_all add: hd)
  obtain s2 where s2: "write_head d s1 = Ok s2" "bst s ?P D2 ((dtrace s @ ?lw) @ [(d, l_start l, h1)]) s2"
    using write_head_step[OF s1(2) room hh(1) start(2,1) hh(2)] unfolding D2 hd' by blast
  have log2: "D2 (d, log_addr l i) = cs ! i" if "i < n" for i
    using that L(1) log_addr_area(2)[OF a, of i] apply_writes_at_inside[OF log_addr_inj[OF lay' L(1)] that]
    by (simp add: D2 hd)
  obtain s3 where s3: "install_trans d s2 = Ok s3"
      "bst s Map.empty (apply_writes D2 ?hw) (((dtrace s @ ?lw) @ [(d, l_start l, h1)]) @ ?hw) s3"
    using install_writes[OF lay l n bs cs s2(2) order_refl log2] bstD(6)[OF s2(2)] L(2) cs
    by (auto simp: install_trans_def n l)
  define z where z: "z = (\<lambda>l::dlog. l\<lparr>l_n := 0\<rparr>)"
  note s3' = bst_l_upd[OF s3(2), of d z]
  have D3: "apply_writes D2 ?hw hd = h1"
    using hdr.home_notin[OF _ start_area, of l bs d] lay' L(2) unfolding hd
    by (subst apply_writes_at_outside) (simp_all add: txn_layout_iff bs n D2 hd)
  have hd_z: "hd = (d, l_start (logs (l_upd d z s) d))" "hdr_put 0 [] h1 = hdr_put (l_n (logs (l_upd d z s) d)) (l_block (logs (l_upd d z s) d)) (apply_writes D2 ?hw hd)"
    unfolding D3 by (simp_all add: hd z l hdr_put_0[of "l_block _"])
  obtain t where t: "write_head d (l_upd d z s3) = Ok t"
      "bst (l_upd d z s) Map.empty ((apply_writes D2 ?hw)(hd := hdr_put 0 [] h1))
        ((((dtrace s @ ?lw) @ [(d, l_start l, h1)]) @ ?hw) @ [(fst hd, snd hd, hdr_put 0 [] h1)]) t"
    using write_head_step[OF s3' _ hd_z(1) start(2) _ hd_z(2)] by (auto simp: proom_def NBUF_def)
  have W: "commit_writes hdr_put d l cs (D hd) = ?lw @ [(d, l_start l, h1)] @ ?hw @ [(d, l_start l, hdr_put 0 [] h1)]"
    by (simp add: commit_writes_def Let_def n bs h1)
  have e: "apply_writes D (commit_writes hdr_put d l cs (D hd)) = (apply_writes D2 ?hw)(hd := hdr_put 0 [] h1)"
    unfolding W by (simp add: apply_writes_def D2 hd)
  have "commit d s = Ok t" using s1(1) s2(1) s3(1) t(1) pos by (simp add: commit_def z)
  moreover have "bst (l_upd d z s) Map.empty (apply_writes D (commit_writes hdr_put d l cs (D hd)))
      (dtrace s @ commit_writes hdr_put d l cs (D hd)) t"
    using t(2) unfolding e unfolding W by (simp only: hd fst_conv snd_conv append_assoc)
  ultimately show ?thesis unfolding z D hd by blast
qed

text \<open>
  In recovery nobody has pinned the blocks: \<^verbatim>\<open>install_trans\<close> unpins them all the same, and each
  installed block stays in the cache with a reference count of \<open>2^32 - 1\<close>.
\<close>

lemma recover_install_writes:
  assumes lay: "txn_layout d (logs s0 d)" and l: "l = logs s0 d" and n: "n = nat (l_n l)" and bs: "bs = take n (l_block l)"
    and cs: "length cs = n" and st: "bst s0 Map.empty D T s" and k: "k \<le> n"
    and log: "\<And>i. i < n \<Longrightarrow> D (d, log_addr l i) = cs ! i"
  shows "\<exists>t. ofold (install_one d) [0..<k] s = Ok t \<and> bst s0 (pinned (- 1) d (take k bs) (take k cs))
    (apply_writes D (writes_at d ((!) bs) cs k)) (T @ writes_at d ((!) bs) cs k) t"
  using k
proof (induction k)
  case 0
  then show ?case using st by (simp add: writes_at_def)
next
  case (Suc k)
  note L = txn_layoutD[OF lay[folded l] n bs]
  let ?D = "apply_writes D (writes_at d ((!) bs) cs k)" and ?T = "T @ writes_at d ((!) bs) cs k"
  let ?P = "pinned (- 1) d (take k bs) (take k cs)"
  from Suc obtain t where t: "ofold (install_one d) [0..<k] s = Ok t" "bst s0 ?P ?D ?T t" by auto
  have k: "k < n" "k < 29" using Suc.prems L(1) by auto
  have lens: "length (take k cs) = length (take k bs)" "length (take k bs) = k" using cs L(2) k by simp_all
  have notin: "log_addr l k \<notin> set bs" using log_addr_fresh(3)[OF lay[folded l] k(2)] bs n by blast
  have fresh: "(d, log_addr l k) \<noteq> (0, 0)" "?P (d, log_addr l k) = None"
    using log_addr_fresh(2)[OF lay[folded l] k(2)] notin cs L(2)
    by (auto intro!: pinned_None dest: in_set_takeD)
  have Dk: "?D (d, log_addr l k) = cs ! k"
    using notin k(1) L(2) log[OF k(1)] by (subst apply_writes_at_outside) auto
  have mem: "bs ! k \<in> set bs" using k(1) L(2) by simp
  have "bs ! k \<notin> set (take k bs)" using L(2,3) k(1) by (auto simp: in_set_conv_nth nth_eq_iff_index_eq)
  then have none: "?P (d, bs ! k) = None" using lens by (intro pinned_None) auto
  have ne: "(d, bs ! k) \<noteq> (d, log_addr l k)" using notin mem by (metis prod.inject)
  have b0: "(d, bs ! k) \<noteq> (0, 0)" using lay[folded l] mem bs n by (auto simp: txn_layout_def)
  have room: "proom ?P" using lens k by (intro proom_pinned) (auto simp: NBUF_def)
  have refs: "brefs ?P (d, bs ! k) = 0" using none by (simp add: brefs_def)
  have alt: "?P (d, bs ! k) = None \<and> Suc (card (dom ?P)) < NBUF \<or> (\<exists>x. ?P (d, bs ! k) = Some (x, brefs ?P (d, bs ! k), False))"
    using none card_pinned[OF lens(1), of "- 1" d] lens(2) k by (auto simp: NBUF_def)
  have kl: "(d, log_addr l k) = (d, l_start (logs s0 d) + of_nat k + 1)" "(d, bs ! k) = (d, l_block (logs s0 d) ! k)"
    using L(4)[OF k(1)] by (simp_all add: log_addr_def l)
  obtain u where u: "install_one d k t = Ok u"
      "bst s0 (?P((d, bs ! k) \<mapsto> (cs ! k, - 1, False))) (?D((d, bs ! k) := cs ! k)) (?T @ [(d, bs ! k, cs ! k)]) u"
    using install_one_step[OF t(2) room kl(1) fresh kl(2) b0 ne alt Dk[symmetric] refs[symmetric]]
    by (simp only: zero_neq_one if_False fst_conv snd_conv diff_0) blast
  have "ofold (install_one d) [0..<Suc k] s = Ok u" using t(1) u(1) by (simp add: ofold_append ofold_Nil_eq)
  moreover have "?P((d, bs ! k) \<mapsto> (cs ! k, - 1, False)) = pinned (- 1) d (take (Suc k) bs) (take (Suc k) cs)"
    using pinned_take[OF L(3), of cs k "- 1" d] L(2) cs k(1) by simp
  then have "bst s0 (pinned (- 1) d (take (Suc k) bs) (take (Suc k) cs)) (?D((d, bs ! k) := cs ! k)) (?T @ [(d, bs ! k, cs ! k)]) u"
    using u(2) by (simp only:)
  then have "bst s0 (pinned (- 1) d (take (Suc k) bs) (take (Suc k) cs))
      (apply_writes D (writes_at d ((!) bs) cs (Suc k))) (T @ writes_at d ((!) bs) cs (Suc k)) u"
    by (rule bst_writes_Suc)
  ultimately show ?case by (intro exI[of _ u] conjI)
qed

text \<open>\<^verbatim>\<open>read_head\<close> replaces the header in memory by the one on disk.\<close>

definition head_of :: "u8 list \<Rightarrow> dlog \<Rightarrow> dlog" where
  "head_of h l = l\<lparr>l_n := hdr_n h, l_block := fold (\<lambda>i b. b[i := hdr_block h i]) [0..<nat (hdr_n h)] (l_block l)\<rparr>"

lemma fold_head:
  "fold (\<lambda>i. l_upd d (\<lambda>l. l\<lparr>l_block := (l_block l)[i := f i]\<rparr>)) is s
   = l_upd d (\<lambda>l. l\<lparr>l_block := fold (\<lambda>i b. b[i := f i]) is (l_block l)\<rparr>) s"
  by (induction "is" arbitrary: s) (simp_all add: l_upd_def)

lemma fold_list_update:
  "length (fold (\<lambda>i b. b[i := f i]) [0..<n] b) = length b"
  "n \<le> length b \<Longrightarrow> take n (fold (\<lambda>i b. b[i := f i]) [0..<n] b) = map f [0..<n]"
proof -
  show len: "length (fold (\<lambda>i b. b[i := f i]) [0..<n] b) = length b" for n by (induction n) simp_all
  show "n \<le> length b \<Longrightarrow> take n (fold (\<lambda>i b. b[i := f i]) [0..<n] b) = map f [0..<n]"
    by (induction n) (simp_all add: take_Suc_conv_app_nth len)
qed

lemma bslot_l_upd [simp]: "bslot (l_upd d f s) i k = bslot s i k"
  by (simp add: bslot_def bkey_def)

lemma read_head_step:
  assumes st: "bst s0 Map.empty D T s" and kh: "kh = (d, l_start (logs s0 d))" "kh \<noteq> (0, 0)"
  shows "\<exists>t. read_head d s = Ok t \<and> bst (l_upd d (head_of (D kh)) s0) Map.empty D T t"
proof -
  define P1 :: bcache_abs where P1: "P1 = [kh \<mapsto> (D kh, 1, True)]"
  have av: "bavail Map.empty kh" using bavail_None[of Map.empty kh] kh by (simp add: proom_def NBUF_def)
  obtain b s1 where s1: "bread d (snd kh) s = Ok (b, s1)" "bslot s1 b kh" "bst s0 P1 D T s1"
    using bst_bread[OF st, of d "snd kh"] av kh by (auto simp: pcontent_def brefs_def P1)
  have data: "b_data (bufs s1 b) = D kh" using bst_data[OF s1(3,2), of "D kh" 1 True "D kh"] by (simp add: P1)
  let ?g = "head_of (D kh)"
  let ?s2 = "l_upd d ?g s1"
  have upd: "fold (\<lambda>i. l_upd d (\<lambda>l. l\<lparr>l_block := (l_block l)[i := hdr_block (D kh) i]\<rparr>)) [0..<nat (hdr_n (D kh))]
      (l_upd d (\<lambda>l. l\<lparr>l_n := hdr_n (D kh)\<rparr>) s1) = ?s2"
    unfolding fold_head by (simp add: l_upd_def head_of_def)
  have st2: "bst (l_upd d ?g s0) P1 D T ?s2" by (rule bst_l_upd[OF s1(3)])
  obtain t where t: "brelse b ?s2 = Ok t" "bst (l_upd d ?g s0) (P1(kh := None)) D T t"
    using bst_brelse[OF st2, of b kh "D kh" 1] s1(2) by (auto simp: P1)
  have start: "l_start (logs s d) = snd kh" using bstD(6)[OF st] kh(1) by simp
  have "read_head d s = Ok t"
    unfolding read_head_def start s1(1) obind.simps case_prod_conv Let_def data upd by (rule t(1))
  moreover have "P1(kh := None) = Map.empty" by (simp add: P1)
  ultimately show ?thesis using t(2) by auto
qed

text \<open>A machine that comes up: the cache is empty, and the log is at its place.\<close>

definition log_boot :: "u32 \<Rightarrow> dlog \<Rightarrow> dsk \<Rightarrow> 'a klog_scheme \<Rightarrow> bool" where
  "log_boot d l D s \<longleftrightarrow> bio_rel s Map.empty \<and> proc_ctx s \<and> bio_quiet s \<and> disk_at s = D
     \<and> l_start (logs s d) = l_start l \<and> length (l_block (logs s d)) = nat LOGSIZE"

lemma log_boot_layout:
  assumes log: "hdr.logged d l bs cs D V" and a: "area_ok l"
    and l0: "l_start l0 = l_start l" "length (l_block l0) = nat LOGSIZE"
    and l1: "l1 = head_of (D (d, l_start l)) l0"
  shows "txn_layout d l1" "l_start l1 = l_start l" "nat (l_n l1) = length bs" "take (length bs) (l_block l1) = bs"
proof -
  let ?h = "D (d, l_start l)"
  have n: "hdr_n ?h = int (length bs)" "homes_ok l bs" "\<And>i. i < length bs \<Longrightarrow> hdr_block ?h i = bs ! i"
    using log by (simp_all add: hdr.logged_def)
  have n30: "int (length bs) < LOGSIZE" using n(2) by (simp add: homes_ok_def)
  then have le: "length bs \<le> length (l_block l0)" using l0(2) by (simp add: LOGSIZE_def MAXOPBLOCKS_def)
  have bs: "take (length bs) (l_block l1) = bs"
    using fold_list_update(2)[OF le, of "hdr_block ?h"] n(1,3) by (auto simp: l1 head_of_def intro: nth_equalityI)
  then show "take (length bs) (l_block l1) = bs" .
  show "l_start l1 = l_start l" "nat (l_n l1) = length bs" using l0(1) n(1) by (simp_all add: l1 head_of_def)
  moreover have "length (l_block l1) = nat LOGSIZE" "l_n l1 = int (length bs)"
    using l0(2) n(1) by (simp_all add: l1 head_of_def fold_list_update(1))
  ultimately show "txn_layout d l1" using n30 n(2) a bs by (simp add: txn_layout_iff area_ok_def homes_ok_def)
qed

lemma recover_runs:
  assumes log: "hdr.logged d l bs cs D V" and a: "area_ok l" and boot: "log_boot d l D s"
  shows "\<exists>t. recover_from_log d s = Ok t \<and> bio_rel t (pinned (- 1) d bs cs)
    \<and> disk_at t = apply_writes D (recovery_writes hdr_put hdr_n hdr_block d l D)
    \<and> dtrace t = dtrace s @ recovery_writes hdr_put hdr_n hdr_block d l D \<and> l_n (logs t d) = 0"
proof -
  define hd where hd: "hd = (d, l_start l)"
  define r where r: "r = l_upd d (head_of (D hd)) s"
  define z where z: "z = (\<lambda>l::dlog. l\<lparr>l_n := 0\<rparr>)"
  define l1 where l1: "l1 = logs r d"
  let ?hw = "writes_at d ((!) bs) cs (length bs)" and ?P = "pinned (- 1) d bs cs"
  have b: "l_start (logs s d) = l_start l" "length (l_block (logs s d)) = nat LOGSIZE" "disk_at s = D"
    using boot by (simp_all add: log_boot_def)
  have start0: "hd \<noteq> (0, 0)" using a by (auto simp: hd area_ok_def)
  note lay = log_boot_layout[OF log a b(1,2), of l1]
  have l1': "l1 = head_of (D (d, l_start l)) (logs s d)" by (simp add: l1 r hd)
  note lay = lay[OF l1']
  have cs: "length cs = length bs" and pre: "\<And>i. i < length bs \<Longrightarrow> D (d, log_addr l1 i) = cs ! i"
    using log lay(2) by (auto simp: hdr.logged_def log_addr_def)
  have st: "bst s Map.empty D (dtrace s) s" using boot by (simp add: log_boot_def bst_def)
  obtain s1 where s1: "read_head d s = Ok s1" "bst r Map.empty D (dtrace s) s1"
    using read_head_step[OF st, of hd d] start0 b(1) by (auto simp: hd r)
  have n1: "nat (l_n (logs s1 d)) = length bs" using lay(3) bstD(6)[OF s1(2)] by (simp add: l1)
  obtain s2 where s2: "install_trans d s1 = Ok s2" "bst r ?P (apply_writes D ?hw) (dtrace s @ ?hw) s2"
    using recover_install_writes[OF lay(1)[unfolded l1] l1 lay(3)[symmetric] lay(4)[symmetric] cs s1(2) order_refl pre] cs
    unfolding install_trans_def n1 by auto
  note s2' = bst_l_upd[OF s2(2), of d z]
  have notin: "hd \<notin> (\<lambda>i. (d, bs ! i)) ` {..<length bs}"
    using hdr.home_notin[OF _ start_area, of l bs d] log by (simp add: hd hdr.logged_def)
  have D2: "apply_writes D ?hw hd = D hd" using notin by (rule apply_writes_at_outside)
  have "l_start l \<notin> set bs" using homes_outside[of l bs _ d] start_area[of d l] log by (auto simp: hdr.logged_def)
  then have none: "?P hd = None" using cs by (intro pinned_None) (auto simp: hd)
  have room: "proom ?P" using cs lay(3) txn_layoutD(5)[OF lay(1) refl refl] by (intro proom_pinned) auto
  have hd_z: "hd = (d, l_start (logs (l_upd d z r) d))"
      "hdr_put 0 [] (D hd) = hdr_put (l_n (logs (l_upd d z r) d)) (l_block (logs (l_upd d z r) d)) (apply_writes D ?hw hd)"
    unfolding D2 using lay(2) by (simp_all add: hd z l1 hdr_put_0[of "l_block _"])
  obtain t where t: "write_head d (l_upd d z s2) = Ok t"
      "bst (l_upd d z r) ?P ((apply_writes D ?hw)(hd := hdr_put 0 [] (D hd))) ((dtrace s @ ?hw) @ [(fst hd, snd hd, hdr_put 0 [] (D hd))]) t"
    using write_head_step[OF s2' room hd_z(1) start0 none hd_z(2)] by blast
  have W: "recovery_writes hdr_put hdr_n hdr_block d l D = ?hw @ [(d, l_start l, hdr_put 0 [] (D hd))]"
    unfolding hd by (rule hdr.logged_writes[OF log])
  have "recover_from_log d s = Ok t" using s1(1) s2(1) t(1) by (simp add: recover_from_log_def z)
  moreover have "disk_at t = apply_writes D (recovery_writes hdr_put hdr_n hdr_block d l D)"
    using bstD(4)[OF t(2)] unfolding W by (simp add: hd)
  moreover have "dtrace t = dtrace s @ recovery_writes hdr_put hdr_n hdr_block d l D"
    using bstD(5)[OF t(2)] unfolding W by (simp add: hd)
  moreover have "l_n (logs t d) = 0" using bstD(6)[OF t(2)] by (simp add: z)
  ultimately show ?thesis using bstD(1)[OF t(2)] by blast
qed

section \<open>Recording blocks\<close>

definition log_add :: "u32 \<Rightarrow> dlog \<Rightarrow> dlog" where
  "log_add b l = l\<lparr>l_block := (l_block l)[nat (l_n l) := b], l_n := l_n l + 1\<rparr>"

definition log_room :: "dlog \<Rightarrow> bool" where
  "log_room l \<longleftrightarrow> 0 \<le> l_n l \<and> l_n l < LOGSIZE \<and> l_n l < l_size l - 1 \<and> 1 \<le> l_outstanding l \<and> length (l_block l) = nat LOGSIZE"

lemma log_slot_found:
  assumes "n \<le> length bs" and "b \<in> set (take n bs)"
  shows "log_slot bs n b < n" "bs ! log_slot bs n b = b"
proof -
  obtain i where "find (\<lambda>i. bs ! i = b) [0..<n] = Some i"
    using assms by (cases "find (\<lambda>i. bs ! i = b) [0..<n]") (auto simp: find_None_iff in_set_conv_nth)
  then show "log_slot bs n b < n" "bs ! log_slot bs n b = b"
    by (auto simp: log_slot_def dest!: find_SomeD)
qed

lemma log_slot_new: "n \<le> length bs \<Longrightarrow> b \<notin> set (take n bs) \<Longrightarrow> log_slot bs n b = n"
  by (auto simp: log_slot_def find_None_iff in_set_conv_nth split: option.split dest!: find_SomeD)

lemma log_write_absorbed:
  assumes "d = b_dev (bufs s b)" and "log_room (logs s d)" and "LkLog (unat d) \<notin> set (held s)"
    and "b_blockno (bufs s b) \<in> set (take (nat (l_n (logs s d))) (l_block (logs s d)))"
  shows "log_write b s = Ok s"
proof -
  let ?l = "logs s d"
  have n: "nat (l_n ?l) \<le> length (l_block ?l)" using assms(2) by (auto simp: log_room_def)
  note slot = log_slot_found[OF n assms(4)]
  have "(l_block ?l)[log_slot (l_block ?l) (nat (l_n ?l)) (b_blockno (bufs s b)) := b_blockno (bufs s b)] = l_block ?l"
    using slot(2) list_update_id by metis
  moreover have "int (log_slot (l_block ?l) (nat (l_n ?l)) (b_blockno (bufs s b))) \<noteq> l_n ?l" using slot(1) by linarith
  ultimately show ?thesis
    using assms by (simp add: log_write_def log_room_def Let_def l_upd_def)
qed

lemma log_write_added:
  assumes "d = b_dev (bufs s b)" and "log_room (logs s d)" and "LkLog (unat d) \<notin> set (held s)" and "LkBcache \<notin> set (held s)"
    and "b_blockno (bufs s b) \<notin> set (take (nat (l_n (logs s d))) (l_block (logs s d)))"
  shows "log_write b s = Ok (l_upd d (log_add (b_blockno (bufs s b))) (b_upd b (\<lambda>x. x\<lparr>b_refcnt := b_refcnt x + 1\<rparr>) s))"
proof -
  let ?l = "logs s d"
  have "nat (l_n ?l) \<le> length (l_block ?l)" using assms(2) by (auto simp: log_room_def)
  from log_slot_new[OF this assms(5)]
  show ?thesis
    using assms by (simp add: log_write_def log_room_def Let_def bpin_def l_upd_def b_upd_def log_add_def)
qed

lemma log_add_take:
  assumes "log_room l"
  shows "take (nat (l_n (log_add b l))) (l_block (log_add b l)) = take (nat (l_n l)) (l_block l) @ [b]"
    "l_n (log_add b l) = l_n l + 1"
  using assms by (simp_all add: log_room_def log_add_def nat_add_distrib take_Suc_conv_app_nth)

lemma bst_log_write_added:
  assumes st: "bst s0 P D T s" and slot: "bslot s b k" and k: "k = (d, n)" and P: "P k = Some (x, r, True)"
    and room: "log_room (logs s0 d)" and lk: "LkLog (unat d) \<notin> set (held s0)"
    and new: "n \<notin> set (take (nat (l_n (logs s0 d))) (l_block (logs s0 d)))"
  shows "\<exists>t. log_write b s = Ok t \<and> bst (l_upd d (log_add n) s0) (P(k \<mapsto> (x, r + 1, True))) D T t \<and> bslot t b k"
proof -
  note b = bstD[OF st]
  let ?u = "b_upd b (\<lambda>x. x\<lparr>b_refcnt := b_refcnt x + 1\<rparr>) s"
  have key: "b_dev (bufs s b) = d" "b_blockno (bufs s b) = n" "b < NBUF" "bkey s b = k" using slot k by (simp_all add: bslot_def bkey_def)
  have "held s = held s0" by (rule bio_frameD(1)[OF b(7)])
  then have "LkLog (unat d) \<notin> set (held s)" "LkBcache \<notin> set (held s)"
    using lk b(3) unfolding bio_quiet_def by simp_all
  then have run: "log_write b s = Ok (l_upd d (log_add n) ?u)"
    using log_write_added[of d s b] key(1,2) room new b(6) by simp
  have "bpin b s = Ok ?u" using \<open>LkBcache \<notin> set (held s)\<close> by (simp add: bpin_def)
  then have "bio_next s P ?u (P(k \<mapsto> (x, r + 1, True)))" "disks ?u = disks s" "dtrace ?u = dtrace s" "bkey ?u b = k"
    using bpin_rel[OF b(1-3) key(3)] key(4) P by auto
  moreover from this(2) have "disk_at ?u = D" using b(4) by (auto simp: disk_at_def fun_eq_iff)
  ultimately have "bst s0 (P(k \<mapsto> (x, r + 1, True))) D T ?u" "bslot ?u b k"
    using bst_next[OF st] b(5) key(3) by (auto simp: bslot_def)
  then show ?thesis using run bst_l_upd by auto
qed

section \<open>Reservation of log space\<close>

text \<open>No operation of the cache changes the logs.\<close>

lemma acquire_lk_logs: "acquire_lk lk s = Ok t \<Longrightarrow> logs t = logs s"
  by (auto simp: acquire_lk_def split: if_splits)

lemma release_lk_logs: "release_lk lk s = Ok t \<Longrightarrow> logs t = logs s"
  by (auto simp: release_lk_def split: if_splits)

lemma logs_b_upd [simp]: "logs (b_upd i f s) = logs s"
  by (simp add: b_upd_def)

lemma logs_p_upd [simp]: "logs (p_upd i f s) = logs s"
  by (simp add: p_upd_def)

lemmas lk_logs = acquire_lk_logs release_lk_logs

lemma wakeup_logs: "wakeup ch s = Ok t \<Longrightarrow> logs t = logs s"
  unfolding wakeup_eq
  by (erule ofold_invariant[where I = "\<lambda>t. logs t = logs s"])
    (auto simp: wakeup_at_def obind_Ok_iff Let_def dest!: lk_logs split: if_splits)

lemma bget_logs: "bget d n s = Ok (i, t) \<Longrightarrow> logs t = logs s"
  by (auto simp: bget_def b_acquiresleep_def acquiresleep_def obind_Ok_iff dest!: lk_logs split: if_splits option.splits)

lemma disk_rw_logs: "disk_rw i w s = Ok t \<Longrightarrow> logs t = logs s"
  by (auto simp: disk_rw_def Let_def split: if_splits)

lemma bread_logs: "bread d n s = Ok (i, t) \<Longrightarrow> logs t = logs s"
  by (auto simp: bread_def obind_Ok_iff dest!: bget_logs disk_rw_logs split: if_splits)

lemma b_holdingsleep_logs: "b_holdingsleep i s = Ok (h, t) \<Longrightarrow> logs t = logs s"
  by (auto simp: b_holdingsleep_def holdingsleep_def obind_Ok_iff Let_def dest!: lk_logs)

lemma b_releasesleep_logs: "b_releasesleep i s = Ok t \<Longrightarrow> logs t = logs s"
  by (auto simp: b_releasesleep_def releasesleep_def obind_Ok_iff dest!: lk_logs wakeup_logs)

lemma bwrite_logs: "bwrite i s = Ok t \<Longrightarrow> logs t = logs s"
  by (auto simp: bwrite_def obind_Ok_iff dest!: b_holdingsleep_logs disk_rw_logs split: if_splits)

lemma brelse_logs: "brelse i s = Ok t \<Longrightarrow> logs t = logs s"
  by (auto simp: brelse_def obind_Ok_iff Let_def dest!: b_holdingsleep_logs b_releasesleep_logs lk_logs split: if_splits)

lemma bpin_logs: "bpin i s = Ok t \<Longrightarrow> logs t = logs s" "bunpin i s = Ok t \<Longrightarrow> logs t = logs s"
  by (auto simp: bpin_def bunpin_def obind_Ok_iff dest!: lk_logs)

lemmas bio_logs = lk_logs wakeup_logs bread_logs bwrite_logs brelse_logs bpin_logs

lemma logs_copy_data [simp]: "logs (copy_data a b s) = logs s"
  by (simp add: copy_data_def)

lemma write_head_logs: "write_head d s = Ok t \<Longrightarrow> logs t = logs s"
  by (auto simp: write_head_def obind_Ok_iff Let_def dest!: bio_logs)

lemma write_log_logs: "write_log d s = Ok t \<Longrightarrow> logs t = logs s"
  unfolding write_log_def
  by (erule ofold_invariant[where I = "\<lambda>t. logs t = logs s"])
    (auto simp: write_one_def obind_Ok_iff dest!: bio_logs)

lemma install_trans_logs: "install_trans d s = Ok t \<Longrightarrow> logs t = logs s"
  unfolding install_trans_def
  by (erule ofold_invariant[where I = "\<lambda>t. logs t = logs s"])
    (auto simp: install_one_def obind_Ok_iff dest!: bio_logs)

lemma commit_logs:
  "commit d s = Ok t \<Longrightarrow> logs t = (logs s)(d := if 0 < l_n (logs s d) then (logs s d)\<lparr>l_n := 0\<rparr> else logs s d)"
  by (auto simp: commit_def obind_Ok_iff dest!: write_head_logs write_log_logs install_trans_logs split: if_splits)

text \<open>
  The effect on the log of an operation that succeeds. The list \<open>us\<close> has, for every system call
  between \<^verbatim>\<open>begin_op\<close> and \<^verbatim>\<open>end_op\<close>, how many new blocks it has recorded; a call records at most
  \<^verbatim>\<open>MAXOPBLOCKS\<close>, the promise its callers keep.
\<close>

inductive op_step :: "u32 \<Rightarrow> 'a klog_scheme \<times> nat list \<Rightarrow> 'a klog_scheme \<times> nat list \<Rightarrow> bool" for d where
  op_begin: "begin_op d s = Ok t \<Longrightarrow> op_step d (s, us) (t, us @ [0])"
| op_write: "log_write b s = Ok t \<Longrightarrow> b_dev (bufs s b) = d \<Longrightarrow> i < length us \<Longrightarrow> int (us ! i) < MAXOPBLOCKS
    \<Longrightarrow> op_step d (s, us) (t, us[i := Suc (us ! i)])"
| op_end: "end_op d s = Ok t \<Longrightarrow> i < length us \<Longrightarrow> op_step d (s, us) (t, take i us @ drop (Suc i) us)"
| op_other: "logs t d = logs s d \<Longrightarrow> op_step d (s, us) (t, us)"

definition reserved :: "nat list \<Rightarrow> int" where
  "reserved us = sum_list (map (\<lambda>u. MAXOPBLOCKS - int u) us)"

definition op_ok :: "dlog \<Rightarrow> nat list \<Rightarrow> bool" where
  "op_ok l us \<longleftrightarrow> l_outstanding l = int (length us) \<and> (\<forall>u \<in> set us. int u \<le> MAXOPBLOCKS)
   \<and> 0 \<le> l_n l \<and> l_n l + reserved us \<le> LOGSIZE \<and> (us = [] \<longrightarrow> l_n l = 0) \<and> \<not> l_committing l"

definition op_inv :: "u32 \<Rightarrow> 'a klog_scheme \<times> nat list \<Rightarrow> bool" where
  "op_inv d x \<longleftrightarrow> op_ok (logs (fst x) d) (snd x)"

lemma reserved_append [simp]: "reserved (us @ vs) = reserved us + reserved vs" "reserved [u] = MAXOPBLOCKS - int u" "reserved [] = 0"
  by (simp_all add: reserved_def)

lemma reserved_split:
  assumes "i < length us"
  shows "reserved us = reserved (take i us @ drop (Suc i) us) + (MAXOPBLOCKS - int (us ! i))"
proof -
  have "reserved us = reserved (take i us @ us ! i # drop (Suc i) us)" using assms by (simp add: id_take_nth_drop[symmetric])
  then show ?thesis by (simp add: reserved_def)
qed

lemma reserved_upd:
  assumes "i < length us"
  shows "reserved (us[i := Suc (us ! i)]) = reserved us - 1"
  using reserved_split[OF assms] reserved_split[of i "us[i := Suc (us ! i)]"] assms by simp

lemma reserved_le: "reserved us \<le> int (length us) * MAXOPBLOCKS"
  by (induction us) (simp_all add: reserved_def MAXOPBLOCKS_def)

lemma begin_op_log:
  assumes "begin_op d s = Ok t"
  shows "logs t = (logs s)(d := (logs s d)\<lparr>l_outstanding := l_outstanding (logs s d) + 1\<rparr>)"
    "\<not> l_committing (logs s d)" "l_n (logs s d) + (l_outstanding (logs s d) + 1) * MAXOPBLOCKS \<le> LOGSIZE"
  using assms by (auto simp: begin_op_def obind_Ok_iff dest!: lk_logs split: if_splits)

lemma log_write_log:
  assumes "log_write b s = Ok t" and "d = b_dev (bufs s b)"
  shows "\<exists>bl. logs t d = (logs s d)\<lparr>l_block := bl\<rparr> \<or> logs t d = (logs s d)\<lparr>l_block := bl, l_n := l_n (logs s d) + 1\<rparr>"
  using assms by (auto simp: log_write_def obind_Ok_iff Let_def dest!: lk_logs bpin_logs split: if_splits)

lemma end_op_log:
  assumes "end_op d s = Ok t"
  shows "\<not> l_committing (logs s d)"
    "logs t d = (logs s d)\<lparr>l_outstanding := l_outstanding (logs s d) - 1,
       l_n := (if l_outstanding (logs s d) = 1 \<and> 0 < l_n (logs s d) then 0 else l_n (logs s d))\<rparr>"
proof -
  let ?lk = "LkLog (unat d)" and ?l = "logs s d"
  from assms obtain s1 where s1: "acquire_lk ?lk s = Ok s1" by (auto simp: end_op_def obind_Ok_iff Let_def)
  note l1 = acquire_lk_logs[OF s1]
  define s2 where "s2 = l_upd d (\<lambda>l. l\<lparr>l_outstanding := l_outstanding l - 1\<rparr>) s1"
  have l2: "logs s2 d = ?l\<lparr>l_outstanding := l_outstanding ?l - 1\<rparr>" by (simp add: s2_def l1)
  note run = assms[unfolded end_op_def Let_def s1 obind.simps, folded s2_def]
  show nc: "\<not> l_committing ?l" using run l2 by (auto split: if_splits)
  show "logs t d = ?l\<lparr>l_outstanding := l_outstanding ?l - 1,
       l_n := (if l_outstanding ?l = 1 \<and> 0 < l_n ?l then 0 else l_n ?l)\<rparr>"
  proof (cases "l_outstanding ?l = 1")
    case True
    then obtain s3 s4 s5 s6 where s3: "release_lk ?lk (l_upd d (\<lambda>l. l\<lparr>l_committing := True\<rparr>) s2) = Ok s3"
      and s4: "commit d s3 = Ok s4" and s5: "acquire_lk ?lk s4 = Ok s5"
      and s6: "wakeup ChLog (l_upd d (\<lambda>l. l\<lparr>l_committing := False\<rparr>) s5) = Ok s6" and t: "release_lk ?lk s6 = Ok t"
      using run l2 nc by (auto simp: obind_Ok_iff)
    show ?thesis
      using l2 True nc by (simp add: release_lk_logs[OF t] wakeup_logs[OF s6] acquire_lk_logs[OF s5] commit_logs[OF s4] release_lk_logs[OF s3])
  next
    case False
    then obtain s3 where s3: "wakeup ChLog s2 = Ok s3" and t: "release_lk ?lk s3 = Ok t"
      using run l2 nc by (auto simp: obind_Ok_iff)
    show ?thesis using l2 False by (simp add: release_lk_logs[OF t] wakeup_logs[OF s3])
  qed
qed

lemma op_inv_step: "op_step d x y \<Longrightarrow> op_inv d x \<Longrightarrow> op_inv d y"
proof (induction rule: op_step.induct)
  case (op_begin s t us)
  then show ?case using begin_op_log[OF op_begin(1)] reserved_le[of us] by (auto simp: op_inv_def op_ok_def MAXOPBLOCKS_def)
next
  case (op_write b s t i us)
  then show ?case using log_write_log[OF op_write(1)] reserved_upd[OF op_write(3)]
    by (auto simp: op_inv_def op_ok_def dest!: set_update_subset_insert[THEN subsetD])
next
  case (op_end s t i us)
  have i: "length (take i us @ drop (Suc i) us) = length us - 1" using op_end(2) by simp
  have "us ! i \<in> set us" using op_end(2) by simp
  then have "int (us ! i) \<le> MAXOPBLOCKS" using op_end(3) by (simp add: op_inv_def op_ok_def)
  moreover have "\<forall>u \<in> set (take i us @ drop (Suc i) us). int u \<le> MAXOPBLOCKS"
    using op_end(3) by (auto simp: op_inv_def op_ok_def dest: in_set_takeD in_set_dropD)
  ultimately show ?case using op_end end_op_log[OF op_end(1)] reserved_split[OF op_end(2)] i
    by (cases us) (auto simp: op_inv_def op_ok_def)
next
  case (op_other t s us)
  then show ?case by (simp add: op_inv_def op_ok_def)
qed

section \<open>Properties\<close>

text \<open>
  C1. Crash safety of the file-system log. For a transaction ready to commit on a disk whose log header
  is clear, \<^verbatim>\<open>commit\<close> runs to its end, and cutting its disk writes off after any number \<open>j\<close>, cutting off
  any number of recoveries after that, and then letting \<^verbatim>\<open>recover_from_log\<close> run on the disk left
  behind always returns with, outside the log area, either the disk from before the transaction (when the
  cut was before the write of the header) or the disk with every block of the transaction written.
\<close>

theorem commit_crash_atomic:
  fixes s :: "'a klog_scheme"
  assumes ready: "txn_ready d cs s" and l: "l = logs s d" and bs: "bs = take (nat (l_n l)) (l_block l)"
    and h: "length (disk_at s (d, l_start l)) = BSIZE" "hdr_n (disk_at s (d, l_start l)) = 0"
  shows "\<exists>t W. commit d s = Ok t \<and> dtrace t = dtrace s @ W \<and> disk_at t = apply_writes (disk_at s) W
    \<and> (\<forall>j D (r :: 'b klog_scheme). crashed d l (apply_writes (disk_at s) (take j W)) D \<longrightarrow> log_boot d l D r \<longrightarrow>
        (\<exists>u. recover_from_log d r = Ok u \<and> (\<forall>k. k \<notin> log_area d l \<longrightarrow>
          disk_at u k = (if j \<le> length bs then disk_at s k
                         else apply_writes (disk_at s) (writes_at d ((!) bs) cs (length bs)) k))))"
proof -
  define W where W: "W = commit_writes hdr_put d l cs (disk_at s (d, l_start l))"
  have lay: "txn_layout d l" and cs: "length cs = nat (l_n l)" using ready l by (simp_all add: txn_ready_def)
  have a: "area_ok l" using lay by (simp add: txn_layout_iff)
  have n: "length bs = nat (l_n l)" by (rule txn_layoutD(2)[OF lay refl bs])
  obtain t where t: "commit d s = Ok t" "disk_at t = apply_writes (disk_at s) W" "dtrace t = dtrace s @ W"
    using commit_runs[OF ready l] unfolding W by (auto dest: bstD(4,5))
  have "\<exists>u. recover_from_log d r = Ok u \<and> (\<forall>k. k \<notin> log_area d l \<longrightarrow>
      disk_at u k = (if j \<le> length bs then disk_at s else apply_writes (disk_at s) (writes_at d ((!) bs) cs (length bs))) k)"
    if cr: "crashed d l (apply_writes (disk_at s) (take j W)) D" and boot: "log_boot d l D r" for j D and r :: "'b klog_scheme"
  proof -
    let ?V = "if j \<le> length bs then disk_at s else apply_writes (disk_at s) (writes_at d ((!) bs) cs (length bs))"
    have "\<exists>bs' cs'. hdr.logged d l bs' cs' (apply_writes (disk_at s) (take j W)) ?V"
      using hdr.commit_crash[where D = "disk_at s" and j = j, OF lay refl bs cs h] unfolding n W .
    from crashed_logged[OF cr a this] obtain bs' cs' where log: "hdr.logged d l bs' cs' D ?V" by blast
    obtain u where u: "recover_from_log d r = Ok u" "disk_at u = apply_writes D (recovery_writes hdr_put hdr_n hdr_block d l D)"
      using recover_runs[OF log a boot] by blast
    then show ?thesis using hdr.logged_recovered[OF log] by metis
  qed
  then have "\<forall>j D (r :: 'b klog_scheme). crashed d l (apply_writes (disk_at s) (take j W)) D \<longrightarrow> log_boot d l D r \<longrightarrow>
        (\<exists>u. recover_from_log d r = Ok u \<and> (\<forall>k. k \<notin> log_area d l \<longrightarrow>
          disk_at u k = (if j \<le> length bs then disk_at s k
                         else apply_writes (disk_at s) (writes_at d ((!) bs) cs (length bs)) k)))"
    by (simp only: if_distrib[of "\<lambda>f. f _"]) blast
  then show ?thesis using t by blast
qed

definition boot_log :: "dsk \<Rightarrow> dlog \<Rightarrow> klog" where
  "boot_log D l = \<lparr>held = [], procs = replicate NPROC zero_proc, curp = Some 0, nextpid = 1, initproc = None,
     mem = \<lambda>_. 0, freelist = 0, kend = 0x87FFF000, kernel_pagetable = 0, etext = 0x80008000,
     trampoline = 0x80007000, satp = 0,
     bufs = \<lambda>_. zero_buf, blinks = \<lparr>nxt = \<lambda>_. BHead, prv = \<lambda>_. BHead\<rparr>, disks = \<lambda>d n. D (d, n), dtrace = [], logs = \<lambda>_. l\<rparr>"

lemma binit_logs:
  fixes s :: "'a klog_scheme"
  shows "logs (binit s) = logs s" "dtrace (binit s) = dtrace s" "held (binit s) = held s"
proof -
  have "logs (fold binit_step is s) = logs s \<and> held (fold binit_step is s) = held s \<and> dtrace (fold binit_step is s) = dtrace s"
    for "is" and s :: "'a klog_scheme"
    by (induction "is" arbitrary: s) (simp_all add: binit_step_def b_upd_def)
  then show "logs (binit s) = logs s" "dtrace (binit s) = dtrace s" "held (binit s) = held s" unfolding binit_eq by simp_all
qed

lemma boot_log_bst: "bst (binit (boot_log D l)) Map.empty D [] (binit (boot_log D l))"
    "logs (binit (boot_log D l)) = (\<lambda>_. l)" "held (binit (boot_log D l)) = []"
proof -
  note b = binit_boot[of "boot_log D l"]
  have p: "\<forall>i. bufs (boot_log D l) i = zero_buf" "length (procs (boot_log D l)) = NPROC"
    "held (boot_log D l) = []" "curp (boot_log D l) = Some 0" "disks (boot_log D l) = (\<lambda>d n. D (d, n))"
    by (simp_all add: boot_log_def)
  have "disk_at (binit (boot_log D l)) = D" using b(4)[OF p(1-4)] p(5) by (simp add: disk_at_def [abs_def])
  then show "bst (binit (boot_log D l)) Map.empty D [] (binit (boot_log D l))"
    unfolding bst_def using b(1-3)[OF p(1-4)] binit_logs(2)[of "boot_log D l"] by (simp add: boot_log_def)
  show "logs (binit (boot_log D l)) = (\<lambda>_. l)" using binit_logs(1)[of "boot_log D l"] by (simp add: boot_log_def)
  show "held (binit (boot_log D l)) = []" using binit_logs(3)[of "boot_log D l"] by (simp add: boot_log_def)
qed

definition demo_log :: dlog where
  "demo_log = \<lparr>l_start = 2, l_size = 30, l_outstanding = 1, l_committing = False, l_n = 0, l_block = replicate 30 0\<rparr>"

definition demo_disk :: dsk where
  "demo_disk = (\<lambda>_. replicate BSIZE 0)"

text \<open>A system call that overwrites block 40 of disk 1 and is about to end.\<close>

definition demo_txn :: "u8 list \<Rightarrow> klog outcome" where
  "demo_txn c = obind (bread 1 40 (binit (boot_log demo_disk demo_log))) (\<lambda>(b, s).
     obind (log_write b (b_upd b (\<lambda>x. x\<lparr>b_data := c\<rparr>) s)) (brelse b))"

lemma demo_area: "area_ok (demo_log\<lparr>l_n := n, l_block := bl\<rparr>)" "area_ok demo_log" "log_room demo_log"
  by (simp_all add: area_ok_def demo_log_def LOGSIZE_def MAXOPBLOCKS_def log_room_def)

lemma take_head_upd [simp]: "0 < length xs \<Longrightarrow> take (Suc 0) (xs[0 := v]) = [v]"
  by (cases xs) simp_all

lemma demo_txn_ready:
  "\<exists>t. demo_txn c = Ok t \<and> txn_ready 1 [c] t \<and> logs t 1 = log_add 40 demo_log \<and> disk_at t = demo_disk"
proof -
  let ?s0 = "binit (boot_log demo_disk demo_log)" and ?k = "(1 :: u32, 40 :: u32)"
  note st0 = boot_log_bst(1)[of demo_disk demo_log]
  note l0 = boot_log_bst(2)[of demo_disk demo_log]
  have av: "bavail Map.empty ?k" by (rule bavail_None) (simp_all add: proom_def NBUF_def)
  define P1 :: bcache_abs where P1: "P1 = [?k \<mapsto> (demo_disk ?k, 1, True)]"
  define P2 :: bcache_abs where P2: "P2 = P1(?k \<mapsto> (c, 1, True))"
  define P3 :: bcache_abs where P3: "P3 = P2(?k \<mapsto> (c, 2, True))"
  obtain b s1 where s1: "bread 1 40 ?s0 = Ok (b, s1)" "bslot s1 b ?k" "bst ?s0 P1 demo_disk [] s1"
    using bst_bread[OF st0 av] by (auto simp: pcontent_def brefs_def P1)
  let ?s2 = "b_upd b (\<lambda>x. x\<lparr>b_data := c\<rparr>) s1"
  have s2: "bst ?s0 P2 demo_disk [] ?s2" "bslot ?s2 b ?k"
    using bst_data[OF s1(3,2), of "demo_disk ?k" 1 True c] bkeptD[of P1 s1 ?s2 ?k b] s1(2) by (simp_all add: P1 P2)
  have lk: "LkLog (unat (1 :: u32)) \<notin> set (held ?s0)" by (simp add: boot_log_bst(3))
  have room: "log_room (logs ?s0 1)" using demo_area(3) by (simp add: l0)
  have new: "40 \<notin> set (take (nat (l_n (logs ?s0 1))) (l_block (logs ?s0 1)))" unfolding l0 by (simp add: demo_log_def)
  obtain s3 where s3: "log_write b ?s2 = Ok s3" "bst (l_upd 1 (log_add 40) ?s0) P3 demo_disk [] s3" "bslot s3 b ?k"
    using bst_log_write_added[OF s2 refl _ room lk new, of c 1] by (auto simp: P2 P3)
  obtain t where t: "brelse b s3 = Ok t" "bst (l_upd 1 (log_add 40) ?s0) (P3(?k \<mapsto> (c, 1, False))) demo_disk [] t"
    using bst_brelse[OF s3(2,3), of c 2] by (auto simp: P3)
  note f = bstD[OF t(2)]
  have lt: "logs t 1 = log_add 40 demo_log" using f(6) by (simp add: l0)
  have n: "nat (l_n (logs t 1)) = 1" "take 1 (l_block (logs t 1)) = [40]" by (simp_all add: lt log_add_def demo_log_def)
  have "P3(?k \<mapsto> (c, 1, False)) = pinned 1 1 [40] [c]" by (simp add: pinned_def P1 P2 P3)
  then have "bio_rel t (pinned 1 1 [40] [c])" using f(1) by simp
  moreover have "txn_layout 1 (logs t 1)"
    by (simp add: lt txn_layout_def log_add_def demo_log_def LOGSIZE_def MAXOPBLOCKS_def)
  moreover have "l_n (logs t 1) = 1" by (simp add: lt log_add_def demo_log_def)
  ultimately have "txn_ready 1 [c] t" using f(2,3) n by (simp add: txn_ready_def)
  moreover have "demo_txn c = Ok t" using s1(1) s3(1) t(1) by (simp add: demo_txn_def)
  ultimately show ?thesis using lt f(4) by blast
qed

lemma hdr_n_zero: "hdr_n (replicate BSIZE 0) = 0"
proof -
  have "take 4 (replicate 1024 (0::u8)) = [0, 0, 0, 0]" by (simp add: numeral_eq_Suc)
  then show ?thesis by (simp add: hdr_n_def get32_def BSIZE_def del: take_replicate)
qed

lemma demo_log_boot: "log_boot 1 (log_add 40 demo_log) D (binit (boot_log D demo_log))"
  using bstD[OF boot_log_bst(1)[of D demo_log]] boot_log_bst(2)[of D demo_log]
  by (simp add: log_boot_def log_add_def demo_log_def LOGSIZE_def MAXOPBLOCKS_def)

theorem commit_crash_atomic_witness:
  "\<exists>s t W. demo_txn (replicate BSIZE 7) = Ok s \<and> commit 1 s = Ok t \<and> dtrace t = dtrace s @ W
    \<and> (\<exists>u. recover_from_log 1 (binit (boot_log (apply_writes demo_disk (take 2 W)) demo_log)) = Ok u
        \<and> disk_at u (1, 40) = replicate BSIZE 7)"
proof -
  let ?c = "replicate BSIZE 7 :: u8 list" and ?l = "log_add 40 demo_log"
  obtain s where s: "demo_txn ?c = Ok s" "txn_ready 1 [?c] s" "logs s 1 = ?l" "disk_at s = demo_disk"
    using demo_txn_ready by blast
  have bs: "[40] = take (nat (l_n ?l)) (l_block ?l)" by (simp add: log_add_def demo_log_def)
  have h: "length (disk_at s (1, l_start ?l)) = BSIZE" "hdr_n (disk_at s (1, l_start ?l)) = 0"
    by (simp_all add: s(4) demo_disk_def hdr_n_zero)
  obtain t W where t: "commit 1 s = Ok t" "dtrace t = dtrace s @ W"
    and all: "\<forall>j D (r :: klog). crashed 1 ?l (apply_writes (disk_at s) (take j W)) D \<longrightarrow> log_boot 1 ?l D r \<longrightarrow>
        (\<exists>u. recover_from_log 1 r = Ok u
        \<and> (\<forall>k. k \<notin> log_area 1 ?l \<longrightarrow>
          disk_at u k = (if j \<le> length [40 :: u32] then disk_at s k
                         else apply_writes (disk_at s) (writes_at 1 ((!) [40]) [?c] (length [40 :: u32])) k)))"
    using commit_crash_atomic[OF s(2) s(3)[symmetric] bs h] by blast
  have "(1, 40) \<notin> log_area 1 ?l" by (simp add: log_area_def log_add_def demo_log_def LOGSIZE_def MAXOPBLOCKS_def)
  then obtain u where "recover_from_log 1 (binit (boot_log (apply_writes demo_disk (take 2 W)) demo_log)) = Ok u" "disk_at u (1, 40) = ?c"
    using all[rule_format, of 2, OF crashed_once] demo_log_boot s(4) by (fastforce simp: writes_at_def)
  then show ?thesis using s(1) t by blast
qed

text \<open>
  C14. \<^verbatim>\<open>log_write\<close>. With room in the log, a block already recorded in this transaction is absorbed and
  nothing changes; a new block is appended to the header and its buffer is pinned once, and the list of
  recorded blocks stays free of duplicates. Without room, or outside a transaction, the call panics.
\<close>

theorem log_write_exact:
  assumes "d = b_dev (bufs s b)" and "LkLog (unat d) \<notin> set (held s)" and "LkBcache \<notin> set (held s)"
    and "0 \<le> l_n (logs s d)" and "length (l_block (logs s d)) = nat LOGSIZE"
    and "bs = take (nat (l_n (logs s d))) (l_block (logs s d))" and "n = b_blockno (bufs s b)"
  shows "log_write b s =
      (if l_n (logs s d) \<ge> LOGSIZE \<or> l_n (logs s d) \<ge> l_size (logs s d) - 1 then Panic ''too big a transaction''
       else if l_outstanding (logs s d) < 1 then Panic ''log_write outside of trans''
       else if n \<in> set bs then Ok s
       else Ok (l_upd d (log_add n) (b_upd b (\<lambda>x. x\<lparr>b_refcnt := b_refcnt x + 1\<rparr>) s)))
    \<and> (log_room (logs s d) \<longrightarrow> n \<notin> set bs \<longrightarrow> distinct bs \<longrightarrow>
        distinct (take (nat (l_n (log_add n (logs s d)))) (l_block (log_add n (logs s d)))))"
proof -
  have big: "log_write b s = Panic ''too big a transaction''" if "\<not> (l_n (logs s d) < LOGSIZE \<and> l_n (logs s d) < l_size (logs s d) - 1)"
    using that assms(1) by (auto simp: log_write_def Let_def)
  have out: "log_write b s = Panic ''log_write outside of trans''"
    if "l_n (logs s d) < LOGSIZE" "l_n (logs s d) < l_size (logs s d) - 1" "l_outstanding (logs s d) < 1"
    using that assms(1) by (auto simp: log_write_def Let_def)
  have room: "log_room (logs s d)"
    if "l_n (logs s d) < LOGSIZE" "l_n (logs s d) < l_size (logs s d) - 1" "\<not> l_outstanding (logs s d) < 1"
    using that assms(4,5) by (simp add: log_room_def)
  have "log_write b s = (if n \<in> set bs then Ok s else Ok (l_upd d (log_add n) (b_upd b (\<lambda>x. x\<lparr>b_refcnt := b_refcnt x + 1\<rparr>) s)))"
    if "log_room (logs s d)"
    using log_write_absorbed[OF assms(1) that assms(2)] log_write_added[OF assms(1) that assms(2,3)] assms(6,7) by simp
  then show ?thesis using big out room log_add_take[of "logs s d" n] assms(6) by auto
qed

theorem log_write_exact_witness:
  "log_write 0 (boot_log demo_disk demo_log)
   = Ok (l_upd 0 (log_add 0) (b_upd 0 (\<lambda>x. x\<lparr>b_refcnt := b_refcnt x + 1\<rparr>) (boot_log demo_disk demo_log)))"
  using log_write_exact[of 0 "boot_log demo_disk demo_log" 0 "[]" 0]
  by (simp add: boot_log_def demo_log_def zero_buf_def LOGSIZE_def MAXOPBLOCKS_def)

text \<open>
  C15. The reservation of log space. Along every sequence of \<^verbatim>\<open>begin_op\<close>, \<^verbatim>\<open>log_write\<close> and \<^verbatim>\<open>end_op\<close>
  by any number of system calls, of which each records at most \<^verbatim>\<open>MAXOPBLOCKS\<close> new blocks, the number of
  recorded blocks plus what the running calls may still record is at most \<^verbatim>\<open>LOGSIZE\<close>,
  \<^verbatim>\<open>outstanding\<close> is the number of running calls, and the header is empty when no call is running.
\<close>

theorem log_space_reserved:
  assumes "(op_step d)\<^sup>*\<^sup>* (s, []) (t, us)"
    and "l_outstanding (logs s d) = 0" and "l_n (logs s d) = 0" and "\<not> l_committing (logs s d)"
  shows "l_outstanding (logs t d) = int (length us) \<and> l_n (logs t d) + reserved us \<le> LOGSIZE
    \<and> l_n (logs t d) \<le> LOGSIZE \<and> (us = [] \<longrightarrow> l_n (logs t d) = 0)"
proof -
  have "op_inv d (t, us)"
    using assms(1)
  proof (induction rule: rtranclp_induct)
    case base
    then show ?case using assms(2-4) by (simp add: op_inv_def op_ok_def LOGSIZE_def MAXOPBLOCKS_def)
  next
    case (step y z)
    then show ?case using op_inv_step by blast
  qed
  moreover from this have "0 \<le> reserved us"
    by (auto simp: op_inv_def op_ok_def reserved_def intro!: sum_list_nonneg)
  ultimately show ?thesis by (simp add: op_inv_def op_ok_def)
qed

theorem log_space_reserved_witness:
  "returns (begin_op 1 (boot_log demo_disk (demo_log\<lparr>l_outstanding := 0\<rparr>))) (\<lambda>t. l_n (logs t 1) + reserved [0] \<le> LOGSIZE)"
proof -
  let ?s = "boot_log demo_disk (demo_log\<lparr>l_outstanding := 0\<rparr>)"
  obtain t where t: "begin_op 1 ?s = Ok t"
    by (simp add: begin_op_def boot_log_def demo_log_def LOGSIZE_def MAXOPBLOCKS_def l_upd_def)
  have "(op_step 1)\<^sup>*\<^sup>* (?s, []) (t, [0])" using op_begin[OF t, of "[]"] by auto
  from log_space_reserved[OF this] show ?thesis using t by (simp add: boot_log_def demo_log_def)
qed

text \<open>
  A run of three system calls on disk \<open>d\<close>: all three begin, and then they record the blocks of the first \<open>k\<close>
  buffers, ten each. Their shares after \<open>k\<close> blocks are \<open>shares k\<close>.
\<close>

definition three_calls :: "u32 \<Rightarrow> nat \<Rightarrow> 'a klog_scheme \<Rightarrow> 'a klog_scheme outcome" where
  "three_calls d k s =
     obind (begin_op d s) (\<lambda>s. obind (begin_op d s) (\<lambda>s. obind (begin_op d s) (ofold log_write [0..<k])))"

definition shares :: "nat \<Rightarrow> nat list" where
  "shares k = [min k 10, min (k - 10) 10, min (k - 20) 10]"

definition calls_at :: "u32 \<Rightarrow> 'a klog_scheme \<Rightarrow> nat \<Rightarrow> 'a klog_scheme \<Rightarrow> bool" where
  "calls_at d s k t \<longleftrightarrow> l_n (logs t d) = int k \<and> l_outstanding (logs t d) = 3 \<and> l_size (logs t d) = LOGSIZE
   \<and> length (l_block (logs t d)) = nat LOGSIZE \<and> take k (l_block (logs t d)) = map (\<lambda>b. b_blockno (bufs s b)) [0..<k]
   \<and> held t = held s \<and> (\<forall>b. b_dev (bufs t b) = b_dev (bufs s b) \<and> b_blockno (bufs t b) = b_blockno (bufs s b))
   \<and> (op_step d)\<^sup>*\<^sup>* (s, []) (t, shares k)"

lemma shares_Suc:
  assumes "k < 29"
  shows "k div 10 < length (shares k)" "int (shares k ! (k div 10)) < MAXOPBLOCKS"
    "(shares k)[k div 10 := Suc (shares k ! (k div 10))] = shares (Suc k)"
proof -
  consider "k < 10" "k div 10 = 0" | "10 \<le> k" "k < 20" "k div 10 = 1" | "20 \<le> k" "k div 10 = 2" using assms by linarith
  then show "k div 10 < length (shares k)" "int (shares k ! (k div 10)) < MAXOPBLOCKS"
    "(shares k)[k div 10 := Suc (shares k ! (k div 10))] = shares (Suc k)"
    using assms by (cases; simp add: shares_def MAXOPBLOCKS_def numeral_2_eq_2)+
qed

lemma calls_begin:
  fixes s :: "'a klog_scheme"
  assumes "l_size (logs s d) = LOGSIZE" and "l_n (logs s d) = 0" and "l_outstanding (logs s d) = 0" and "\<not> l_committing (logs s d)"
    and "length (l_block (logs s d)) = nat LOGSIZE" and "LkLog (unat d) \<notin> set (held s)"
  obtains u where "\<And>k. three_calls d k s = ofold log_write [0..<k] u" and "calls_at d s 0 u"
proof -
  let ?b = "\<lambda>n s. l_upd d (\<lambda>l. l\<lparr>l_outstanding := n\<rparr>) s"
  have b: "begin_op d t = Ok (?b (l_outstanding (logs t d) + 1) t)"
    if "\<not> l_committing (logs t d)" "l_n (logs t d) = 0" "l_outstanding (logs t d) < 3" "LkLog (unat d) \<notin> set (held t)" for t :: "'a klog_scheme"
    using that by (simp add: begin_op_def LOGSIZE_def MAXOPBLOCKS_def l_upd_def fun_upd_def)
  let ?u = "?b 3 (?b 2 (?b 1 s))"
  have r: "begin_op d s = Ok (?b 1 s)" "begin_op d (?b 1 s) = Ok (?b 2 (?b 1 s))" "begin_op d (?b 2 (?b 1 s)) = Ok ?u"
    using b[of s] b[of "?b 1 s"] b[of "?b 2 (?b 1 s)"] assms by simp_all
  have "(op_step d)\<^sup>*\<^sup>* (s, []) (?u, [0, 0, 0])"
    using op_begin[OF r(1), of "[]"] op_begin[OF r(2), of "[0]"] op_begin[OF r(3), of "[0, 0]"]
    by (simp add: rtranclp.rtrancl_into_rtrancl)
  then have "calls_at d s 0 ?u" using assms by (simp add: calls_at_def shares_def)
  moreover have "three_calls d k s = ofold log_write [0..<k] ?u" for k by (simp add: three_calls_def r)
  ultimately show thesis using that by blast
qed

lemma calls_write:
  assumes "calls_at d s k t" and "k < 29" and "LkLog (unat d) \<notin> set (held s)" and "LkBcache \<notin> set (held s)"
    and "\<forall>b < NBUF. b_dev (bufs s b) = d" and "inj_on (\<lambda>b. b_blockno (bufs s b)) {..<NBUF}"
  shows "returns (log_write k t) (calls_at d s (Suc k))"
proof -
  let ?t = "l_upd d (log_add (b_blockno (bufs s k))) (b_upd k (\<lambda>x. x\<lparr>b_refcnt := b_refcnt x + 1\<rparr>) t)"
  have t: "l_n (logs t d) = int k" "l_outstanding (logs t d) = 3" "l_size (logs t d) = LOGSIZE" "length (l_block (logs t d)) = nat LOGSIZE"
      "take k (l_block (logs t d)) = map (\<lambda>b. b_blockno (bufs s b)) [0..<k]" "held t = held s"
      "\<And>b. b_dev (bufs t b) = b_dev (bufs s b) \<and> b_blockno (bufs t b) = b_blockno (bufs s b)" "(op_step d)\<^sup>*\<^sup>* (s, []) (t, shares k)"
    using assms(1) by (simp_all add: calls_at_def)
  have room: "log_room (logs t d)" using t(1-4) assms(2) by (simp add: log_room_def LOGSIZE_def MAXOPBLOCKS_def)
  have "b_blockno (bufs s k) \<noteq> b_blockno (bufs s i)" if "i < k" for i
    using that assms(2) inj_onD[OF assms(6), of k i] by (auto simp: NBUF_def)
  then have "b_blockno (bufs s k) \<notin> (\<lambda>b. b_blockno (bufs s b)) ` {0..<k}" by fastforce
  then have "b_blockno (bufs s k) \<notin> set (take k (l_block (logs t d)))" by (simp add: t(5))
  moreover have dev: "b_dev (bufs t k) = d" using t(7) assms(2,5) by (simp add: NBUF_def)
  ultimately have w: "log_write k t = Ok ?t" using log_write_added[of d t k] room t assms(3,4) by simp
  have "op_step d (t, shares k) (?t, shares (Suc k))"
    using op_write[OF w dev shares_Suc(1,2)[OF assms(2)]] shares_Suc(3)[OF assms(2)] by simp
  then have "(op_step d)\<^sup>*\<^sup>* (s, []) (?t, shares (Suc k))" using t(8) by (rule rtranclp.rtrancl_into_rtrancl[rotated])
  moreover have "l_n (log_add (b_blockno (bufs s k)) (logs t d)) = int (Suc k)"
      "take (Suc k) (l_block (log_add (b_blockno (bufs s k)) (logs t d))) = map (\<lambda>b. b_blockno (bufs s b)) [0..<Suc k]"
    using log_add_take[OF room, of "b_blockno (bufs s k)"] t(1,5) by (simp_all add: nat_add_distrib)
  ultimately show ?thesis unfolding w using t by (simp add: calls_at_def b_upd_def log_add_def)
qed

text \<open>
  C28. The reservation of \<^verbatim>\<open>begin_op\<close> and the limit of \<^verbatim>\<open>log_write\<close> disagree by one block. On an idle log of
  \<^verbatim>\<open>LOGSIZE\<close> blocks, one of them the header, which is what \<^verbatim>\<open>mkfs\<close> builds, \<^verbatim>\<open>begin_op\<close> admits three calls at once. When
  they record blocks of different buffers, at most \<^verbatim>\<open>MAXOPBLOCKS\<close> each, the first 29 are recorded; the 30th, which is
  still within the promise of the third call, makes \<^verbatim>\<open>log_write\<close> panic.
\<close>

theorem log_write_reservation_gap:
  assumes "l_size (logs s d) = LOGSIZE" and "l_n (logs s d) = 0" and "l_outstanding (logs s d) = 0" and "\<not> l_committing (logs s d)"
    and "length (l_block (logs s d)) = nat LOGSIZE" and "LkLog (unat d) \<notin> set (held s)" and "LkBcache \<notin> set (held s)"
    and "\<forall>b < NBUF. b_dev (bufs s b) = d" and "inj_on (\<lambda>b. b_blockno (bufs s b)) {..<NBUF}"
  shows "(\<exists>t. three_calls d 29 s = Ok t \<and> (op_step d)\<^sup>*\<^sup>* (s, []) (t, [10, 10, 9]) \<and> l_n (logs t d) = 29 \<and> l_outstanding (logs t d) = 3)
    \<and> three_calls d 30 s = Panic ''too big a transaction'' \<and> int 10 \<le> MAXOPBLOCKS"
proof -
  obtain u where u: "\<And>k. three_calls d k s = ofold log_write [0..<k] u" "calls_at d s 0 u"
    using calls_begin[OF assms(1-6)] by blast
  have "returns (ofold log_write [0..<29] u) (\<lambda>t. calls_at d s (length [0..<29]) t)"
  proof (rule returns_ofold[where I = "\<lambda>ys. calls_at d s (length ys)"])
    fix ys x zs t assume xs: "[0..<29] = ys @ x # zs" and "calls_at d s (length ys) t"
    have "x = length ys" "length ys < 29"
      using arg_cong[OF xs, of "\<lambda>l. l ! length ys"] arg_cong[OF xs, of length] by (simp_all add: nth_append)
    then show "returns (log_write x t) (calls_at d s (length (ys @ [x])))"
      using calls_write[OF \<open>calls_at d s (length ys) t\<close> _ assms(6-9)] by simp
  qed (use u(2) in simp)
  then obtain t where t: "ofold log_write [0..<29] u = Ok t" "calls_at d s 29 t" by (auto simp: returns_def)
  have "log_write 29 t = Panic ''too big a transaction''"
    using t(2) assms(8) by (simp add: calls_at_def log_write_def NBUF_def LOGSIZE_def MAXOPBLOCKS_def)
  moreover have "[0..<30] = [0..<29] @ [29]" by (simp add: upt_rec[of 29] upt_add_eq_append[of 0 29 1, simplified])
  ultimately have "three_calls d 30 s = Panic ''too big a transaction''" by (simp only: u(1) ofold_append t(1)) simp
  then show ?thesis using t u(1)[of 29] by (simp add: calls_at_def shares_def MAXOPBLOCKS_def)
qed

theorem log_write_reservation_gap_witness:
  "three_calls 1 30 ((boot_log demo_disk (demo_log\<lparr>l_outstanding := 0\<rparr>))\<lparr>bufs := \<lambda>b. zero_buf\<lparr>b_dev := 1, b_blockno := of_nat (b + 100)\<rparr>\<rparr>)
     = Panic ''too big a transaction''"
proof -
  let ?s = "(boot_log demo_disk (demo_log\<lparr>l_outstanding := 0\<rparr>))\<lparr>bufs := \<lambda>b. zero_buf\<lparr>b_dev := 1, b_blockno := of_nat (b + 100)\<rparr>\<rparr>"
  have "inj_on (\<lambda>b. b_blockno (bufs ?s b)) {..<NBUF}"
  proof (rule inj_onI)
    fix x y assume xy: "x \<in> {..<NBUF}" "y \<in> {..<NBUF}" and "b_blockno (bufs ?s x) = b_blockno (bufs ?s y)"
    then have "(of_nat (x + 100) :: u32) = of_nat (y + 100)" by (simp del: of_nat_add)
    then have "unat (of_nat (x + 100) :: u32) = unat (of_nat (y + 100) :: u32)" by (rule arg_cong)
    then show "x = y" using xy by (simp add: NBUF_def del: of_nat_add)
  qed
  then show ?thesis
    using log_write_reservation_gap[of ?s 1] by (simp add: boot_log_def demo_log_def LOGSIZE_def MAXOPBLOCKS_def)
qed

text \<open>
  C29. Recovery of a disk whose header lists blocks installs them, and corrupts the reference count of each:
  \<^verbatim>\<open>install_trans\<close> calls \<^verbatim>\<open>bunpin\<close> on buffers nobody pinned, so that every recovered block stays in a
  buffer whose \<^verbatim>\<open>refcnt\<close> has wrapped to \<open>2^32 - 1\<close>; the buffer is never recycled while the system runs.
\<close>

theorem recovery_wraps_refcnt:
  assumes "area_ok l" and "log_boot d l D s" and "homes_ok l bs" and "length (D (d, l_start l)) = BSIZE"
    and "hdr_n (D (d, l_start l)) = int (length bs)" and "\<forall>i < length bs. hdr_block (D (d, l_start l)) i = bs ! i"
  shows "returns (recover_from_log d s) (\<lambda>t. \<forall>i < length bs. disk_at t (d, bs ! i) = D (d, log_addr l i)
    \<and> (\<exists>j < NBUF. bkey t j = (d, bs ! i) \<and> b_refcnt (bufs t j) = 2 ^ 32 - 1 \<and> \<not> slk_locked (b_lock (bufs t j))))"
proof -
  define cs where "cs = log_copies d l D (length bs)"
  define V where "V = apply_writes D (writes_at d ((!) bs) cs (length bs))"
  have log: "hdr.logged d l bs cs D V"
    using assms by (simp add: hdr.logged_def cs_def log_copies_def V_def)
  obtain t where t: "recover_from_log d s = Ok t" "bio_rel t (pinned (- 1) d bs cs)"
      "disk_at t = apply_writes D (recovery_writes hdr_put hdr_n hdr_block d l D)"
    using recover_runs[OF log assms(1,2)] by blast
  have cs: "length cs = length bs" "distinct bs" using assms(3) by (simp_all add: cs_def log_copies_def homes_ok_def)
  have "disk_at t (d, bs ! i) = D (d, log_addr l i)
    \<and> (\<exists>j < NBUF. bkey t j = (d, bs ! i) \<and> b_refcnt (bufs t j) = - 1 \<and> \<not> slk_locked (b_lock (bufs t j)))"
    if i: "i < length bs" for i
  proof
    have "(d, bs ! i) \<notin> log_area d l" using homes_outside[OF assms(3)] i by simp
    then have "disk_at t (d, bs ! i) = V (d, bs ! i)" using hdr.logged_recovered[OF log] t(3) by simp
    then show "disk_at t (d, bs ! i) = D (d, log_addr l i)"
      using apply_writes_at_inside[OF hdr.homes_inj[OF assms(3)] i] i by (simp add: V_def cs_def log_copies_def)
    have P: "pinned (- 1) d bs cs (d, bs ! i) = Some (cs ! i, - 1, False)" by (rule pinned_nth[OF cs(2,1) i])
    then obtain j where j: "j < NBUF" "bkey t j = (d, bs ! i)" using bio_rel_dom[OF t(2) P] by blast
    then show "\<exists>j < NBUF. bkey t j = (d, bs ! i) \<and> b_refcnt (bufs t j) = - 1 \<and> \<not> slk_locked (b_lock (bufs t j))"
      using bio_rel_Some[OF t(2) j(1), of "(cs ! i, - 1, False)"] P by (auto simp: buf_is_def)
  qed
  moreover have e: "(2 ^ 32 - 1 :: u32) = - 1" by simp
  ultimately show ?thesis using t(1) unfolding returns_def e by blast
qed

theorem recovery_wraps_refcnt_witness:
  "returns (recover_from_log 1 (binit (boot_log (demo_disk((1, 2) := hdr_put 1 [40] (replicate BSIZE 0))) demo_log)))
    (\<lambda>t. \<exists>j < NBUF. bkey t j = (1, 40) \<and> b_refcnt (bufs t j) = 2 ^ 32 - 1)"
proof -
  let ?D = "demo_disk((1, 2) := hdr_put 1 [40] (replicate BSIZE 0))"
  let ?l = "log_add 40 demo_log"
  have n: "(0 :: int) \<le> 1" "1 < LOGSIZE" "length (replicate BSIZE 0 :: u8 list) = BSIZE"
    by (simp_all add: LOGSIZE_def MAXOPBLOCKS_def)
  have l: "area_ok ?l" "homes_ok ?l [40]" "l_start ?l = 2"
    by (simp_all add: area_ok_def homes_ok_def log_add_def demo_log_def LOGSIZE_def MAXOPBLOCKS_def)
  have "returns (recover_from_log 1 (binit (boot_log ?D demo_log))) (\<lambda>t. \<forall>i < length [40 :: u32].
      disk_at t (1, [40] ! i) = ?D (1, log_addr ?l i)
    \<and> (\<exists>j < NBUF. bkey t j = (1, [40] ! i) \<and> b_refcnt (bufs t j) = 2 ^ 32 - 1 \<and> \<not> slk_locked (b_lock (bufs t j))))"
    by (rule recovery_wraps_refcnt[OF l(1) demo_log_boot l(2)])
      (use hdr.put_length[OF n] hdr.put_n[OF n] hdr.put_blk[OF n] l(3) in auto)
  then show ?thesis by (rule returns_weaken) auto
qed

end
