(* ===== verification/KFs.thy ===== *)
theory KFs
  imports KRecover KString
begin

text \<open>
  \<^verbatim>\<open>kernel/fs.c\<close> with \<^verbatim>\<open>kernel/fs.h\<close>: the block allocator, inodes and their cache, file contents,
  directories and path names, on top of the buffer cache and the log. An inode pointer is an index
  into \<^verbatim>\<open>icache.inode\<close>, \<open>None\<close> for null; path names are the bytes before the terminating NUL.
\<close>

section \<open>On-disk format\<close>

definition ROOTINO :: u32 where "ROOTINO = 1"
definition ROOTDEV :: u32 where "ROOTDEV = 0"
definition FSMAGIC :: u32 where "FSMAGIC = 0x10203040"
definition NDIRECT :: nat where "NDIRECT = 12"
definition NINDIRECT :: nat where "NINDIRECT = BSIZE div 4"
definition MAXFILE :: nat where "MAXFILE = NDIRECT + NINDIRECT"
definition IPB :: nat where "IPB = BSIZE div 64"
definition BPB :: nat where "BPB = BSIZE * 8"
definition DIRSIZ :: nat where "DIRSIZ = 14"
definition NINODE :: nat where "NINODE = 50"

definition T_DIR :: u16 where "T_DIR = 1"
definition T_FILE :: u16 where "T_FILE = 2"
definition T_DEVICE :: u16 where "T_DEVICE = 3"

record superblock =
  sb_magic :: u32
  sb_size :: u32
  sb_nblocks :: u32
  sb_ninodes :: u32
  sb_nlog :: u32
  sb_logstart :: u32
  sb_inodestart :: u32
  sb_bmapstart :: u32

definition IBLOCK :: "u32 \<Rightarrow> superblock \<Rightarrow> u32" where
  "IBLOCK i b = of_nat (unat i div IPB) + sb_inodestart b"

definition BBLOCK :: "u32 \<Rightarrow> superblock \<Rightarrow> u32" where
  "BBLOCK b x = of_nat (unat b div BPB) + sb_bmapstart x"

section \<open>State\<close>

record inode =
  i_dev :: u32
  i_inum :: u32
  i_ref :: int
  i_lock :: sleeplock
  i_valid :: bool
  i_type :: u16
  i_major :: u16
  i_minor :: u16
  i_nlink :: u16
  i_size :: u32
  i_addrs :: "u32 list"

record kfs = klog +
  icache :: "nat \<Rightarrow> inode"
  sb :: superblock

definition i_upd :: "nat \<Rightarrow> (inode \<Rightarrow> inode) \<Rightarrow> 'a kfs_scheme \<Rightarrow> 'a kfs_scheme" where
  "i_upd i f s = s\<lparr>icache := (icache s)(i := f (icache s i))\<rparr>"

text \<open>The effect of an assignment through \<^verbatim>\<open>bp->data\<close>.\<close>

definition d_upd :: "nat \<Rightarrow> (u8 list \<Rightarrow> u8 list) \<Rightarrow> 'a kbio_scheme \<Rightarrow> 'a kbio_scheme" where
  "d_upd b f = b_upd b (\<lambda>x. x\<lparr>b_data := f (b_data x)\<rparr>)"

section \<open>Super block and block allocation\<close>

definition sb_of_bytes :: "u8 list \<Rightarrow> superblock" where
  "sb_of_bytes x = \<lparr>sb_magic = get32 x 0, sb_size = get32 x 4, sb_nblocks = get32 x 8, sb_ninodes = get32 x 12,
     sb_nlog = get32 x 16, sb_logstart = get32 x 20, sb_inodestart = get32 x 24, sb_bmapstart = get32 x 28\<rparr>"

definition readsb :: "u32 \<Rightarrow> 'a kfs_scheme \<Rightarrow> 'a kfs_scheme outcome" where
  "readsb dev s =
     obind (bread dev 1 s) (\<lambda>(bp, s).
     brelse bp (s\<lparr>sb := sb_of_bytes (b_data (bufs s bp))\<rparr>))"

definition fsinit :: "u32 \<Rightarrow> 'a kfs_scheme \<Rightarrow> 'a kfs_scheme outcome" where
  "fsinit dev s =
     obind (readsb dev s) (\<lambda>s.
     if sb_magic (sb s) \<noteq> FSMAGIC then Panic ''invalid file system''
     else initlog dev (sb_logstart (sb s)) (sb_nlog (sb s)) s)"

definition bzero :: "u32 \<Rightarrow> u32 \<Rightarrow> 'a kfs_scheme \<Rightarrow> 'a kfs_scheme outcome" where
  "bzero dev bno s =
     obind (bread dev bno s) (\<lambda>(bp, s).
     obind (log_write bp (d_upd bp (\<lambda>_. replicate BSIZE 0) s)) (brelse bp))"

definition bit_mask :: "nat \<Rightarrow> u8" where
  "bit_mask bi = push_bit (bi mod 8) 1"

text \<open>The inner loop of \<^verbatim>\<open>balloc\<close>: the first clear bit of the block that stands for a block below \<open>sz\<close>.\<close>

definition free_bit :: "u8 list \<Rightarrow> nat \<Rightarrow> nat \<Rightarrow> nat option" where
  "free_bit x b sz = find (\<lambda>bi. b + bi < sz \<and> x ! (bi div 8) AND bit_mask bi = 0) [0..<BPB]"

text \<open>The outer loop, over the first block \<open>b\<close> of each block of the bitmap.\<close>

primrec balloc_from :: "u32 \<Rightarrow> nat list \<Rightarrow> 'a kfs_scheme \<Rightarrow> (u32 \<times> 'a kfs_scheme) outcome" where
  "balloc_from dev [] s = Panic ''balloc: out of blocks''"
| "balloc_from dev (b # bs) s =
     obind (bread dev (BBLOCK (of_nat b) (sb s)) s) (\<lambda>(bp, s).
     case free_bit (b_data (bufs s bp)) b (unat (sb_size (sb s))) of
       Some bi \<Rightarrow>
         obind (log_write bp (d_upd bp (\<lambda>x. x[bi div 8 := x ! (bi div 8) OR bit_mask bi]) s)) (\<lambda>s.
         obind (brelse bp s) (\<lambda>s.
         obind (bzero dev (of_nat (b + bi)) s) (\<lambda>s. Ok (of_nat (b + bi), s))))
     | None \<Rightarrow> obind (brelse bp s) (balloc_from dev bs))"

definition balloc :: "u32 \<Rightarrow> 'a kfs_scheme \<Rightarrow> (u32 \<times> 'a kfs_scheme) outcome" where
  "balloc dev s = balloc_from dev (map (\<lambda>i. i * BPB) [0..<(unat (sb_size (sb s)) + BPB - 1) div BPB]) s"

definition bfree :: "u32 \<Rightarrow> u32 \<Rightarrow> 'a kfs_scheme \<Rightarrow> 'a kfs_scheme outcome" where
  "bfree dev b s =
     obind (bread dev (BBLOCK b (sb s)) s) (\<lambda>(bp, s).
     let bi = unat b mod BPB in
     if b_data (bufs s bp) ! (bi div 8) AND bit_mask bi = 0 then Panic ''freeing free block''
     else obind (log_write bp (d_upd bp (\<lambda>x. x[bi div 8 := x ! (bi div 8) AND NOT (bit_mask bi)]) s)) (brelse bp))"

section \<open>Inodes\<close>

definition iinit :: "'a kfs_scheme \<Rightarrow> 'a kfs_scheme" where
  "iinit s = fold (\<lambda>i. i_upd i (\<lambda>ip. ip\<lparr>i_lock := initsleeplock\<rparr>)) [0..<NINODE] s"

text \<open>\<^verbatim>\<open>struct dinode\<close>: four shorts, the size and the 13 addresses, 64 bytes; its place in the block.\<close>

definition dinode_off :: "u32 \<Rightarrow> nat" where
  "dinode_off inum = 64 * (unat inum mod IPB)"

definition dinode_put :: "nat \<Rightarrow> inode \<Rightarrow> u8 list \<Rightarrow> u8 list" where
  "dinode_put off ip x =
     (let x = put16 off (i_type ip) x;
          x = put16 (off + 2) (i_major ip) x;
          x = put16 (off + 4) (i_minor ip) x;
          x = put16 (off + 6) (i_nlink ip) x;
          x = put32 (off + 8) (i_size ip) x
      in fold (\<lambda>k. put32 (off + 12 + 4 * k) (i_addrs ip ! k)) [0..<NDIRECT + 1] x)"

definition dinode_get :: "nat \<Rightarrow> u8 list \<Rightarrow> inode \<Rightarrow> inode" where
  "dinode_get off x ip = ip\<lparr>i_type := get16 x off, i_major := get16 x (off + 2), i_minor := get16 x (off + 4),
     i_nlink := get16 x (off + 6), i_size := get32 x (off + 8),
     i_addrs := map (\<lambda>k. get32 x (off + 12 + 4 * k)) [0..<NDIRECT + 1]\<rparr>"

text \<open>\<^verbatim>\<open>iget\<close>: the entry that caches the inode, else the first entry not in use.\<close>

definition iget :: "u32 \<Rightarrow> u32 \<Rightarrow> 'a kfs_scheme \<Rightarrow> (nat \<times> 'a kfs_scheme) outcome" where
  "iget dev inum s =
     obind (acquire_lk LkIcache s) (\<lambda>s.
     case find (\<lambda>i. i_ref (icache s i) > 0 \<and> i_dev (icache s i) = dev \<and> i_inum (icache s i) = inum) [0..<NINODE] of
       Some i \<Rightarrow> obind (release_lk LkIcache (i_upd i (\<lambda>ip. ip\<lparr>i_ref := i_ref ip + 1\<rparr>) s)) (\<lambda>s. Ok (i, s))
     | None \<Rightarrow>
         (case find (\<lambda>i. i_ref (icache s i) = 0) [0..<NINODE] of
            None \<Rightarrow> Panic ''iget: no inodes''
          | Some i \<Rightarrow>
              obind (release_lk LkIcache (i_upd i (\<lambda>ip. ip\<lparr>i_dev := dev, i_inum := inum, i_ref := 1, i_valid := False\<rparr>) s))
                (\<lambda>s. Ok (i, s))))"

primrec ialloc_from :: "u32 \<Rightarrow> u16 \<Rightarrow> nat list \<Rightarrow> 'a kfs_scheme \<Rightarrow> (nat \<times> 'a kfs_scheme) outcome" where
  "ialloc_from dev ty [] s = Panic ''ialloc: no inodes''"
| "ialloc_from dev ty (inum # is) s =
     obind (bread dev (IBLOCK (of_nat inum) (sb s)) s) (\<lambda>(bp, s).
     let off = dinode_off (of_nat inum) in
     if get16 (b_data (bufs s bp)) off = 0
     then obind (log_write bp (d_upd bp (\<lambda>x. put16 off ty (splice x off (replicate 64 0))) s)) (\<lambda>s.
          obind (brelse bp s) (iget dev (of_nat inum)))
     else obind (brelse bp s) (ialloc_from dev ty is))"

definition ialloc :: "u32 \<Rightarrow> u16 \<Rightarrow> 'a kfs_scheme \<Rightarrow> (nat \<times> 'a kfs_scheme) outcome" where
  "ialloc dev ty s = ialloc_from dev ty [1..<unat (sb_ninodes (sb s))] s"

definition iupdate :: "nat \<Rightarrow> 'a kfs_scheme \<Rightarrow> 'a kfs_scheme outcome" where
  "iupdate ip s =
     obind (bread (i_dev (icache s ip)) (IBLOCK (i_inum (icache s ip)) (sb s)) s) (\<lambda>(bp, s).
     obind (log_write bp (d_upd bp (dinode_put (dinode_off (i_inum (icache s ip))) (icache s ip)) s)) (brelse bp))"

definition idup :: "nat \<Rightarrow> 'a kfs_scheme \<Rightarrow> (nat \<times> 'a kfs_scheme) outcome" where
  "idup ip s =
     obind (acquire_lk LkIcache s) (\<lambda>s.
     obind (release_lk LkIcache (i_upd ip (\<lambda>x. x\<lparr>i_ref := i_ref x + 1\<rparr>) s)) (\<lambda>s. Ok (ip, s)))"

definition i_acquiresleep :: "nat \<Rightarrow> 'a kfs_scheme \<Rightarrow> 'a kfs_scheme outcome" where
  "i_acquiresleep i = acquiresleep (LkInode i) (ChInodeLock i) (\<lambda>s. i_lock (icache s i)) (\<lambda>l. i_upd i (\<lambda>x. x\<lparr>i_lock := l\<rparr>))"

definition i_releasesleep :: "nat \<Rightarrow> 'a kfs_scheme \<Rightarrow> 'a kfs_scheme outcome" where
  "i_releasesleep i = releasesleep (LkInode i) (ChInodeLock i) (\<lambda>l. i_upd i (\<lambda>x. x\<lparr>i_lock := l\<rparr>))"

definition i_holdingsleep :: "nat \<Rightarrow> 'a kfs_scheme \<Rightarrow> (bool \<times> 'a kfs_scheme) outcome" where
  "i_holdingsleep i = holdingsleep (LkInode i) (\<lambda>s. i_lock (icache s i))"

definition ilock :: "nat option \<Rightarrow> 'a kfs_scheme \<Rightarrow> 'a kfs_scheme outcome" where
  "ilock p s =
     (case p of None \<Rightarrow> Panic ''ilock''
      | Some ip \<Rightarrow>
          if i_ref (icache s ip) < 1 then Panic ''ilock''
          else obind (i_acquiresleep ip s) (\<lambda>s.
            if \<not> i_valid (icache s ip)
            then obind (bread (i_dev (icache s ip)) (IBLOCK (i_inum (icache s ip)) (sb s)) s) (\<lambda>(bp, s).
              let off = dinode_off (i_inum (icache s ip)); x = b_data (bufs s bp);
                  s = i_upd ip (dinode_get off x) s
              in obind (brelse bp s) (\<lambda>s.
                 let s = i_upd ip (\<lambda>i. i\<lparr>i_valid := True\<rparr>) s in
                 if i_type (icache s ip) = 0 then Panic ''ilock: no type'' else Ok s))
            else Ok s))"

definition iunlock :: "nat option \<Rightarrow> 'a kfs_scheme \<Rightarrow> 'a kfs_scheme outcome" where
  "iunlock p s =
     (case p of None \<Rightarrow> Panic ''iunlock''
      | Some ip \<Rightarrow>
          obind (i_holdingsleep ip s) (\<lambda>(h, s).
          if \<not> h \<or> i_ref (icache s ip) < 1 then Panic ''iunlock'' else i_releasesleep ip s))"

section \<open>Inode contents\<close>

definition bmap :: "nat \<Rightarrow> u32 \<Rightarrow> 'a kfs_scheme \<Rightarrow> (u32 \<times> 'a kfs_scheme) outcome" where
  "bmap ip bn s =
     (if unat bn < NDIRECT then
        let addr = i_addrs (icache s ip) ! unat bn in
        if addr = 0
        then obind (balloc (i_dev (icache s ip)) s) (\<lambda>(addr, s).
          Ok (addr, i_upd ip (\<lambda>i. i\<lparr>i_addrs := (i_addrs i)[unat bn := addr]\<rparr>) s))
        else Ok (addr, s)
      else let bn = unat bn - NDIRECT in
        if bn < NINDIRECT then
          let addr = i_addrs (icache s ip) ! NDIRECT in
          obind (if addr = 0
                 then obind (balloc (i_dev (icache s ip)) s) (\<lambda>(addr, s).
                   Ok (addr, i_upd ip (\<lambda>i. i\<lparr>i_addrs := (i_addrs i)[NDIRECT := addr]\<rparr>) s))
                 else Ok (addr, s)) (\<lambda>(addr, s).
          obind (bread (i_dev (icache s ip)) addr s) (\<lambda>(bp, s).
          let a = get32 (b_data (bufs s bp)) (4 * bn) in
          obind (if a = 0
                 then obind (balloc (i_dev (icache s ip)) s) (\<lambda>(a, s).
                   obind (log_write bp (d_upd bp (put32 (4 * bn) a) s)) (\<lambda>s. Ok (a, s)))
                 else Ok (a, s)) (\<lambda>(a, s).
          obind (brelse bp s) (\<lambda>s. Ok (a, s)))))
        else Panic ''bmap: out of range'')"

definition itrunc_direct :: "nat \<Rightarrow> nat \<Rightarrow> 'a kfs_scheme \<Rightarrow> 'a kfs_scheme outcome" where
  "itrunc_direct ip i s =
     (let addr = i_addrs (icache s ip) ! i in
      if addr \<noteq> 0
      then obind (bfree (i_dev (icache s ip)) addr s) (\<lambda>s.
        Ok (i_upd ip (\<lambda>x. x\<lparr>i_addrs := (i_addrs x)[i := 0]\<rparr>) s))
      else Ok s)"

definition itrunc_indirect :: "nat \<Rightarrow> nat \<Rightarrow> nat \<Rightarrow> 'a kfs_scheme \<Rightarrow> 'a kfs_scheme outcome" where
  "itrunc_indirect ip bp j s =
     (let a = get32 (b_data (bufs s bp)) (4 * j) in
      if a \<noteq> 0 then bfree (i_dev (icache s ip)) a s else Ok s)"

definition itrunc :: "nat \<Rightarrow> 'a kfs_scheme \<Rightarrow> 'a kfs_scheme outcome" where
  "itrunc ip s =
     obind (ofold (itrunc_direct ip) [0..<NDIRECT] s) (\<lambda>s.
     obind (if i_addrs (icache s ip) ! NDIRECT \<noteq> 0
            then obind (bread (i_dev (icache s ip)) (i_addrs (icache s ip) ! NDIRECT) s) (\<lambda>(bp, s).
              obind (ofold (itrunc_indirect ip bp) [0..<NINDIRECT] s) (\<lambda>s.
              obind (brelse bp s) (\<lambda>s.
              obind (bfree (i_dev (icache s ip)) (i_addrs (icache s ip) ! NDIRECT) s) (\<lambda>s.
              Ok (i_upd ip (\<lambda>x. x\<lparr>i_addrs := (i_addrs x)[NDIRECT := 0]\<rparr>) s)))))
            else Ok s) (\<lambda>s.
     iupdate ip (i_upd ip (\<lambda>x. x\<lparr>i_size := 0\<rparr>) s)))"

definition iput :: "nat \<Rightarrow> 'a kfs_scheme \<Rightarrow> 'a kfs_scheme outcome" where
  "iput ip s =
     obind (acquire_lk LkIcache s) (\<lambda>s.
     obind (if i_ref (icache s ip) = 1 \<and> i_valid (icache s ip) \<and> i_nlink (icache s ip) = 0
            then obind (i_acquiresleep ip s) (\<lambda>s.
              obind (release_lk LkIcache s) (\<lambda>s.
              obind (itrunc ip s) (\<lambda>s.
              obind (iupdate ip (i_upd ip (\<lambda>x. x\<lparr>i_type := 0\<rparr>) s)) (\<lambda>s.
              obind (i_releasesleep ip (i_upd ip (\<lambda>x. x\<lparr>i_valid := False\<rparr>) s)) (acquire_lk LkIcache)))))
            else Ok s) (\<lambda>s.
     release_lk LkIcache (i_upd ip (\<lambda>x. x\<lparr>i_ref := i_ref x - 1\<rparr>) s)))"

definition iunlockput :: "nat \<Rightarrow> 'a kfs_scheme \<Rightarrow> 'a kfs_scheme outcome" where
  "iunlockput ip s = obind (iunlock (Some ip) s) (iput ip)"

record kstat =
  st_dev :: int
  st_ino :: u32
  st_type :: u16
  st_nlink :: u16
  st_size :: u64

definition stati :: "inode \<Rightarrow> kstat" where
  "stati ip = \<lparr>st_dev = sint (i_dev ip), st_ino = i_inum ip, st_type = i_type ip, st_nlink = i_nlink ip,
     st_size = ucast (i_size ip)\<rparr>"

section \<open>Reading and writing\<close>

definition either_copyout :: "bool \<Rightarrow> u64 \<Rightarrow> u8 list \<Rightarrow> 'a kvm_scheme \<Rightarrow> (int \<times> 'a kvm_scheme) outcome" where
  "either_copyout user_dst dst src s =
     (if user_dst then copyout (pagetable (procs s ! myproc s)) dst src s
      else Ok (0, s\<lparr>mem := store_bytes (mem s) dst src\<rparr>))"

text \<open>\<^verbatim>\<open>either_copyin\<close>, with the bytes stored at the destination as in \<^verbatim>\<open>copyin\<close>.\<close>

definition either_copyin :: "bool \<Rightarrow> u64 \<Rightarrow> nat \<Rightarrow> 'a kvm_scheme \<Rightarrow> (int \<times> u8 list) outcome" where
  "either_copyin user_src src len s =
     (if user_src then copyin (pagetable (procs s ! myproc s)) src len s
      else Ok (0, load_bytes (mem s) src len))"

text \<open>
  Where \<^verbatim>\<open>readi\<close> puts the bytes and \<^verbatim>\<open>writei\<close> takes them from: an address, user or kernel, or a local
  variable of the caller, which nothing else refers to.
\<close>

datatype rdst = Addr bool u64 | Local

datatype rsrc = From bool u64 | Bytes "u8 list"

definition copy_to :: "rdst \<Rightarrow> u32 \<Rightarrow> u8 list \<Rightarrow> 'a kvm_scheme \<Rightarrow> (int \<times> 'a kvm_scheme) outcome" where
  "copy_to dst tot x s = (case dst of Addr user a \<Rightarrow> either_copyout user (a + ucast tot) x s | Local \<Rightarrow> Ok (0, s))"

definition copy_from :: "rsrc \<Rightarrow> u32 \<Rightarrow> nat \<Rightarrow> 'a kvm_scheme \<Rightarrow> (int \<times> u8 list) outcome" where
  "copy_from src tot m s =
     (case src of From user a \<Rightarrow> either_copyin user (a + ucast tot) m s
      | Bytes x \<Rightarrow> Ok (0, take m (drop (unat tot) x)))"

text \<open>The number of bytes of one iteration: \<^verbatim>\<open>min(n - tot, BSIZE - off%BSIZE)\<close>.\<close>

definition blk_part :: "u32 \<Rightarrow> u32 \<Rightarrow> u32" where
  "blk_part rest off = (let k = of_nat BSIZE - off mod of_nat BSIZE in if rest < k then rest else k)"

lemma unat_BSIZE: "unat (of_nat BSIZE :: u32) = 1024"
  by (simp add: BSIZE_def)

lemma blk_part_unat:
  "unat (blk_part rest off) = min (unat rest) (1024 - unat off mod 1024)"
proof -
  have m: "unat (off mod of_nat BSIZE) = unat off mod 1024" by (simp add: unat_mod BSIZE_def)
  have "unat off mod 1024 < 1024" by simp
  then have "off mod of_nat BSIZE \<le> of_nat BSIZE" unfolding word_le_nat_alt m unat_BSIZE by simp
  then have "unat (of_nat BSIZE - off mod of_nat BSIZE) = 1024 - unat off mod 1024"
    by (simp add: unat_minus_word m unat_BSIZE)
  then show ?thesis by (simp add: blk_part_def Let_def word_less_nat_alt)
qed

lemma blk_part_less:
  assumes "tot < n"
  shows "unat (n - (tot + blk_part (n - tot) off)) < unat (n - tot)"
proof -
  have le: "unat tot < unat n" using assms by (simp add: word_less_nat_alt)
  have d: "unat (n - tot) = unat n - unat tot" using assms by (intro unat_minus_word) simp
  have pos: "0 < 1024 - unat off mod 1024" by simp
  then have p: "0 < unat (blk_part (n - tot) off)" "unat (blk_part (n - tot) off) \<le> unat (n - tot)"
    using le d by (simp_all add: blk_part_unat)
  have "unat ((n - tot) - blk_part (n - tot) off) = unat (n - tot) - unat (blk_part (n - tot) off)"
    using p(2) by (intro unat_minus_word) (simp add: word_le_nat_alt)
  then show ?thesis unfolding diff_diff_eq[symmetric] using p by simp
qed

text \<open>The loop of \<^verbatim>\<open>readi\<close>; the result has the bytes copied out.\<close>

function readi_loop :: "nat \<Rightarrow> rdst \<Rightarrow> u32 \<Rightarrow> u32 \<Rightarrow> u32 \<Rightarrow> 'a kfs_scheme \<Rightarrow> (u8 list \<times> 'a kfs_scheme) outcome" where
  "readi_loop ip dst off tot n s =
     (if tot < n then
        obind (bmap ip (off div of_nat BSIZE) s) (\<lambda>(addr, s).
        obind (bread (i_dev (icache s ip)) addr s) (\<lambda>(bp, s).
        let m = blk_part (n - tot) off;
            x = take (unat m) (drop (unat (off mod of_nat BSIZE)) (b_data (bufs s bp)))
        in obind (copy_to dst tot x s) (\<lambda>(r, s).
           if r = -1 then obind (brelse bp s) (\<lambda>s. Ok ([], s))
           else obind (brelse bp s) (\<lambda>s.
             obind (readi_loop ip dst (off + m) (tot + m) n s) (\<lambda>(y, s). Ok (x @ y, s))))))
      else Ok ([], s))"
  by pat_completeness auto

termination
  by (relation "measure (\<lambda>(ip, dst, off, tot, n, s). unat (n - tot))") (auto simp: blk_part_less)

definition readi :: "nat \<Rightarrow> rdst \<Rightarrow> u32 \<Rightarrow> u32 \<Rightarrow> 'a kfs_scheme \<Rightarrow> (int \<times> u8 list \<times> 'a kfs_scheme) outcome" where
  "readi ip dst off n s =
     (if off > i_size (icache s ip) \<or> off + n < off then Ok (-1, [], s)
      else let n = (if off + n > i_size (icache s ip) then i_size (icache s ip) - off else n) in
        obind (readi_loop ip dst off 0 n s) (\<lambda>(x, s). Ok (sint n, x, s)))"

text \<open>The loop of \<^verbatim>\<open>writei\<close>; the result has the final offset.\<close>

function writei_loop :: "nat \<Rightarrow> rsrc \<Rightarrow> u32 \<Rightarrow> u32 \<Rightarrow> u32 \<Rightarrow> 'a kfs_scheme \<Rightarrow> (u32 \<times> 'a kfs_scheme) outcome" where
  "writei_loop ip src off tot n s =
     (if tot < n then
        obind (bmap ip (off div of_nat BSIZE) s) (\<lambda>(addr, s).
        obind (bread (i_dev (icache s ip)) addr s) (\<lambda>(bp, s).
        let m = blk_part (n - tot) off in
        obind (copy_from src tot (unat m) s) (\<lambda>(r, x).
        let s = d_upd bp (\<lambda>y. splice y (unat (off mod of_nat BSIZE)) x) s in
        if r = -1 then obind (brelse bp s) (\<lambda>s. Ok (off, s))
        else obind (log_write bp s) (\<lambda>s.
          obind (brelse bp s) (\<lambda>s. writei_loop ip src (off + m) (tot + m) n s)))))
      else Ok (off, s))"
  by pat_completeness auto

termination
  by (relation "measure (\<lambda>(ip, src, off, tot, n, s). unat (n - tot))") (auto simp: blk_part_less)

declare readi_loop.simps [simp del] writei_loop.simps [simp del]

definition writei :: "nat \<Rightarrow> rsrc \<Rightarrow> u32 \<Rightarrow> u32 \<Rightarrow> 'a kfs_scheme \<Rightarrow> (int \<times> 'a kfs_scheme) outcome" where
  "writei ip src off n s =
     (if off > i_size (icache s ip) \<or> off + n < off then Ok (-1, s)
      else if unat (off + n) > MAXFILE * BSIZE then Ok (-1, s)
      else obind (writei_loop ip src off 0 n s) (\<lambda>(off, s).
        obind (if n > 0
               then let s = (if off > i_size (icache s ip) then i_upd ip (\<lambda>i. i\<lparr>i_size := off\<rparr>) s else s)
                    in iupdate ip s
               else Ok s) (\<lambda>s. Ok (sint n, s))))"

section \<open>Directories\<close>

text \<open>The routines of \<^verbatim>\<open>string.c\<close> on two local arrays.\<close>

definition two_arrays :: "u8 list \<Rightarrow> u8 list \<Rightarrow> mem" where
  "two_arrays x y = store_bytes (store_bytes (\<lambda>_. 0) 0 x) 0x1000 y"

definition namecmp :: "u8 list \<Rightarrow> u8 list \<Rightarrow> int" where
  "namecmp x y = strncmp (two_arrays x y) 0 0x1000 (of_nat DIRSIZ)"

text \<open>\<^verbatim>\<open>struct dirent\<close> as bytes: the inode number and the name.\<close>

definition de_inum :: "u8 list \<Rightarrow> u16" where "de_inum x = get16 x 0"
definition de_name :: "u8 list \<Rightarrow> u8 list" where "de_name x = take DIRSIZ (drop 2 x)"

definition dirent_bytes :: "u16 \<Rightarrow> u8 list \<Rightarrow> u8 list" where
  "dirent_bytes inum name = le_bytes 2 inum @ load_bytes (strncpy (two_arrays [] name) 0 0x1000 (int DIRSIZ)) 0 DIRSIZ"

text \<open>The offsets of the entries of a directory of \<open>n\<close> bytes.\<close>

definition de_offs :: "u32 \<Rightarrow> u32 list" where
  "de_offs n = map (\<lambda>i. of_nat (16 * i)) [0..<(unat n + 15) div 16]"

primrec dirlookup_from :: "nat \<Rightarrow> u8 list \<Rightarrow> u32 list \<Rightarrow> 'a kfs_scheme \<Rightarrow> ((nat \<times> u32) option \<times> 'a kfs_scheme) outcome" where
  "dirlookup_from dp name [] s = Ok (None, s)"
| "dirlookup_from dp name (off # offs) s =
     obind (readi dp Local off 16 s) (\<lambda>(r, de, s).
     if r \<noteq> 16 then Panic ''dirlookup read''
     else if de_inum de = 0 then dirlookup_from dp name offs s
     else if namecmp name (de_name de) = 0
     then obind (iget (i_dev (icache s dp)) (ucast (de_inum de)) s) (\<lambda>(ip, s). Ok (Some (ip, off), s))
     else dirlookup_from dp name offs s)"

definition dirlookup :: "nat \<Rightarrow> u8 list \<Rightarrow> 'a kfs_scheme \<Rightarrow> ((nat \<times> u32) option \<times> 'a kfs_scheme) outcome" where
  "dirlookup dp name s =
     (if i_type (icache s dp) \<noteq> T_DIR then Panic ''dirlookup not DIR''
      else dirlookup_from dp name (de_offs (i_size (icache s dp))) s)"

text \<open>The offset where \<^verbatim>\<open>dirlink\<close> writes: the first unused entry, or the end.\<close>

primrec free_dirent :: "nat \<Rightarrow> u32 list \<Rightarrow> u32 \<Rightarrow> 'a kfs_scheme \<Rightarrow> (u32 \<times> 'a kfs_scheme) outcome" where
  "free_dirent dp [] last_off s = Ok (last_off, s)"
| "free_dirent dp (off # offs) last_off s =
     obind (readi dp Local off 16 s) (\<lambda>(r, de, s).
     if r \<noteq> 16 then Panic ''dirlink read''
     else if de_inum de = 0 then Ok (off, s) else free_dirent dp offs last_off s)"

definition dirlink :: "nat \<Rightarrow> u8 list \<Rightarrow> u32 \<Rightarrow> 'a kfs_scheme \<Rightarrow> (int \<times> 'a kfs_scheme) outcome" where
  "dirlink dp name inum s =
     obind (dirlookup dp name s) (\<lambda>(r, s).
     case r of
       Some (ip, _) \<Rightarrow> obind (iput ip s) (\<lambda>s. Ok (-1, s))
     | None \<Rightarrow>
         let offs = de_offs (i_size (icache s dp)) in
         obind (free_dirent dp offs (of_nat (16 * length offs)) s) (\<lambda>(off, s).
         obind (writei dp (Bytes (dirent_bytes (ucast inum) name)) off 16 s) (\<lambda>(r, s).
         if r \<noteq> 16 then Panic ''dirlink'' else Ok (0, s))))"

section \<open>Path names\<close>

definition SLASH :: u8 where "SLASH = 0x2F"

text \<open>The rest of the path and the array \<^verbatim>\<open>name\<close>; a path has no NUL among its bytes.\<close>

definition skipelem :: "u8 list \<Rightarrow> u8 list \<Rightarrow> (u8 list \<times> u8 list) option" where
  "skipelem path name =
     (let path = dropWhile (\<lambda>c. c = SLASH) path in
      if path = [] then None
      else let s = takeWhile (\<lambda>c. c \<noteq> SLASH) path;
               path = dropWhile (\<lambda>c. c \<noteq> SLASH) path;
               name = (if length s \<ge> DIRSIZ then splice name 0 (take DIRSIZ s)
                       else (splice name 0 s)[length s := 0])
           in Some (dropWhile (\<lambda>c. c = SLASH) path, name))"

lemma skipelem_shorter: "skipelem path name = Some (path', name') \<Longrightarrow> length path' < length path"
proof -
  assume "skipelem path name = Some (path', name')"
  then have p: "dropWhile (\<lambda>c. c = SLASH) path \<noteq> []"
      "path' = dropWhile (\<lambda>c. c = SLASH) (dropWhile (\<lambda>c. c \<noteq> SLASH) (dropWhile (\<lambda>c. c = SLASH) path))"
    by (auto simp: skipelem_def Let_def split: if_splits)
  obtain x xs where x: "dropWhile (\<lambda>c. c = SLASH) path = x # xs"
    using p(1) by (cases "dropWhile (\<lambda>c. c = SLASH) path") simp_all
  then have "x \<noteq> SLASH" using hd_dropWhile[OF p(1)] by simp
  then have "length path' \<le> length xs"
    unfolding p(2) x using length_dropWhile_le[of "\<lambda>c. c \<noteq> SLASH" xs] length_dropWhile_le[of "\<lambda>c. c = SLASH"] by (auto intro: order_trans)
  moreover have "length (x # xs) \<le> length path" unfolding x[symmetric] by (rule length_dropWhile_le)
  ultimately show "length path' < length path" by simp
qed

function namex_loop :: "u8 list \<Rightarrow> bool \<Rightarrow> u8 list \<Rightarrow> nat \<Rightarrow> 'a kfs_scheme \<Rightarrow> (nat option \<times> u8 list \<times> 'a kfs_scheme) outcome" where
  "namex_loop path parent_only name ip s =
     (case skipelem path name of
        None \<Rightarrow>
          if parent_only then obind (iput ip s) (\<lambda>s. Ok (None, name, s)) else Ok (Some ip, name, s)
      | Some (path, name) \<Rightarrow>
          obind (ilock (Some ip) s) (\<lambda>s.
          if i_type (icache s ip) \<noteq> T_DIR then obind (iunlockput ip s) (\<lambda>s. Ok (None, name, s))
          else if parent_only \<and> path = [] then obind (iunlock (Some ip) s) (\<lambda>s. Ok (Some ip, name, s))
          else obind (dirlookup ip name s) (\<lambda>(r, s).
            case r of
              None \<Rightarrow> obind (iunlockput ip s) (\<lambda>s. Ok (None, name, s))
            | Some (nxt_ip, _) \<Rightarrow> obind (iunlockput ip s) (\<lambda>s. namex_loop path parent_only name nxt_ip s))))"
  by pat_completeness auto

termination
  by (relation "measure (\<lambda>(path, _). length path)") (auto simp: skipelem_shorter)

declare namex_loop.simps [simp del]

definition namex :: "u8 list \<Rightarrow> bool \<Rightarrow> u8 list \<Rightarrow> 'a kfs_scheme \<Rightarrow> (nat option \<times> u8 list \<times> 'a kfs_scheme) outcome" where
  "namex path parent_only name s =
     obind (if path \<noteq> [] \<and> hd path = SLASH then iget ROOTDEV ROOTINO s
            else idup (the (cwd (procs s ! myproc s))) s) (\<lambda>(ip, s).
     namex_loop path parent_only name ip s)"

definition namei :: "u8 list \<Rightarrow> 'a kfs_scheme \<Rightarrow> (nat option \<times> 'a kfs_scheme) outcome" where
  "namei path s = obind (namex path False (replicate DIRSIZ 0) s) (\<lambda>(ip, _, s). Ok (ip, s))"

definition nameiparent :: "u8 list \<Rightarrow> u8 list \<Rightarrow> 'a kfs_scheme \<Rightarrow> (nat option \<times> u8 list \<times> 'a kfs_scheme) outcome" where
  "nameiparent path name s = namex path True name s"

end
