(* ===== verification/KBlocks.thy ===== *)
theory KBlocks
  imports KFs KRecover
begin

text \<open>
  The block allocator of \<^verbatim>\<open>kernel/fs.c\<close> inside a transaction: what \<^verbatim>\<open>balloc\<close>, \<^verbatim>\<open>bzero\<close> and \<^verbatim>\<open>bfree\<close> do to the contents of
  the blocks, as the buffer cache and the log show them to the rest of the file system.
\<close>

section \<open>The blocks as a transaction sees them\<close>

text \<open>The blocks the running transaction has recorded; each is pinned once in the cache and not locked.\<close>

definition recorded :: "u32 \<Rightarrow> 'a klog_scheme \<Rightarrow> u32 list" where
  "recorded d s = take (nat (l_n (logs s d))) (l_block (logs s d))"

definition pins :: "u32 \<Rightarrow> 'a klog_scheme \<Rightarrow> bcache_abs \<Rightarrow> bool" where
  "pins d s P \<longleftrightarrow> dom P = Pair d ` set (recorded d s) \<and> (\<forall>k e. P k = Some e \<longrightarrow> (\<exists>x. e = (x, 1, False)))"

definition txn_quiet :: "u32 \<Rightarrow> 'a klog_scheme \<Rightarrow> bool" where
  "txn_quiet d s \<longleftrightarrow> proc_ctx s \<and> bio_quiet s \<and> LkLog (unat d) \<notin> set (held s)"

text \<open>\<open>V\<close> is the contents of all blocks, the recorded ones as they are in the cache.\<close>

definition in_txn :: "u32 \<Rightarrow> dsk \<Rightarrow> 'a klog_scheme \<Rightarrow> bool" where
  "in_txn d V s \<longleftrightarrow> txn_quiet d s \<and> (\<exists>P. pins d s P \<and> bio_rel s P \<and> V = pcontent P (disk_at s))"

text \<open>The same, while the buffer \<open>bp\<close> of block \<open>n\<close> is locked.\<close>

definition hold :: "u32 \<Rightarrow> u32 \<Rightarrow> nat \<Rightarrow> dsk \<Rightarrow> 'a klog_scheme \<Rightarrow> bool" where
  "hold d n bp V s \<longleftrightarrow> txn_quiet d s \<and> bslot s bp (d, n) \<and> (\<exists>P. pins d s P
     \<and> bio_rel s (P((d, n) \<mapsto> (V (d, n), brefs P (d, n) + 1, True))) \<and> V = pcontent P (disk_at s))"

lemma in_txnI: "txn_quiet d s \<Longrightarrow> pins d s P \<Longrightarrow> bio_rel s P \<Longrightarrow> V = pcontent P (disk_at s) \<Longrightarrow> in_txn d V s"
  unfolding in_txn_def by blast

lemma holdI:
  "txn_quiet d s \<Longrightarrow> bslot s bp (d, n) \<Longrightarrow> pins d s P \<Longrightarrow> bio_rel s (P((d, n) \<mapsto> (V (d, n), brefs P (d, n) + 1, True)))
    \<Longrightarrow> V = pcontent P (disk_at s) \<Longrightarrow> hold d n bp V s"
  unfolding hold_def by blast

lemma bst_self: "txn_quiet d s \<Longrightarrow> bio_rel s P \<Longrightarrow> bst s P (disk_at s) (dtrace s) s"
  by (auto simp: bst_def txn_quiet_def bio_frame_def intro: exI[of _ id])

lemma bst_quiet:
  assumes "bst s0 P D T t" and "txn_quiet d s0"
  shows "txn_quiet d t"
  using bstD(2,3,7)[OF assms(1)] bio_frameD(1)[of s0 t] assms(2) by (simp add: txn_quiet_def)

lemma pins_frame: "logs t = logs s \<Longrightarrow> pins d t P = pins d s P"
  by (simp add: pins_def recorded_def)

lemma pins_Some: "pins d s P \<Longrightarrow> P k = Some (x, r, l) \<Longrightarrow> r = 1 \<and> \<not> l"
  unfolding pins_def by (cases k) blast

lemma pins_cases: "pins d s P \<Longrightarrow> V = pcontent P D \<Longrightarrow> P k = None \<and> V k = D k \<or> P k = Some (V k, 1, False)"
  by (cases "P k") (auto simp: pcontent_def dest!: pins_Some)

lemma pins_avail:
  assumes "pins d s P" and "log_room (logs s d)" and "(d, n) \<noteq> (0, 0)"
  shows "bavail P (d, n)"
proof -
  have "card (dom P) \<le> length (recorded d s)"
    using assms(1) card_image_le[of "set (recorded d s)" "Pair d"] card_length[of "recorded d s"] by (simp add: pins_def)
  also have "\<dots> < NBUF" using assms(2) by (auto simp: recorded_def log_room_def LOGSIZE_def MAXOPBLOCKS_def NBUF_def)
  finally show ?thesis
    using assms(3) by (auto simp: bavail_def split: option.split dest!: pins_Some[OF assms(1)])
qed

lemma txn_bread:
  assumes "in_txn d V s" and "log_room (logs s d)" and "(d, n) \<noteq> (0, 0)"
  shows "\<exists>bp t. bread d n s = Ok (bp, t) \<and> hold d n bp V t \<and> b_data (bufs t bp) = V (d, n) \<and> bio_frame s t"
proof -
  obtain P where P: "txn_quiet d s" "pins d s P" "bio_rel s P" "V = pcontent P (disk_at s)"
    using assms(1) by (auto simp: in_txn_def)
  obtain bp t where t: "bread d n s = Ok (bp, t)" "bslot t bp (d, n)"
      "bst s (P((d, n) \<mapsto> (V (d, n), brefs P (d, n) + 1, True))) (disk_at s) (dtrace s) t"
    using bst_bread[OF bst_self[OF P(1,3)] pins_avail[OF P(2) assms(2,3)]] unfolding P(4)[symmetric] by blast
  note b = bstD[OF t(3)]
  have "txn_quiet d t" by (rule bst_quiet[OF t(3) P(1)])
  then have "hold d n bp V t" using t(2) _ b(1) by (rule holdI) (simp_all add: pins_frame[OF b(6)] P(2,4) b(4))
  moreover have "b_data (bufs t bp) = V (d, n)" using bst_data[OF t(3,2)] by simp
  ultimately show ?thesis using t(1) b(7) by blast
qed

lemma txn_brelse:
  assumes "hold d n bp V s"
  shows "\<exists>t. brelse bp s = Ok t \<and> in_txn d V t \<and> bio_frame s t"
proof -
  obtain P where P: "txn_quiet d s" "bslot s bp (d, n)" "pins d s P"
      "bio_rel s (P((d, n) \<mapsto> (V (d, n), brefs P (d, n) + 1, True)))" "V = pcontent P (disk_at s)"
    using assms by (auto simp: hold_def)
  let ?Q = "P((d, n) \<mapsto> (V (d, n), brefs P (d, n) + 1, True))"
  note pin = pins_cases[OF P(3,5), of "(d, n)"]
  then have one: "brefs P (d, n) + 1 = 1 \<longrightarrow> V (d, n) = disk_at s (d, n)" by (auto simp: brefs_def)
  obtain t where t: "brelse bp s = Ok t"
      "bst s (?Q((d, n) := (if brefs P (d, n) + 1 = 1 then None else Some (V (d, n), brefs P (d, n) + 1 - 1, False)))) (disk_at s) (dtrace s) t"
    using bst_brelse[OF bst_self[OF P(1,4)] P(2) _ one] by auto
  have "?Q((d, n) := (if brefs P (d, n) + 1 = 1 then None else Some (V (d, n), brefs P (d, n) + 1 - 1, False))) = P"
    using pin by (auto simp: brefs_def fun_eq_iff)
  note st = t(2)[unfolded this] and b = bstD[OF t(2)[unfolded this]]
  have "txn_quiet d t" by (rule bst_quiet[OF st P(1)])
  then have "in_txn d V t" using _ b(1) by (rule in_txnI) (simp_all add: pins_frame[OF b(6)] P(3,5) b(4))
  then show ?thesis using t(1) b(7) by blast
qed

text \<open>Changing the locked block, recording it in the log and releasing it.\<close>

lemma txn_update:
  fixes s :: "'a klog_scheme"
  assumes h: "hold d n bp V s" and room: "log_room (logs s d)"
  shows "\<exists>t. obind (log_write bp (d_upd bp f s)) (brelse bp) = Ok t \<and> in_txn d (V((d, n) := f (V (d, n)))) t
    \<and> bio_frame (if n \<in> set (recorded d s) then s else l_upd d (log_add n) s) t"
proof -
  let ?k = "(d, n)" let ?V = "V(?k := f (V ?k))"
  obtain P where P: "txn_quiet d s" "bslot s bp ?k" "pins d s P" "bio_rel s (P(?k \<mapsto> (V ?k, brefs P ?k + 1, True)))" "V = pcontent P (disk_at s)"
    using h by (auto simp: hold_def)
  let ?s = "d_upd bp f s"
  let ?r = "brefs P ?k + 1" let ?P = "P(?k \<mapsto> (V ?k, ?r, True))" let ?Q = "P(?k \<mapsto> (f (V ?k), ?r, True))"
  note st = bst_self[OF P(1,4)]
  have old: "b_data (bufs s bp) = V ?k" using bst_data[OF st P(2)] by simp
  have s: "?s = b_upd bp (\<lambda>b. b\<lparr>b_data := f (V ?k)\<rparr>) s" by (simp add: d_upd_def b_upd_def old)
  have data: "bst s ?Q (disk_at s) (dtrace s) ?s" "bslot ?s bp ?k"
    using bst_data[OF st P(2), of "V ?k" ?r True "f (V ?k)"] bkeptD[of ?P s ?s ?k bp] P(2) unfolding s by simp_all
  have lk: "LkLog (unat d) \<notin> set (held s)" using P(1) by (simp add: txn_quiet_def)
  have lookup: "P ?k = None \<longleftrightarrow> n \<notin> set (recorded d s)" using P(3) by (auto simp: pins_def)
  let ?P' = "P(?k \<mapsto> (f (V ?k), 1, False))"
  have V: "?V = pcontent ?P' (disk_at s)" by (auto simp: P(5) pcontent_def fun_eq_iff)
  have fin: "in_txn d ?V t" if "bst s0 ?P' (disk_at s) (dtrace s) t" "txn_quiet d s0" "dom ?P' = Pair d ` set (recorded d s0)" for s0 t :: "'a klog_scheme"
  proof (rule in_txnI)
    note b = bstD[OF that(1)]
    have "\<exists>x. e = (x, 1, False)" if "?P' j = Some e" for j e
      using that pins_Some[OF P(3), of j] by (cases e) (auto split: if_splits)
    then show "pins d t ?P'" using that(3) unfolding pins_def recorded_def b(6) by blast
    show "txn_quiet d t" by (rule bst_quiet[OF that(1,2)])
    show "bio_rel t ?P'" "?V = pcontent ?P' (disk_at t)" using b(1,4) V by simp_all
  qed
  show ?thesis
  proof (cases "n \<in> set (recorded d s)")
    case True
    then have pin: "P ?k = Some (V ?k, 1, False)" using lookup pins_cases[OF P(3,5), of ?k] by auto
    have w: "log_write bp ?s = Ok ?s"
      using data(2) True room lk by (intro log_write_absorbed[of d]) (simp_all add: bslot_def bkey_def recorded_def d_upd_def)
    have r: "?r = 2" using pin by (simp add: brefs_def)
    obtain t where t: "brelse bp ?s = Ok t" "bst s ?P' (disk_at s) (dtrace s) t"
      using bst_brelse[OF data, of "f (V ?k)" 2] unfolding r by auto
    have "dom ?P' = Pair d ` set (recorded d s)" using P(3) True by (auto simp: pins_def)
    from fin[OF t(2) P(1) this] show ?thesis using True w t(1) bstD(7)[OF t(2)] by simp
  next
    case False
    let ?L = "l_upd d (log_add n) s"
    have r: "?r = 1" using lookup False by (simp add: brefs_def)
    obtain u where u: "log_write bp ?s = Ok u" "bst ?L (P(?k \<mapsto> (f (V ?k), 2, True))) (disk_at s) (dtrace s) u" "bslot u bp ?k"
      using bst_log_write_added[OF data refl _ room lk, of "f (V ?k)" 1] False unfolding r recorded_def by auto
    obtain t where t: "brelse bp u = Ok t" "bst ?L ?P' (disk_at s) (dtrace s) t"
      using bst_brelse[OF u(2,3), of "f (V ?k)" 2] by auto
    have "txn_quiet d ?L" using bstD(8,9)[OF t(2)] lk unfolding txn_quiet_def l_upd_simps by blast
    moreover have "dom ?P' = Pair d ` set (recorded d ?L)"
      using P(3) log_add_take(1)[OF room, of n] by (auto simp: pins_def recorded_def)
    ultimately have "in_txn d ?V t" by (rule fin[OF t(2)])
    then show ?thesis using False u(1) t(1) bstD(7)[OF t(2)] by simp
  qed
qed

section \<open>The allocation bitmap\<close>

text \<open>There is room in the log for \<open>k\<close> more blocks.\<close>

definition log_free :: "int \<Rightarrow> dlog \<Rightarrow> bool" where
  "log_free k l \<longleftrightarrow> 0 \<le> l_n l \<and> l_n l + k \<le> LOGSIZE \<and> l_n l + k \<le> l_size l - 1 \<and> 1 \<le> l_outstanding l \<and> length (l_block l) = nat LOGSIZE"

lemma log_free_room: "log_free k l \<Longrightarrow> 1 \<le> k \<Longrightarrow> log_room l"
  by (simp add: log_free_def log_room_def)

lemma bio_frame_sb:
  assumes "bio_frame s t"
  shows "sb t = sb s"
proof -
  have e: "t = s\<lparr>procs := procs t, bufs := bufs t, blinks := blinks t, disks := disks t, dtrace := dtrace t\<rparr>"
    using assms by (simp add: bio_frame_def)
  show ?thesis by (subst e) simp
qed

lemma update_frame:
  fixes s t :: "'a kfs_scheme"
  assumes "bio_frame (if c then s else l_upd d (log_add n) s) t"
  shows "sb t = sb s" and "log_free (k + 1) (logs s d) \<Longrightarrow> log_free k (logs t d)"
proof -
  have l: "sb (l_upd d (log_add n) s) = sb s" by (simp add: l_upd_def)
  show "sb t = sb s" using bio_frame_sb[OF assms] l by (cases c) simp_all
  have "logs t d = logs s d \<or> logs t d = log_add n (logs s d)" using bio_frame_logs[OF assms] by (cases c) simp_all
  then show "log_free (k + 1) (logs s d) \<Longrightarrow> log_free k (logs t d)" by (auto simp: log_free_def log_add_def)
qed

text \<open>The bit of block \<open>b\<close> in the bitmap, and the effect of setting and clearing it.\<close>

definition bused :: "u32 \<Rightarrow> superblock \<Rightarrow> dsk \<Rightarrow> nat \<Rightarrow> bool" where
  "bused d x V b \<longleftrightarrow> bit (V (d, BBLOCK (of_nat b) x) ! (b mod BPB div 8)) (b mod BPB mod 8)"

definition bmap_end :: "superblock \<Rightarrow> nat" where
  "bmap_end x = unat (sb_bmapstart x) + (unat (sb_size x) - 1) div BPB"

text \<open>
  The file system is laid out as \<^verbatim>\<open>mkfs\<close> does: the bitmap lies in front of the data blocks, and its blocks and all in
  front of it are marked as used.
\<close>

definition fs_ok :: "u32 \<Rightarrow> superblock \<Rightarrow> dsk \<Rightarrow> bool" where
  "fs_ok d x V \<longleftrightarrow> unat (sb_size x) < 2 ^ 31 \<and> 0 < sb_bmapstart x \<and> bmap_end x < unat (sb_size x)
     \<and> (\<forall>b < unat (sb_size x). length (V (d, BBLOCK (of_nat b) x)) = BSIZE) \<and> (\<forall>b \<le> bmap_end x. bused d x V b)"

lemma BBLOCK_unat:
  assumes "fs_ok d x V" and "b < unat (sb_size x)"
  shows "unat (BBLOCK (of_nat b) x) = b div BPB + unat (sb_bmapstart x)" and "unat (BBLOCK (of_nat b) x) \<le> bmap_end x"
    and "0 < unat (BBLOCK (of_nat b) x)"
proof -
  have s: "unat (sb_size x) < 2147483648" "bmap_end x < unat (sb_size x)" "0 < unat (sb_bmapstart x)"
    using assms(1) by (simp_all add: fs_ok_def word_less_nat_alt)
  have b: "unat (of_nat b :: u32) = b" using assms(2) s(1) by simp
  have le: "b div BPB \<le> (unat (sb_size x) - 1) div BPB" using assms(2) by (intro div_le_mono) simp
  then have "b div BPB + unat (sb_bmapstart x) < 2147483648" using s by (simp add: bmap_end_def)
  then show e: "unat (BBLOCK (of_nat b) x) = b div BPB + unat (sb_bmapstart x)"
    unfolding BBLOCK_def b by (subst unat_plus_u32) simp_all
  show "unat (BBLOCK (of_nat b) x) \<le> bmap_end x" using e le by (simp add: bmap_end_def)
  show "0 < unat (BBLOCK (of_nat b) x)" using e s(3) by simp
qed

text \<open>Two blocks share a byte of the bitmap or not; the bit of one is not the bit of the other.\<close>

lemma bused_update:
  assumes ok: "fs_ok d x V" and b: "b < unat (sb_size x)" and c: "c < unat (sb_size x)"
    and V': "V' = V((d, BBLOCK (of_nat b) x) := (V (d, BBLOCK (of_nat b) x))[b mod BPB div 8 := v])"
    and v: "\<And>i. i < 8 \<Longrightarrow> bit v i = (if i = b mod BPB mod 8 then on else bit (V (d, BBLOCK (of_nat b) x) ! (b mod BPB div 8)) i)"
  shows "bused d x V' c \<longleftrightarrow> (if c = b then on else bused d x V c)"
proof -
  have len: "length (V (d, BBLOCK (of_nat b) x)) = BSIZE" using ok b by (simp add: fs_ok_def)
  have in_range: "c mod BPB div 8 < BSIZE" for c by (simp add: BPB_def BSIZE_def)
  show ?thesis
  proof (cases "c div BPB = b div BPB")
    case True
    then have same: "BBLOCK (of_nat c) x = BBLOCK (of_nat b) x" using BBLOCK_unat(1)[OF ok b] BBLOCK_unat(1)[OF ok c] by (simp add: word_unat_eq_iff)
    show ?thesis
    proof (cases "c mod BPB div 8 = b mod BPB div 8")
      case True
      have "c = b \<longleftrightarrow> c mod BPB mod 8 = b mod BPB mod 8"
        using True \<open>c div BPB = b div BPB\<close> by (metis div_mult_mod_eq)
      then show ?thesis using True same len in_range[of b] v[of "c mod BPB mod 8"] by (simp add: bused_def V')
    next
      case False
      then show ?thesis using same by (auto simp: bused_def V')
    qed
  next
    case False
    then have "BBLOCK (of_nat c) x \<noteq> BBLOCK (of_nat b) x"
      using BBLOCK_unat(1)[OF ok b] BBLOCK_unat(1)[OF ok c] by auto
    then show ?thesis using False by (auto simp: bused_def V')
  qed
qed

lemma mask_bits:
  fixes a :: u8
  shows "a AND bit_mask m = 0 \<longleftrightarrow> \<not> bit a (m mod 8)"
    and "i < 8 \<Longrightarrow> bit (a OR bit_mask m) i \<longleftrightarrow> i = m mod 8 \<or> bit a i"
    and "i < 8 \<Longrightarrow> bit (a AND NOT (bit_mask m)) i \<longleftrightarrow> i \<noteq> m mod 8 \<and> bit a i"
  by (auto simp: bit_mask_def push_bit_eq_mult and_exp_eq_0_iff_not_bit bit_simps)

text \<open>Setting a clear bit, and clearing a set one, of a data block keeps the layout.\<close>

lemma fs_ok_update:
  assumes ok: "fs_ok d x V" and b: "b < unat (sb_size x)" "bmap_end x < b"
    and V': "V' = V((d, BBLOCK (of_nat b) x) := (V (d, BBLOCK (of_nat b) x))[b mod BPB div 8 := v])"
    and v: "\<And>i. i < 8 \<Longrightarrow> bit v i = (if i = b mod BPB mod 8 then on else bit (V (d, BBLOCK (of_nat b) x) ! (b mod BPB div 8)) i)"
  shows "fs_ok d x V'"
proof -
  have "bused d x V' c" if "c \<le> bmap_end x" for c
    using that ok b bused_update[OF ok b(1) _ V' v, of c] by (auto simp: fs_ok_def)
  moreover have "length (V' k) = length (V k)" for k by (simp add: V')
  ultimately show ?thesis using ok by (simp add: fs_ok_def)
qed

text \<open>Writing a data block changes no bit of the map.\<close>

lemma data_write:
  assumes ok: "fs_ok d x V" and b: "b < unat (sb_size x)" "bmap_end x < b"
  shows "c < unat (sb_size x) \<Longrightarrow> bused d x (V((d, of_nat b) := y)) c = bused d x V c" and "fs_ok d x (V((d, of_nat b) := y))"
proof -
  have ne: "BBLOCK (of_nat c) x \<noteq> of_nat b" if "c < unat (sb_size x)" for c
    using BBLOCK_unat(2)[OF ok that] b ok by (auto simp: fs_ok_def)
  then show u: "bused d x (V((d, of_nat b) := y)) c = bused d x V c" if "c < unat (sb_size x)" for c
    using that by (simp add: bused_def)
  show "fs_ok d x (V((d, of_nat b) := y))" using ok ne u by (simp add: fs_ok_def)
qed

lemma find_append: "find P (xs @ ys) = (case find P xs of None \<Rightarrow> find P ys | Some x \<Rightarrow> Some x)"
  by (induction xs) auto

lemma find_offset:
  "find (\<lambda>i. b + i < n \<and> Q (b + i)) [0..<m] = map_option (\<lambda>c. c - b) (find Q [b..<min n (b + m)])"
proof (induction m)
  case 0
  then show ?case by simp
next
  case (Suc m)
  show ?case
  proof (cases "b + m < n")
    case True
    then have "min n (b + Suc m) = Suc (b + m)" "min n (b + m) = b + m" by simp_all
    then have "[b..<min n (b + Suc m)] = [b..<min n (b + m)] @ [b + m]" by simp
    then show ?thesis using Suc True by (auto simp: find_append split: option.split)
  next
    case False
    then have "min n (b + Suc m) = min n (b + m)" by simp
    then show ?thesis using Suc False by (auto simp: find_append split: option.split)
  qed
qed

text \<open>The search in one block of the bitmap.\<close>

lemma free_bit_search:
  assumes ok: "fs_ok d x V" and n: "n = unat (sb_size x)"
  shows "free_bit (V (d, BBLOCK (of_nat (i * BPB)) x)) (i * BPB) n =
    map_option (\<lambda>c. c - i * BPB) (find (\<lambda>c. \<not> bused d x V c) [i * BPB..<min n (i * BPB + BPB)])"
proof -
  have "i * BPB + j < n \<and> V (d, BBLOCK (of_nat (i * BPB)) x) ! (j div 8) AND bit_mask j = 0 \<longleftrightarrow>
      i * BPB + j < n \<and> \<not> bused d x V (i * BPB + j)" if "j < BPB" for j
  proof -
    have "BBLOCK (of_nat (i * BPB + j)) x = BBLOCK (of_nat (i * BPB)) x" if "i * BPB + j < n"
      using that \<open>j < BPB\<close> BBLOCK_unat(1)[OF ok, of "i * BPB + j"] BBLOCK_unat(1)[OF ok, of "i * BPB"]
      by (simp add: n word_unat_eq_iff BPB_def BSIZE_def)
    then show ?thesis using that by (auto simp: bused_def mask_bits(1))
  qed
  then have "free_bit (V (d, BBLOCK (of_nat (i * BPB)) x)) (i * BPB) n = find (\<lambda>j. i * BPB + j < n \<and> \<not> bused d x V (i * BPB + j)) [0..<BPB]"
    unfolding free_bit_def by (intro find_cong) auto
  then show ?thesis using find_offset[of "i * BPB" n "\<lambda>c. \<not> bused d x V c" BPB] by simp
qed

lemma bzero_txn:
  fixes s :: "'a kfs_scheme"
  assumes "in_txn d V s" and "log_free (k + 1) (logs s d)" and "0 \<le> k" and "n \<noteq> 0"
  shows "\<exists>t. bzero d n s = Ok t \<and> in_txn d (V((d, n) := replicate BSIZE 0)) t \<and> log_free k (logs t d) \<and> sb t = sb s"
proof -
  have room: "log_room (logs s d)" using log_free_room[OF assms(2)] assms(3) by simp
  obtain bp u where u: "bread d n s = Ok (bp, u)" "hold d n bp V u" "bio_frame s u"
    using txn_bread[OF assms(1) room, of n] assms(4) by auto
  have lu: "logs u = logs s" "sb u = sb s" using bio_frame_logs[OF u(3)] bio_frame_sb[OF u(3)] .
  obtain t where t: "obind (log_write bp (d_upd bp (\<lambda>_. replicate BSIZE 0) u)) (brelse bp) = Ok t"
      "in_txn d (V((d, n) := replicate BSIZE 0)) t" "bio_frame (if n \<in> set (recorded d u) then u else l_upd d (log_add n) u) t"
    using txn_update[OF u(2), of "\<lambda>_. replicate BSIZE 0"] room lu(1) by auto
  then show ?thesis using update_frame(1)[OF t(3)] update_frame(2)[OF t(3), of k] u(1) assms(2) lu by (simp add: bzero_def)
qed

section \<open>Allocating and freeing\<close>

text \<open>What allocating and freeing block \<open>b\<close> make of the contents \<open>V\<close>.\<close>

definition allocated :: "u32 \<Rightarrow> superblock \<Rightarrow> dsk \<Rightarrow> nat \<Rightarrow> dsk \<Rightarrow> bool" where
  "allocated d x V b V' \<longleftrightarrow> V' (d, of_nat b) = replicate BSIZE 0
     \<and> (\<forall>c < unat (sb_size x). bused d x V' c \<longleftrightarrow> c = b \<or> bused d x V c)
     \<and> (\<forall>k. k \<noteq> (d, of_nat b) \<longrightarrow> k \<noteq> (d, BBLOCK (of_nat b) x) \<longrightarrow> V' k = V k)"

definition freed :: "u32 \<Rightarrow> superblock \<Rightarrow> dsk \<Rightarrow> nat \<Rightarrow> dsk \<Rightarrow> bool" where
  "freed d x V b V' \<longleftrightarrow> (\<forall>c < unat (sb_size x). bused d x V' c \<longleftrightarrow> c \<noteq> b \<and> bused d x V c)
     \<and> (\<forall>k. k \<noteq> (d, BBLOCK (of_nat b) x) \<longrightarrow> V' k = V k)"

definition balloc_post :: "u32 \<Rightarrow> superblock \<Rightarrow> dsk \<Rightarrow> nat \<Rightarrow> u32 \<times> 'a kfs_scheme \<Rightarrow> bool" where
  "balloc_post d x V b = (\<lambda>(r, t). r = of_nat b \<and> sb t = x \<and> (\<exists>V'. in_txn d V' t \<and> fs_ok d x V' \<and> allocated d x V b V'))"

lemma fs_data:
  assumes "fs_ok d x V" and "\<not> bused d x V b"
  shows "bmap_end x < b" and "b \<noteq> 0"
proof -
  show "bmap_end x < b" using assms by (auto simp: fs_ok_def not_less[symmetric])
  then show "b \<noteq> 0" by simp
qed

lemma balloc_take:
  fixes s :: "'a kfs_scheme"
  assumes h: "hold d (BBLOCK (of_nat b) x) bp V s" and x: "x = sb s" and free: "log_free 2 (logs s d)"
    and ok: "fs_ok d x V" and b: "b < unat (sb_size x)" "\<not> bused d x V b" and bi: "bi = b mod BPB"
  shows "returns (obind (log_write bp (d_upd bp (\<lambda>y. y[bi div 8 := y ! (bi div 8) OR bit_mask bi]) s)) (\<lambda>s.
     obind (brelse bp s) (\<lambda>s. obind (bzero d (of_nat b) s) (\<lambda>s. Ok (of_nat b, s))))) (balloc_post d x V b)"
proof -
  let ?k = "(d, BBLOCK (of_nat b) x)" let ?f = "\<lambda>y :: u8 list. y[bi div 8 := y ! (bi div 8) OR bit_mask bi]"
  define V1 where "V1 = V(?k := ?f (V ?k))"
  note data = fs_data[OF ok b(2)]
  have v: "bit (V ?k ! (bi div 8) OR bit_mask bi) i = (if i = bi mod 8 then True else bit (V ?k ! (bi div 8)) i)" if "i < 8" for i
    using that by (simp add: mask_bits(2))
  have ok1: "fs_ok d x V1" by (rule fs_ok_update[OF ok b(1) data(1) V1_def[unfolded bi] v[unfolded bi]])
  have used: "bused d x V1 c \<longleftrightarrow> c = b \<or> bused d x V c" if "c < unat (sb_size x)" for c
    using bused_update[OF ok b(1) that V1_def[unfolded bi] v[unfolded bi]] by simp
  obtain u where u: "obind (log_write bp (d_upd bp ?f s)) (brelse bp) = Ok u" "in_txn d V1 u"
      "bio_frame (if BBLOCK (of_nat b) x \<in> set (recorded d s) then s else l_upd d (log_add (BBLOCK (of_nat b) x)) s) u"
    using txn_update[OF h log_free_room[OF free], of ?f] unfolding V1_def by auto
  have fu: "log_free (0 + 1) (logs u d)" "sb u = x" using update_frame(1)[OF u(3)] update_frame(2)[OF u(3), of 1] free x by simp_all
  have nz: "(of_nat b :: u32) \<noteq> 0" using b(1) data(2) ok by (auto simp: word_unat_eq_iff fs_ok_def)
  obtain t where t: "bzero d (of_nat b) u = Ok t" "in_txn d (V1((d, of_nat b) := replicate BSIZE 0)) t" "sb t = x"
    using bzero_txn[OF u(2) fu(1) _ nz] fu(2) by auto
  have "allocated d x V b (V1((d, of_nat b) := replicate BSIZE 0))"
    unfolding allocated_def using data_write(1)[OF ok1 b(1) data(1)] used by (auto simp: V1_def)
  moreover have "fs_ok d x (V1((d, of_nat b) := replicate BSIZE 0))" by (rule data_write(2)[OF ok1 b(1) data(1)])
  ultimately have post: "balloc_post d x V b (of_nat b, t)" using t(2,3) unfolding balloc_post_def by blast
  have "obind (log_write bp (d_upd bp ?f s)) (\<lambda>s. obind (brelse bp s) (\<lambda>s. obind (bzero d (of_nat b) s) (\<lambda>s. Ok (of_nat b :: u32, s))))
      = obind (obind (log_write bp (d_upd bp ?f s)) (brelse bp)) (\<lambda>s. obind (bzero d (of_nat b) s) (\<lambda>s. Ok (of_nat b, s)))"
    by (simp add: obind_assoc)
  also have "\<dots> = Ok (of_nat b, t)" using u(1) t(1) by simp
  finally show ?thesis using post by simp
qed

lemma block_split:
  assumes "i * BPB \<le> b" and "b < i * BPB + BPB"
  shows "b div BPB = i" and "b mod BPB = b - i * BPB"
proof -
  show "b div BPB = i" using assms by (intro div_nat_eqI) (simp_all add: mult.commute)
  then show "b mod BPB = b - i * BPB" using div_mult_mod_eq[of b BPB] by simp
qed

lemma balloc_from_search:
  fixes s :: "'a kfs_scheme"
  assumes "in_txn d V s" and "log_free 2 (logs s d)" and "fs_ok d x V" and "sb s = x" and "n = unat (sb_size x)"
    and "i \<le> nb" and "nb = (n + BPB - 1) div BPB"
  shows "case find (\<lambda>c. \<not> bused d x V c) [i * BPB..<n] of
      None \<Rightarrow> balloc_from d (map (\<lambda>i. i * BPB) [i..<nb]) s = Panic ''balloc: out of blocks''
    | Some b \<Rightarrow> returns (balloc_from d (map (\<lambda>i. i * BPB) [i..<nb]) s) (balloc_post d x V b)"
  using assms(1,2,4,6)
proof (induction "nb - i" arbitrary: i s)
  case 0
  have "n \<le> nb * BPB" using assms(7) by (simp add: BPB_def BSIZE_def)
  then show ?case using 0 by simp
next
  case (Suc k)
  have ok: "fs_ok d x V" and n: "n = unat (sb_size x)" by (rule assms(3,5))+
  let ?B = "i * BPB" let ?m = "min n (?B + BPB)"
  have i: "i < nb" using Suc by simp
  have Bn: "?B < n" using i assms(7) by (simp add: BPB_def BSIZE_def)
  have room: "log_room (logs s d)" using log_free_room[OF Suc.prems(2)] by simp
  have "BBLOCK (of_nat ?B) x \<noteq> 0" using BBLOCK_unat(3)[OF ok, of ?B] Bn n by auto
  then obtain bp u where u: "bread d (BBLOCK (of_nat ?B) x) s = Ok (bp, u)" "hold d (BBLOCK (of_nat ?B) x) bp V u"
      "b_data (bufs u bp) = V (d, BBLOCK (of_nat ?B) x)" "bio_frame s u"
    using txn_bread[OF Suc.prems(1) room] by blast
  have lu: "logs u = logs s" "sb u = x" using bio_frame_logs[OF u(4)] bio_frame_sb[OF u(4)] Suc.prems(3) by simp_all
  have upt: "[?B..<n] = [?B..<?m] @ [Suc i * BPB..<n]"
  proof (cases "?B + BPB \<le> n")
    case True
    then show ?thesis using upt_add_eq_append[of ?B "?B + BPB" "n - (?B + BPB)"] by (simp add: min_def add.commute)
  next
    case False
    then show ?thesis by (simp add: min_def)
  qed
  have list: "[i..<nb] = i # [Suc i..<nb]" using i by (rule upt_conv_Cons)
  note bit = free_bit_search[OF ok n, of i]
  show ?case
  proof (cases "find (\<lambda>c. \<not> bused d x V c) [?B..<?m]")
    case None
    obtain t where t: "brelse bp u = Ok t" "in_txn d V t" "bio_frame u t" using txn_brelse[OF u(2)] by blast
    have run: "balloc_from d (map (\<lambda>i. i * BPB) [i..<nb]) s = balloc_from d (map (\<lambda>i. i * BPB) [Suc i..<nb]) t"
      using None bit u(1,3) t(1) lu Suc.prems(3) n by (simp add: list)
    have "logs t = logs s" "sb t = x" using bio_frame_logs[OF t(3)] bio_frame_sb[OF t(3)] lu by simp_all
    then show ?thesis using Suc.hyps(1)[of "Suc i" t] Suc.hyps(2) Suc.prems t(2) i None unfolding run upt find_append by simp
  next
    case (Some b)
    then have b: "?B \<le> b" "b < ?m" "\<not> bused d x V b" using find_SomeD[OF Some] by auto
    note split = block_split[of i b]
    have "b div BPB = i" "b mod BPB = b - ?B" using split b by auto
    moreover from this have "BBLOCK (of_nat b) x = BBLOCK (of_nat ?B) x"
      using BBLOCK_unat(1)[OF ok, of b] BBLOCK_unat(1)[OF ok, of ?B] b(2) Bn n by (simp add: word_unat_eq_iff BPB_def BSIZE_def)
    moreover have "?B + (b - ?B) = b" using b(1) by simp
    ultimately have run: "balloc_from d (map (\<lambda>i. i * BPB) [i..<nb]) s =
        obind (log_write bp (d_upd bp (\<lambda>y. y[b mod BPB div 8 := y ! (b mod BPB div 8) OR bit_mask (b mod BPB)]) u)) (\<lambda>s.
        obind (brelse bp s) (\<lambda>s. obind (bzero d (of_nat b) s) (\<lambda>s. Ok (of_nat b :: u32, s))))"
      and h: "hold d (BBLOCK (of_nat b) x) bp V u"
      using Some bit u(1,2,3) lu Suc.prems(3) n by (simp_all add: list del: of_nat_add)
    have "returns (balloc_from d (map (\<lambda>i. i * BPB) [i..<nb]) s) (balloc_post d x V b)"
      unfolding run using Suc.prems(2) lu b n by (intro balloc_take[OF h _ _ ok]) simp_all
    then show ?thesis using Some unfolding upt find_append by simp
  qed
qed

lemma bfree_txn:
  fixes s :: "'a kfs_scheme"
  assumes txn: "in_txn d V s" and free: "log_free 2 (logs s d)" and ok: "fs_ok d x V" and x: "sb s = x"
    and b: "b < unat (sb_size x)" "bmap_end x < b"
  shows "if bused d x V b
    then returns (bfree d (of_nat b) s) (\<lambda>t. sb t = x \<and> (\<exists>V'. in_txn d V' t \<and> fs_ok d x V' \<and> freed d x V b V'))
    else bfree d (of_nat b) s = Panic ''freeing free block''"
proof -
  let ?k = "(d, BBLOCK (of_nat b) x)" let ?bi = "b mod BPB"
  let ?f = "\<lambda>y :: u8 list. y[?bi div 8 := y ! (?bi div 8) AND NOT (bit_mask ?bi)]"
  have ub: "unat (of_nat b :: u32) = b" using b(1) ok by (simp add: fs_ok_def)
  have room: "log_room (logs s d)" using log_free_room[OF free] by simp
  have "BBLOCK (of_nat b) x \<noteq> 0" using BBLOCK_unat(3)[OF ok b(1)] by auto
  then obtain bp u where u: "bread d (BBLOCK (of_nat b) x) s = Ok (bp, u)" "hold d (BBLOCK (of_nat b) x) bp V u"
      "b_data (bufs u bp) = V ?k" "bio_frame s u"
    using txn_bread[OF txn room] by blast
  have lu: "logs u = logs s" "sb u = x" using bio_frame_logs[OF u(4)] bio_frame_sb[OF u(4)] x by simp_all
  have set: "V ?k ! (?bi div 8) AND bit_mask ?bi = 0 \<longleftrightarrow> \<not> bused d x V b" by (simp add: mask_bits(1) bused_def)
  show ?thesis
  proof (cases "bused d x V b")
    case False
    then show ?thesis using u(1,3) x set by (simp add: bfree_def ub Let_def)
  next
    case True
    define V' where "V' = V(?k := ?f (V ?k))"
    have v: "bit (V ?k ! (?bi div 8) AND NOT (bit_mask ?bi)) i = (if i = ?bi mod 8 then False else bit (V ?k ! (?bi div 8)) i)" if "i < 8" for i
      using that by (simp add: mask_bits(3))
    obtain t where t: "obind (log_write bp (d_upd bp ?f u)) (brelse bp) = Ok t" "in_txn d V' t"
        "bio_frame (if BBLOCK (of_nat b) x \<in> set (recorded d u) then u else l_upd d (log_add (BBLOCK (of_nat b) x)) u) t"
      using txn_update[OF u(2), of ?f] room lu(1) unfolding V'_def by auto
    have "bfree d (of_nat b) s = Ok t" using u(1,3) x set True t(1) by (simp add: bfree_def ub Let_def)
    moreover have "freed d x V b V'"
      using bused_update[OF ok b(1) _ V'_def v] by (auto simp: freed_def V'_def)
    moreover have "fs_ok d x V'" by (rule fs_ok_update[OF ok b V'_def v])
    ultimately show ?thesis using True t(2) update_frame(1)[OF t(3)] lu(2) by auto
  qed
qed


text \<open>A disk of 1000 blocks whose bitmap is block 45, with the blocks up to 45 in use.\<close>

definition fs_disk :: dsk where
  "fs_disk = (\<lambda>(d, n). if n = 45 then replicate 5 255 @ [63] @ replicate 1018 0 else replicate 1024 0)"

definition fs_example :: kfs where
  "fs_example = binit (klog.extend (boot_log fs_disk demo_log)
     \<lparr>icache = \<lambda>_. \<lparr>i_dev = 0, i_inum = 0, i_ref = 0, i_lock = initsleeplock, i_valid = False, i_type = 0, i_major = 0,
        i_minor = 0, i_nlink = 0, i_size = 0, i_addrs = replicate 13 0\<rparr>,
      sb = \<lparr>sb_magic = FSMAGIC, sb_size = 1000, sb_nblocks = 954, sb_ninodes = 200, sb_nlog = 30, sb_logstart = 2,
        sb_inodestart = 32, sb_bmapstart = 45\<rparr>\<rparr>)"

lemma binit_sb:
  fixes s :: "'a kfs_scheme"
  shows "sb (binit s) = sb s"
proof -
  have "sb (fold binit_step is s) = sb s" for "is" and s :: "'a kfs_scheme"
    by (induction "is" arbitrary: s) (simp_all add: binit_step_def b_upd_def)
  then show ?thesis unfolding binit_eq by simp
qed

lemma fs_example_ready:
  "in_txn 1 fs_disk fs_example" "log_free 2 (logs fs_example 1)" "sb_size (sb fs_example) = 1000" "sb_bmapstart (sb fs_example) = 45"
proof -
  define s :: kfs where "s = klog.extend (boot_log fs_disk demo_log)
     \<lparr>icache = \<lambda>_. \<lparr>i_dev = 0, i_inum = 0, i_ref = 0, i_lock = initsleeplock, i_valid = False, i_type = 0, i_major = 0,
        i_minor = 0, i_nlink = 0, i_size = 0, i_addrs = replicate 13 0\<rparr>,
      sb = \<lparr>sb_magic = FSMAGIC, sb_size = 1000, sb_nblocks = 954, sb_ninodes = 200, sb_nlog = 30, sb_logstart = 2,
        sb_inodestart = 32, sb_bmapstart = 45\<rparr>\<rparr>"
  have ex: "fs_example = binit s" by (simp add: fs_example_def s_def)
  have f: "\<forall>i. bufs s i = zero_buf" "length (procs s) = NPROC" "held s = []" "curp s = Some 0" "disks s = (\<lambda>d n. fs_disk (d, n))"
      "logs s = (\<lambda>_. demo_log)" "sb_size (sb s) = 1000" "sb_bmapstart (sb s) = 45"
    by (simp_all add: s_def klog.defs boot_log_def)
  note b = binit_boot[OF f(1-4)] and l = binit_logs[of s]
  show "sb_size (sb fs_example) = 1000" "sb_bmapstart (sb fs_example) = 45" using f(7,8) binit_sb[of s] by (simp_all add: ex)
  show "log_free 2 (logs fs_example 1)" by (simp add: ex l f(6) log_free_def demo_log_def LOGSIZE_def MAXOPBLOCKS_def)
  have "disk_at (binit s) = fs_disk" using b(4) f(5) by (simp add: disk_at_def [abs_def])
  moreover have "pins 1 (binit s) Map.empty" by (simp add: pins_def recorded_def l f(6) demo_log_def)
  moreover have "txn_quiet 1 (binit s)" using b(2,3) by (simp add: txn_quiet_def l f(3))
  ultimately show "in_txn 1 fs_disk fs_example"
    unfolding ex using b(1) by (intro in_txnI[of _ _ Map.empty]) (simp_all add: pcontent_def fun_eq_iff)
qed

lemma fs_example_map:
  assumes "b < 1000"
  shows "BBLOCK (of_nat b) (sb fs_example) = 45" "bused 1 (sb fs_example) fs_disk b \<longleftrightarrow> b \<le> 45"
proof -
  have "unat (of_nat b :: u32) div BPB = 0" using assms by (simp add: BPB_def BSIZE_def)
  then show e: "BBLOCK (of_nat b) (sb fs_example) = 45" by (simp add: BBLOCK_def fs_example_ready)
  have "b mod BPB = b" using assms by (simp add: BPB_def BSIZE_def)
  then have u: "bused 1 (sb fs_example) fs_disk b \<longleftrightarrow> bit ((replicate 5 255 @ [63] @ replicate 1018 0 :: u8 list) ! (b div 8)) (b mod 8)"
    by (simp add: bused_def e fs_disk_def)
  consider "b div 8 < 5" | "b div 8 = 5" | "5 < b div 8" by linarith
  then show "bused 1 (sb fs_example) fs_disk b \<longleftrightarrow> b \<le> 45"
  proof cases
    case 1
    have "bit (255 :: u8) i" if "i < 8" for i using that by (simp add: bit_simps numeral_eq_Suc less_Suc_eq, auto)
    then show ?thesis using 1 unfolding u by (simp add: nth_append)
  next
    case 2
    have "(63 :: u8) = mask 6" by (simp add: mask_eq_exp_minus_1)
    then have "bit (63 :: u8) (b mod 8) \<longleftrightarrow> b mod 8 < 6" by (simp only: bit_mask_iff) simp
    moreover have "b = 40 + b mod 8" using 2 div_mult_mod_eq[of b 8] by simp
    ultimately show ?thesis using 2 unfolding u by (simp add: nth_append) linarith
  next
    case 3
    then show ?thesis using assms unfolding u by (simp add: nth_append)
  qed
qed


end
