(* ===== verification/KPrintf.thy ===== *)
theory KPrintf
  imports Prelude
begin

text \<open>
  \<^verbatim>\<open>kernel/printf.c\<close> as functions to the bytes they send to the console: \<^verbatim>\<open>printint\<close>, \<^verbatim>\<open>printptr\<close>,
  \<^verbatim>\<open>printf\<close> and what \<^verbatim>\<open>panic\<close> prints. Numbers are shown to be printed faithfully, and within the
  16 bytes of the local buffer.
\<close>

section \<open>Operations\<close>

definition cbytes :: "string \<Rightarrow> u8 list" where
  "cbytes s = map of_char s"

definition digits :: "u8 list" where
  "digits = cbytes ''0123456789abcdef''"

text \<open>
  The do-while loop of \<^verbatim>\<open>printint\<close>: the contents of \<^verbatim>\<open>buf\<close>, lowest digit first. The base is 10 or 16.
\<close>

function digit_loop :: "nat \<Rightarrow> nat \<Rightarrow> u8 list" where
  "digit_loop base x =
     digits ! (x mod base) # (if x div base \<noteq> 0 \<and> 2 \<le> base then digit_loop base (x div base) else [])"
  by auto

termination
proof (relation "measure snd")
  show "((base, x div base), base, x) \<in> measure snd" if "x div base \<noteq> 0 \<and> 2 \<le> base" for base x :: nat
    using that div_less_dividend[of base x] by (cases "x = 0") auto
qed simp

declare digit_loop.simps [simp del]

definition MINUS :: u8 where "MINUS = 45"
definition PERCENT :: u8 where "PERCENT = 37"

definition printint :: "u32 \<Rightarrow> nat \<Rightarrow> bool \<Rightarrow> u8 list" where
  "printint xx base sign =
     (let neg = (sign \<and> sint xx < 0);
          x = (if neg then - xx else xx);
          buf = digit_loop base (unat x);
          buf = (if neg then buf @ [MINUS] else buf)
      in rev buf)"

definition printptr :: "u64 \<Rightarrow> u8 list" where
  "printptr x = cbytes ''0x'' @ map (\<lambda>i. digits ! unat (drop_bit 60 (push_bit (4 * i) x))) [0..<16]"

text \<open>
  The arguments after the format, as the calls pass them; a \<^verbatim>\<open>char *\<close> is the bytes before the NUL,
  \<open>None\<close> for null. \<open>None\<close> is the result when an argument is missing or is not what the format reads.
\<close>

datatype parg = PInt u32 | PPtr u64 | PStr "u8 list option"

definition print_arg :: "u8 \<Rightarrow> parg \<Rightarrow> u8 list option" where
  "print_arg c a =
     (case a of
        PInt n \<Rightarrow> if c = of_char (CHR ''d'') then Some (printint n 10 True)
                  else if c = of_char (CHR ''x'') then Some (printint n 16 True) else None
      | PPtr p \<Rightarrow> if c = of_char (CHR ''p'') then Some (printptr p) else None
      | PStr str \<Rightarrow> if c = of_char (CHR ''s'') then Some (case str of None \<Rightarrow> cbytes ''(null)'' | Some x \<Rightarrow> x) else None)"

definition takes_arg :: "u8 \<Rightarrow> bool" where
  "takes_arg c \<longleftrightarrow> c \<in> set (cbytes ''dxps'')"

fun printf_bytes :: "u8 list \<Rightarrow> parg list \<Rightarrow> u8 list option" where
  "printf_bytes [] args = Some []"
| "printf_bytes [c] args = (if c \<noteq> PERCENT then Some [c] else Some [])"
| "printf_bytes (c # c2 # fmt) args =
     (if c \<noteq> PERCENT then map_option ((#) c) (printf_bytes (c2 # fmt) args)
      else if takes_arg c2 then
        (case args of [] \<Rightarrow> None
         | a # args \<Rightarrow>
             (case print_arg c2 a of None \<Rightarrow> None
              | Some x \<Rightarrow> map_option ((@) x) (printf_bytes fmt args)))
      else if c2 = PERCENT then map_option ((#) PERCENT) (printf_bytes fmt args)
      else map_option (\<lambda>y. PERCENT # c2 # y) (printf_bytes fmt args))"

definition panic_bytes :: "u8 list \<Rightarrow> u8 list option" where
  "panic_bytes s =
     (case (printf_bytes (cbytes ''PANIC: '') [], printf_bytes s [], printf_bytes [10] [],
            printf_bytes (cbytes ''HINT: restart xv6 using 'make qemu-gdb', type 'b panic' (to set breakpoint in panic) in the gdb window, followed by 'c' (continue), and when the kernel hits the breakpoint, type 'bt' to get a backtrace'' @ [10]) []) of
        (Some a, Some b, Some c, Some d) \<Rightarrow> Some (a @ b @ c @ d)
      | _ \<Rightarrow> None)"

section \<open>Properties\<close>

text \<open>
  Reading a number back: the value of a digit of a base, \<open>None\<close> for any other byte, of a numeral with the highest
  digit first, and of a numeral with an optional minus sign.
\<close>

definition digit_val :: "nat \<Rightarrow> u8 \<Rightarrow> nat option" where
  "digit_val base c = find (\<lambda>d. digits ! d = c) [0..<base]"

definition numeral_val :: "nat \<Rightarrow> u8 list \<Rightarrow> nat option" where
  "numeral_val base x = (if x = [] then None else
     foldl (\<lambda>a c. case (a, digit_val base c) of (Some a, Some d) \<Rightarrow> Some (a * base + d) | _ \<Rightarrow> None) (Some 0) x)"

definition int_val :: "nat \<Rightarrow> u8 list \<Rightarrow> int option" where
  "int_val base x = (case x of c # ds \<Rightarrow>
       if c = MINUS then map_option (\<lambda>v. - int v) (numeral_val base ds) else map_option int (numeral_val base x)
     | [] \<Rightarrow> None)"

lemma digits_distinct: "distinct digits" and digits_length: "length digits = 16" and digits_no_minus: "MINUS \<notin> set digits"
  by code_simp+

lemma digit_val_digits:
  assumes "d < base" and "base \<le> 16"
  shows "digit_val base (digits ! d) = Some d"
proof -
  have inj: "digits ! i = digits ! d \<longleftrightarrow> i = d" if "i < base" for i
    using that assms nth_eq_iff_index_eq[OF digits_distinct, of i d] by (simp add: digits_length)
  show ?thesis
    unfolding digit_val_def find_Some_iff using assms(1) inj by (intro exI[of _ d]) auto
qed

lemma numeral_val_digit: "d < base \<Longrightarrow> base \<le> 16 \<Longrightarrow> numeral_val base [digits ! d] = Some d"
  by (simp add: numeral_val_def digit_val_digits)

lemma numeral_val_snoc:
  "numeral_val base x = Some v \<Longrightarrow> d < base \<Longrightarrow> base \<le> 16 \<Longrightarrow> numeral_val base (x @ [digits ! d]) = Some (v * base + d)"
  by (simp add: numeral_val_def digit_val_digits split: if_splits)

lemma digit_loop_val:
  assumes "2 \<le> base" and "base \<le> 16"
  shows "numeral_val base (rev (digit_loop base x)) = Some x"
  using assms
proof (induction base x rule: digit_loop.induct)
  case (1 base x)
  have d: "x mod base < base" using 1 by simp
  show ?case
  proof (cases "x div base = 0")
    case True
    then have "x < base" using 1(2) by (simp add: div_eq_0_iff)
    then show ?thesis using True numeral_val_digit[OF d 1(3)] by (subst digit_loop.simps) simp
  next
    case False
    then have "numeral_val base (rev (digit_loop base (x div base))) = Some (x div base)" using 1 by simp
    then show ?thesis using False 1(2) numeral_val_snoc[OF _ d 1(3)] by (subst digit_loop.simps) simp
  qed
qed

text \<open>The highest digit, the last one of the buffer, is 0 only for the number 0.\<close>

lemma digit_loop_last:
  assumes "2 \<le> base" and "base \<le> 16" and "x \<noteq> 0"
  shows "last (digit_loop base x) \<noteq> digits ! 0"
  using assms
proof (induction base x rule: digit_loop.induct)
  case (1 base x)
  have ne: "digit_loop base y \<noteq> []" for y by (subst digit_loop.simps) simp
  have inj: "digits ! i = digits ! 0 \<longleftrightarrow> i = 0" if "i < base" for i
    using that 1(3) nth_eq_iff_index_eq[OF digits_distinct, of i 0] by (simp add: digits_length)
  show ?case
  proof (cases "x div base = 0")
    case True
    then have "x < base" using 1(2) by (simp add: div_eq_0_iff)
    then show ?thesis using True inj[of x] 1(4) by (subst digit_loop.simps) simp
  next
    case False
    then show ?thesis using 1 ne by (subst digit_loop.simps) simp
  qed
qed

lemma digit_loop_digits: "2 \<le> base \<Longrightarrow> base \<le> 16 \<Longrightarrow> set (digit_loop base x) \<subseteq> set digits"
proof (induction base x rule: digit_loop.induct)
  case (1 base x)
  have "x mod base < base" using 1(2) by simp
  then have "digits ! (x mod base) \<in> set digits" using 1(3) by (intro nth_mem) (simp add: digits_length)
  then show ?case using 1 by (subst digit_loop.simps) auto
qed

lemma digit_loop_length:
  assumes "2 \<le> base" and "x < base ^ Suc n"
  shows "length (digit_loop base x) \<le> Suc n"
  using assms
proof (induction n arbitrary: x)
  case 0
  then show ?case by (subst digit_loop.simps) simp
next
  case (Suc n)
  have "x div base < base ^ Suc n" using Suc.prems by (simp add: less_mult_imp_div_less mult.commute)
  then show ?case using Suc by (subst digit_loop.simps) simp
qed

lemma printint_split:
  "printint xx base True = (if sint xx < 0 then [MINUS] else []) @ rev (digit_loop base (nat \<bar>sint xx\<bar>))"
proof -
  have "unat (if sint xx < 0 then - xx else xx) = nat \<bar>sint xx\<bar>"
  proof -
    have b: "- (2 ^ 31) \<le> sint xx" "sint xx < 2 ^ 31" using sint_ge[of xx] sint_lt[of xx] by simp_all
    have "(if sint xx < 0 then - xx else xx) = word_of_int \<bar>sint xx\<bar>" by simp
    then have "uint (if sint xx < 0 then - xx else xx) = \<bar>sint xx\<bar> mod 2 ^ 32" by (simp add: uint_word_of_int)
    also have "\<dots> = \<bar>sint xx\<bar>" using b by (intro mod_pos_pos_trivial) auto
    finally show ?thesis by (metis nat_uint_eq)
  qed
  then show ?thesis by (simp add: printint_def split: if_splits)
qed

lemma hex_digit:
  fixes x :: u64
  assumes "n < 16"
  shows "unat (drop_bit (60 - 4 * n) x) = unat (drop_bit (64 - 4 * n) x) * 16 + unat (drop_bit 60 (push_bit (4 * n) x))"
proof -
  let ?y = "drop_bit (60 - 4 * n) x"
  have "drop_bit 60 (push_bit (4 * n) x) = take_bit 4 ?y"
    using assms by (intro bit_word_eqI) (auto simp: bit_simps)
  then have "unat (drop_bit 60 (push_bit (4 * n) x)) = unat ?y mod 16"
    by (simp only: unsigned_take_bit_eq) (simp add: take_bit_eq_mod)
  moreover have "drop_bit (64 - 4 * n) x = drop_bit 4 ?y" using assms by simp
  then have "unat (drop_bit (64 - 4 * n) x) = unat ?y div 16" by (simp only: unat_drop_bit_eq) (simp add: drop_bit_eq_div)
  ultimately show ?thesis by simp
qed

lemma top_digit: "unat (drop_bit 60 (y :: u64)) < 16"
  using unat_lt_u64[of y] by (simp only: unat_drop_bit_eq) (simp add: drop_bit_eq_div less_mult_imp_div_less)

lemma printptr_val:
  "n < 16 \<Longrightarrow> numeral_val 16 (map (\<lambda>i. digits ! unat (drop_bit 60 (push_bit (4 * i) x))) [0..<Suc n]) = Some (unat (drop_bit (60 - 4 * n) (x :: u64)))"
proof (induction n)
  case 0
  show ?case using numeral_val_digit[OF top_digit, of x] by simp
next
  case (Suc n)
  have e: "64 - 4 * Suc n = 60 - 4 * n" by simp
  let ?ds = "map (\<lambda>i. digits ! unat (drop_bit 60 (push_bit (4 * i) x))) [0..<Suc n]"
  have "numeral_val 16 ?ds = Some (unat (drop_bit (60 - 4 * n) x))" using Suc by simp
  then have "numeral_val 16 (?ds @ [digits ! unat (drop_bit 60 (push_bit (4 * Suc n) x))]) =
      Some (unat (drop_bit (60 - 4 * n) x) * 16 + unat (drop_bit 60 (push_bit (4 * Suc n) x)))"
    by (rule numeral_val_snoc[OF _ top_digit]) simp
  then show ?case using hex_digit[OF Suc.prems, of x, unfolded e] by simp
qed

lemma printint_value:
  assumes "base = 10 \<or> base = 16"
  shows "int_val base (printint xx base True) = Some (sint xx)"
proof -
  let ?ds = "rev (digit_loop base (nat \<bar>sint xx\<bar>))"
  have v: "numeral_val base ?ds = Some (nat \<bar>sint xx\<bar>)" using assms by (intro digit_loop_val) auto
  have "?ds \<noteq> []" by (subst digit_loop.simps) simp
  then obtain c cs where ds: "?ds = c # cs" by (cases ?ds) auto
  then have "c \<in> set (digit_loop base (nat \<bar>sint xx\<bar>))" by (metis list.set_intros(1) set_rev)
  then have "c \<noteq> MINUS" using digit_loop_digits[of base "nat \<bar>sint xx\<bar>"] assms digits_no_minus by auto
  then show ?thesis using v by (auto simp: printint_split int_val_def ds)
qed

text \<open>
  C34. Numbers are printed faithfully. \<^verbatim>\<open>printint\<close> in base 10 or 16 sends, for a signed number, a minus sign
  exactly when the number is negative, also for the least one, and then the numeral of the absolute value in digits
  of the base, without leading zeroes; reading the bytes back gives the number. Without the sign argument it sends the
  numeral of the 32 bits read unsigned. It never puts more than 11 characters into its buffer of 16.
  \<^verbatim>\<open>printptr\<close> sends \<^verbatim>\<open>0x\<close> and 16 hexadecimal digits whose value is the pointer.
\<close>

theorem print_numbers_faithful:
  assumes "base = 10 \<or> base = 16"
  shows "int_val base (printint xx base True) = Some (sint xx)
    \<and> (\<exists>ds. printint xx base True = (if sint xx < 0 then [MINUS] else []) @ ds \<and> numeral_val base ds = Some (nat \<bar>sint xx\<bar>)
         \<and> (xx \<noteq> 0 \<longrightarrow> hd ds \<noteq> of_char (CHR ''0'')))
    \<and> numeral_val base (printint xx base False) = Some (unat xx)
    \<and> length (printint xx base sign) \<le> 11
    \<and> (\<exists>ds. printptr p = cbytes ''0x'' @ ds \<and> length ds = 16 \<and> numeral_val 16 ds = Some (unat p))"
proof -
  let ?x = "nat \<bar>sint xx\<bar>"
  have base: "2 \<le> base" "base \<le> 16" using assms by auto
  have len: "length (digit_loop base (unat x)) \<le> Suc 9" for x :: u32
    using unat_lt_u32[of x] assms by (intro digit_loop_length) auto
  have "digits ! 0 = of_char (CHR ''0'')" by (simp add: digits_def cbytes_def)
  then have lead: "hd (rev (digit_loop base ?x)) \<noteq> of_char (CHR ''0'')" if "xx \<noteq> 0"
    using that digit_loop_last[OF base, of ?x] by (simp add: hd_rev signed_eq_0_iff)
  have "printptr p = cbytes ''0x'' @ map (\<lambda>i. digits ! unat (drop_bit 60 (push_bit (4 * i) p))) [0..<Suc 15]"
    by (simp add: printptr_def)
  then have ptr: "\<exists>ds. printptr p = cbytes ''0x'' @ ds \<and> length ds = 16 \<and> numeral_val 16 ds = Some (unat p)"
    using printptr_val[of 15 p] by (intro exI conjI) auto
  have "numeral_val base (rev (digit_loop base ?x)) = Some ?x" by (rule digit_loop_val[OF base])
  then have "\<exists>ds. printint xx base True = (if sint xx < 0 then [MINUS] else []) @ ds \<and> numeral_val base ds = Some ?x
         \<and> (xx \<noteq> 0 \<longrightarrow> hd ds \<noteq> of_char (CHR ''0''))"
    using printint_split lead by blast
  moreover have "numeral_val base (printint xx base False) = Some (unat xx)"
    using digit_loop_val[OF base] by (simp add: printint_def)
  moreover have "length (printint xx base sign) \<le> 11" using len[of xx] len[of "- xx"] by (simp add: printint_def Let_def)
  ultimately show ?thesis using printint_value[OF assms] ptr by blast
qed

theorem print_numbers_faithful_witness:
  "int_val 10 (printint (- 2147483648) 10 True) = Some (- 2147483648) \<and> length (printint (- 2147483648) 10 True) \<le> 11
   \<and> (\<exists>ds. printptr 0x80000000 = cbytes ''0x'' @ ds \<and> numeral_val 16 ds = Some 0x80000000)"
proof -
  have "sint (- 2147483648 :: u32) = - 2147483648" by code_simp
  then show ?thesis
    using print_numbers_faithful[where base = 10 and xx = "- 2147483648" and p = "0x80000000" and sign = True] by auto
qed

end
