(* ===== verification/KRing.thy ===== *)
theory KRing
  imports Prelude
begin

text \<open>
  The ring buffers of the console and of pipes: an array of \<open>n\<close> bytes with 32-bit counters that are
  only ever incremented and may wrap around, used modulo \<open>n\<close>. The locale \<open>ring_buffer\<close> shows, for
  every \<open>n\<close> that divides \<open>2^32\<close>, that the window between two counters is a bounded queue.
\<close>

definition ring :: "nat \<Rightarrow> u8 list \<Rightarrow> u32 \<Rightarrow> u32 \<Rightarrow> u8 list" where
  "ring n data r w = map (\<lambda>i. data ! (unat (r + of_nat i) mod n)) [0..<unat (w - r)]"

lemma ring_empty [simp]: "ring n data r r = []"
  by (simp add: ring_def)

lemma length_ring [simp]: "length (ring n data r w) = unat (w - r)"
  by (simp add: ring_def)

lemma unat_diff_Suc:
  fixes r w :: u32
  assumes "Suc (unat (w - r)) < 2 ^ 32"
  shows "unat (w + 1 - r) = Suc (unat (w - r))"
proof -
  have e: "w + 1 - r = (w - r) + 1" by simp
  show ?thesis unfolding e using assms by (subst unat_plus_u32) simp_all
qed

lemma unat_diff_pred:
  fixes r w :: u32
  assumes "r \<noteq> w"
  shows "unat (w - r) = Suc (unat (w - (r + 1)))"
proof -
  have e: "w - (r + 1) = (w - r) - 1" by simp
  have "w - r \<noteq> 0" using assms by auto
  then have pos: "0 < unat (w - r)" by (simp add: unat_gt_0)
  then have "1 \<le> w - r" by (simp add: word_le_nat_alt)
  then have "unat (w - r - 1) = unat (w - r) - 1" by (subst unat_minus_word) simp_all
  then show ?thesis unfolding e using pos by simp
qed

lemma unat_diff_dec:
  fixes e w :: u32
  assumes "w \<noteq> e"
  shows "unat (e - w) = Suc (unat (e - 1 - w))"
proof -
  have e: "e - 1 - w = e - (w + 1)" by simp
  show ?thesis unfolding e by (rule unat_diff_pred[OF assms])
qed

locale ring_buffer =
  fixes n :: nat
  assumes n_dvd: "n dvd 2 ^ 32" and n_pos: "0 < n" and n_less: "n < 2 ^ 32"
begin

lemma slot_eq: "unat (r + of_nat i :: u32) mod n = (unat r + i) mod n"
proof -
  have "unat (r + of_nat i :: u32) = (unat r + i) mod 2 ^ 32"
    by (simp add: unat_word_ariths unsigned_of_nat take_bit_eq_mod mod_add_right_eq)
  then show ?thesis using n_dvd by (simp add: mod_mod_cancel)
qed

lemma slot_plus1: "unat (r + 1 + of_nat i :: u32) mod n = unat (r + of_nat (Suc i)) mod n"
  by (simp add: add.assoc)

lemma slot_distinct:
  assumes "i < k" and "k < n"
  shows "unat (r + of_nat i :: u32) mod n \<noteq> unat (r + of_nat k) mod n"
proof
  assume "unat (r + of_nat i :: u32) mod n = unat (r + of_nat k) mod n"
  then have "(unat r + i) mod n = (unat r + k) mod n" by (simp only: slot_eq)
  then have "n dvd (unat r + k) - (unat r + i)" using assms(1) by (intro iffD1[OF mod_eq_dvd_iff_nat]) simp_all
  then have "n dvd k - i" by simp
  then show False using assms by (auto dest: dvd_imp_le)
qed

lemma ring_pop: "r \<noteq> w \<Longrightarrow> ring n data r w = data ! (unat r mod n) # ring n data (r + 1) w"
  unfolding ring_def using unat_diff_pred[of r w]
  by (simp add: upt_conv_Cons map_Suc_upt[symmetric] slot_plus1 del: upt_Suc)

lemma ring_push:
  assumes "length data = n" and "unat (w - r) < n"
  shows "ring n (data[unat w mod n := c]) r (w + 1) = ring n data r w @ [c]"
proof -
  let ?k = "unat (w - r)"
  have w: "w = r + of_nat ?k" by simp
  have k: "unat (w + 1 - r) = Suc ?k" using assms(2) n_less by (intro unat_diff_Suc) linarith
  have lt: "unat w mod n < length data" using assms(1) n_pos by simp
  have "data[unat w mod n := c] ! (unat (r + of_nat i) mod n) = data ! (unat (r + of_nat i) mod n)" if "i < ?k" for i
    using slot_distinct[OF that assms(2), of r] w by (simp add: nth_list_update_if)
  moreover have "data[unat w mod n := c] ! (unat (r + of_nat ?k) mod n) = c"
    using lt by (simp flip: w)
  ultimately show ?thesis unfolding ring_def k by simp
qed

lemma ring_split:
  assumes "unat (w - r) \<le> unat (e - r)"
  shows "ring n data r e = ring n data r w @ ring n data w e"
proof -
  let ?k = "unat (w - r)"
  have "unat (e - w) = unat (e - r) - ?k"
  proof -
    have "e - w = (e - r) - (w - r)" by simp
    then show ?thesis using assms by (simp only:) (rule unat_minus_word, simp add: word_le_nat_alt)
  qed
  then have u: "[0..<unat (e - r)] = [0..<?k] @ map (\<lambda>i. i + ?k) [0..<unat (e - w)]"
    using assms upt_add_eq_append[of 0 ?k "unat (e - r) - ?k"] by (simp add: map_add_upt)
  have "r + of_nat (i + ?k) = w + of_nat i" for i by simp
  then show ?thesis unfolding ring_def u by (simp add: comp_def add.commute)
qed

lemma ring_drop_last:
  assumes "w \<noteq> e"
  shows "ring n data w e = ring n data w (e - 1) @ [data ! (unat (e - 1) mod n)]"
proof -
  have "unat (e - w) = Suc (unat (e - 1 - w))" using assms by (rule unat_diff_dec)
  moreover have "w + of_nat (unat (e - 1 - w)) = e - 1" by simp
  ultimately show ?thesis unfolding ring_def by simp
qed

lemma ring_frame:
  assumes "unat (w - r) \<le> unat (e - r)" and "unat (e - r) < n"
  shows "ring n (data[unat e mod n := c]) r w = ring n data r w"
proof -
  have e: "e = r + of_nat (unat (e - r))" by simp
  have "unat e mod n \<noteq> unat (r + of_nat i) mod n" if "i < unat (w - r)" for i
  proof -
    have i: "i < unat (e - r)" using that assms(1) by simp
    show ?thesis using slot_distinct[OF i assms(2), of r] unfolding e[symmetric] by (rule not_sym)
  qed
  then show ?thesis unfolding ring_def by (simp add: nth_list_update_if)
qed

end

end
