(* ===== verification/KConsole.thy ===== *)
theory KConsole
  imports KFs KPrintf KRing KPaging
begin

text \<open>
  \<^verbatim>\<open>kernel/console.c\<close>, \<^verbatim>\<open>kernel/uart.c\<close> and the effects of \<^verbatim>\<open>kernel/printf.c\<close>: the line discipline of
  the console over its ring buffer. The UART is a queue of received bytes and the sequence of bytes
  sent. \<open>cons_rel\<close> relates the three counters to the bytes ready for readers and the line being
  edited; every interrupt and every read is shown to act on these as the line discipline says.
\<close>

section \<open>State\<close>

definition INPUT_BUF :: nat where "INPUT_BUF = 128"
definition CONSOLE :: nat where "CONSOLE = 1"
definition NDEV :: nat where "NDEV = 10"

text \<open>The function a slot of \<^verbatim>\<open>devsw\<close> points to: none, or the console's.\<close>

datatype devfn = NoDev | ConsoleDev

text \<open>
  \<open>uin\<close> and \<open>uout\<close> are the bytes waiting in the receive register and those sent, \<open>uregs\<close> the writes to the
  control registers.
\<close>

record kcons = kfs +
  cons_buf :: "u8 list"
  cons_r :: u32
  cons_w :: u32
  cons_e :: u32
  uin :: "u8 list"
  uout :: "u8 list"
  uregs :: "(nat \<times> u8) list"
  panicked :: bool
  pr_locking :: bool
  devsw_read :: "nat \<Rightarrow> devfn"
  devsw_write :: "nat \<Rightarrow> devfn"

section \<open>The UART\<close>

definition IER :: nat where "IER = 1"
definition FCR :: nat where "FCR = 2"
definition LCR :: nat where "LCR = 3"

definition WriteReg :: "nat \<Rightarrow> u8 \<Rightarrow> 'a kcons_scheme \<Rightarrow> 'a kcons_scheme" where
  "WriteReg r v s = s\<lparr>uregs := uregs s @ [(r, v)]\<rparr>"

definition uartinit :: "'a kcons_scheme \<Rightarrow> 'a kcons_scheme" where
  "uartinit s = fold (\<lambda>(r, v). WriteReg r v)
     [(IER, 0x00), (LCR, 0x80), (0, 0x03), (1, 0x00), (LCR, 0x03), (FCR, 0x07), (IER, 0x01)] s"

text \<open>Waiting for the transmit register to be empty changes nothing; then the byte is sent.\<close>

definition uartputc :: "int \<Rightarrow> 'a kcons_scheme \<Rightarrow> 'a kcons_scheme" where
  "uartputc c s = s\<lparr>uout := uout s @ [of_int c]\<rparr>"

definition uartgetc :: "'a kcons_scheme \<Rightarrow> int \<times> 'a kcons_scheme" where
  "uartgetc s = (case uin s of c # cs \<Rightarrow> (uint c, s\<lparr>uin := cs\<rparr>) | [] \<Rightarrow> (-1, s))"

section \<open>Output\<close>

definition BACKSPACE :: int where "BACKSPACE = 0x100"

text \<open>\<^verbatim>\<open>consputc\<close> spins for ever once the system has panicked.\<close>

definition consputc :: "int \<Rightarrow> 'a kcons_scheme \<Rightarrow> 'a kcons_scheme outcome" where
  "consputc c s =
     (if panicked s then Panic ''spin''
      else if c = BACKSPACE then Ok (uartputc 8 (uartputc 32 (uartputc 8 s)))
      else Ok (uartputc c s))"

definition printf :: "u8 list \<Rightarrow> parg list \<Rightarrow> 'a kcons_scheme \<Rightarrow> 'a kcons_scheme outcome" where
  "printf fmt args s =
     (let locking = pr_locking s in
      obind (if locking then acquire_lk LkPr s else Ok s) (\<lambda>s.
      obind (ofold (\<lambda>c. consputc (uint c)) (the (printf_bytes fmt args)) s) (\<lambda>s.
      if locking then release_lk LkPr s else Ok s)))"

definition printfinit :: "'a kcons_scheme \<Rightarrow> 'a kcons_scheme" where
  "printfinit s = s\<lparr>pr_locking := True\<rparr>"

text \<open>What \<^verbatim>\<open>panic\<close> does before it stops.\<close>

definition panic_effect :: "u8 list \<Rightarrow> 'a kcons_scheme \<Rightarrow> 'a kcons_scheme outcome" where
  "panic_effect msg s =
     obind (ofold (\<lambda>c. consputc (uint c)) (the (panic_bytes msg)) (s\<lparr>pr_locking := False\<rparr>)) (\<lambda>s.
     Ok (s\<lparr>panicked := True\<rparr>))"

definition procdump_line :: "int \<times> string \<times> u8 list \<Rightarrow> 'a kcons_scheme \<Rightarrow> 'a kcons_scheme outcome" where
  "procdump_line x s = (case x of (p, st, name) \<Rightarrow>
     obind (printf (cbytes ''%d %s %s'') [PInt (of_int p), PStr (Some (cbytes st)), PStr (Some name)] s) (printf [10] []))"

definition procdump_out :: "'a kcons_scheme \<Rightarrow> 'a kcons_scheme outcome" where
  "procdump_out s = obind (printf [10] [] s) (\<lambda>s. ofold procdump_line (procdump s) s)"

section \<open>Reading and writing\<close>

primrec consolewrite_loop :: "nat \<Rightarrow> bool \<Rightarrow> u64 \<Rightarrow> 'a kcons_scheme \<Rightarrow> 'a kcons_scheme outcome" where
  "consolewrite_loop 0 user_src src s = Ok s"
| "consolewrite_loop (Suc k) user_src src s =
     obind (either_copyin user_src src 1 s) (\<lambda>(r, x).
     if r = -1 then Ok s
     else obind (consputc (uint (x ! 0)) s) (consolewrite_loop k user_src (src + 1)))"

definition consolewrite :: "bool \<Rightarrow> u64 \<Rightarrow> int \<Rightarrow> 'a kcons_scheme \<Rightarrow> (int \<times> 'a kcons_scheme) outcome" where
  "consolewrite user_src src n s =
     obind (acquire_lk LkCons s) (\<lambda>s.
     obind (consolewrite_loop (nat n) user_src src s) (\<lambda>s.
     obind (release_lk LkCons s) (\<lambda>s. Ok (n, s))))"

definition CTRL_D :: u8 where "CTRL_D = 4"
definition NEWLINE :: u8 where "NEWLINE = 10"

text \<open>
  The loop of \<^verbatim>\<open>consoleread\<close> until it returns or sleeps. \<open>CBlocked dst n\<close> is a sleep on \<^verbatim>\<open>&cons.r\<close> with
  the lock still held; when woken the loop goes on with the same \<open>dst\<close> and \<open>n\<close>.
\<close>

datatype cread = CReturn int | CBlocked u64 int

definition cread_done :: "int \<Rightarrow> 'a kcons_scheme \<Rightarrow> (cread \<times> 'a kcons_scheme) outcome" where
  "cread_done r s = obind (release_lk LkCons s) (\<lambda>s. Ok (CReturn r, s))"

function consoleread_loop :: "bool \<Rightarrow> u64 \<Rightarrow> int \<Rightarrow> int \<Rightarrow> 'a kcons_scheme \<Rightarrow> (cread \<times> 'a kcons_scheme) outcome" where
  "consoleread_loop user_dst dst n target s =
     (if n > 0 then
        if cons_r s = cons_w s then
          if killed (procs s ! myproc s) then cread_done (-1) s else Ok (CBlocked dst n, s)
        else
          let c = cons_buf s ! (unat (cons_r s) mod INPUT_BUF); s = s\<lparr>cons_r := cons_r s + 1\<rparr> in
          if c = CTRL_D
          then cread_done (target - n) (if n < target then s\<lparr>cons_r := cons_r s - 1\<rparr> else s)
          else obind (either_copyout user_dst dst [c] s) (\<lambda>(r, s).
            if r = -1 then cread_done (target - n) s
            else if c = NEWLINE then cread_done (target - (n - 1)) s
            else consoleread_loop user_dst (dst + 1) (n - 1) target s)
      else cread_done (target - n) s)"
  by pat_completeness auto

termination
  by (relation "measure (\<lambda>(_, _, n, _). nat n)") auto

declare consoleread_loop.simps [simp del]

definition consoleread :: "bool \<Rightarrow> u64 \<Rightarrow> int \<Rightarrow> 'a kcons_scheme \<Rightarrow> (int \<times> 'a kcons_scheme) outcome" where
  "consoleread user_dst dst n s =
     obind (acquire_lk LkCons s) (\<lambda>s.
     obind (consoleread_loop user_dst dst n n s) (\<lambda>(r, s).
     case r of CReturn v \<Rightarrow> Ok (v, s) | CBlocked _ _ \<Rightarrow> Sleep ChCons))"

section \<open>Input\<close>

text \<open>The loop for control-U: erase back to the last newline or to what readers may already see.\<close>

function kill_line :: "'a kcons_scheme \<Rightarrow> 'a kcons_scheme outcome" where
  "kill_line s =
     (if cons_e s \<noteq> cons_w s \<and> cons_buf s ! (unat (cons_e s - 1) mod INPUT_BUF) \<noteq> NEWLINE
      then obind (consputc BACKSPACE (s\<lparr>cons_e := cons_e s - 1\<rparr>)) kill_line
      else Ok s)"
  by pat_completeness auto

lemma consputc_frame:
  "consputc c s = Ok t \<Longrightarrow> cons_e t = cons_e s \<and> cons_w t = cons_w s \<and> cons_r t = cons_r s \<and> cons_buf t = cons_buf s"
  by (auto simp: consputc_def uartputc_def split: if_splits)

termination kill_line
  by (relation "measure (\<lambda>s. unat (cons_e s - cons_w s))") (auto dest!: consputc_frame simp: unat_diff_dec)

declare kill_line.simps [simp del]

definition consoleintr :: "int \<Rightarrow> 'a kcons_scheme \<Rightarrow> 'a kcons_scheme outcome" where
  "consoleintr c s =
     obind (acquire_lk LkCons s) (\<lambda>s.
     obind
      (if c = 0x10 then procdump_out s
       else if c = 0x15 then kill_line s
       else if c = 8 \<or> c = 0x7f then
         (if cons_e s \<noteq> cons_w s then consputc BACKSPACE (s\<lparr>cons_e := cons_e s - 1\<rparr>) else Ok s)
       else if c \<noteq> 0 \<and> unat (cons_e s - cons_r s) < INPUT_BUF then
         let c = (if c = 13 then 10 else c) in
         obind (consputc c s) (\<lambda>s.
         let s = s\<lparr>cons_buf := (cons_buf s)[unat (cons_e s) mod INPUT_BUF := of_int c], cons_e := cons_e s + 1\<rparr> in
         if c = 10 \<or> c = 4 \<or> cons_e s = cons_r s + of_nat INPUT_BUF
         then wakeup ChCons (s\<lparr>cons_w := cons_e s\<rparr>) else Ok s)
       else Ok s) (release_lk LkCons))"

text \<open>\<^verbatim>\<open>uartintr\<close>: one interrupt per byte waiting.\<close>

primrec uartintr_loop :: "u8 list \<Rightarrow> 'a kcons_scheme \<Rightarrow> 'a kcons_scheme outcome" where
  "uartintr_loop [] s = Ok s"
| "uartintr_loop (c # cs) s = obind (consoleintr (uint c) (s\<lparr>uin := cs\<rparr>)) (uartintr_loop cs)"

definition uartintr :: "'a kcons_scheme \<Rightarrow> 'a kcons_scheme outcome" where
  "uartintr s = uartintr_loop (uin s) s"

definition consoleinit :: "'a kcons_scheme \<Rightarrow> 'a kcons_scheme" where
  "consoleinit s =
     (let s = uartinit s
      in s\<lparr>devsw_read := (devsw_read s)(CONSOLE := ConsoleDev), devsw_write := (devsw_write s)(CONSOLE := ConsoleDev)\<rparr>)"

section \<open>The line discipline\<close>

interpretation cons_ring: ring_buffer INPUT_BUF
  by unfold_locales (simp_all add: INPUT_BUF_def)

text \<open>\<open>q\<close> is ready for readers, \<open>l\<close> is the line being edited.\<close>

definition cons_rel :: "'a kcons_scheme \<Rightarrow> u8 list \<Rightarrow> u8 list \<Rightarrow> bool" where
  "cons_rel s q l \<longleftrightarrow> length (cons_buf s) = INPUT_BUF
     \<and> unat (cons_w s - cons_r s) \<le> unat (cons_e s - cons_r s) \<and> unat (cons_e s - cons_r s) \<le> INPUT_BUF
     \<and> q = ring INPUT_BUF (cons_buf s) (cons_r s) (cons_w s) \<and> l = ring INPUT_BUF (cons_buf s) (cons_w s) (cons_e s)
     \<and> NEWLINE \<notin> set l"

definition cons_spec :: "int \<Rightarrow> u8 list \<times> u8 list \<Rightarrow> u8 list \<times> u8 list" where
  "cons_spec c ql = (case ql of (q, l) \<Rightarrow>
     if c = 0x10 then (q, l)
     else if c = 0x15 then (q, [])
     else if c = 8 \<or> c = 0x7f then (q, butlast l)
     else if c \<noteq> 0 \<and> length q + length l < INPUT_BUF then
       let c = (if c = 13 then 10 else c); l = l @ [of_int c] in
       if c = 10 \<or> c = 4 \<or> length q + length l = INPUT_BUF then (q @ l, []) else (q, l)
     else (q, l))"

lemma cons_lengths:
  assumes "cons_rel s q l"
  shows "length q = unat (cons_w s - cons_r s)" "length q + length l = unat (cons_e s - cons_r s)"
    "length l = unat (cons_e s - cons_w s)"
proof -
  have "ring INPUT_BUF (cons_buf s) (cons_r s) (cons_e s) = q @ l"
    using assms cons_ring.ring_split[of "cons_w s" "cons_r s" "cons_e s" "cons_buf s"] by (simp add: cons_rel_def)
  from arg_cong[OF this, of length] show "length q + length l = unat (cons_e s - cons_r s)" by simp
  show "length q = unat (cons_w s - cons_r s)" "length l = unat (cons_e s - cons_w s)"
    using assms by (simp_all add: cons_rel_def)
qed

lemma consputc_Ok:
  "\<not> panicked s \<Longrightarrow> consputc c s = Ok (s\<lparr>uout := uout s @ (if c = BACKSPACE then [8, 32, 8] else [of_int c])\<rparr>)"
  by (simp add: consputc_def uartputc_def)

lemma consputc_list:
  "\<not> panicked s \<Longrightarrow> ofold (\<lambda>c. consputc (uint c)) x s = Ok (s\<lparr>uout := uout s @ x\<rparr>)"
proof (induction x arbitrary: s)
  case (Cons c x)
  have "uint c \<noteq> BACKSPACE" using uint_bounded[of c] by (simp add: BACKSPACE_def)
  then show ?case using Cons by (simp add: consputc_Ok)
qed simp

lemma printf_Ok:
  assumes "\<not> panicked s" and "LkPr \<notin> set (held s)"
  shows "printf fmt args s = Ok (s\<lparr>uout := uout s @ the (printf_bytes fmt args)\<rparr>)"
  using assms by (simp add: printf_def consputc_list Let_def)

lemma procdump_lines_Ok:
  "\<not> panicked s \<Longrightarrow> LkPr \<notin> set (held s) \<Longrightarrow> \<exists>x. ofold procdump_line ps s = Ok (s\<lparr>uout := uout s @ x\<rparr>)"
proof (induction ps arbitrary: s)
  case Nil
  then show ?case by (simp add: exI[of _ "[]"])
next
  case (Cons p ps)
  obtain y where y: "procdump_line p s = Ok (s\<lparr>uout := uout s @ y\<rparr>)"
    using Cons.prems by (cases p) (simp add: procdump_line_def printf_Ok)
  obtain x where x: "ofold procdump_line ps (s\<lparr>uout := uout s @ y\<rparr>) = Ok (s\<lparr>uout := (uout s @ y) @ x\<rparr>)"
    using Cons.IH[of "s\<lparr>uout := uout s @ y\<rparr>"] Cons.prems by auto
  show ?case by (rule exI[of _ "y @ x"]) (simp add: y x[simplified])
qed

lemma procdump_out_Ok:
  assumes "\<not> panicked s" and "LkPr \<notin> set (held s)"
  shows "\<exists>x. procdump_out s = Ok (s\<lparr>uout := uout s @ x\<rparr>)"
proof -
  have n: "the (printf_bytes [10] []) = [10]" by (simp add: PERCENT_def)
  let ?s = "s\<lparr>uout := uout s @ [10]\<rparr>"
  obtain x where x: "ofold procdump_line (procdump ?s) ?s = Ok (s\<lparr>uout := (uout s @ [10]) @ x\<rparr>)"
    using procdump_lines_Ok[of ?s] assms by auto
  show ?thesis
    unfolding procdump_out_def printf_Ok[OF assms] n obind.simps x by (rule exI[of _ "[10] @ x"]) simp
qed

lemma cons_erase:
  assumes rel: "cons_rel s q l" and ne: "cons_w s \<noteq> cons_e s"
  shows "cons_rel (s\<lparr>cons_e := cons_e s - 1, uout := x\<rparr>) q (butlast l)"
    "cons_buf s ! (unat (cons_e s - 1) mod INPUT_BUF) \<noteq> NEWLINE" "l \<noteq> []"
proof -
  note len = cons_lengths[OF rel]
  let ?c = "cons_buf s ! (unat (cons_e s - 1) mod INPUT_BUF)"
  have l: "l = ring INPUT_BUF (cons_buf s) (cons_w s) (cons_e s - 1) @ [?c]"
    using cons_ring.ring_drop_last[OF ne] rel by (simp add: cons_rel_def)
  then show "l \<noteq> []" by simp
  then have pos: "0 < length l" by simp
  then have "cons_r s \<noteq> cons_e s" using len(2) by auto
  note dec = unat_diff_dec[OF this]
  have nl: "NEWLINE \<notin> set l" using rel unfolding cons_rel_def by blast
  show "?c \<noteq> NEWLINE" using nl by (subst (asm) l) auto
  have bl: "butlast l = ring INPUT_BUF (cons_buf s) (cons_w s) (cons_e s - 1)" by (subst l) simp
  have "unat (cons_e s - 1 - cons_r s) < unat (cons_e s - cons_r s)" "unat (cons_w s - cons_r s) \<le> unat (cons_e s - 1 - cons_r s)"
    using dec len pos by linarith+
  moreover have "NEWLINE \<notin> set (butlast l)" using nl in_set_butlastD[of NEWLINE l] by blast
  ultimately show "cons_rel (s\<lparr>cons_e := cons_e s - 1, uout := x\<rparr>) q (butlast l)"
    using rel bl by (simp add: cons_rel_def)
qed

lemma cons_line_Nil: "cons_rel s q [] \<Longrightarrow> cons_e s = cons_w s"
  using cons_lengths(3)[of s q "[]"] unat_diff_dec[of "cons_w s" "cons_e s"] by (cases "cons_w s = cons_e s") auto

lemma kill_line_rel:
  assumes "cons_rel s q l" and "\<not> panicked s"
  shows "\<exists>x. kill_line s = Ok (s\<lparr>cons_e := cons_w s, uout := uout s @ x\<rparr>)"
  using assms
proof (induction "length l" arbitrary: s l)
  case 0
  then show ?case using cons_line_Nil[of s q] by (subst kill_line.simps) (simp add: exI[of _ "[]"])
next
  case (Suc n)
  have ne: "cons_w s \<noteq> cons_e s" using Suc.hyps(2) cons_lengths(3)[OF Suc.prems(1)] by auto
  let ?s = "s\<lparr>cons_e := cons_e s - 1, uout := uout s @ [8, 32, 8]\<rparr>"
  note er = cons_erase[OF Suc.prems(1) ne]
  obtain x where x: "kill_line ?s = Ok (?s\<lparr>cons_e := cons_w ?s, uout := uout ?s @ x\<rparr>)"
    using Suc.hyps(1)[of "butlast l" ?s] Suc.hyps(2) er(1) Suc.prems(2) by fastforce
  have "kill_line s = kill_line ?s"
    using ne er(2) Suc.prems(2) by (subst kill_line.simps) (simp add: consputc_Ok)
  then show ?case unfolding x by (intro exI[of _ "[8, 32, 8] @ x"]) simp
qed

lemma cons_append:
  assumes rel: "cons_rel s q l" and room: "unat (cons_e s - cons_r s) < INPUT_BUF"
    and t_def: "t = s\<lparr>cons_buf := (cons_buf s)[unat (cons_e s) mod INPUT_BUF := c], cons_e := cons_e s + 1\<rparr>"
  shows "ring INPUT_BUF (cons_buf t) (cons_r t) (cons_w t) = q"
    "ring INPUT_BUF (cons_buf t) (cons_w t) (cons_e t) = l @ [c]"
    "unat (cons_e t - cons_r t) = Suc (unat (cons_e s - cons_r s))"
    "c \<noteq> NEWLINE \<Longrightarrow> cons_rel t q (l @ [c])"
    "cons_rel (t\<lparr>cons_w := cons_e t\<rparr>) (q @ l @ [c]) []"
proof -
  note len = cons_lengths[OF rel]
  have b: "length (cons_buf s) = INPUT_BUF" "unat (cons_w s - cons_r s) \<le> unat (cons_e s - cons_r s)"
    using rel by (simp_all add: cons_rel_def)
  have wl: "unat (cons_e s - cons_w s) < INPUT_BUF" using len room by linarith
  show q: "ring INPUT_BUF (cons_buf t) (cons_r t) (cons_w t) = q"
    using cons_ring.ring_frame[OF b(2) room] rel by (simp add: t_def cons_rel_def)
  show l: "ring INPUT_BUF (cons_buf t) (cons_w t) (cons_e t) = l @ [c]"
    using cons_ring.ring_push[OF b(1) wl] rel by (simp add: t_def cons_rel_def)
  have e: "unat (cons_e s + 1 - cons_r s) = Suc (unat (cons_e s - cons_r s))"
    using room by (intro unat_diff_Suc) (simp add: INPUT_BUF_def)
  then show e': "unat (cons_e t - cons_r t) = Suc (unat (cons_e s - cons_r s))" by (simp add: t_def)
  have base: "length (cons_buf t) = INPUT_BUF" "unat (cons_w t - cons_r t) \<le> unat (cons_e t - cons_r t)"
      "unat (cons_e t - cons_r t) \<le> INPUT_BUF"
    using b e' room by (simp_all add: t_def)
  have "NEWLINE \<notin> set l" using rel unfolding cons_rel_def by blast
  then show "c \<noteq> NEWLINE \<Longrightarrow> cons_rel t q (l @ [c])" unfolding cons_rel_def using base q l by simp
  have "ring INPUT_BUF (cons_buf t) (cons_r t) (cons_e t) = q @ l @ [c]"
    using cons_ring.ring_split[OF base(2)] q l by simp
  then show "cons_rel (t\<lparr>cons_w := cons_e t\<rparr>) (q @ l @ [c]) []" using base by (simp add: cons_rel_def)
qed

lemma cons_rel_cong:
  "cons_buf t = cons_buf s \<Longrightarrow> cons_r t = cons_r s \<Longrightarrow> cons_w t = cons_w s \<Longrightarrow> cons_e t = cons_e s \<Longrightarrow> cons_rel t q l = cons_rel s q l"
  by (simp add: cons_rel_def)

lemma cons_rel_held [simp]: "cons_rel (s\<lparr>held := h\<rparr>) q l = cons_rel s q l"
  by (rule cons_rel_cong) simp_all

lemma cons_rel_out [simp]: "cons_rel (s\<lparr>uout := h\<rparr>) q l = cons_rel s q l"
  by (rule cons_rel_cong) simp_all

lemma cons_rel_mem [simp]: "cons_rel (s\<lparr>mem := h\<rparr>) q l = cons_rel s q l"
  by (rule cons_rel_cong) simp_all

lemma cons_full: "cons_e s = cons_r s + of_nat INPUT_BUF \<longleftrightarrow> unat (cons_e s - cons_r s) = INPUT_BUF"
proof
  assume a: "unat (cons_e s - cons_r s) = INPUT_BUF"
  have "cons_e s - cons_r s = of_nat (unat (cons_e s - cons_r s))" by simp
  then have "cons_e s - cons_r s = of_nat INPUT_BUF" by (simp only: a)
  then show "cons_e s = cons_r s + of_nat INPUT_BUF" by (simp add: algebra_simps)
qed (simp add: INPUT_BUF_def)

text \<open>An ordinary character that fits into the buffer.\<close>

lemma consoleintr_char:
  assumes rel: "cons_rel s q l" and c: "0 \<le> c" "c < 256" and up: "\<not> panicked s"
    and locks: "LkCons \<notin> set (held s)" "no_proc_lock s" and np: "length (procs s) = NPROC"
    and D: "c \<noteq> 0x10" "c \<noteq> 0x15" "c \<noteq> 8" "c \<noteq> 0x7f" and fits: "c \<noteq> 0" "length q + length l < INPUT_BUF"
  shows "returns (consoleintr c s) (\<lambda>t. cons_rel t (fst (cons_spec c (q, l))) (snd (cons_spec c (q, l)))
    \<and> held t = held s \<and> (q \<noteq> fst (cons_spec c (q, l)) \<longrightarrow> procs t = map (wake_proc ChCons) (procs s)))"
proof -
  note len = cons_lengths[OF rel]
  have acq: "acquire_lk LkCons s = Ok (s\<lparr>held := LkCons # held s\<rparr>)" using locks(1) by simp
  define d where "d = (if c = 13 then 10 else c)"
  define t where "t = s\<lparr>cons_buf := (cons_buf s)[unat (cons_e s) mod INPUT_BUF := of_int d], cons_e := cons_e s + 1\<rparr>"
  have room: "unat (cons_e s - cons_r s) < INPUT_BUF" using fits len by simp
  note ap = cons_append[OF rel room t_def]
  have full: "cons_e t = cons_r t + of_nat INPUT_BUF \<longleftrightarrow> length q + length (l @ [of_int d :: u8]) = INPUT_BUF"
    unfolding cons_full ap(3) using len by simp
  have d_range: "0 \<le> d" "d < 256" using c by (simp_all add: d_def)
  then have ud: "uint (of_int d :: u8) = d" by (simp add: uint_word_of_int)
  have d: "d \<noteq> BACKSPACE" "d \<noteq> 10 \<Longrightarrow> (of_int d :: u8) \<noteq> NEWLINE"
    using d_range ud by (auto simp: BACKSPACE_def NEWLINE_def)
  define u where "u = s\<lparr>held := LkCons # held s, uout := uout s @ [of_int d],
    cons_buf := (cons_buf s)[unat (cons_e s) mod INPUT_BUF := of_int d], cons_e := cons_e s + 1\<rparr>"
  have u: "cons_buf u = cons_buf t" "cons_r u = cons_r t" "cons_w u = cons_w t" "cons_e u = cons_e t"
    "held u = LkCons # held s" "procs u = procs s" by (simp_all add: u_def t_def)
  have run: "consoleintr c s = (if d = 10 \<or> d = 4 \<or> cons_e t = cons_r t + of_nat INPUT_BUF
      then obind (wakeup ChCons (u\<lparr>cons_w := cons_e u\<rparr>)) (release_lk LkCons) else release_lk LkCons u)"
    using D fits room up acq d(1) unfolding consoleintr_def
    by (simp add: d_def[symmetric] consputc_Ok t_def Let_def u_def)
  show ?thesis
  proof (cases "d = 10 \<or> d = 4 \<or> cons_e t = cons_r t + of_nat INPUT_BUF")
    case stop: True
    let ?u = "u\<lparr>cons_w := cons_e u\<rparr>"
    have w: "wakeup ChCons ?u = Ok (?u\<lparr>procs := map (wake_proc ChCons) (procs s)\<rparr>)"
      using locks(2) np wakeup_Ok[of ?u ChCons] u(5,6) by (simp add: no_proc_lock_def)
    have spec: "cons_spec c (q, l) = (q @ l @ [of_int d], [])"
      using stop D fits full len by (simp add: cons_spec_def d_def[symmetric] Let_def)
    let ?v = "?u\<lparr>procs := map (wake_proc ChCons) (procs s), held := held s\<rparr>"
    have "cons_rel ?v (q @ l @ [of_int d]) [] = cons_rel (t\<lparr>cons_w := cons_e t\<rparr>) (q @ l @ [of_int d]) []"
      by (rule cons_rel_cong) (simp_all add: u)
    moreover have "consoleintr c s = Ok ?v" unfolding run if_P[OF stop] w by (simp add: u)
    ultimately show ?thesis unfolding spec using ap(5) by (simp add: returns_def)
  next
    case go: False
    have spec: "cons_spec c (q, l) = (q, l @ [of_int d])"
      using go D fits full len by (simp add: cons_spec_def d_def[symmetric] Let_def)
    have "cons_rel (u\<lparr>held := held s\<rparr>) q (l @ [of_int d]) = cons_rel t q (l @ [of_int d])"
      by (rule cons_rel_cong) (simp_all add: u)
    moreover have "consoleintr c s = Ok (u\<lparr>held := held s\<rparr>)" unfolding run using go by (simp add: u)
    ultimately show ?thesis unfolding spec using go ap(4) d(2) by (simp add: returns_def)
  qed
qed

text \<open>
  C16. The line discipline. \<^verbatim>\<open>consoleintr\<close> acts on the bytes ready for readers and on the line being
  edited as specified: a character is appended to the line while fewer than \<^verbatim>\<open>INPUT_BUF\<close> bytes are
  buffered; newline, control-D or a full buffer hands the whole line to the readers, and wakes them;
  backspace removes the last character of the line only; control-U removes the whole line and nothing
  handed over before. The 32-bit counters may wrap around.
\<close>

theorem console_line_discipline:
  assumes rel: "cons_rel s q l" and c: "0 \<le> c" "c < 256" and up: "\<not> panicked s"
    and locks: "LkCons \<notin> set (held s)" "LkPr \<notin> set (held s)" "no_proc_lock s" and np: "length (procs s) = NPROC"
  shows "returns (consoleintr c s) (\<lambda>t. cons_rel t (fst (cons_spec c (q, l))) (snd (cons_spec c (q, l)))
    \<and> held t = held s \<and> (q \<noteq> fst (cons_spec c (q, l)) \<longrightarrow> procs t = map (wake_proc ChCons) (procs s)))"
proof -
  note len = cons_lengths[OF rel]
  let ?s = "s\<lparr>held := LkCons # held s\<rparr>"
  have rel': "cons_rel ?s q l" using rel by simp
  have acq: "acquire_lk LkCons s = Ok ?s" using locks(1) by simp
  consider (P) "c = 0x10" | (U) "c = 0x15" | (H) "c = 8 \<or> c = 0x7f"
    | (D) "c \<noteq> 0x10" "c \<noteq> 0x15" "c \<noteq> 8" "c \<noteq> 0x7f" by blast
  then show ?thesis
  proof cases
    case P
    obtain x where "procdump_out ?s = Ok (?s\<lparr>uout := uout s @ x\<rparr>)"
      using procdump_out_Ok[of ?s] up locks(2) by auto
    then show ?thesis using P rel acq unfolding consoleintr_def by (simp add: cons_spec_def returns_def)
  next
    case U
    obtain x where x: "kill_line ?s = Ok (?s\<lparr>cons_e := cons_w s, uout := uout s @ x\<rparr>)"
      using kill_line_rel[OF rel'] up by auto
    have "cons_rel (s\<lparr>cons_e := cons_w s\<rparr>) q []" using rel by (simp add: cons_rel_def)
    then have "cons_rel (s\<lparr>cons_e := cons_w s, uout := uout s @ x, held := held s\<rparr>) q []" by simp
    then show ?thesis using U x acq unfolding consoleintr_def by (simp add: cons_spec_def returns_def)
  next
    case H
    show ?thesis
    proof (cases "cons_e s = cons_w s")
      case True
      then have "l = []" using rel by (simp add: cons_rel_def)
      then show ?thesis using H True rel acq unfolding consoleintr_def by (auto simp: cons_spec_def returns_def)
    next
      case False
      then have ne: "cons_w s \<noteq> cons_e s" by simp
      have "cons_rel (s\<lparr>cons_e := cons_e s - 1, uout := uout s @ [8, 32, 8]\<rparr>) q (butlast l)"
        by (rule cons_erase(1)[OF rel ne])
      then have "cons_rel (s\<lparr>cons_e := cons_e s - 1, uout := uout s @ [8, 32, 8], held := held s\<rparr>) q (butlast l)" by simp
      then show ?thesis using H False up acq unfolding consoleintr_def
        by (auto simp: cons_spec_def returns_def consputc_Ok)
    qed
  next
    case D
    show ?thesis
    proof (cases "c \<noteq> 0 \<and> length q + length l < INPUT_BUF")
      case False
      then show ?thesis using D rel acq len unfolding consoleintr_def by (auto simp: cons_spec_def returns_def)
    next
      case True
      then show ?thesis using consoleintr_char[OF rel c up locks(1,3) np D] by blast
    qed
  qed
qed

definition boot_cons :: kcons where
  "boot_cons = \<lparr>held = [], procs = replicate NPROC zero_proc, curp = Some 0, nextpid = 1, initproc = None,
     mem = \<lambda>_. 0, freelist = 0, kend = 0x87FFF000, kernel_pagetable = 0, etext = 0x80008000,
     trampoline = 0x80007000, satp = 0,
     bufs = \<lambda>_. zero_buf, blinks = \<lparr>nxt = \<lambda>_. BHead, prv = \<lambda>_. BHead\<rparr>, disks = \<lambda>_ _. replicate BSIZE 0, dtrace = [],
     logs = \<lambda>_. demo_log,
     icache = \<lambda>_. \<lparr>i_dev = 0, i_inum = 0, i_ref = 0, i_lock = initsleeplock, i_valid = False, i_type = 0, i_major = 0,
       i_minor = 0, i_nlink = 0, i_size = 0, i_addrs = replicate 13 0\<rparr>,
     sb = \<lparr>sb_magic = FSMAGIC, sb_size = 1000, sb_nblocks = 954, sb_ninodes = 200, sb_nlog = 30, sb_logstart = 2,
       sb_inodestart = 32, sb_bmapstart = 45\<rparr>,
     cons_buf = replicate INPUT_BUF 0, cons_r = 0, cons_w = 0, cons_e = 0, uin = [], uout = [], uregs = [],
     panicked = False, pr_locking = True, devsw_read = \<lambda>_. NoDev, devsw_write = \<lambda>_. NoDev\<rparr>"

lemma boot_cons_rel: "cons_rel (boot_cons\<lparr>cons_r := x, cons_w := x, cons_e := x\<rparr>) [] []"
  by (simp add: cons_rel_def boot_cons_def)

theorem console_line_discipline_witness:
  "returns (consoleintr 10 (boot_cons\<lparr>cons_r := 0xFFFFFFFF, cons_w := 0xFFFFFFFF, cons_e := 0xFFFFFFFF\<rparr>)) (\<lambda>t. cons_rel t [10] [])"
proof -
  have "cons_spec 10 ([], []) = ([10], [])" by (simp add: cons_spec_def INPUT_BUF_def)
  then show ?thesis
    using console_line_discipline[OF boot_cons_rel[of "0xFFFFFFFF"], of 10]
    by (auto simp: boot_cons_def no_proc_lock_def returns_def NPROC_def)
qed

section \<open>Reading a line\<close>

text \<open>
  Storing one byte, and a sequence of bytes one at a time, where \<^verbatim>\<open>either_copyout\<close> puts them: through the page
  table \<open>pt\<close> of the process, or at the address itself.
\<close>

definition put1 :: "bool \<Rightarrow> u64 \<Rightarrow> mem \<Rightarrow> u64 \<Rightarrow> u8 \<Rightarrow> mem option" where
  "put1 user pt m a b = (if user then cout1 m pt a b else Some (store_bytes m a [b]))"

primrec puts :: "bool \<Rightarrow> u64 \<Rightarrow> mem \<Rightarrow> u64 \<Rightarrow> u8 list \<Rightarrow> mem option" where
  "puts user pt m a [] = Some m"
| "puts user pt m a (b # bs) = (case put1 user pt m a b of None \<Rightarrow> None | Some m \<Rightarrow> puts user pt m (a + 1) bs)"

lemma either_copyout_byte:
  "either_copyout user a [b] s = (case put1 user (pagetable (procs s ! myproc s)) (mem s) a b of
     None \<Rightarrow> Ok (-1, s) | Some m \<Rightarrow> Ok (0, s\<lparr>mem := m\<rparr>))"
  by (simp add: either_copyout_def put1_def copyout_byte split: option.split)

text \<open>
  How a read of at most \<open>n\<close> bytes that wanted \<open>target\<close> in all ends, when it has stored the bytes \<open>d\<close> of
  the ready bytes \<open>d @ e\<close>: with the result \<open>r\<close>, and the ready bytes \<open>q'\<close> left.
\<close>

definition cread_end :: "bool \<Rightarrow> u64 \<Rightarrow> mem \<Rightarrow> bool \<Rightarrow> u64 \<Rightarrow> nat \<Rightarrow> nat \<Rightarrow> u8 list \<Rightarrow> u8 list \<Rightarrow> cread \<Rightarrow> u8 list \<Rightarrow> bool" where
  "cread_end user pt m dead dst n target d e r q' \<longleftrightarrow>
     (let got = CReturn (int target - (int n - int (length d))); k = n - length d; a = dst + of_nat (length d) in
        length d = n \<and> NEWLINE \<notin> set d \<and> r = got \<and> q' = e
      \<or> length d \<le> n \<and> (\<exists>d'. d = d' @ [NEWLINE] \<and> NEWLINE \<notin> set d') \<and> r = got \<and> q' = e
      \<or> length d < n \<and> NEWLINE \<notin> set d
        \<and> (case e of
             [] \<Rightarrow> r = (if dead then CReturn (-1) else CBlocked a (int k)) \<and> q' = []
           | c # cs \<Rightarrow> if c = CTRL_D then r = got \<and> q' = (if k < target then e else cs)
                       else put1 user pt m a c = None \<and> r = got \<and> q' = cs))"

lemma cread_end_Cons:
  assumes "cread_end user pt m dead (dst + 1) n target d e r q'" and "c \<noteq> NEWLINE"
  shows "cread_end user pt m dead dst (Suc n) target (c # d) e r q'"
proof -
  have a: "dst + of_nat (length (c # d)) = dst + 1 + of_nat (length d)" by simp
  have nl: "(\<exists>d'. c # d = d' @ [NEWLINE] \<and> NEWLINE \<notin> set d') \<longleftrightarrow> (\<exists>d'. d = d' @ [NEWLINE] \<and> NEWLINE \<notin> set d')"
    using assms(2) by (auto simp: Cons_eq_append_conv)
  show ?thesis using assms unfolding cread_end_def a nl by (simp add: Let_def)
qed

lemma cons_pop:
  assumes "cons_rel s (c # q) l"
  shows "cons_r s \<noteq> cons_w s" "cons_buf s ! (unat (cons_r s) mod INPUT_BUF) = c" "cons_rel (s\<lparr>cons_r := cons_r s + 1\<rparr>) q l"
proof -
  note len = cons_lengths[OF assms]
  show ne: "cons_r s \<noteq> cons_w s" using len(1) by auto
  have q: "c # q = ring INPUT_BUF (cons_buf s) (cons_r s) (cons_w s)" using assms unfolding cons_rel_def by blast
  note pop = q[unfolded cons_ring.ring_pop[OF ne]]
  then show "cons_buf s ! (unat (cons_r s) mod INPUT_BUF) = c" by simp
  have re: "cons_r s \<noteq> cons_e s" using len(2) by auto
  have q': "q = ring INPUT_BUF (cons_buf s) (cons_r s + 1) (cons_w s)" using pop by simp
  have f: "length (cons_buf s) = INPUT_BUF" "unat (cons_w s - cons_r s) \<le> unat (cons_e s - cons_r s)"
      "unat (cons_e s - cons_r s) \<le> INPUT_BUF" "l = ring INPUT_BUF (cons_buf s) (cons_w s) (cons_e s)" "NEWLINE \<notin> set l"
    using assms unfolding cons_rel_def by blast+
  show "cons_rel (s\<lparr>cons_r := cons_r s + 1\<rparr>) q l"
    using f(1-3,5) unat_diff_pred[OF ne] unat_diff_pred[OF re] unfolding cons_rel_def
    by (simp add: f(4)[symmetric] q'[symmetric])
qed

lemma returns_ex3:
  "m = Ok (r, t) \<Longrightarrow> P r t x y z \<Longrightarrow> returns m (\<lambda>(r, t). \<exists>x y z. P r t x y z)"
  by auto

text \<open>
  C31. \<^verbatim>\<open>consoleread\<close>, to a user or a kernel buffer, delivers a line at a time. The bytes it stores, in order
  from the destination on, are the front of the ready bytes, without control-D and with a newline at most as the last. It
  stops, and returns the number of bytes stored since the call began, after \<open>n\<close> bytes, after a newline, at a control-D,
  which is kept for the next read if bytes were delivered before it, or at a byte that cannot be stored at the user
  address, which is lost. When the ready bytes run out first the reader sleeps with the place in its buffer
  advanced past what it got, or returns \<open>-1\<close> if it was killed. The line being edited is not touched.
\<close>

theorem consoleread_line:
  assumes "cons_rel s q l" and "LkCons \<in> set (held s)" and "pt = pagetable (procs s ! myproc s)"
  shows "returns (consoleread_loop user_dst dst (int n) (int target) s) (\<lambda>(r, t). \<exists>d e q'. q = d @ e \<and> CTRL_D \<notin> set d
    \<and> cread_end user_dst pt (mem t) (killed (procs s ! myproc s)) dst n target d e r q'
    \<and> puts user_dst pt (mem s) dst d = Some (mem t) \<and> cons_rel t q' l
    \<and> procs t = procs s \<and> held t = (case r of CReturn _ \<Rightarrow> remove1 LkCons (held s) | CBlocked _ _ \<Rightarrow> held s))"
  using assms
proof (induction n arbitrary: s dst q)
  case 0
  then show ?case
    by (intro returns_ex3[where x = "[]" and y = q and z = q], subst consoleread_loop.simps)
      (simp add: cread_done_def, simp add: cread_end_def)
next
  case (Suc n)
  show ?case
  proof (cases q)
    case Nil
    then have "cons_r s = cons_w s" using cons_lengths(1)[OF Suc.prems(1)] unat_diff_pred[of "cons_r s" "cons_w s"] by auto
    then show ?thesis using Suc.prems Nil
      by (cases "killed (procs s ! myproc s)"; intro returns_ex3[where x = "[]" and y = "[]" and z = "[]"], subst consoleread_loop.simps)
        (simp add: cread_done_def, simp add: cread_end_def)+
  next
    case (Cons c cs)
    note pop = cons_pop[OF Suc.prems(1)[unfolded Cons]]
    let ?s = "s\<lparr>cons_r := cons_r s + 1\<rparr>"
    consider (eof) "c = CTRL_D" | (fault) "c \<noteq> CTRL_D" "put1 user_dst pt (mem s) dst c = None"
      | (nl) m where "c \<noteq> CTRL_D" "put1 user_dst pt (mem s) dst c = Some m" "c = NEWLINE"
      | (ch) m where "c \<noteq> CTRL_D" "put1 user_dst pt (mem s) dst c = Some m" "c \<noteq> NEWLINE" by fastforce
    then show ?thesis
    proof cases
      case eof
      have "cons_rel (s\<lparr>cons_r := cons_r s + 1 - 1\<rparr>) q l" using Suc.prems(1) by simp
      then show ?thesis using Suc.prems pop eof Cons
        by (cases "Suc n < target"; intro returns_ex3[where x = "[]" and y = q and z = "if Suc n < target then q else cs"],
            subst consoleread_loop.simps)
          (simp add: cread_done_def, simp add: cread_end_def)+
    next
      case fault
      then show ?thesis using Suc.prems pop Cons
        by (intro returns_ex3[where x = "[]" and y = q and z = cs], subst consoleread_loop.simps)
          (simp add: cread_done_def either_copyout_byte, simp add: cread_end_def)
    next
      case nl
      then show ?thesis using Suc.prems pop Cons
        by (intro returns_ex3[where x = "[NEWLINE]" and y = cs and z = cs], subst consoleread_loop.simps)
          (simp add: cread_done_def either_copyout_byte, simp add: cread_end_def)
    next
      case ch
      let ?u = "?s\<lparr>mem := m\<rparr>"
      have run: "consoleread_loop user_dst dst (int (Suc n)) (int target) s = consoleread_loop user_dst (dst + 1) (int n) (int target) ?u"
        using pop ch Suc.prems(3) by (subst consoleread_loop.simps) (simp add: either_copyout_byte Let_def)
      have u: "cons_rel ?u cs l" "LkCons \<in> set (held ?u)" "pt = pagetable (procs ?u ! myproc ?u)"
        and eqs: "held ?u = held s" "procs ?u = procs s" "mem ?u = m" "curp ?u = curp s"
        using pop(3) Suc.prems(2,3) by simp_all
      obtain r t d e q' where rt: "consoleread_loop user_dst (dst + 1) (int n) (int target) ?u = Ok (r, t)"
        and q: "cs = d @ e" "CTRL_D \<notin> set d" "cons_rel t q' l"
        and fin: "cread_end user_dst pt (mem t) (killed (procs s ! myproc s)) (dst + 1) n target d e r q'"
        and w: "puts user_dst pt m (dst + 1) d = Some (mem t)"
        and f: "procs t = procs s" "held t = (case r of CReturn _ \<Rightarrow> remove1 LkCons (held s) | CBlocked _ _ \<Rightarrow> held s)"
        using Suc.IH[OF u, of "dst + 1", unfolded eqs] unfolding returns_def by blast
      have "puts user_dst pt (mem s) dst (c # d) = Some (mem t)" using ch w by simp
      moreover note cread_end_Cons[OF fin ch(3)]
      ultimately show ?thesis unfolding run rt Cons returns_Ok case_prod_conv using q ch(1) f
        by - (rule exI[of _ "c # d"], rule exI[of _ e], rule exI[of _ q'], simp)
    qed
  qed
qed

text \<open>
  A page table that maps user page 0 to the page at \<^verbatim>\<open>0x87002000\<close>, for the process reading.
\<close>

definition cread_example :: kcons where
  "cread_example = boot_cons\<lparr>held := [LkCons], cons_buf := 97 # 10 # replicate 126 98, cons_w := 3, cons_e := 3,
     mem := store64 (store64 (store64 (\<lambda>_. 0) 0x87FFD000 (PA2PTE 0x87FFC000 OR PTE_V)) 0x87FFC000 (PA2PTE 0x87FFB000 OR PTE_V))
       0x87FFB000 (PA2PTE 0x87002000 OR PTE_V OR PTE_U OR PTE_W OR PTE_R),
     procs := (procs boot_cons)[0 := zero_proc\<lparr>pagetable := 0x87FFD000\<rparr>]\<rparr>"

lemma cread_example_page:
  assumes "\<And>a. a \<in> {0x87FFD000, 0x87FFC000, 0x87FFB000} \<Longrightarrow> load64 m a = load64 (mem cread_example) a"
  shows "put1 True 0x87FFD000 m 0 b = Some (store_bytes m 0x87002000 [b])" "put1 True 0x87FFD000 m 1 b = Some (store_bytes m 0x87002001 [b])"
proof -
  have l: "load64 m 0x87FFD000 = PA2PTE 0x87FFC000 OR PTE_V" "load64 m 0x87FFC000 = PA2PTE 0x87FFB000 OR PTE_V"
      "load64 m 0x87FFB000 = PA2PTE 0x87002000 OR PTE_V OR PTE_U OR PTE_W OR PTE_R"
    by (simp_all add: assms) (simp_all add: cread_example_def load64_store64_apart)
  note v = PA2PTE_def PTE2PA_def PTE_V_def PTE_U_def PTE_W_def PTE_R_def
  have e: "pte_addr pt i 0 = pt" for pt i by (simp add: pte_addr_def PX_def)
  have "walk_pte (Suc (Suc 0)) m 0x87FFD000 0 = 0x87FFB000" unfolding walk_pte.simps e l(1) by (simp add: v l(2) e)
  then have "walk_pte 2 m 0x87FFD000 0 = 0x87FFB000" by (simp only: numeral_2_eq_2)
  then have "user_pa m 0x87FFD000 0 = 0x87002000" by (simp add: user_pa_def l(3) MAXVA_def v)
  then show "put1 True 0x87FFD000 m 0 b = Some (store_bytes m 0x87002000 [b])" "put1 True 0x87FFD000 m 1 b = Some (store_bytes m 0x87002001 [b])"
    by (simp_all add: put1_def cout1_def PGROUNDDOWN_def PGSIZE_def)
qed

theorem consoleread_line_witness:
  "returns (consoleread_loop True 0 8 8 cread_example) (\<lambda>(r, t). r = CReturn 2 \<and> mem t 0x87002000 = 97 \<and> mem t 0x87002001 = 10)"
proof -
  let ?s = cread_example and ?pt = "0x87FFD000 :: u64"
  have s: "cons_rel ?s [97, 10, 98] []" "LkCons \<in> set (held ?s)" "?pt = pagetable (procs ?s ! myproc ?s)"
    by (simp_all add: cread_example_def boot_cons_def cons_rel_def INPUT_BUF_def ring_def NEWLINE_def NPROC_def upt_rec)
  define m1 where "m1 = store_bytes (mem ?s) 0x87002000 [97]"
  have "load64 m1 a = load64 (mem ?s) a" if "a \<in> {0x87FFD000, 0x87FFC000, 0x87FFB000}" for a
    using that by (auto simp: m1_def load64_store_bytes_apart)
  then have p: "put1 True ?pt (mem ?s) 0 97 = Some m1" "put1 True ?pt m1 1 10 = Some (store_bytes m1 0x87002001 [10])"
    using cread_example_page(1)[of "mem ?s" 97] cread_example_page(2)[of m1 10] unfolding m1_def by blast+
  obtain r t d e q' where rt: "consoleread_loop True 0 8 8 ?s = Ok (r, t)" and q: "[97, 10, 98] = d @ e"
    and fin: "cread_end True ?pt (mem t) (killed (procs ?s ! myproc ?s)) 0 8 8 d e r q'"
    and w: "puts True ?pt (mem ?s) 0 d = Some (mem t)"
    using consoleread_line[OF s, of True 0 8 8] unfolding returns_def of_nat_numeral by blast
  have nl: "d = [] \<and> e = [97, 10, 98] \<or> d = [97] \<and> e = [10, 98] \<or> d = [97, 10] \<and> e = [98] \<or> d = [97, 10, 98] \<and> e = []"
    using q by (auto simp: Cons_eq_append_conv)
  then have "d = [97, 10]" "r = CReturn 2"
    using fin w p by (auto simp: cread_end_def NEWLINE_def CTRL_D_def Cons_eq_append_conv)
  moreover from this have "mem t = store_bytes m1 0x87002001 [10]" using w p by simp
  ultimately show ?thesis unfolding rt by (simp add: m1_def store_bytes_def unat_gt_0)
qed

end
