(* ===== verification/KFile.thy ===== *)
theory KFile
  imports KConsole KPaging
begin

text \<open>
  \<^verbatim>\<open>kernel/file.c\<close> and \<^verbatim>\<open>kernel/pipe.c\<close>: the table of open files with its reference counts, pipes as ring
  buffers in pages of their own, and reading and writing through a file of any kind. A pipe is shown to be a
  bounded first-in first-out queue under any sequence of reads and writes.
\<close>

section \<open>State\<close>

definition NFILE :: nat where "NFILE = 100"
definition PIPESIZE :: nat where "PIPESIZE = 512"

datatype ftype = FD_NONE | FD_PIPE | FD_INODE | FD_DEVICE

record kfile =
  f_type :: ftype
  f_ref :: int
  f_readable :: bool
  f_writable :: bool
  f_pipe :: u64
  f_ip :: nat
  f_off :: u32
  f_major :: u16
  f_minor :: u16

record pipe =
  pi_data :: "u8 list"
  pi_nread :: u32
  pi_nwrite :: u32
  pi_readopen :: bool
  pi_writeopen :: bool

text \<open>A pipe lives in a page from \<^verbatim>\<open>kalloc\<close>; \<open>pipes\<close> has the structure at that address.\<close>

record kfiles = kcons +
  ftable :: "nat \<Rightarrow> kfile"
  pipes :: "u64 \<Rightarrow> pipe"

definition f_upd :: "nat \<Rightarrow> (kfile \<Rightarrow> kfile) \<Rightarrow> 'a kfiles_scheme \<Rightarrow> 'a kfiles_scheme" where
  "f_upd i f s = s\<lparr>ftable := (ftable s)(i := f (ftable s i))\<rparr>"

definition pi_upd :: "u64 \<Rightarrow> (pipe \<Rightarrow> pipe) \<Rightarrow> 'a kfiles_scheme \<Rightarrow> 'a kfiles_scheme" where
  "pi_upd i f s = s\<lparr>pipes := (pipes s)(i := f (pipes s i))\<rparr>"

section \<open>Pipes\<close>

definition pipeclose :: "u64 \<Rightarrow> bool \<Rightarrow> 'a kfiles_scheme \<Rightarrow> 'a kfiles_scheme outcome" where
  "pipeclose pi writable s =
     obind (acquire_lk (LkPipe pi) s) (\<lambda>s.
     obind (if writable then wakeup (ChPipeRead pi) (pi_upd pi (\<lambda>p. p\<lparr>pi_writeopen := False\<rparr>) s)
            else wakeup (ChPipeWrite pi) (pi_upd pi (\<lambda>p. p\<lparr>pi_readopen := False\<rparr>) s)) (\<lambda>s.
     if \<not> pi_readopen (pipes s pi) \<and> \<not> pi_writeopen (pipes s pi)
     then obind (release_lk (LkPipe pi) s) (kfree pi)
     else release_lk (LkPipe pi) s))"

text \<open>
  The loop of \<^verbatim>\<open>pipewrite\<close> from index \<open>i\<close>, with the lock held, until it returns or sleeps. \<open>PBlocked i\<close>
  is a sleep on \<^verbatim>\<open>&pi->nwrite\<close>; when woken the loop goes on at \<open>i\<close>.
\<close>

datatype pres = PReturn int | PBlocked nat

primrec pipewrite_loop :: "nat \<Rightarrow> nat \<Rightarrow> u64 \<Rightarrow> u64 \<Rightarrow> int \<Rightarrow> 'a kfiles_scheme \<Rightarrow> (pres \<times> 'a kfiles_scheme) outcome" where
  "pipewrite_loop 0 i pi addr n s =
     obind (wakeup (ChPipeRead pi) s) (\<lambda>s. obind (release_lk (LkPipe pi) s) (\<lambda>s. Ok (PReturn n, s)))"
| "pipewrite_loop (Suc k) i pi addr n s =
     (if pi_nwrite (pipes s pi) = pi_nread (pipes s pi) + of_nat PIPESIZE then
        if \<not> pi_readopen (pipes s pi) \<or> killed (procs s ! myproc s)
        then obind (release_lk (LkPipe pi) s) (\<lambda>s. Ok (PReturn (-1), s))
        else obind (wakeup (ChPipeRead pi) s) (\<lambda>s. Ok (PBlocked i, s))
      else obind (copyin (pagetable (procs s ! myproc s)) (addr + of_nat i) 1 s) (\<lambda>(r, x).
        if r = -1
        then obind (wakeup (ChPipeRead pi) s) (\<lambda>s. obind (release_lk (LkPipe pi) s) (\<lambda>s. Ok (PReturn n, s)))
        else let s = pi_upd pi (\<lambda>p. p\<lparr>pi_data := (pi_data p)[unat (pi_nwrite p) mod PIPESIZE := x ! 0],
                                     pi_nwrite := pi_nwrite p + 1\<rparr>) s
             in pipewrite_loop k (Suc i) pi addr n s))"

definition pipewrite :: "u64 \<Rightarrow> u64 \<Rightarrow> int \<Rightarrow> 'a kfiles_scheme \<Rightarrow> (int \<times> 'a kfiles_scheme) outcome" where
  "pipewrite pi addr n s =
     obind (acquire_lk (LkPipe pi) s) (\<lambda>s.
     obind (pipewrite_loop (nat n) 0 pi addr n s) (\<lambda>(r, s).
     case r of PReturn v \<Rightarrow> Ok (v, s) | PBlocked _ \<Rightarrow> Sleep (ChPipeWrite pi)))"

text \<open>The copying loop of \<^verbatim>\<open>piperead\<close>, for at most \<open>k\<close> more bytes; the result is the number of bytes read.\<close>

primrec piperead_loop :: "nat \<Rightarrow> nat \<Rightarrow> u64 \<Rightarrow> u64 \<Rightarrow> 'a kfiles_scheme \<Rightarrow> (nat \<times> 'a kfiles_scheme) outcome" where
  "piperead_loop 0 i pi addr s = Ok (i, s)"
| "piperead_loop (Suc k) i pi addr s =
     (if pi_nread (pipes s pi) = pi_nwrite (pipes s pi) then Ok (i, s)
      else let ch = pi_data (pipes s pi) ! (unat (pi_nread (pipes s pi)) mod PIPESIZE);
               s = pi_upd pi (\<lambda>p. p\<lparr>pi_nread := pi_nread p + 1\<rparr>) s
           in obind (copyout (pagetable (procs s ! myproc s)) (addr + of_nat i) [ch] s) (\<lambda>(r, s).
              if r = -1 then Ok (i, s) else piperead_loop k (Suc i) pi addr s))"

definition piperead :: "u64 \<Rightarrow> u64 \<Rightarrow> int \<Rightarrow> 'a kfiles_scheme \<Rightarrow> (int \<times> 'a kfiles_scheme) outcome" where
  "piperead pi addr n s =
     obind (acquire_lk (LkPipe pi) s) (\<lambda>s.
     if pi_nread (pipes s pi) = pi_nwrite (pipes s pi) \<and> pi_writeopen (pipes s pi)
     then if killed (procs s ! myproc s)
          then obind (release_lk (LkPipe pi) s) (\<lambda>s. Ok (-1, s))
          else Sleep (ChPipeRead pi)
     else obind (piperead_loop (nat n) 0 pi addr s) (\<lambda>(i, s).
          obind (wakeup (ChPipeWrite pi) s) (\<lambda>s.
          obind (release_lk (LkPipe pi) s) (\<lambda>s. Ok (int i, s)))))"

section \<open>The file table\<close>

definition filealloc :: "'a kfiles_scheme \<Rightarrow> (nat option \<times> 'a kfiles_scheme) outcome" where
  "filealloc s =
     obind (acquire_lk LkFtable s) (\<lambda>s.
     case find (\<lambda>i. f_ref (ftable s i) = 0) [0..<NFILE] of
       Some i \<Rightarrow> obind (release_lk LkFtable (f_upd i (\<lambda>f. f\<lparr>f_ref := 1\<rparr>) s)) (\<lambda>s. Ok (Some i, s))
     | None \<Rightarrow> obind (release_lk LkFtable s) (\<lambda>s. Ok (None, s)))"

definition filedup :: "nat \<Rightarrow> 'a kfiles_scheme \<Rightarrow> (nat \<times> 'a kfiles_scheme) outcome" where
  "filedup f s =
     obind (acquire_lk LkFtable s) (\<lambda>s.
     if f_ref (ftable s f) < 1 then Panic ''filedup''
     else obind (release_lk LkFtable (f_upd f (\<lambda>x. x\<lparr>f_ref := f_ref x + 1\<rparr>) s)) (\<lambda>s. Ok (f, s)))"

definition fileclose :: "nat \<Rightarrow> 'a kfiles_scheme \<Rightarrow> 'a kfiles_scheme outcome" where
  "fileclose f s =
     obind (acquire_lk LkFtable s) (\<lambda>s.
     if f_ref (ftable s f) < 1 then Panic ''fileclose''
     else
       let s = f_upd f (\<lambda>x. x\<lparr>f_ref := f_ref x - 1\<rparr>) s in
       if f_ref (ftable s f) > 0 then release_lk LkFtable s
       else
         let ff = ftable s f; s = f_upd f (\<lambda>x. x\<lparr>f_ref := 0, f_type := FD_NONE\<rparr>) s in
         obind (release_lk LkFtable s) (\<lambda>s.
         if f_type ff = FD_PIPE then pipeclose (f_pipe ff) (f_writable ff) s
         else if f_type ff = FD_INODE \<or> f_type ff = FD_DEVICE
         then obind (begin_op (i_dev (icache s (f_ip ff))) s) (\<lambda>s.
              obind (iput (f_ip ff) s) (\<lambda>s.
              end_op (i_dev (icache s (f_ip ff))) s))
         else Ok s))"

text \<open>Undoing a failed \<^verbatim>\<open>pipealloc\<close>: the label \<^verbatim>\<open>bad\<close>, reached before a page was allocated.\<close>

definition pipealloc_bad :: "nat option \<Rightarrow> nat option \<Rightarrow> 'a kfiles_scheme \<Rightarrow> ((nat \<times> nat) option \<times> 'a kfiles_scheme) outcome" where
  "pipealloc_bad f0 f1 s =
     obind (case f0 of Some f \<Rightarrow> fileclose f s | None \<Rightarrow> Ok s) (\<lambda>s.
     obind (case f1 of Some f \<Rightarrow> fileclose f s | None \<Rightarrow> Ok s) (\<lambda>s. Ok (None, s)))"

text \<open>\<^verbatim>\<open>pipealloc\<close>: the two files, or \<open>None\<close> for \<open>-1\<close>.\<close>

definition pipealloc :: "'a kfiles_scheme \<Rightarrow> ((nat \<times> nat) option \<times> 'a kfiles_scheme) outcome" where
  "pipealloc s =
     obind (filealloc s) (\<lambda>(f0, s).
     case f0 of None \<Rightarrow> pipealloc_bad None None s
     | Some r \<Rightarrow>
         obind (filealloc s) (\<lambda>(f1, s).
         case f1 of None \<Rightarrow> pipealloc_bad f0 None s
         | Some w \<Rightarrow>
             obind (kalloc s) (\<lambda>(pi, s).
             if pi = 0 then pipealloc_bad f0 f1 s
             else
               let s = pi_upd pi (\<lambda>p. p\<lparr>pi_readopen := True, pi_writeopen := True, pi_nwrite := 0, pi_nread := 0\<rparr>) s;
                   s = f_upd r (\<lambda>f. f\<lparr>f_type := FD_PIPE, f_readable := True, f_writable := False, f_pipe := pi\<rparr>) s;
                   s = f_upd w (\<lambda>f. f\<lparr>f_type := FD_PIPE, f_readable := False, f_writable := True, f_pipe := pi\<rparr>) s
               in Ok (Some (r, w), s))))"

text \<open>\<^verbatim>\<open>struct stat\<close> in memory; the four bytes of padding are not specified by the code.\<close>

definition stat_bytes :: "kstat \<Rightarrow> u8 list" where
  "stat_bytes st = le_bytes 4 (of_int (st_dev st) :: u32) @ le_bytes 4 (st_ino st) @ le_bytes 2 (st_type st)
     @ le_bytes 2 (st_nlink st) @ replicate 4 0 @ le_bytes 8 (st_size st)"

definition filestat :: "nat \<Rightarrow> u64 \<Rightarrow> 'a kfiles_scheme \<Rightarrow> (int \<times> 'a kfiles_scheme) outcome" where
  "filestat f addr s =
     (if f_type (ftable s f) = FD_INODE \<or> f_type (ftable s f) = FD_DEVICE then
        let ip = f_ip (ftable s f) in
        obind (ilock (Some ip) s) (\<lambda>s.
        let st = stati (icache s ip) in
        obind (iunlock (Some ip) s) (\<lambda>s.
        obind (copyout (pagetable (procs s ! myproc s)) addr (stat_bytes st) s) (\<lambda>(r, s).
        Ok (if r < 0 then -1 else 0, s))))
      else Ok (-1, s))"

definition fileread :: "nat \<Rightarrow> u64 \<Rightarrow> int \<Rightarrow> 'a kfiles_scheme \<Rightarrow> (int \<times> 'a kfiles_scheme) outcome" where
  "fileread f addr n s =
     (let x = ftable s f in
      if \<not> f_readable x then Ok (-1, s)
      else case f_type x of
        FD_PIPE \<Rightarrow> piperead (f_pipe x) addr n s
      | FD_DEVICE \<Rightarrow>
          if sint (f_major x) < 0 \<or> sint (f_major x) \<ge> int NDEV \<or> devsw_read s (nat (sint (f_major x))) = NoDev then Ok (-1, s)
          else consoleread True addr n s
      | FD_INODE \<Rightarrow>
          obind (ilock (Some (f_ip x)) s) (\<lambda>s.
          obind (readi (f_ip x) (Addr True addr) (f_off (ftable s f)) (of_int n) s) (\<lambda>(r, _, s).
          let s = (if r > 0 then f_upd f (\<lambda>y. y\<lparr>f_off := f_off y + of_int r\<rparr>) s else s) in
          obind (iunlock (Some (f_ip x)) s) (\<lambda>s. Ok (r, s))))
      | FD_NONE \<Rightarrow> Panic ''fileread'')"

definition FILE_CHUNK :: int where "FILE_CHUNK = ((MAXOPBLOCKS - 1 - 1 - 2) div 2) * int BSIZE"

text \<open>The loop of \<^verbatim>\<open>filewrite\<close> over an inode: a few blocks per transaction; the result is \<open>i\<close>.\<close>

function filewrite_loop :: "nat \<Rightarrow> u64 \<Rightarrow> int \<Rightarrow> int \<Rightarrow> 'a kfiles_scheme \<Rightarrow> (int \<times> 'a kfiles_scheme) outcome" where
  "filewrite_loop f addr n i s =
     (if i < n then
        let n1 = (if n - i > FILE_CHUNK then FILE_CHUNK else n - i); ip = f_ip (ftable s f) in
        obind (begin_op (i_dev (icache s ip)) s) (\<lambda>s.
        obind (ilock (Some ip) s) (\<lambda>s.
        obind (writei ip (From True (addr + of_int i)) (f_off (ftable s f)) (of_int n1) s) (\<lambda>(r, s).
        let s = (if r > 0 then f_upd f (\<lambda>y. y\<lparr>f_off := f_off y + of_int r\<rparr>) s else s) in
        obind (iunlock (Some ip) s) (\<lambda>s.
        obind (end_op (i_dev (icache s ip)) s) (\<lambda>s.
        if r < 0 then Ok (i, s)
        else if r \<noteq> n1 then Panic ''short filewrite''
        else filewrite_loop f addr n (i + r) s)))))
      else Ok (i, s))"
  by pat_completeness auto

termination
proof (relation "measure (\<lambda>(f, addr, n, i, s). nat (n - i))", goal_cases)
  case 1
  show ?case by simp
next
  case 2
  then show ?case by (auto simp: FILE_CHUNK_def MAXOPBLOCKS_def BSIZE_def split: if_splits)
qed

declare filewrite_loop.simps [simp del]

definition filewrite :: "nat \<Rightarrow> u64 \<Rightarrow> int \<Rightarrow> 'a kfiles_scheme \<Rightarrow> (int \<times> 'a kfiles_scheme) outcome" where
  "filewrite f addr n s =
     (let x = ftable s f in
      if \<not> f_writable x then Ok (-1, s)
      else case f_type x of
        FD_PIPE \<Rightarrow> pipewrite (f_pipe x) addr n s
      | FD_DEVICE \<Rightarrow>
          if sint (f_major x) < 0 \<or> sint (f_major x) \<ge> int NDEV \<or> devsw_write s (nat (sint (f_major x))) = NoDev then Ok (-1, s)
          else consolewrite True addr n s
      | FD_INODE \<Rightarrow> obind (filewrite_loop f addr n 0 s) (\<lambda>(i, s). Ok (if i = n then n else -1, s))
      | FD_NONE \<Rightarrow> Panic ''filewrite'')"

section \<open>Pipes are queues\<close>

interpretation pipe_ring: ring_buffer PIPESIZE
  by unfold_locales (simp_all add: PIPESIZE_def)

definition pipe_q :: "pipe \<Rightarrow> u8 list" where
  "pipe_q p = ring PIPESIZE (pi_data p) (pi_nread p) (pi_nwrite p)"

definition pipe_ok :: "pipe \<Rightarrow> bool" where
  "pipe_ok p \<longleftrightarrow> length (pi_data p) = PIPESIZE \<and> length (pipe_q p) \<le> PIPESIZE"

lemma pi_upd_simps [simp]:
  "held (pi_upd i f s) = held s" "procs (pi_upd i f s) = procs s" "curp (pi_upd i f s) = curp s" "mem (pi_upd i f s) = mem s"
  "pipes (pi_upd i f s) = (pipes s)(i := f (pipes s i))"
  by (simp_all add: pi_upd_def)

lemma pipe_full: "pi_nwrite p = pi_nread p + of_nat PIPESIZE \<longleftrightarrow> length (pipe_q p) = PIPESIZE"
proof
  assume a: "length (pipe_q p) = PIPESIZE"
  have "pi_nwrite p - pi_nread p = of_nat (unat (pi_nwrite p - pi_nread p))" by simp
  then have "pi_nwrite p - pi_nread p = of_nat PIPESIZE" using a unfolding pipe_q_def length_ring by (simp only:)
  then show "pi_nwrite p = pi_nread p + of_nat PIPESIZE" by (simp add: algebra_simps)
qed (simp add: pipe_q_def PIPESIZE_def)

lemma pipe_empty: "pi_nread p = pi_nwrite p \<longleftrightarrow> pipe_q p = []"
proof
  assume "pipe_q p = []"
  then have "length (pipe_q p) = 0" by simp
  then show "pi_nread p = pi_nwrite p"
    using unat_diff_pred[of "pi_nread p" "pi_nwrite p"] by (auto simp: pipe_q_def)
qed (simp add: pipe_q_def)

lemma pipe_push:
  assumes "pipe_ok p" and "length (pipe_q p) \<noteq> PIPESIZE"
    and p'_def: "p' = p\<lparr>pi_data := (pi_data p)[unat (pi_nwrite p) mod PIPESIZE := b], pi_nwrite := pi_nwrite p + 1\<rparr>"
  shows "pipe_q p' = pipe_q p @ [b]" "pipe_ok p'"
proof -
  have l: "length (pi_data p) = PIPESIZE" "unat (pi_nwrite p - pi_nread p) < PIPESIZE"
    using assms(1,2) by (auto simp: pipe_ok_def pipe_q_def)
  show q: "pipe_q p' = pipe_q p @ [b]" using pipe_ring.ring_push[OF l] by (simp add: pipe_q_def p'_def)
  show "pipe_ok p'" using l q unfolding pipe_ok_def q by (simp add: p'_def pipe_q_def)
qed

lemma pipe_pop:
  assumes "pipe_ok p" and "pipe_q p \<noteq> []"
  defines "p' \<equiv> p\<lparr>pi_nread := pi_nread p + 1\<rparr>"
  shows "pipe_q p = pi_data p ! (unat (pi_nread p) mod PIPESIZE) # pipe_q p'" "pipe_ok p'"
proof -
  have "pi_nread p \<noteq> pi_nwrite p" using assms(2) pipe_empty by blast
  then show q: "pipe_q p = pi_data p ! (unat (pi_nread p) mod PIPESIZE) # pipe_q p'"
    using pipe_ring.ring_pop[of "pi_nread p" "pi_nwrite p" "pi_data p"] by (simp add: pipe_q_def p'_def)
  have "length (pipe_q p') \<le> PIPESIZE" using assms(1) q by (simp add: pipe_ok_def)
  then show "pipe_ok p'" using assms(1) by (simp add: pipe_ok_def p'_def)
qed

text \<open>What happened in a run of \<^verbatim>\<open>pipewrite\<close>'s loop that had accepted the bytes \<open>ws\<close> when it stopped.\<close>

definition pwrite_end :: "u64 \<Rightarrow> u64 \<Rightarrow> nat \<Rightarrow> nat \<Rightarrow> u64 \<Rightarrow> int \<Rightarrow> u8 list \<Rightarrow> pres \<Rightarrow> 'a kfiles_scheme \<Rightarrow> bool" where
  "pwrite_end pt addr k i pi n ws r t \<longleftrightarrow>
     r = PReturn n \<and> (length ws = k \<or> fst (cin (mem t) pt (addr + of_nat (i + length ws)) 1) = -1)
   \<or> r = PBlocked (i + length ws) \<and> length ws < k \<and> length (pipe_q (pipes t pi)) = PIPESIZE
   \<or> r = PReturn (-1) \<and> length ws < k \<and> length (pipe_q (pipes t pi)) = PIPESIZE
       \<and> (\<not> pi_readopen (pipes t pi) \<or> killed (procs t ! myproc t))"

lemma cin_byte: "fst (cin m pt a 1) \<noteq> -1 \<Longrightarrow> \<exists>b. cin m pt a 1 = (0, [b])"
  using cin_result[of m pt a 1 "fst (cin m pt a 1)" "snd (cin m pt a 1)"]
  by (cases "cin m pt a 1") (auto simp: length_Suc_conv)

lemma pipewrite_loop_fifo:
  assumes "pipe_ok (pipes s pi)" and "LkPipe pi \<in> set (held s)" and "no_proc_lock s" and "length (procs s) = NPROC"
    and "pt = pagetable (procs s ! myproc s)"
  shows "returns (pipewrite_loop k i pi addr n s) (\<lambda>(r, t). \<exists>ws. pipe_q (pipes t pi) = pipe_q (pipes s pi) @ ws
    \<and> pipe_ok (pipes t pi) \<and> (\<forall>j < length ws. cin (mem s) pt (addr + of_nat (i + j)) 1 = (0, [ws ! j]))
    \<and> pwrite_end pt addr k i pi n ws r t)"
  using assms
proof (induction k arbitrary: i s)
  case 0
  then show ?case by (simp add: wakeup_Ok returns_def pwrite_end_def)
next
  case (Suc k)
  let ?p = "pipes s pi" and ?a = "addr + of_nat i"
  consider (shut) "length (pipe_q ?p) = PIPESIZE" "\<not> pi_readopen ?p \<or> killed (procs s ! myproc s)"
    | (wait) "length (pipe_q ?p) = PIPESIZE" "pi_readopen ?p" "\<not> killed (procs s ! myproc s)"
    | (fault) "length (pipe_q ?p) \<noteq> PIPESIZE" "fst (cin (mem s) pt ?a 1) = -1"
    | (byte) b where "length (pipe_q ?p) \<noteq> PIPESIZE" "cin (mem s) pt ?a 1 = (0, [b])"
    using cin_byte by blast
  then show ?case
  proof cases
    case shut
    then show ?thesis using Suc.prems by (auto simp: pipe_full returns_def pwrite_end_def)
  next
    case wait
    then show ?thesis using Suc.prems
      by (auto simp: pipe_full returns_def pwrite_end_def wakeup_Ok intro!: exI[of _ "[]"])
  next
    case fault
    then show ?thesis using Suc.prems
      by (cases "cin (mem s) pt ?a 1")
        (auto simp: pipe_full returns_def pwrite_end_def wakeup_Ok copyin_eq no_proc_lock_def intro!: exI[of _ "[]"])
  next
    case byte
    let ?f = "\<lambda>p. p\<lparr>pi_data := (pi_data p)[unat (pi_nwrite p) mod PIPESIZE := b], pi_nwrite := pi_nwrite p + 1\<rparr>"
    let ?s = "pi_upd pi ?f s"
    note push = pipe_push[OF Suc.prems(1) byte(1) refl, of b]
    have run: "pipewrite_loop (Suc k) i pi addr n s = pipewrite_loop k (Suc i) pi addr n ?s"
      using byte Suc.prems(5) by (simp add: pipe_full copyin_eq)
    have "returns (pipewrite_loop k (Suc i) pi addr n ?s) (\<lambda>(r, t). \<exists>ws. pipe_q (pipes t pi) = pipe_q (pipes ?s pi) @ ws
      \<and> pipe_ok (pipes t pi) \<and> (\<forall>j < length ws. cin (mem ?s) pt (addr + of_nat (Suc i + j)) 1 = (0, [ws ! j]))
      \<and> pwrite_end pt addr k (Suc i) pi n ws r t)"
      using Suc.prems push(2) by (intro Suc.IH) (simp_all add: no_proc_lock_def)
    then obtain r t ws where rt: "pipewrite_loop k (Suc i) pi addr n ?s = Ok (r, t)"
      and q: "pipe_q (pipes t pi) = pipe_q (pipes ?s pi) @ ws" "pipe_ok (pipes t pi)"
      and w: "\<forall>j < length ws. cin (mem s) pt (addr + of_nat (Suc i + j)) 1 = (0, [ws ! j])"
      and e: "pwrite_end pt addr k (Suc i) pi n ws r t"
      by (auto simp: returns_def)
    have "\<forall>j < length (b # ws). cin (mem s) pt (addr + of_nat (i + j)) 1 = (0, [(b # ws) ! j])"
    proof (intro allI impI)
      fix j assume "j < length (b # ws)"
      then show "cin (mem s) pt (addr + of_nat (i + j)) 1 = (0, [(b # ws) ! j])"
        using byte(2) w by (cases j) auto
    qed
    moreover have "pwrite_end pt addr (Suc k) i pi n (b # ws) r t" using e by (simp add: pwrite_end_def)
    moreover have "pipe_q (pipes t pi) = pipe_q ?p @ (b # ws)" using q(1) push(1) by simp
    ultimately show ?thesis unfolding run rt using q(2) by (auto intro!: exI[of _ "b # ws"])
  qed
qed

text \<open>What happened in a run of \<^verbatim>\<open>piperead\<close>'s loop that delivered \<open>rs\<close>; \<open>lost\<close> was taken out but not delivered.\<close>

lemma piperead_loop_fifo:
  assumes "pipe_ok (pipes s pi)" and "pt = pagetable (procs s ! myproc s)"
  shows "returns (piperead_loop k i pi addr s) (\<lambda>(i', t). \<exists>rs lost. pipe_q (pipes s pi) = rs @ lost @ pipe_q (pipes t pi)
    \<and> pipe_ok (pipes t pi) \<and> i' = i + length rs \<and> couts (mem s) pt (addr + of_nat i) rs = Some (mem t)
    \<and> procs t = procs s \<and> held t = held s \<and> curp t = curp s
    \<and> (lost = [] \<and> (length rs = k \<or> pipe_q (pipes t pi) = [])
       \<or> length lost = 1 \<and> cout1 (mem t) pt (addr + of_nat i') (hd lost) = None))"
  using assms
proof (induction k arbitrary: i s)
  case 0
  then show ?case by (simp add: returns_def)
next
  case (Suc k)
  let ?p = "pipes s pi" and ?a = "addr + of_nat i"
  show ?case
  proof (cases "pipe_q ?p = []")
    case True
    then show ?thesis using Suc.prems by (simp add: pipe_empty returns_def)
  next
    case False
    let ?s = "pi_upd pi (\<lambda>p. p\<lparr>pi_nread := pi_nread p + 1\<rparr>) s"
    define ch where "ch = pi_data ?p ! (unat (pi_nread ?p) mod PIPESIZE)"
    note pop = pipe_pop[OF Suc.prems(1) False, folded ch_def]
    show ?thesis
    proof (cases "cout1 (mem s) pt ?a ch")
      case None
      then have "piperead_loop (Suc k) i pi addr s = Ok (i, ?s)"
        using False Suc.prems(2) by (simp add: pipe_empty copyout_byte ch_def Let_def)
      then show ?thesis using pop None by (simp add: returns_def exI[of _ "[]"] exI[of _ "[ch]"])
    next
      case (Some m)
      let ?u = "?s\<lparr>mem := m\<rparr>"
      have run: "piperead_loop (Suc k) i pi addr s = piperead_loop k (Suc i) pi addr ?u"
        using False Some Suc.prems(2) by (simp add: pipe_empty copyout_byte ch_def Let_def)
      have "returns (piperead_loop k (Suc i) pi addr ?u) (\<lambda>(i', t). \<exists>rs lost. pipe_q (pipes ?u pi) = rs @ lost @ pipe_q (pipes t pi)
        \<and> pipe_ok (pipes t pi) \<and> i' = Suc i + length rs \<and> couts (mem ?u) pt (addr + of_nat (Suc i)) rs = Some (mem t)
        \<and> procs t = procs ?u \<and> held t = held ?u \<and> curp t = curp ?u
        \<and> (lost = [] \<and> (length rs = k \<or> pipe_q (pipes t pi) = [])
           \<or> length lost = 1 \<and> cout1 (mem t) pt (addr + of_nat i') (hd lost) = None))"
        using Suc.prems pop(2) by (intro Suc.IH) simp_all
      then obtain t rs lost where rt: "piperead_loop k (Suc i) pi addr ?u = Ok (Suc i + length rs, t)"
        and q: "pipe_q (pipes ?u pi) = rs @ lost @ pipe_q (pipes t pi)" "pipe_ok (pipes t pi)"
        and c: "couts m pt (addr + of_nat (Suc i)) rs = Some (mem t)"
        and f: "procs t = procs s" "held t = held s" "curp t = curp s"
        and e: "lost = [] \<and> (length rs = k \<or> pipe_q (pipes t pi) = [])
           \<or> length lost = 1 \<and> cout1 (mem t) pt (addr + of_nat (Suc i + length rs)) (hd lost) = None"
        by (auto simp: returns_def)
      have "couts (mem s) pt ?a (ch # rs) = Some (mem t)" using Some c by (simp add: add.assoc add.commute[of 1])
      moreover have "pipe_q ?p = (ch # rs) @ lost @ pipe_q (pipes t pi)" using pop(1) q(1) by simp
      moreover have "Suc i + length rs = i + length (ch # rs)" by simp
      moreover have "lost = [] \<and> (length (ch # rs) = Suc k \<or> pipe_q (pipes t pi) = [])
           \<or> length lost = 1 \<and> cout1 (mem t) pt (addr + of_nat (Suc i + length rs)) (hd lost) = None"
        using e by simp
      ultimately show ?thesis unfolding run rt returns_Ok case_prod_conv using q(2) f
        by - (rule exI[of _ "ch # rs"], rule exI[of _ lost], intro conjI)
    qed
  qed
qed

text \<open>
  C11. A pipe is a first-in first-out queue of at most \<^verbatim>\<open>PIPESIZE\<close> bytes. Under the pipe's lock, each run of
  the loop of \<^verbatim>\<open>pipewrite\<close> appends the caller's bytes in order, stopping only when all are written, when
  the next byte cannot be read from user memory, or when the pipe is full, where it sleeps or, if nobody reads any
  more or the process was killed, returns \<open>-1\<close>; each run of the loop of \<^verbatim>\<open>piperead\<close> removes bytes from
  the front and stores them in order at the caller's address, until it has enough or the pipe is empty. The 32-bit
  counters may wrap around. When a byte cannot be stored at the caller's address it is lost, and
  \<^verbatim>\<open>pipewrite\<close> reports \<open>n\<close> also when it stopped at an unreadable byte.
\<close>

theorem pipe_fifo:
  assumes ok: "pipe_ok (pipes s pi)" and held: "LkPipe pi \<in> set (held s)" "no_proc_lock s" and np: "length (procs s) = NPROC"
    and pt: "pt = pagetable (procs s ! myproc s)"
  shows "returns (pipewrite_loop k i pi addr n s) (\<lambda>(r, t). \<exists>ws. pipe_q (pipes t pi) = pipe_q (pipes s pi) @ ws
      \<and> pipe_ok (pipes t pi) \<and> (\<forall>j < length ws. cin (mem s) pt (addr + of_nat (i + j)) 1 = (0, [ws ! j]))
      \<and> pwrite_end pt addr k i pi n ws r t)
    \<and> returns (piperead_loop k 0 pi addr s) (\<lambda>(i', t). \<exists>rs lost. pipe_q (pipes s pi) = rs @ lost @ pipe_q (pipes t pi)
      \<and> pipe_ok (pipes t pi) \<and> i' = length rs \<and> couts (mem s) pt addr rs = Some (mem t)
      \<and> (lost = [] \<and> (length rs = k \<or> pipe_q (pipes t pi) = [])
         \<or> length lost = 1 \<and> cout1 (mem t) pt (addr + of_nat i') (hd lost) = None))"
proof
  show "returns (pipewrite_loop k i pi addr n s) (\<lambda>(r, t). \<exists>ws. pipe_q (pipes t pi) = pipe_q (pipes s pi) @ ws
      \<and> pipe_ok (pipes t pi) \<and> (\<forall>j < length ws. cin (mem s) pt (addr + of_nat (i + j)) 1 = (0, [ws ! j]))
      \<and> pwrite_end pt addr k i pi n ws r t)"
    by (rule pipewrite_loop_fifo[OF assms])
  show "returns (piperead_loop k 0 pi addr s) (\<lambda>(i', t). \<exists>rs lost. pipe_q (pipes s pi) = rs @ lost @ pipe_q (pipes t pi)
      \<and> pipe_ok (pipes t pi) \<and> i' = length rs \<and> couts (mem s) pt addr rs = Some (mem t)
      \<and> (lost = [] \<and> (length rs = k \<or> pipe_q (pipes t pi) = [])
         \<or> length lost = 1 \<and> cout1 (mem t) pt (addr + of_nat i') (hd lost) = None))"
    using piperead_loop_fifo[OF ok pt, of k 0 addr]
    by (rule returns_weaken, unfold split_paired_all case_prod_conv add_0 of_nat_0 add_0_right)
      (elim exE conjE, rule exI, rule exI, intro conjI, (assumption | simp)+)
qed

definition boot_files :: kfiles where
  "boot_files = kcons.extend boot_cons \<lparr>ftable = \<lambda>_. \<lparr>f_type = FD_NONE, f_ref = 0, f_readable = False, f_writable = False,
       f_pipe = 0, f_ip = 0, f_off = 0, f_major = 0, f_minor = 0\<rparr>,
     pipes = \<lambda>_. \<lparr>pi_data = replicate PIPESIZE 0, pi_nread = 0, pi_nwrite = 0, pi_readopen = True, pi_writeopen = True\<rparr>\<rparr>"

theorem pipe_fifo_witness:
  "returns (pipewrite_loop 3 0 0x87000000 0 3 (boot_files\<lparr>held := [LkPipe 0x87000000]\<rparr>)) (\<lambda>(r, t). r = PReturn 3)"
proof -
  let ?s = "boot_files\<lparr>held := [LkPipe 0x87000000]\<rparr>" and ?pi = "0x87000000 :: u64"
  have s: "pipe_ok (pipes ?s ?pi)" "LkPipe ?pi \<in> set (held ?s)" "no_proc_lock ?s" "length (procs ?s) = NPROC"
    by (simp_all add: boot_files_def boot_cons_def kcons.defs pipe_ok_def pipe_q_def no_proc_lock_def PIPESIZE_def)
  have q: "pipe_q (pipes boot_files ?pi) = []" by (simp add: boot_files_def kcons.defs pipe_q_def)
  show ?thesis
    using pipe_fifo[OF s refl, of 3 0 0 3, THEN conjunct1]
    by (rule returns_weaken) (auto simp: pwrite_end_def q PIPESIZE_def)
qed

end
