(* ===== verification/KProc.thy ===== *)
theory KProc
  imports KFile
begin

text \<open>
  The rest of \<^verbatim>\<open>kernel/proc.c\<close>: creating, growing, forking, exiting and waiting for processes, with the
  page table and the trap frame each process has. Leaving the CPU for good in \<^verbatim>\<open>exit\<close> is the state at the
  switch to the scheduler; waiting in \<^verbatim>\<open>wait\<close> is the outcome \<open>Sleep\<close>.
\<close>

section \<open>State\<close>

text \<open>
  \<open>sym\<close> has the addresses of the kernel's functions and of the code in the trampoline page; \<open>forkret_first\<close> is the
  static variable of \<^verbatim>\<open>forkret\<close>, and \<open>ticks\<close> the clock of \<^verbatim>\<open>trap.c\<close>.
\<close>

record ksys = kfiles +
  sym :: "string \<Rightarrow> u64"
  forkret_first :: bool
  ticks :: u32

text \<open>The fields of \<^verbatim>\<open>struct trapframe\<close> in order, eight bytes each.\<close>

datatype tfield =
    Kernel_satp | Kernel_sp | Kernel_trap | Epc | Kernel_hartid | Tf_ra | Tf_sp | Tf_gp | Tf_tp
  | Tf_t0 | Tf_t1 | Tf_t2 | Tf_s0 | Tf_s1 | Tf_a0 | Tf_a1 | Tf_a2 | Tf_a3 | Tf_a4 | Tf_a5 | Tf_a6 | Tf_a7
  | Tf_s2 | Tf_s3 | Tf_s4 | Tf_s5 | Tf_s6 | Tf_s7 | Tf_s8 | Tf_s9 | Tf_s10 | Tf_s11 | Tf_t3 | Tf_t4 | Tf_t5 | Tf_t6

definition tf_off :: "tfield \<Rightarrow> u64" where
  "tf_off r = (case r of
     Kernel_satp \<Rightarrow> 0 | Kernel_sp \<Rightarrow> 8 | Kernel_trap \<Rightarrow> 16 | Epc \<Rightarrow> 24 | Kernel_hartid \<Rightarrow> 32 | Tf_ra \<Rightarrow> 40 | Tf_sp \<Rightarrow> 48
   | Tf_gp \<Rightarrow> 56 | Tf_tp \<Rightarrow> 64 | Tf_t0 \<Rightarrow> 72 | Tf_t1 \<Rightarrow> 80 | Tf_t2 \<Rightarrow> 88 | Tf_s0 \<Rightarrow> 96 | Tf_s1 \<Rightarrow> 104 | Tf_a0 \<Rightarrow> 112
   | Tf_a1 \<Rightarrow> 120 | Tf_a2 \<Rightarrow> 128 | Tf_a3 \<Rightarrow> 136 | Tf_a4 \<Rightarrow> 144 | Tf_a5 \<Rightarrow> 152 | Tf_a6 \<Rightarrow> 160 | Tf_a7 \<Rightarrow> 168 | Tf_s2 \<Rightarrow> 176
   | Tf_s3 \<Rightarrow> 184 | Tf_s4 \<Rightarrow> 192 | Tf_s5 \<Rightarrow> 200 | Tf_s6 \<Rightarrow> 208 | Tf_s7 \<Rightarrow> 216 | Tf_s8 \<Rightarrow> 224 | Tf_s9 \<Rightarrow> 232 | Tf_s10 \<Rightarrow> 240
   | Tf_s11 \<Rightarrow> 248 | Tf_t3 \<Rightarrow> 256 | Tf_t4 \<Rightarrow> 264 | Tf_t5 \<Rightarrow> 272 | Tf_t6 \<Rightarrow> 280)"

definition TF_SIZE :: nat where "TF_SIZE = 288"

definition tf_get :: "nat \<Rightarrow> tfield \<Rightarrow> 'a kmem_scheme \<Rightarrow> u64" where
  "tf_get p r s = load64 (mem s) (tf (procs s ! p) + tf_off r)"

definition tf_set :: "nat \<Rightarrow> tfield \<Rightarrow> u64 \<Rightarrow> 'a kmem_scheme \<Rightarrow> 'a kmem_scheme" where
  "tf_set p r v s = s\<lparr>mem := store64 (mem s) (tf (procs s ! p) + tf_off r) v\<rparr>"

section \<open>Creating and freeing processes\<close>

definition procinit :: "'a ksys_scheme \<Rightarrow> 'a ksys_scheme outcome" where
  "procinit s =
     obind (ofold (\<lambda>i s.
       obind (kalloc s) (\<lambda>(pa, s).
       if pa = 0 then Panic ''kalloc''
       else let va = KSTACK (of_nat i) in
         obind (kvmmap va pa PGSIZE (PTE_R OR PTE_W) s) (\<lambda>s.
         Ok (p_upd i (\<lambda>p. p\<lparr>kstack := va\<rparr>) s)))) [0..<NPROC] s) (\<lambda>s.
     Ok (kvminithart s))"

definition proc_pagetable :: "nat \<Rightarrow> 'a ksys_scheme \<Rightarrow> (u64 \<times> 'a ksys_scheme) outcome" where
  "proc_pagetable p s =
     obind (uvmcreate s) (\<lambda>(pt, s).
     obind (mappages pt TRAMPOLINE PGSIZE (trampoline s) (PTE_R OR PTE_X) s) (\<lambda>(_, s).
     obind (mappages pt TRAPFRAME PGSIZE (tf (procs s ! p)) (PTE_R OR PTE_W) s) (\<lambda>(_, s).
     Ok (pt, s))))"

definition proc_freepagetable :: "u64 \<Rightarrow> u64 \<Rightarrow> 'a ksys_scheme \<Rightarrow> 'a ksys_scheme outcome" where
  "proc_freepagetable pt sz s =
     obind (uvmunmap pt TRAMPOLINE PGSIZE False s) (\<lambda>s.
     obind (uvmunmap pt TRAPFRAME PGSIZE False s) (\<lambda>s.
     if sz > 0 then uvmfree pt sz s else Ok s))"

text \<open>The search of \<^verbatim>\<open>allocproc\<close>: the first unused slot, returned with its lock held.\<close>

primrec unused_from :: "nat list \<Rightarrow> 'a ksys_scheme \<Rightarrow> (nat option \<times> 'a ksys_scheme) outcome" where
  "unused_from [] s = Ok (None, s)"
| "unused_from (i # is) s =
     obind (acquire_lk (LkProc i) s) (\<lambda>s.
     if pstate (procs s ! i) = UNUSED then Ok (Some i, s)
     else obind (release_lk (LkProc i) s) (unused_from is))"

definition allocproc :: "'a ksys_scheme \<Rightarrow> (nat option \<times> 'a ksys_scheme) outcome" where
  "allocproc s =
     obind (unused_from [0..<NPROC] s) (\<lambda>(found, s).
     case found of None \<Rightarrow> Ok (None, s)
     | Some p \<Rightarrow>
         obind (allocpid s) (\<lambda>(id, s).
         let s = p_upd p (\<lambda>x. x\<lparr>pid := id\<rparr>) s in
         obind (kalloc s) (\<lambda>(t, s).
         let s = p_upd p (\<lambda>x. x\<lparr>tf := t\<rparr>) s in
         if t = 0 then obind (release_lk (LkProc p) s) (\<lambda>s. Ok (None, s))
         else obind (proc_pagetable p s) (\<lambda>(pt, s).
           let s = p_upd p (\<lambda>x. x\<lparr>pagetable := pt,
                 pcontext := \<lparr>ctx_ra = sym s ''forkret'', ctx_sp = kstack x + PGSIZE, ctx_s = replicate 12 0\<rparr>\<rparr>) s
           in Ok (Some p, s)))))"

definition freeproc :: "nat \<Rightarrow> 'a ksys_scheme \<Rightarrow> 'a ksys_scheme outcome" where
  "freeproc p s =
     obind (if tf (procs s ! p) \<noteq> 0 then kfree (tf (procs s ! p)) s else Ok s) (\<lambda>s.
     let s = p_upd p (\<lambda>x. x\<lparr>tf := 0\<rparr>) s in
     obind (if pagetable (procs s ! p) \<noteq> 0
            then proc_freepagetable (pagetable (procs s ! p)) (psz (procs s ! p)) s else Ok s) (\<lambda>s.
     Ok (p_upd p (\<lambda>x. x\<lparr>pagetable := 0, psz := 0, pid := 0, parent := None, pname := (pname x)[0 := 0],
                        chan := None, killed := False, xstate := 0, pstate := UNUSED\<rparr>) s)))"

definition initcode :: "u8 list" where
  "initcode = [
     0x17, 0x05, 0x00, 0x00, 0x13, 0x05, 0x05, 0x02,
     0x97, 0x05, 0x00, 0x00, 0x93, 0x85, 0x05, 0x02,
     0x9d, 0x48, 0x73, 0x00, 0x00, 0x00, 0x89, 0x48,
     0x73, 0x00, 0x00, 0x00, 0xef, 0xf0, 0xbf, 0xff,
     0x2f, 0x69, 0x6e, 0x69, 0x74, 0x00, 0x00, 0x01,
     0x20, 0x00, 0x00, 0x00, 0x00, 0x00, 0x00, 0x00,
     0x00, 0x00, 0x00]"

text \<open>\<^verbatim>\<open>safestrcpy(dst, src, sizeof(dst))\<close> on the 16 bytes of a process name.\<close>

definition set_name :: "u8 list \<Rightarrow> u8 list \<Rightarrow> u8 list" where
  "set_name dst src = load_bytes (safestrcpy (two_arrays dst src) 0 0x1000 16) 0 16"

text \<open>A null pointer from \<^verbatim>\<open>allocproc\<close> would be dereferenced here, which ends in \<^verbatim>\<open>kerneltrap\<close>.\<close>

definition userinit :: "'a ksys_scheme \<Rightarrow> 'a ksys_scheme outcome" where
  "userinit s =
     obind (allocproc s) (\<lambda>(found, s).
     case found of None \<Rightarrow> Panic ''kerneltrap''
     | Some p \<Rightarrow>
         let s = s\<lparr>initproc := Some p\<rparr> in
         obind (uvminit (pagetable (procs s ! p)) initcode s) (\<lambda>s.
         let s = p_upd p (\<lambda>x. x\<lparr>psz := PGSIZE\<rparr>) s;
             s = tf_set p Epc 0 s;
             s = tf_set p Tf_sp PGSIZE s;
             s = p_upd p (\<lambda>x. x\<lparr>pname := set_name (pname x) (cbytes ''initcode'')\<rparr>) s
         in obind (namei [SLASH] s) (\<lambda>(ip, s).
            release_lk (LkProc p) (p_upd p (\<lambda>x. x\<lparr>cwd := ip, pstate := RUNNABLE\<rparr>) s))))"

text \<open>The local \<^verbatim>\<open>sz\<close> is a 32-bit integer.\<close>

definition growproc :: "int \<Rightarrow> 'a ksys_scheme \<Rightarrow> (int \<times> 'a ksys_scheme) outcome" where
  "growproc n s =
     (let p = myproc s; sz = (ucast (psz (procs s ! p)) :: u32); pt = pagetable (procs s ! p);
          fin = (\<lambda>sz s. Ok (0, p_upd p (\<lambda>x. x\<lparr>psz := ucast (sz :: u32)\<rparr>) s)) in
      if n > 0 then
        obind (uvmalloc pt (ucast sz) (ucast (sz + of_int n)) s) (\<lambda>(r, s).
        let sz = (ucast r :: u32) in if sz = 0 then Ok (-1, s) else fin sz s)
      else if n < 0 then
        obind (uvmdealloc pt (ucast sz) (ucast (sz + of_int n)) s) (\<lambda>(r, s). fin (ucast r) s)
      else fin sz s)"

section \<open>fork, exit and wait\<close>

definition fork :: "'a ksys_scheme \<Rightarrow> (int \<times> 'a ksys_scheme) outcome" where
  "fork s =
     (let p = myproc s in
      obind (allocproc s) (\<lambda>(found, s).
      case found of None \<Rightarrow> Ok (-1, s)
      | Some np \<Rightarrow>
          obind (uvmcopy (pagetable (procs s ! p)) (pagetable (procs s ! np)) (psz (procs s ! p)) s) (\<lambda>(r, s).
          if r < 0
          then obind (freeproc np s) (\<lambda>s. obind (release_lk (LkProc np) s) (\<lambda>s. Ok (-1, s)))
          else
            let s = p_upd np (\<lambda>x. x\<lparr>psz := psz (procs s ! p), parent := Some p\<rparr>) s;
                s = s\<lparr>mem := store_bytes (mem s) (tf (procs s ! np)) (load_bytes (mem s) (tf (procs s ! p)) TF_SIZE)\<rparr>;
                s = tf_set np Tf_a0 0 s
            in obind (ofold (\<lambda>fd s.
                 case ofile (procs s ! p) ! fd of None \<Rightarrow> Ok s
                 | Some f \<Rightarrow> obind (filedup f s) (\<lambda>(f, s).
                     Ok (p_upd np (\<lambda>x. x\<lparr>ofile := (ofile x)[fd := Some f]\<rparr>) s))) [0..<NOFILE] s) (\<lambda>s.
               obind (idup (the (cwd (procs s ! p))) s) (\<lambda>(ip, s).
               let s = p_upd np (\<lambda>x. x\<lparr>cwd := Some ip\<rparr>) s;
                   s = p_upd np (\<lambda>x. x\<lparr>pname := set_name (pname x) (pname (procs s ! p))\<rparr>) s;
                   id = pid (procs s ! np);
                   s = p_upd np (\<lambda>x. x\<lparr>pstate := RUNNABLE\<rparr>) s
               in obind (release_lk (LkProc np) s) (\<lambda>s. Ok (id, s)))))))"

text \<open>\<^verbatim>\<open>exit\<close> up to the switch to the scheduler, from which it does not return.\<close>

definition close_all :: "nat \<Rightarrow> 'a ksys_scheme \<Rightarrow> 'a ksys_scheme outcome" where
  "close_all p s =
     ofold (\<lambda>fd s.
       case ofile (procs s ! p) ! fd of None \<Rightarrow> Ok s
       | Some f \<Rightarrow> obind (fileclose f s) (\<lambda>s. Ok (p_upd p (\<lambda>x. x\<lparr>ofile := (ofile x)[fd := None]\<rparr>) s)))
       [0..<NOFILE] s"

definition exit_tail :: "nat \<Rightarrow> int \<Rightarrow> 'a ksys_scheme \<Rightarrow> 'a ksys_scheme outcome" where
  "exit_tail p status s =
     (let ini = the (initproc s) in
      obind (acquire_lk (LkProc ini) s) (\<lambda>s.
      obind (wakeup1 ini s) (\<lambda>s.
      obind (release_lk (LkProc ini) s) (\<lambda>s.
      obind (acquire_lk (LkProc p) s) (\<lambda>s.
      let original_parent = the (parent (procs s ! p)) in
      obind (release_lk (LkProc p) s) (\<lambda>s.
      obind (acquire_lk (LkProc original_parent) s) (\<lambda>s.
      obind (acquire_lk (LkProc p) s) (\<lambda>s.
      obind (reparent p s) (\<lambda>s.
      obind (wakeup1 original_parent s) (\<lambda>s.
      let s = p_upd p (\<lambda>x. x\<lparr>xstate := status, pstate := ZOMBIE\<rparr>) s in
      obind (release_lk (LkProc original_parent) s) sched))))))))))"

definition exit :: "int \<Rightarrow> 'a ksys_scheme \<Rightarrow> 'a ksys_scheme outcome" where
  "exit status s =
     (let p = myproc s in
      if initproc s = Some p then Panic ''init exiting''
      else obind (close_all p s) (\<lambda>s.
        obind (begin_op ROOTDEV s) (\<lambda>s.
        obind (iput (the (cwd (procs s ! p))) s) (\<lambda>s.
        obind (end_op ROOTDEV s) (\<lambda>s.
        exit_tail p status (p_upd p (\<lambda>x. x\<lparr>cwd := None\<rparr>) s))))))"

text \<open>
  One scan of \<^verbatim>\<open>wait\<close> over the table: \<open>Inl r\<close> when the call returns \<open>r\<close>, \<open>Inr havekids\<close> at the end of the scan.
\<close>

primrec wait_scan :: "nat list \<Rightarrow> nat \<Rightarrow> u64 \<Rightarrow> bool \<Rightarrow> 'a ksys_scheme \<Rightarrow> ((int + bool) \<times> 'a ksys_scheme) outcome" where
  "wait_scan [] p addr havekids s = Ok (Inr havekids, s)"
| "wait_scan (np # is) p addr havekids s =
     (if parent (procs s ! np) = Some p then
        obind (acquire_lk (LkProc np) s) (\<lambda>s.
        if pstate (procs s ! np) = ZOMBIE then
          let id = pid (procs s ! np) in
          obind (if addr \<noteq> 0
                 then copyout (pagetable (procs s ! p)) addr (le_bytes 4 (of_int (xstate (procs s ! np)) :: u32)) s
                 else Ok (0, s)) (\<lambda>(r, s).
          if r < 0
          then obind (release_lk (LkProc np) s) (\<lambda>s. obind (release_lk (LkProc p) s) (\<lambda>s. Ok (Inl (-1), s)))
          else obind (freeproc np s) (\<lambda>s.
               obind (release_lk (LkProc np) s) (\<lambda>s. obind (release_lk (LkProc p) s) (\<lambda>s. Ok (Inl id, s)))))
        else obind (release_lk (LkProc np) s) (wait_scan is p addr True))
      else wait_scan is p addr havekids s)"

definition wait :: "u64 \<Rightarrow> 'a ksys_scheme \<Rightarrow> (int \<times> 'a ksys_scheme) outcome" where
  "wait addr s =
     (let p = myproc s in
      obind (acquire_lk (LkProc p) s) (\<lambda>s.
      obind (wait_scan [0..<NPROC] p addr False s) (\<lambda>(r, s).
      case r of Inl v \<Rightarrow> Ok (v, s)
      | Inr havekids \<Rightarrow>
          if \<not> havekids \<or> killed (procs s ! p)
          then obind (release_lk (LkProc p) s) (\<lambda>s. Ok (-1, s))
          else Sleep (ChProc p))))"

end
