(* ===== verification/KFair.thy ===== *)
theory KFair
  imports KProc
begin

text \<open>
  The scheduler against what the scheduled processes may do. A process's time on the CPU is any sequence of the operations
  of \<^verbatim>\<open>kernel/proc.c\<close> that write the process table, with any other kernel code in between, up to one of the three ways
  to switch back to the scheduler. None of them takes the CPU from a process that waits for it, so one pass of the
  scheduler runs every process that was runnable when the pass began.
\<close>

section \<open>What the operations keep of the table\<close>

text \<open>The current process and all slots but \<open>np\<close> are as they were.\<close>

definition only :: "nat \<Rightarrow> 'a kproc_scheme \<Rightarrow> 'a kproc_scheme \<Rightarrow> bool" where
  "only np s t \<longleftrightarrow> curp t = curp s \<and> length (procs t) = length (procs s) \<and> (\<forall>j. j \<noteq> np \<longrightarrow> procs t ! j = procs s ! j)"

definition same :: "'a kproc_scheme \<Rightarrow> 'a kproc_scheme \<Rightarrow> bool" where
  "same s t \<longleftrightarrow> procs t = procs s \<and> curp t = curp s"

text \<open>Every process but \<open>i\<close> that waits for the CPU still does.\<close>

definition keeps :: "nat \<Rightarrow> 'a kproc_scheme \<Rightarrow> 'a kproc_scheme \<Rightarrow> bool" where
  "keeps i s t \<longleftrightarrow> curp t = curp s \<and> length (procs t) = length (procs s)
     \<and> (\<forall>j < length (procs s). j \<noteq> i \<longrightarrow> pstate (procs s ! j) = RUNNABLE \<longrightarrow> pstate (procs t ! j) = RUNNABLE)"

lemma same_trans [trans]: "same s t \<Longrightarrow> same t u \<Longrightarrow> same s u"
  by (simp add: same_def)

lemma only_trans [trans]: "only np s t \<Longrightarrow> only np t u \<Longrightarrow> only np s u"
  by (simp add: only_def)

lemma keeps_trans [trans]: "keeps i s t \<Longrightarrow> keeps i t u \<Longrightarrow> keeps i s u"
  by (simp add: keeps_def)

lemma same_only: "same s t \<Longrightarrow> only np s t"
  by (simp add: same_def only_def)

lemma only_p_upd: "only np s (p_upd np f s)"
  by (simp add: only_def p_upd_def)

lemma only_keeps: "only np s t \<Longrightarrow> np = i \<or> pstate (procs s ! np) \<noteq> RUNNABLE \<Longrightarrow> keeps i s t"
  by (auto simp: only_def keeps_def)

named_theorems table_frames "operations that leave the process table alone"

lemma acquire_lk_same [table_frames]: "acquire_lk lk s = Ok t \<Longrightarrow> same s t"
  by (auto simp: acquire_lk_def same_def split: if_splits)

lemma release_lk_same [table_frames]: "release_lk lk s = Ok t \<Longrightarrow> same s t"
  by (auto simp: release_lk_def same_def split: if_splits)

lemma kalloc_same [table_frames]: "kalloc s = Ok (p, t) \<Longrightarrow> same s t"
  by (auto simp: kalloc_def obind_Ok_iff Let_def same_def dest!: table_frames split: if_splits)

lemma kfree_same [table_frames]: "kfree p s = Ok t \<Longrightarrow> same s t"
  by (auto simp: kfree_def obind_Ok_iff Let_def same_def dest!: table_frames split: if_splits)

lemma walk_level_same: "walk_level l pt va alloc s = Ok (p, t) \<Longrightarrow> same s t"
proof (induction l arbitrary: pt s alloc)
  case 0
  then show ?case by (simp add: same_def)
next
  case (Suc l)
  show ?case using Suc.prems
    by (auto simp: obind_Ok_iff Let_def same_def dest!: Suc.IH kalloc_same split: if_splits)
qed

lemma walk_same [table_frames]: "walk pt va alloc s = Ok (p, t) \<Longrightarrow> same s t"
  by (auto simp: walk_def dest: walk_level_same split: if_splits)

lemma mappages_loop_same: "mappages_loop pt a last_a pa perm s = Ok (r, t) \<Longrightarrow> same s t"
proof (induction pt a last_a pa perm s rule: mappages_loop.induct)
  case (1 pt a last_a pa perm s)
  from 1(2) obtain pte u where w: "walk pt a True s = Ok (pte, u)"
    by (subst (asm) mappages_loop.simps) (auto simp: obind_Ok_iff)
  let ?u = "u\<lparr>mem := store64 (mem u) pte (PA2PTE pa OR perm OR PTE_V)\<rparr>"
  have "same s ?u" using walk_same[OF w] by (simp add: same_def)
  moreover have "t = u \<or> t = ?u \<or> same ?u t"
    using 1(2) 1(1)[OF w refl _ _ refl] by (subst (asm) mappages_loop.simps) (auto simp: w Let_def split: if_splits)
  ultimately show ?case using walk_same[OF w] same_trans by blast
qed

lemma mappages_same [table_frames]: "mappages pt va sz pa perm s = Ok (r, t) \<Longrightarrow> same s t"
  unfolding mappages_def by (rule mappages_loop_same)

lemma uvmunmap_loop_same: "uvmunmap_loop pt a last_a d s = Ok t \<Longrightarrow> same s t"
proof (induction pt a last_a d s rule: uvmunmap_loop.induct)
  case (1 pt a last_a d s)
  from 1(2) obtain pte u where w: "walk pt a False s = Ok (pte, u)"
    by (subst (asm) uvmunmap_loop.simps) (auto simp: obind_Ok_iff)
  from 1(2) obtain v where v: "(if d then kfree (PTE2PA (load64 (mem u) pte)) u else Ok u) = Ok v"
    by (subst (asm) uvmunmap_loop.simps) (auto simp: w obind_Ok_iff Let_def split: if_splits)
  let ?v = "v\<lparr>mem := store64 (mem v) pte 0\<rparr>"
  have "same u v" using v kfree_same[of "PTE2PA (load64 (mem u) pte)" u v] by (auto simp: same_def split: if_splits)
  with walk_same[OF w] have "same s v" by (rule same_trans)
  then have "same s ?v" by (simp add: same_def)
  moreover have "t = ?v \<or> same ?v t"
    using 1(2) 1(1)[OF w refl _ refl _ _ v refl] by (subst (asm) uvmunmap_loop.simps) (auto simp: w v Let_def split: if_splits)
  ultimately show ?case using same_trans by blast
qed

lemma uvmunmap_same [table_frames]: "uvmunmap pt va sz d s = Ok t \<Longrightarrow> same s t"
  unfolding uvmunmap_def by (rule uvmunmap_loop_same)

lemma freewalk_same: "freewalk l pt s = Ok t \<Longrightarrow> same s t"
proof (induction l arbitrary: pt s t)
  case 0
  then show ?case by simp
next
  case (Suc l)
  then obtain u where u: "ofold (\<lambda>i s.
        let e = load64 (mem s) (pt + 8 * of_nat i) in
        if e AND PTE_V \<noteq> 0 \<and> e AND (PTE_R OR PTE_W OR PTE_X) = 0
        then obind (freewalk l (PTE2PA e) s) (\<lambda>s. Ok (s\<lparr>mem := store64 (mem s) (pt + 8 * of_nat i) 0\<rparr>))
        else if e AND PTE_V \<noteq> 0 then Panic ''freewalk: leaf''
        else Ok s) [0..<512] s = Ok u" "kfree pt u = Ok t"
    by (auto simp: obind_Ok_iff)
  have "same s u"
    by (rule ofold_invariant[OF u(1)])
      (auto simp: same_def obind_Ok_iff Let_def dest!: Suc.IH split: if_splits)
  then show ?case using kfree_same[OF u(2)] by (rule same_trans)
qed

lemma uvmfree_same [table_frames]: "uvmfree pt sz s = Ok t \<Longrightarrow> same s t"
  by (auto simp: uvmfree_def obind_Ok_iff dest!: uvmunmap_same freewalk_same intro: same_trans)

lemma uvmcopy_loop_same: "uvmcopy_loop old new sz i s = Ok (r, t) \<Longrightarrow> same s t"
proof (induction old new sz i s rule: uvmcopy_loop.induct)
  case (1 old new sz i s)
  show ?case
  proof (cases "i < sz")
    case False
    then show ?thesis using 1(2) by (subst (asm) uvmcopy_loop.simps) (simp add: same_def)
  next
    case True
    from 1(2) obtain pte u where w: "walk old i False s = Ok (pte, u)"
      using True by (subst (asm) uvmcopy_loop.simps) (auto simp: obind_Ok_iff)
    from 1(2) obtain p v where v: "kalloc u = Ok (p, v)"
      using True by (subst (asm) uvmcopy_loop.simps) (auto simp: w obind_Ok_iff Let_def split: if_splits)
    let ?e = "load64 (mem u) pte" let ?v = "v\<lparr>mem := memmove (mem v) p (PTE2PA ?e) (ucast PGSIZE)\<rparr>"
    have sv: "same s v" using walk_same[OF w] kalloc_same[OF v] by (rule same_trans)
    then have sv': "same s ?v" by (simp add: same_def)
    have err: "uvmcopy_err new i x = Ok (r, t) \<Longrightarrow> same x t" for x
      by (auto simp: uvmcopy_err_def obind_Ok_iff dest: uvmunmap_same)
    show ?thesis
    proof (cases "p = 0")
      case True
      then have "uvmcopy_err new i v = Ok (r, t)"
        using 1(2) \<open>i < sz\<close> by (subst (asm) uvmcopy_loop.simps) (auto simp: w v Let_def split: if_splits)
      then show ?thesis using sv err same_trans by blast
    next
      case False
      then obtain q x where m: "mappages new i PGSIZE p (PTE_FLAGS ?e) ?v = Ok (q, x)"
        using 1(2) \<open>i < sz\<close> by (subst (asm) uvmcopy_loop.simps) (auto simp: w v obind_Ok_iff Let_def split: if_splits)
      have sx: "same s x" using sv' mappages_same[OF m] by (rule same_trans)
      have "(\<exists>y. kfree p x = Ok y \<and> uvmcopy_err new i y = Ok (r, t)) \<or> same x t"
        using 1(2) 1(1)[OF True w refl _ refl _ v refl False refl m refl] \<open>i < sz\<close> False
        by (subst (asm) uvmcopy_loop.simps) (auto simp: w v m obind_Ok_iff Let_def split: if_splits)
      then show ?thesis using sx kfree_same err same_trans by blast
    qed
  qed
qed

lemma uvmcopy_same [table_frames]: "uvmcopy old new sz s = Ok (r, t) \<Longrightarrow> same s t"
  unfolding uvmcopy_def by (rule uvmcopy_loop_same)

lemma copyout_same [table_frames]: "copyout pt va src s = Ok (r, t) \<Longrightarrow> same s t"
proof (induction pt va src s rule: copyout.induct)
  case (1 pt va src s)
  let ?pa = "user_pa (mem s) pt (PGROUNDDOWN va)" and ?n = "chunk va (length src)"
  let ?u = "s\<lparr>mem := store_bytes (mem s) (?pa + (va - PGROUNDDOWN va)) (take ?n src)\<rparr>"
  show ?case
  proof (cases "src \<noteq> [] \<and> ?pa \<noteq> 0")
    case True
    then have "copyout pt (PGROUNDDOWN va + PGSIZE) (drop ?n src) ?u = Ok (r, t)"
      using 1(2) by (subst (asm) copyout.simps) (simp add: walkaddr_eq Let_def)
    then have "same ?u t" using True by (intro 1(1)[OF _ refl walkaddr_eq _ refl refl]) simp_all
    then show ?thesis by (simp add: same_def)
  next
    case False
    then show ?thesis using 1(2) by (subst (asm) copyout.simps) (auto simp: walkaddr_eq Let_def same_def split: if_splits)
  qed
qed

lemma allocpid_same [table_frames]: "allocpid s = Ok (p, t) \<Longrightarrow> same s t"
  by (auto simp: allocpid_def obind_Ok_iff Let_def same_def dest!: table_frames)

lemma filedup_same [table_frames]: "filedup f s = Ok (p, t) \<Longrightarrow> same s t"
  by (auto simp: filedup_def f_upd_def obind_Ok_iff same_def dest!: table_frames split: if_splits)

lemma idup_same [table_frames]: "idup f s = Ok (p, t) \<Longrightarrow> same s t"
  by (auto simp: idup_def i_upd_def obind_Ok_iff same_def dest!: table_frames)

lemma proc_pagetable_same [table_frames]: "proc_pagetable p s = Ok (pt, t) \<Longrightarrow> same s t"
  by (auto simp: proc_pagetable_def uvmcreate_def obind_Ok_iff same_def dest!: table_frames split: if_splits)

lemma proc_freepagetable_same [table_frames]: "proc_freepagetable pt sz s = Ok t \<Longrightarrow> same s t"
  by (auto simp: proc_freepagetable_def obind_Ok_iff same_def dest!: table_frames split: if_splits)

lemma unused_from_result:
  "unused_from is s = Ok (r, t) \<Longrightarrow> same s t \<and> (\<forall>p. r = Some p \<longrightarrow> pstate (procs s ! p) = UNUSED)"
proof (induction "is" arbitrary: s)
  case Nil
  then show ?case by (simp add: same_def)
next
  case (Cons i "is")
  then obtain u where u: "acquire_lk (LkProc i) s = Ok u" by (auto simp: obind_Ok_iff)
  note su = acquire_lk_same[OF u]
  show ?case
  proof (cases "pstate (procs u ! i) = UNUSED")
    case True
    then show ?thesis using Cons.prems u su by (auto simp: same_def)
  next
    case False
    then obtain v where v: "release_lk (LkProc i) u = Ok v" "unused_from is v = Ok (r, t)"
      using Cons.prems u by (auto simp: obind_Ok_iff)
    show ?thesis using Cons.IH[OF v(2)] release_lk_same[OF v(1)] su by (simp add: same_def)
  qed
qed

text \<open>\<^verbatim>\<open>allocproc\<close> and \<^verbatim>\<open>freeproc\<close> write the slot they allocate or free.\<close>

lemma allocproc_only:
  assumes "allocproc s = Ok (r, t)"
  obtains np where "only np s t" and "pstate (procs s ! np) = UNUSED" and "r = Some np"
    | "r = None" and "same s t \<or> (\<exists>np. only np s t \<and> pstate (procs s ! np) = UNUSED)"
proof -
  obtain found u where u: "unused_from [0..<NPROC] s = Ok (found, u)" using assms by (auto simp: allocproc_def obind_Ok_iff)
  note su = unused_from_result[OF u]
  show thesis
  proof (cases found)
    case None
    then show thesis using that(2) assms u su by (auto simp: allocproc_def)
  next
    case (Some p)
    then have "only p u t \<and> (r = None \<or> r = Some p)"
      using assms u by (auto simp: allocproc_def obind_Ok_iff Let_def same_def only_def p_upd_def dest!: table_frames split: if_splits)
    then show thesis using that su Some same_only[of s u p] only_trans[of p s u t] by blast
  qed
qed

lemma freeproc_only: "freeproc p s = Ok t \<Longrightarrow> only p s t"
  by (auto simp: freeproc_def obind_Ok_iff Let_def same_def only_def p_upd_def dest!: table_frames split: if_splits)

section \<open>The operations on the table keep the runnable processes\<close>

lemma wakeup_keeps:
  assumes "wakeup ch s = Ok t" and "length (procs s) = NPROC"
  shows "keeps i s t"
proof -
  have "LkProc j \<notin> set (held s)" if "j < NPROC" for j
    using wakeup_Panic[OF assms(2) that, of ch] assms(1) by auto
  then have "t = s\<lparr>procs := map (wake_proc ch) (procs s)\<rparr>"
    using wakeup_prefix[of NPROC s ch] assms by (simp add: wakeup_eq)
  moreover have "pstate (map (wake_proc ch) (procs s) ! j) = RUNNABLE" if "j < length (procs s)" "pstate (procs s ! j) = RUNNABLE" for j
    using that by (simp add: wake_proc_def)
  ultimately show ?thesis by (simp add: keeps_def)
qed

lemma wakeup1_keeps: "wakeup1 p s = Ok t \<Longrightarrow> keeps i s t"
  by (auto simp: wakeup1_def keeps_def p_upd_def nth_list_update_if split: if_splits)

lemma same_keeps: "same s t \<Longrightarrow> keeps i s t"
  by (simp add: same_def keeps_def)

lemma kill_from_keeps: "kill_from is k s = Ok (r, t) \<Longrightarrow> keeps i s t"
proof (induction "is" arbitrary: s)
  case Nil
  then show ?case by (simp add: keeps_def)
next
  case (Cons j "is")
  then obtain u where u: "acquire_lk (LkProc j) s = Ok u" by (auto simp: obind_Ok_iff)
  have "keeps i u t"
  proof (cases "pid (procs u ! j) = k")
    case True
    then show ?thesis using Cons.prems u
      by (auto simp: obind_Ok_iff Let_def keeps_def same_def p_upd_def nth_list_update_if dest!: release_lk_same split: if_splits)
  next
    case False
    then obtain v where "release_lk (LkProc j) u = Ok v" "kill_from is k v = Ok (r, t)"
      using Cons.prems u by (auto simp: obind_Ok_iff)
    then show ?thesis using Cons.IH release_lk_same same_keeps keeps_trans by blast
  qed
  with same_keeps[OF acquire_lk_same[OF u]] show ?case by (rule keeps_trans)
qed

lemma reparent_keeps: "reparent p s = Ok t \<Longrightarrow> keeps i s t"
  unfolding reparent_def
  by (rule ofold_invariant[where I = "keeps i s"])
    (auto simp: obind_Ok_iff keeps_def same_def p_upd_def nth_list_update_if dest!: table_frames split: if_splits)

lemma fork_keeps:
  assumes "fork s = Ok (r, t)"
  shows "keeps i s t"
proof -
  let ?p = "myproc s"
  obtain found u where u: "allocproc s = Ok (found, u)" using assms by (auto simp: fork_def obind_Ok_iff Let_def)
  from u show ?thesis
  proof (cases rule: allocproc_only)
    case 2
    then have "t = u" using assms u by (simp add: fork_def)
    then show ?thesis using 2 same_keeps only_keeps[of _ s u i] by fastforce
  next
    case (1 np)
    obtain c v where v: "uvmcopy (pagetable (procs u ! ?p)) (pagetable (procs u ! np)) (psz (procs u ! ?p)) u = Ok (c, v)"
      using assms u 1(3) by (auto simp: fork_def obind_Ok_iff Let_def)
    have "only np v t"
    proof (cases "c < 0")
      case True
      then show ?thesis using assms u 1(3) v
        by (auto simp: fork_def obind_Ok_iff Let_def same_def only_def dest!: freeproc_only release_lk_same)
    next
      case False
      let ?w = "p_upd np (\<lambda>x. x\<lparr>psz := psz (procs v ! ?p), parent := Some ?p\<rparr>) v"
      let ?x = "?w\<lparr>mem := store_bytes (mem ?w) (tf (procs ?w ! np)) (load_bytes (mem ?w) (tf (procs ?w ! ?p)) TF_SIZE)\<rparr>"
      obtain y where y: "ofold (\<lambda>fd s. case ofile (procs s ! ?p) ! fd of None \<Rightarrow> Ok s
                 | Some f \<Rightarrow> obind (filedup f s) (\<lambda>(f, s).
                     Ok (p_upd np (\<lambda>x. x\<lparr>ofile := (ofile x)[fd := Some f]\<rparr>) s))) [0..<NOFILE] (tf_set np Tf_a0 0 ?x) = Ok y"
        and fin: "only np y t"
        using assms u 1(3) v False
        by (auto simp: fork_def obind_Ok_iff Let_def same_def only_def p_upd_def dest!: idup_same release_lk_same)
      have "only np (tf_set np Tf_a0 0 ?x) y"
        by (rule ofold_invariant[OF y])
          (auto simp: only_def obind_Ok_iff same_def p_upd_def dest!: filedup_same split: option.splits)
      moreover have "only np v (tf_set np Tf_a0 0 ?x)" by (simp add: only_def tf_set_def p_upd_def)
      ultimately show ?thesis using fin only_trans by blast
    qed
    then have "only np s t" using 1(1) same_only[OF uvmcopy_same[OF v]] only_trans by blast
    then show ?thesis using 1(2) by (intro only_keeps) auto
  qed
qed

lemma wait_scan_keeps: "wait_scan is p addr kids s = Ok (r, t) \<Longrightarrow> keeps i s t"
proof (induction "is" arbitrary: s kids)
  case Nil
  then show ?case by (simp add: keeps_def)
next
  case (Cons np "is")
  show ?case
  proof (cases "parent (procs s ! np) = Some p")
    case False
    then show ?thesis using Cons by simp
  next
    case True
    then obtain u where u: "acquire_lk (LkProc np) s = Ok u" using Cons.prems by (auto simp: obind_Ok_iff)
    have "keeps i u t"
    proof (cases "pstate (procs u ! np) = ZOMBIE")
      case True
      have "only np u t"
        using Cons.prems True u \<open>parent (procs s ! np) = Some p\<close>
        by (auto simp: obind_Ok_iff Let_def same_def only_def dest!: table_frames freeproc_only split: if_splits)
      then show ?thesis using True by (intro only_keeps) auto
    next
      case False
      then obtain v where "release_lk (LkProc np) u = Ok v" "wait_scan is p addr True v = Ok (r, t)"
        using Cons.prems u True by (auto simp: obind_Ok_iff)
      then show ?thesis using Cons.IH release_lk_same same_keeps keeps_trans by blast
    qed
    with same_keeps[OF acquire_lk_same[OF u]] show ?thesis by (rule keeps_trans)
  qed
qed

lemma wait_keeps:
  assumes "wait addr s = Ok (r, t)"
  shows "keeps i s t"
proof -
  obtain u where u: "acquire_lk (LkProc (myproc s)) s = Ok u" using assms by (auto simp: wait_def Let_def obind_Ok_iff)
  obtain x v where v: "wait_scan [0..<NPROC] (myproc s) addr False u = Ok (x, v)"
    using assms by (auto simp: wait_def Let_def u obind_Ok_iff)
  have "v = t \<or> release_lk (LkProc (myproc s)) v = Ok t"
    using assms by (auto simp: wait_def Let_def u v obind_Ok_iff split: sum.splits if_splits)
  then have "keeps i v t" using same_keeps[OF release_lk_same] same_keeps[of v v] by (auto simp: same_def)
  with keeps_trans[OF same_keeps[OF acquire_lk_same[OF u]] wait_scan_keeps[OF v]] show ?thesis by (rule keeps_trans)
qed

section \<open>A process's time on the CPU\<close>

text \<open>
  One step of the process \<open>i\<close> in the kernel, or of an interrupt handler on its CPU. Besides the operations below, no code
  writes a slot of the process table other than the process's own: the step \<open>own\<close> is any of it.
\<close>

inductive cpu_step :: "nat \<Rightarrow> 'a ksys_scheme \<Rightarrow> 'a ksys_scheme \<Rightarrow> bool" for i where
  cpu_wakeup: "wakeup ch s = Ok t \<Longrightarrow> cpu_step i s t"
| cpu_kill: "kill k s = Ok (r, t) \<Longrightarrow> cpu_step i s t"
| cpu_fork: "fork s = Ok (r, t) \<Longrightarrow> cpu_step i s t"
| cpu_wait: "wait addr s = Ok (r, t) \<Longrightarrow> cpu_step i s t"
| cpu_own: "only i s t \<Longrightarrow> cpu_step i s t"

text \<open>The ways back to the scheduler: \<^verbatim>\<open>yield\<close>, \<^verbatim>\<open>sleep\<close> and the end of \<^verbatim>\<open>exit\<close>, each up to the switch in \<^verbatim>\<open>sched\<close>.\<close>

inductive cpu_leave :: "nat \<Rightarrow> 'a ksys_scheme \<Rightarrow> 'a ksys_scheme \<Rightarrow> bool" for i where
  leave_yield: "yield_enter s = Ok t \<Longrightarrow> cpu_leave i s t"
| leave_sleep: "sleep_enter ch lk s = Ok t \<Longrightarrow> cpu_leave i s t"
| leave_exit: "exit_tail i status s = Ok t \<Longrightarrow> cpu_leave i s t"

definition cpu_time :: "nat \<Rightarrow> 'a ksys_scheme \<Rightarrow> 'a ksys_scheme \<Rightarrow> bool" where
  "cpu_time i s t \<longleftrightarrow> (\<exists>u. (cpu_step i)\<^sup>*\<^sup>* s u \<and> cpu_leave i u t)"

lemma cpu_step_keeps:
  assumes "cpu_step i s t" and "length (procs s) = NPROC"
  shows "keeps i s t"
  using assms
proof cases
  case (cpu_wakeup ch)
  then show ?thesis using assms(2) by (rule wakeup_keeps)
next
  case (cpu_kill k r)
  then show ?thesis unfolding kill_def by (rule kill_from_keeps)
next
  case (cpu_fork r)
  then show ?thesis by (rule fork_keeps)
next
  case (cpu_wait addr r)
  then show ?thesis by (rule wait_keeps)
next
  case cpu_own
  then show ?thesis by (rule only_keeps) simp
qed

lemma cpu_steps_keep:
  assumes "(cpu_step i)\<^sup>*\<^sup>* s t" and "length (procs s) = NPROC"
  shows "keeps i s t"
  using assms(1)
proof (induction rule: rtranclp_induct)
  case base
  show ?case by (simp add: keeps_def)
next
  case (step t u)
  then have "length (procs t) = NPROC" using assms(2) by (simp add: keeps_def)
  then show ?case using step cpu_step_keeps keeps_trans by blast
qed

lemma sched_held:
  assumes "sched s = Ok t" and "curp s = Some i"
  shows "t = s" and "held s = [LkProc i]"
proof -
  show "t = s" using assms by (auto simp: sched_def Let_def split: if_splits)
  have "LkProc i \<in> set (held s)" "length (held s) = 1" using assms by (auto simp: sched_def Let_def split: if_splits)
  then show "held s = [LkProc i]" by (auto simp: length_Suc_conv)
qed

lemma exit_tail_leaves:
  assumes "exit_tail i status s = Ok t" and "curp s = Some i"
  shows "keeps i s t" and "held t = [LkProc i]"
proof -
  obtain s1 s2 s3 s4 s5 where a: "acquire_lk (LkProc (the (initproc s))) s = Ok s1" "wakeup1 (the (initproc s)) s1 = Ok s2"
      "release_lk (LkProc (the (initproc s))) s2 = Ok s3" "acquire_lk (LkProc i) s3 = Ok s4" "release_lk (LkProc i) s4 = Ok s5"
    using assms(1) unfolding exit_tail_def Let_def by (auto simp: obind_Ok_iff)
  let ?q = "the (parent (procs s4 ! i))"
  obtain s6 s7 s8 s9 s10 where b: "acquire_lk (LkProc ?q) s5 = Ok s6" "acquire_lk (LkProc i) s6 = Ok s7" "reparent i s7 = Ok s8"
      "wakeup1 ?q s8 = Ok s9" "release_lk (LkProc ?q) (p_upd i (\<lambda>x. x\<lparr>xstate := status, pstate := ZOMBIE\<rparr>) s9) = Ok s10" "sched s10 = Ok t"
    using assms(1) a unfolding exit_tail_def Let_def by (auto simp: obind_Ok_iff)
  let ?s9 = "p_upd i (\<lambda>x. x\<lparr>xstate := status, pstate := ZOMBIE\<rparr>) s9"
  note aq = same_keeps[OF acquire_lk_same] and rl = same_keeps[OF release_lk_same]
  have "keeps i s s1" using a(1) by (rule aq)
  also have "keeps i s1 s2" using a(2) by (rule wakeup1_keeps)
  also have "keeps i s2 s3" using a(3) by (rule rl)
  also have "keeps i s3 s4" using a(4) by (rule aq)
  also have "keeps i s4 s5" using a(5) by (rule rl)
  also have "keeps i s5 s6" using b(1) by (rule aq)
  also have "keeps i s6 s7" using b(2) by (rule aq)
  also have "keeps i s7 s8" using b(3) by (rule reparent_keeps)
  also have "keeps i s8 s9" using b(4) by (rule wakeup1_keeps)
  also have "keeps i s9 ?s9" by (rule only_keeps[OF only_p_upd]) simp
  also have "keeps i ?s9 s10" using b(5) by (rule rl)
  finally have k: "keeps i s s10" .
  then have "curp s10 = Some i" using assms(2) by (simp add: keeps_def)
  from sched_held[OF b(6) this] k show "keeps i s t" "held t = [LkProc i]" by simp_all
qed

lemma cpu_leave_keeps:
  assumes "cpu_leave i s t" and "curp s = Some i"
  shows "keeps i s t" and "held t = [LkProc i]"
proof -
  have "keeps i s t \<and> held t = [LkProc i]"
    using assms(1)
  proof cases
    case leave_yield
    then obtain u where u: "acquire_lk (LkProc i) s = Ok u" "sched (p_upd i (\<lambda>p. p\<lparr>pstate := RUNNABLE\<rparr>) u) = Ok t"
      using assms(2) by (auto simp: yield_enter_def obind_Ok_iff acquire_lk_def split: if_splits)
    have "only i s u" by (rule same_only[OF acquire_lk_same[OF u(1)]])
    then have "only i s (p_upd i (\<lambda>p. p\<lparr>pstate := RUNNABLE\<rparr>) u)" using only_p_upd by (rule only_trans)
    moreover from this have "curp (p_upd i (\<lambda>p. p\<lparr>pstate := RUNNABLE\<rparr>) u) = Some i" using assms(2) by (simp add: only_def)
    ultimately show ?thesis using sched_held[OF u(2)] only_keeps[of i s t i] by simp
  next
    case (leave_sleep ch lk)
    then obtain u where u: "(if lk \<noteq> LkProc i then obind (acquire_lk (LkProc i) s) (release_lk lk) else Ok s) = Ok u"
        "sched (p_upd i (\<lambda>p. p\<lparr>chan := Some ch, pstate := SLEEPING\<rparr>) u) = Ok t"
      using assms(2) unfolding sleep_enter_def Let_def obind_Ok_iff by (auto cong: if_cong)
    have "same s u" using u(1) by (auto simp: obind_Ok_iff same_def dest!: table_frames split: if_splits)
    then have "only i s (p_upd i (\<lambda>p. p\<lparr>chan := Some ch, pstate := SLEEPING\<rparr>) u)" using same_only only_p_upd only_trans by blast
    moreover from this have "curp (p_upd i (\<lambda>p. p\<lparr>chan := Some ch, pstate := SLEEPING\<rparr>) u) = Some i" using assms(2) by (simp add: only_def)
    ultimately show ?thesis using sched_held[OF u(2)] only_keeps[of i s t i] by simp
  next
    case (leave_exit status)
    then show ?thesis using exit_tail_leaves assms(2) by blast
  qed
  then show "keeps i s t" and "held t = [LkProc i]" by simp_all
qed

lemma cpu_time_keeps:
  assumes "cpu_time i s t" and "curp s = Some i" and "length (procs s) = NPROC"
  shows "keeps i s t" and "held t = [LkProc i]"
proof -
  obtain u where u: "(cpu_step i)\<^sup>*\<^sup>* s u" "cpu_leave i u t" using assms(1) by (auto simp: cpu_time_def)
  have "keeps i s u" by (rule cpu_steps_keep[OF u(1) assms(3)])
  moreover from this have "curp u = Some i" using assms(2) by (simp add: keeps_def)
  ultimately show "keeps i s t" and "held t = [LkProc i]" using cpu_leave_keeps[OF u(2)] keeps_trans by blast+
qed

section \<open>A pass of the scheduler\<close>

text \<open>
  What the scheduler may expect of a process it switches to with only the process's lock held: it comes back, after some
  time on the CPU.
\<close>

definition runs :: "(nat \<Rightarrow> 'a ksys_scheme \<Rightarrow> 'a ksys_scheme outcome) \<Rightarrow> bool" where
  "runs run \<longleftrightarrow> (\<forall>i s. i < NPROC \<longrightarrow> held s = [LkProc i] \<longrightarrow> curp s = Some i \<longrightarrow> length (procs s) = NPROC
     \<longrightarrow> pstate (procs s ! i) = RUNNING \<longrightarrow> returns (run i s) (cpu_time i s))"

definition runnable :: "'a ksys_scheme \<Rightarrow> nat \<Rightarrow> bool" where
  "runnable s i \<longleftrightarrow> pstate (procs s ! i) = RUNNABLE"

lemma scheduler_pass_fair:
  assumes "runs run" and "held s = []" and "curp s = None" and "length (procs s) = NPROC"
    and "sorted_wrt (<) is" and "set is \<subseteq> {..<NPROC}"
  shows "returns (scheduler_pass run is s) (\<lambda>(ran, t). sorted_wrt (<) ran \<and> set ran \<subseteq> set is
    \<and> (\<forall>i \<in> set is. runnable s i \<longrightarrow> i \<in> set ran) \<and> (\<forall>i \<in> set ran. runnable s i \<or> (\<exists>j \<in> set ran. j < i))
    \<and> (ran = [] \<longrightarrow> t = s) \<and> held t = [] \<and> curp t = None \<and> length (procs t) = NPROC)"
  using assms(2-)
proof (induction "is" arbitrary: s)
  case Nil
  then show ?case by simp
next
  case (Cons i "is")
  have i: "i < NPROC" "\<forall>j \<in> set is. i < j" "sorted_wrt (<) is" "set is \<subseteq> {..<NPROC}" using Cons.prems by auto
  show ?case
  proof (cases "runnable s i")
    case False
    have "s\<lparr>held := []\<rparr> = s" using Cons.prems(1) by (cases s) simp
    then have "scheduler_pass run is (s\<lparr>held := []\<rparr>) = scheduler_pass run is s" by (rule arg_cong)
    then have "scheduler_pass run (i # is) s = scheduler_pass run is s"
      using Cons.prems(1) False by (simp add: runnable_def)
    then show ?thesis using Cons.IH[OF Cons.prems(1-3) i(3,4)] False by (auto elim!: returns_weaken)
  next
    case True
    let ?u = "(p_upd i (\<lambda>p. p\<lparr>pstate := RUNNING\<rparr>) (s\<lparr>held := [LkProc i]\<rparr>))\<lparr>curp := Some i\<rparr>"
    have "returns (run i ?u) (cpu_time i ?u)"
      using assms(1) i(1) Cons.prems(3) unfolding runs_def by (simp add: p_upd_def)
    then obtain v where v: "run i ?u = Ok v" "cpu_time i ?u v" by (rule returnsE)
    have k: "keeps i ?u v" "held v = [LkProc i]" using cpu_time_keeps[OF v(2)] Cons.prems(3) by simp_all
    let ?v = "v\<lparr>curp := None, held := []\<rparr>"
    have run: "scheduler_pass run (i # is) s = obind (scheduler_pass run is ?v) (\<lambda>(found, t). Ok (i # found, t))"
      using True Cons.prems(1) v(1) k(2) by (simp add: runnable_def)
    have lv: "length (procs ?v) = NPROC" using k(1) Cons.prems(3) by (simp add: keeps_def)
    have still: "runnable ?v j" if "runnable s j" "j \<in> set is" for j
      using that i(2,4) k(1) Cons.prems(3) by (auto simp: runnable_def keeps_def)
    obtain ran t where t: "scheduler_pass run is ?v = Ok (ran, t)" "sorted_wrt (<) ran" "set ran \<subseteq> set is"
        "\<forall>j \<in> set is. runnable ?v j \<longrightarrow> j \<in> set ran" "held t = []" "curp t = None" "length (procs t) = NPROC"
      using Cons.IH[of ?v] lv i(3,4) by (auto simp: returns_def)
    then show ?thesis unfolding run using still True i(2) by auto
  qed
qed


text \<open>Processes that wake the sleepers on the clock and yield.\<close>

definition tick_run :: "nat \<Rightarrow> ksys \<Rightarrow> ksys outcome" where
  "tick_run i s = obind (wakeup ChTicks (s\<lparr>held := []\<rparr>)) yield_enter"

lemma tick_run_runs: "runs tick_run"
  unfolding runs_def
proof (intro allI impI)
  fix i and s :: ksys
  assume s: "i < NPROC" "held s = [LkProc i]" "curp s = Some i" "length (procs s) = NPROC"
  let ?s = "s\<lparr>held := []\<rparr>" let ?t = "?s\<lparr>procs := map (wake_proc ChTicks) (procs s)\<rparr>"
  have w: "wakeup ChTicks ?s = Ok ?t" using wakeup_Ok[of ?s ChTicks] s(4) by (simp add: no_proc_lock_def)
  have y: "returns (yield_enter ?t) (\<lambda>_. True)" using s by (simp add: yield_enter_def sched_def)
  then obtain u where u: "yield_enter ?t = Ok u" by (auto simp: returns_def)
  have "cpu_step i s ?s" by (rule cpu_own) (simp add: only_def)
  moreover have "cpu_step i ?s ?t" by (rule cpu_wakeup[OF w])
  ultimately have "(cpu_step i)\<^sup>*\<^sup>* s ?t" by (blast intro: r_into_rtranclp rtranclp_trans)
  then have "cpu_time i s u" unfolding cpu_time_def using leave_yield[OF u] by blast
  then show "returns (tick_run i s) (cpu_time i s)" by (simp add: tick_run_def w u)
qed

definition sched_example :: ksys where
  "sched_example = kfiles.extend (boot_files\<lparr>curp := None, procs := (procs boot_files)[2 := zero_proc\<lparr>pstate := RUNNABLE\<rparr>,
     4 := zero_proc\<lparr>pstate := SLEEPING, chan := Some ChTicks\<rparr>]\<rparr>) \<lparr>sym = \<lambda>_. 0, forkret_first = False, ticks = 0\<rparr>"


end
