(* ===== verification/KExec.thy ===== *)
theory KExec
  imports KProc
begin

text \<open>
  \<^verbatim>\<open>kernel/exec.c\<close>: replacing the memory of a process by a program read from a file, and the fetching of system call
  arguments in \<^verbatim>\<open>kernel/syscall.c\<close>. A path is the list of its bytes before the NUL.
\<close>

section \<open>System call arguments\<close>

definition MAXPATH :: nat where "MAXPATH = 128"
definition MAXARG :: nat where "MAXARG = 32"

text \<open>The word at a user address; \<open>None\<close> for the result \<open>-1\<close>.\<close>

definition fetchaddr :: "u64 \<Rightarrow> 'a ksys_scheme \<Rightarrow> u64 option outcome" where
  "fetchaddr addr s =
     (let p = procs s ! myproc s in
      if addr \<ge> psz p \<or> addr + 8 > psz p then Ok None
      else obind (copyin (pagetable p) addr 8 s) (\<lambda>(r, bs).
        if r \<noteq> 0 then Ok None else Ok (Some (load64 (two_arrays bs []) 0))))"

text \<open>The result of \<^verbatim>\<open>fetchstr\<close> and the bytes it has stored in the buffer.\<close>

definition fetchstr :: "u64 \<Rightarrow> nat \<Rightarrow> 'a ksys_scheme \<Rightarrow> (int \<times> u8 list) outcome" where
  "fetchstr addr max_len s =
     obind (copyinstr (pagetable (procs s ! myproc s)) addr max_len s) (\<lambda>(err, bs).
     if err < 0 then Ok (err, bs) else Ok (int (length (takeWhile (\<lambda>c. c \<noteq> 0) bs)), bs))"

definition argraw :: "nat \<Rightarrow> 'a ksys_scheme \<Rightarrow> u64 outcome" where
  "argraw n s =
     (let p = myproc s in
      case n of 0 \<Rightarrow> Ok (tf_get p Tf_a0 s)
      | Suc 0 \<Rightarrow> Ok (tf_get p Tf_a1 s)
      | Suc (Suc 0) \<Rightarrow> Ok (tf_get p Tf_a2 s)
      | Suc (Suc (Suc 0)) \<Rightarrow> Ok (tf_get p Tf_a3 s)
      | Suc (Suc (Suc (Suc 0))) \<Rightarrow> Ok (tf_get p Tf_a4 s)
      | Suc (Suc (Suc (Suc (Suc 0)))) \<Rightarrow> Ok (tf_get p Tf_a5 s)
      | _ \<Rightarrow> Panic ''argraw'')"

definition argint :: "nat \<Rightarrow> 'a ksys_scheme \<Rightarrow> int outcome" where
  "argint n s = obind (argraw n s) (\<lambda>v. Ok (sint (ucast v :: u32)))"

definition argaddr :: "nat \<Rightarrow> 'a ksys_scheme \<Rightarrow> u64 outcome" where
  "argaddr n s = argraw n s"

definition argstr :: "nat \<Rightarrow> nat \<Rightarrow> 'a ksys_scheme \<Rightarrow> (int \<times> u8 list) outcome" where
  "argstr n max_len s = obind (argaddr n s) (\<lambda>addr. fetchstr addr max_len s)"

text \<open>A path argument of at most \<^verbatim>\<open>MAXPATH\<close> bytes; \<open>None\<close> when \<^verbatim>\<open>argstr\<close> fails.\<close>

definition argpath :: "nat \<Rightarrow> 'a ksys_scheme \<Rightarrow> u8 list option outcome" where
  "argpath n s =
     obind (argstr n MAXPATH s) (\<lambda>(r, bs). Ok (if r < 0 then None else Some (takeWhile (\<lambda>c. c \<noteq> 0) bs)))"

section \<open>Loading a program\<close>

definition ELF_MAGIC :: u32 where "ELF_MAGIC = 0x464C457F"
definition ELF_PROG_LOAD :: u32 where "ELF_PROG_LOAD = 1"

record elfhdr =
  elf_magic :: u32
  elf_entry :: u64
  elf_phoff :: u64
  elf_phnum :: u16

record proghdr =
  ph_type :: u32
  ph_off :: u64
  ph_vaddr :: u64
  ph_filesz :: u64
  ph_memsz :: u64

definition get64 :: "u8 list \<Rightarrow> nat \<Rightarrow> u64" where
  "get64 bs i = load64 (two_arrays (drop i bs) []) 0"

definition elf_of_bytes :: "u8 list \<Rightarrow> elfhdr" where
  "elf_of_bytes bs = \<lparr>elf_magic = get32 bs 0, elf_entry = get64 bs 24, elf_phoff = get64 bs 32, elf_phnum = get16 bs 56\<rparr>"

definition ph_of_bytes :: "u8 list \<Rightarrow> proghdr" where
  "ph_of_bytes bs = \<lparr>ph_type = get32 bs 0, ph_off = get64 bs 8, ph_vaddr = get64 bs 16, ph_filesz = get64 bs 32,
     ph_memsz = get64 bs 40\<rparr>"

text \<open>
  The pages of a segment of \<open>sz\<close> bytes, as the values \<^verbatim>\<open>i\<close> takes. The counter would wrap for a segment that ends
  in the last page below 4 GB; memory has 128 MB.
\<close>

definition seg_offs :: "u32 \<Rightarrow> u32 list" where
  "seg_offs sz = map (\<lambda>k. of_nat (4096 * k)) [0..<(unat sz + 4095) div 4096]"

primrec loadseg_from :: "u32 list \<Rightarrow> u64 \<Rightarrow> u64 \<Rightarrow> nat \<Rightarrow> u32 \<Rightarrow> u32 \<Rightarrow> 'a ksys_scheme \<Rightarrow> (int \<times> 'a ksys_scheme) outcome" where
  "loadseg_from [] pt va ip offset sz s = Ok (0, s)"
| "loadseg_from (i # is) pt va ip offset sz s =
     obind (walkaddr pt (va + ucast i) s) (\<lambda>pa.
     if pa = 0 then Panic ''loadseg: address should exist''
     else let n = (if sz - i < 4096 then sz - i else 4096) in
       obind (readi ip (Addr False pa) (offset + i) n s) (\<lambda>(r, _, s).
       if r \<noteq> int (unat n) then Ok (-1, s) else loadseg_from is pt va ip offset sz s))"

definition loadseg :: "u64 \<Rightarrow> u64 \<Rightarrow> nat \<Rightarrow> u32 \<Rightarrow> u32 \<Rightarrow> 'a ksys_scheme \<Rightarrow> (int \<times> 'a ksys_scheme) outcome" where
  "loadseg pt va ip offset sz s =
     (if va mod PGSIZE \<noteq> 0 then Panic ''loadseg: va must be page aligned''
      else loadseg_from (seg_offs sz) pt va ip offset sz s)"

text \<open>
  The loop over the program headers, with the number still to read. The result is \<^verbatim>\<open>sz\<close>, with \<open>False\<close> when the
  loop leaves for \<^verbatim>\<open>bad\<close>.
\<close>

primrec load_phs :: "nat \<Rightarrow> u32 \<Rightarrow> u64 \<Rightarrow> nat \<Rightarrow> u64 \<Rightarrow> 'a ksys_scheme \<Rightarrow> ((bool \<times> u64) \<times> 'a ksys_scheme) outcome" where
  "load_phs 0 off pt ip sz s = Ok ((True, sz), s)"
| "load_phs (Suc k) off pt ip sz s =
     obind (readi ip Local off 56 s) (\<lambda>(r, bs, s).
     let ph = ph_of_bytes bs in
     if r \<noteq> 56 then Ok ((False, sz), s)
     else if ph_type ph \<noteq> ELF_PROG_LOAD then load_phs k (off + 56) pt ip sz s
     else if ph_memsz ph < ph_filesz ph then Ok ((False, sz), s)
     else if ph_vaddr ph + ph_memsz ph < ph_vaddr ph then Ok ((False, sz), s)
     else obind (uvmalloc pt sz (ph_vaddr ph + ph_memsz ph) s) (\<lambda>(sz, s).
       if sz = 0 then Ok ((False, sz), s)
       else if ph_vaddr ph mod PGSIZE \<noteq> 0 then Ok ((False, sz), s)
       else obind (loadseg pt (ph_vaddr ph) ip (ucast (ph_off ph)) (ucast (ph_filesz ph)) s) (\<lambda>(r, s).
         if r < 0 then Ok ((False, sz), s) else load_phs k (off + 56) pt ip sz s)))"

section \<open>The stack of the new program\<close>

text \<open>
  The loop that pushes the argument strings. \<open>argv\<close> has the kernel addresses of the strings, without the null
  pointer at the end. A string without an end makes \<^verbatim>\<open>strlen\<close> run out of memory.
\<close>

primrec push_args :: "u64 list \<Rightarrow> nat \<Rightarrow> u64 list \<Rightarrow> u64 \<Rightarrow> u64 \<Rightarrow> u64 \<Rightarrow> 'a ksys_scheme
  \<Rightarrow> ((u64 list \<times> u64) option \<times> 'a ksys_scheme) outcome" where
  "push_args [] argc ustack pt sp stackbase s = Ok (Some (ustack, sp), s)"
| "push_args (a # argv) argc ustack pt sp stackbase s =
     (if argc \<ge> MAXARG then Ok (None, s)
      else case strlen (mem s) a of
        None \<Rightarrow> Panic ''kerneltrap''
      | Some n \<Rightarrow>
          let sp = sp - (of_nat n + 1); sp = sp - sp mod 16 in
          if sp < stackbase then Ok (None, s)
          else obind (copyout pt sp (load_bytes (mem s) a (n + 1)) s) (\<lambda>(r, s).
            if r < 0 then Ok (None, s) else push_args argv (Suc argc) (ustack @ [sp]) pt sp stackbase s))"

definition base_name :: "u8 list \<Rightarrow> u8 list" where
  "base_name path = rev (takeWhile (\<lambda>c. c \<noteq> SLASH) (rev path))"

text \<open>The label \<^verbatim>\<open>bad\<close>: \<open>ip\<close> is \<open>None\<close> once the inode has been put back.\<close>

definition exec_bad :: "u64 \<Rightarrow> u64 \<Rightarrow> nat option \<Rightarrow> 'a ksys_scheme \<Rightarrow> (int \<times> 'a ksys_scheme) outcome" where
  "exec_bad pt sz ip s =
     obind (if pt \<noteq> 0 then proc_freepagetable pt sz s else Ok s) (\<lambda>s.
     obind (case ip of None \<Rightarrow> Ok s | Some i \<Rightarrow> obind (iunlockput i s) (end_op ROOTDEV)) (\<lambda>s.
     Ok (-1, s)))"

definition exec_commit :: "u8 list \<Rightarrow> nat \<Rightarrow> elfhdr \<Rightarrow> u64 \<Rightarrow> u64 \<Rightarrow> u64 \<Rightarrow> u64 \<Rightarrow> 'a ksys_scheme \<Rightarrow> (int \<times> 'a ksys_scheme) outcome" where
  "exec_commit path argc elf pt oldsz sz sp s =
     (let p = myproc s;
          s = tf_set p Tf_a1 sp s;
          s = p_upd p (\<lambda>x. x\<lparr>pname := set_name (pname x) (base_name path)\<rparr>) s;
          oldpagetable = pagetable (procs s ! p);
          s = p_upd p (\<lambda>x. x\<lparr>pagetable := pt, psz := sz\<rparr>) s;
          s = tf_set p Epc (elf_entry elf) s;
          s = tf_set p Tf_sp sp s
      in obind (proc_freepagetable oldpagetable oldsz s) (\<lambda>s. Ok (int argc, s)))"

definition exec_stack :: "u8 list \<Rightarrow> u64 list \<Rightarrow> elfhdr \<Rightarrow> u64 \<Rightarrow> u64 \<Rightarrow> 'a ksys_scheme \<Rightarrow> (int \<times> 'a ksys_scheme) outcome" where
  "exec_stack path argv elf pt sz s =
     (let oldsz = psz (procs s ! myproc s); sz = PGROUNDUP sz in
      obind (uvmalloc pt sz (sz + 2 * PGSIZE) s) (\<lambda>(sz, s).
      if sz = 0 then exec_bad pt sz None s
      else obind (uvmclear pt (sz - 2 * PGSIZE) s) (\<lambda>s.
        let stackbase = sz - PGSIZE in
        obind (push_args argv 0 [] pt sz stackbase s) (\<lambda>(r, s).
        case r of None \<Rightarrow> exec_bad pt sz None s
        | Some (ustack, sp) \<Rightarrow>
            let argc = length ustack; sp = sp - (of_nat argc + 1) * 8; sp = sp - sp mod 16 in
            if sp < stackbase then exec_bad pt sz None s
            else obind (copyout pt sp (concat (map (le_bytes 8) (ustack @ [0]))) s) (\<lambda>(r, s).
              if r < 0 then exec_bad pt sz None s else exec_commit path argc elf pt oldsz sz sp s)))))"

definition exec :: "u8 list \<Rightarrow> u64 list \<Rightarrow> 'a ksys_scheme \<Rightarrow> (int \<times> 'a ksys_scheme) outcome" where
  "exec path argv s =
     obind (begin_op ROOTDEV s) (\<lambda>s.
     obind (namei path s) (\<lambda>(found, s).
     case found of None \<Rightarrow> obind (end_op ROOTDEV s) (\<lambda>s. Ok (-1, s))
     | Some ip \<Rightarrow>
         obind (ilock (Some ip) s) (\<lambda>s.
         obind (readi ip Local 0 64 s) (\<lambda>(r, bs, s).
         let elf = elf_of_bytes bs in
         if r \<noteq> 64 then exec_bad 0 0 (Some ip) s
         else if elf_magic elf \<noteq> ELF_MAGIC then exec_bad 0 0 (Some ip) s
         else obind (proc_pagetable (myproc s) s) (\<lambda>(pt, s).
           if pt = 0 then exec_bad 0 0 (Some ip) s
           else obind (load_phs (unat (elf_phnum elf)) (ucast (elf_phoff elf)) pt ip 0 s) (\<lambda>((fine, sz), s).
             if \<not> fine then exec_bad pt sz (Some ip) s
             else obind (iunlockput ip s) (\<lambda>s.
               obind (end_op ROOTDEV s) (\<lambda>s. exec_stack path argv elf pt sz s))))))))"

end
