(* ===== verification/KSysfile.thy ===== *)
theory KSysfile
  imports KExec
begin

text \<open>
  \<^verbatim>\<open>kernel/sysfile.c\<close>: the system calls on files. A call returns the 64-bit value that goes into the caller's \<^verbatim>\<open>a0\<close>.
\<close>

section \<open>File descriptors\<close>

definition argfd :: "nat \<Rightarrow> 'a ksys_scheme \<Rightarrow> (nat \<times> nat) option outcome" where
  "argfd n s =
     obind (argint n s) (\<lambda>fd.
     if fd < 0 \<or> fd \<ge> int NOFILE then Ok None
     else case ofile (procs s ! myproc s) ! nat fd of None \<Rightarrow> Ok None | Some f \<Rightarrow> Ok (Some (nat fd, f)))"

primrec fdalloc_from :: "nat list \<Rightarrow> nat \<Rightarrow> 'a ksys_scheme \<Rightarrow> nat option \<times> 'a ksys_scheme" where
  "fdalloc_from [] f s = (None, s)"
| "fdalloc_from (fd # fds) f s =
     (if ofile (procs s ! myproc s) ! fd = None
      then (Some fd, p_upd (myproc s) (\<lambda>p. p\<lparr>ofile := (ofile p)[fd := Some f]\<rparr>) s)
      else fdalloc_from fds f s)"

definition fdalloc :: "nat \<Rightarrow> 'a ksys_scheme \<Rightarrow> nat option \<times> 'a ksys_scheme" where
  "fdalloc f s = fdalloc_from [0..<NOFILE] f s"

definition fdclear :: "nat \<Rightarrow> 'a ksys_scheme \<Rightarrow> 'a ksys_scheme" where
  "fdclear fd s = p_upd (myproc s) (\<lambda>p. p\<lparr>ofile := (ofile p)[fd := None]\<rparr>) s"

definition sys_dup :: "'a ksys_scheme \<Rightarrow> (u64 \<times> 'a ksys_scheme) outcome" where
  "sys_dup s =
     obind (argfd 0 s) (\<lambda>a.
     case a of None \<Rightarrow> Ok (-1, s)
     | Some (_, f) \<Rightarrow>
         (case fdalloc f s of
            (None, s) \<Rightarrow> Ok (-1, s)
          | (Some fd, s) \<Rightarrow> obind (filedup f s) (\<lambda>(_, s). Ok (of_nat fd, s))))"

definition sys_read :: "'a ksys_scheme \<Rightarrow> (u64 \<times> 'a ksys_scheme) outcome" where
  "sys_read s =
     obind (argfd 0 s) (\<lambda>a.
     case a of None \<Rightarrow> Ok (-1, s)
     | Some (_, f) \<Rightarrow>
         obind (argint 2 s) (\<lambda>n.
         obind (argaddr 1 s) (\<lambda>p.
         obind (fileread f p n s) (\<lambda>(r, s). Ok (of_int r, s)))))"

definition sys_write :: "'a ksys_scheme \<Rightarrow> (u64 \<times> 'a ksys_scheme) outcome" where
  "sys_write s =
     obind (argfd 0 s) (\<lambda>a.
     case a of None \<Rightarrow> Ok (-1, s)
     | Some (_, f) \<Rightarrow>
         obind (argint 2 s) (\<lambda>n.
         obind (argaddr 1 s) (\<lambda>p.
         obind (filewrite f p n s) (\<lambda>(r, s). Ok (of_int r, s)))))"

definition sys_close :: "'a ksys_scheme \<Rightarrow> (u64 \<times> 'a ksys_scheme) outcome" where
  "sys_close s =
     obind (argfd 0 s) (\<lambda>a.
     case a of None \<Rightarrow> Ok (-1, s)
     | Some (fd, f) \<Rightarrow> obind (fileclose f (fdclear fd s)) (\<lambda>s. Ok (0, s)))"

definition sys_fstat :: "'a ksys_scheme \<Rightarrow> (u64 \<times> 'a ksys_scheme) outcome" where
  "sys_fstat s =
     obind (argfd 0 s) (\<lambda>a.
     case a of None \<Rightarrow> Ok (-1, s)
     | Some (_, f) \<Rightarrow>
         obind (argaddr 1 s) (\<lambda>st.
         obind (filestat f st s) (\<lambda>(r, s). Ok (of_int r, s))))"

section \<open>Links\<close>

text \<open>The end of a failed call: the operation is over and the result is \<open>-1\<close>.\<close>

definition sys_fail :: "'a ksys_scheme \<Rightarrow> (u64 \<times> 'a ksys_scheme) outcome" where
  "sys_fail s = obind (end_op ROOTDEV s) (\<lambda>s. Ok (-1, s))"

definition link_bad :: "nat \<Rightarrow> 'a ksys_scheme \<Rightarrow> (u64 \<times> 'a ksys_scheme) outcome" where
  "link_bad ip s =
     obind (ilock (Some ip) s) (\<lambda>s.
     obind (iupdate ip (i_upd ip (\<lambda>x. x\<lparr>i_nlink := i_nlink x - 1\<rparr>) s)) (\<lambda>s.
     obind (iunlockput ip s) sys_fail))"

definition sys_link :: "'a ksys_scheme \<Rightarrow> (u64 \<times> 'a ksys_scheme) outcome" where
  "sys_link s =
     obind (argpath 0 s) (\<lambda>old. case old of None \<Rightarrow> Ok (-1, s) | Some old \<Rightarrow>
     obind (argpath 1 s) (\<lambda>new. case new of None \<Rightarrow> Ok (-1, s) | Some new \<Rightarrow>
     obind (begin_op ROOTDEV s) (\<lambda>s.
     obind (namei old s) (\<lambda>(found, s).
     case found of None \<Rightarrow> sys_fail s
     | Some ip \<Rightarrow>
         obind (ilock (Some ip) s) (\<lambda>s.
         if i_type (icache s ip) = T_DIR then obind (iunlockput ip s) sys_fail
         else
           obind (iupdate ip (i_upd ip (\<lambda>x. x\<lparr>i_nlink := i_nlink x + 1\<rparr>) s)) (\<lambda>s.
           obind (iunlock (Some ip) s) (\<lambda>s.
           obind (nameiparent new (replicate DIRSIZ 0) s) (\<lambda>(parent_ip, name, s).
           case parent_ip of None \<Rightarrow> link_bad ip s
           | Some dp \<Rightarrow>
               obind (ilock (Some dp) s) (\<lambda>s.
               obind (if i_dev (icache s dp) \<noteq> i_dev (icache s ip) then Ok (-1, s)
                      else dirlink dp name (i_inum (icache s ip)) s) (\<lambda>(r, s).
               if r < 0 then obind (iunlockput dp s) (link_bad ip)
               else obind (iunlockput dp s) (\<lambda>s.
                 obind (iput ip s) (\<lambda>s.
                 obind (end_op ROOTDEV s) (\<lambda>s. Ok (0, s))))))))))))))"

primrec isdirempty_from :: "nat \<Rightarrow> u32 list \<Rightarrow> 'a ksys_scheme \<Rightarrow> (bool \<times> 'a ksys_scheme) outcome" where
  "isdirempty_from dp [] s = Ok (True, s)"
| "isdirempty_from dp (off # offs) s =
     obind (readi dp Local off 16 s) (\<lambda>(r, de, s).
     if r \<noteq> 16 then Panic ''isdirempty: readi''
     else if de_inum de \<noteq> 0 then Ok (False, s) else isdirempty_from dp offs s)"

definition isdirempty :: "nat \<Rightarrow> 'a ksys_scheme \<Rightarrow> (bool \<times> 'a ksys_scheme) outcome" where
  "isdirempty dp s = isdirempty_from dp (drop 2 (de_offs (i_size (icache s dp)))) s"

definition unlink_bad :: "nat \<Rightarrow> 'a ksys_scheme \<Rightarrow> (u64 \<times> 'a ksys_scheme) outcome" where
  "unlink_bad dp s = obind (iunlockput dp s) sys_fail"

definition unlink_entry :: "nat \<Rightarrow> nat \<Rightarrow> u32 \<Rightarrow> 'a ksys_scheme \<Rightarrow> (u64 \<times> 'a ksys_scheme) outcome" where
  "unlink_entry dp ip off s =
     obind (writei dp (Bytes (replicate 16 0)) off 16 s) (\<lambda>(r, s).
     if r \<noteq> 16 then Panic ''unlink: writei''
     else
       obind (if i_type (icache s ip) = T_DIR
              then iupdate dp (i_upd dp (\<lambda>x. x\<lparr>i_nlink := i_nlink x - 1\<rparr>) s) else Ok s) (\<lambda>s.
       obind (iunlockput dp s) (\<lambda>s.
       obind (iupdate ip (i_upd ip (\<lambda>x. x\<lparr>i_nlink := i_nlink x - 1\<rparr>) s)) (\<lambda>s.
       obind (iunlockput ip s) (\<lambda>s.
       obind (end_op ROOTDEV s) (\<lambda>s. Ok (0, s)))))))"

definition sys_unlink :: "'a ksys_scheme \<Rightarrow> (u64 \<times> 'a ksys_scheme) outcome" where
  "sys_unlink s =
     obind (argpath 0 s) (\<lambda>path. case path of None \<Rightarrow> Ok (-1, s) | Some path \<Rightarrow>
     obind (begin_op ROOTDEV s) (\<lambda>s.
     obind (nameiparent path (replicate DIRSIZ 0) s) (\<lambda>(parent_ip, name, s).
     case parent_ip of None \<Rightarrow> sys_fail s
     | Some dp \<Rightarrow>
         obind (ilock (Some dp) s) (\<lambda>s.
         if namecmp name (cbytes ''.'') = 0 \<or> namecmp name (cbytes ''..'') = 0 then unlink_bad dp s
         else obind (dirlookup dp name s) (\<lambda>(r, s).
           case r of None \<Rightarrow> unlink_bad dp s
           | Some (ip, off) \<Rightarrow>
               obind (ilock (Some ip) s) (\<lambda>s.
               if sint (i_nlink (icache s ip)) < 1 then Panic ''unlink: nlink < 1''
               else obind (if i_type (icache s ip) = T_DIR then isdirempty ip s else Ok (True, s)) (\<lambda>(emp, s).
                 if \<not> emp then obind (iunlockput ip s) (unlink_bad dp)
                 else unlink_entry dp ip off s)))))))"

section \<open>Creating and opening\<close>

text \<open>The parts of \<^verbatim>\<open>create\<close>: the path exists already, or a new inode is made. The result is locked.\<close>

definition create_found :: "u16 \<Rightarrow> nat \<Rightarrow> nat \<Rightarrow> 'a ksys_scheme \<Rightarrow> (nat option \<times> 'a ksys_scheme) outcome" where
  "create_found type dp ip s =
     obind (iunlockput dp s) (\<lambda>s.
     obind (ilock (Some ip) s) (\<lambda>s.
     if type = T_FILE \<and> (i_type (icache s ip) = T_FILE \<or> i_type (icache s ip) = T_DEVICE) then Ok (Some ip, s)
     else obind (iunlockput ip s) (\<lambda>s. Ok (None, s))))"

definition create_dots :: "nat \<Rightarrow> nat \<Rightarrow> 'a ksys_scheme \<Rightarrow> 'a ksys_scheme outcome" where
  "create_dots dp ip s =
     obind (iupdate dp (i_upd dp (\<lambda>x. x\<lparr>i_nlink := i_nlink x + 1\<rparr>) s)) (\<lambda>s.
     obind (dirlink ip (cbytes ''.'') (i_inum (icache s ip)) s) (\<lambda>(r, s).
     if r < 0 then Panic ''create dots''
     else obind (dirlink ip (cbytes ''..'') (i_inum (icache s dp)) s) (\<lambda>(r, s).
       if r < 0 then Panic ''create dots'' else Ok s)))"

definition create :: "u8 list \<Rightarrow> u16 \<Rightarrow> u16 \<Rightarrow> u16 \<Rightarrow> 'a ksys_scheme \<Rightarrow> (nat option \<times> 'a ksys_scheme) outcome" where
  "create path type major minor s =
     obind (nameiparent path (replicate DIRSIZ 0) s) (\<lambda>(parent_ip, name, s).
     case parent_ip of None \<Rightarrow> Ok (None, s)
     | Some dp \<Rightarrow>
         obind (ilock (Some dp) s) (\<lambda>s.
         obind (dirlookup dp name s) (\<lambda>(r, s).
         case r of Some (ip, _) \<Rightarrow> create_found type dp ip s
         | None \<Rightarrow>
             obind (ialloc (i_dev (icache s dp)) type s) (\<lambda>(ip, s).
             obind (ilock (Some ip) s) (\<lambda>s.
             obind (iupdate ip (i_upd ip (\<lambda>x. x\<lparr>i_major := major, i_minor := minor, i_nlink := 1\<rparr>) s)) (\<lambda>s.
             obind (if type = T_DIR then create_dots dp ip s else Ok s) (\<lambda>s.
             obind (dirlink dp name (i_inum (icache s ip)) s) (\<lambda>(r, s).
             if r < 0 then Panic ''create: dirlink''
             else obind (iunlockput dp s) (\<lambda>s. Ok (Some ip, s))))))))))"

definition O_RDONLY :: int where "O_RDONLY = 0"
definition O_WRONLY :: int where "O_WRONLY = 1"
definition O_RDWR :: int where "O_RDWR = 2"
definition O_CREATE :: int where "O_CREATE = 0x200"

definition flag :: "int \<Rightarrow> int \<Rightarrow> bool" where "flag omode f \<longleftrightarrow> omode AND f \<noteq> 0"

text \<open>The inode \<^verbatim>\<open>sys_open\<close> works on, locked, or \<open>None\<close> when the call fails.\<close>

definition open_inode :: "u8 list \<Rightarrow> int \<Rightarrow> 'a ksys_scheme \<Rightarrow> (nat option \<times> 'a ksys_scheme) outcome" where
  "open_inode path omode s =
     (if flag omode O_CREATE then create path T_FILE 0 0 s
      else obind (namei path s) (\<lambda>(found, s).
        case found of None \<Rightarrow> Ok (None, s)
        | Some ip \<Rightarrow>
            obind (ilock (Some ip) s) (\<lambda>s.
            if i_type (icache s ip) = T_DIR \<and> omode \<noteq> O_RDONLY
            then obind (iunlockput ip s) (\<lambda>s. Ok (None, s)) else Ok (Some ip, s))))"

definition open_file :: "nat \<Rightarrow> nat \<Rightarrow> int \<Rightarrow> 'a ksys_scheme \<Rightarrow> 'a ksys_scheme" where
  "open_file f ip omode s =
     (let i = icache s ip;
          s = (if i_type i = T_DEVICE
               then f_upd f (\<lambda>x. x\<lparr>f_type := FD_DEVICE, f_major := i_major i, f_minor := i_minor i\<rparr>) s
               else f_upd f (\<lambda>x. x\<lparr>f_type := FD_INODE\<rparr>) s)
      in f_upd f (\<lambda>x. x\<lparr>f_ip := ip, f_off := 0, f_readable := \<not> flag omode O_WRONLY,
                     f_writable := flag omode O_WRONLY \<or> flag omode O_RDWR\<rparr>) s)"

definition sys_open :: "'a ksys_scheme \<Rightarrow> (u64 \<times> 'a ksys_scheme) outcome" where
  "sys_open s =
     obind (argpath 0 s) (\<lambda>path. case path of None \<Rightarrow> Ok (-1, s) | Some path \<Rightarrow>
     obind (argint 1 s) (\<lambda>omode.
     obind (begin_op ROOTDEV s) (\<lambda>s.
     obind (open_inode path omode s) (\<lambda>(found, s).
     case found of None \<Rightarrow> sys_fail s
     | Some ip \<Rightarrow>
         let i = icache s ip in
         if i_type i = T_DEVICE \<and> (sint (i_major i) < 0 \<or> sint (i_major i) \<ge> int NDEV)
         then obind (iunlockput ip s) sys_fail
         else obind (filealloc s) (\<lambda>(fo, s).
           case fo of None \<Rightarrow> obind (iunlockput ip s) sys_fail
           | Some f \<Rightarrow>
               (case fdalloc f s of
                  (None, s) \<Rightarrow> obind (fileclose f s) (\<lambda>s. obind (iunlockput ip s) sys_fail)
                | (Some fd, s) \<Rightarrow>
                    obind (iunlock (Some ip) (open_file f ip omode s)) (\<lambda>s.
                    obind (end_op ROOTDEV s) (\<lambda>s. Ok (of_nat fd, s)))))))))"

definition sys_mkdir :: "'a ksys_scheme \<Rightarrow> (u64 \<times> 'a ksys_scheme) outcome" where
  "sys_mkdir s =
     obind (begin_op ROOTDEV s) (\<lambda>s.
     obind (argpath 0 s) (\<lambda>path. case path of None \<Rightarrow> sys_fail s | Some path \<Rightarrow>
     obind (create path T_DIR 0 0 s) (\<lambda>(found, s).
     case found of None \<Rightarrow> sys_fail s
     | Some ip \<Rightarrow> obind (iunlockput ip s) (\<lambda>s. obind (end_op ROOTDEV s) (\<lambda>s. Ok (0, s))))))"

definition sys_mknod :: "'a ksys_scheme \<Rightarrow> (u64 \<times> 'a ksys_scheme) outcome" where
  "sys_mknod s =
     obind (begin_op ROOTDEV s) (\<lambda>s.
     obind (argpath 0 s) (\<lambda>path. case path of None \<Rightarrow> sys_fail s | Some path \<Rightarrow>
     obind (argint 1 s) (\<lambda>major.
     obind (argint 2 s) (\<lambda>minor.
     obind (create path T_DEVICE (of_int major) (of_int minor) s) (\<lambda>(found, s).
     case found of None \<Rightarrow> sys_fail s
     | Some ip \<Rightarrow> obind (iunlockput ip s) (\<lambda>s. obind (end_op ROOTDEV s) (\<lambda>s. Ok (0, s))))))))"

definition sys_chdir :: "'a ksys_scheme \<Rightarrow> (u64 \<times> 'a ksys_scheme) outcome" where
  "sys_chdir s =
     (let p = myproc s in
      obind (begin_op ROOTDEV s) (\<lambda>s.
      obind (argpath 0 s) (\<lambda>path. case path of None \<Rightarrow> sys_fail s | Some path \<Rightarrow>
      obind (namei path s) (\<lambda>(found, s).
      case found of None \<Rightarrow> sys_fail s
      | Some ip \<Rightarrow>
          obind (ilock (Some ip) s) (\<lambda>s.
          if i_type (icache s ip) \<noteq> T_DIR then obind (iunlockput ip s) sys_fail
          else obind (iunlock (Some ip) s) (\<lambda>s.
            obind (iput (the (cwd (procs s ! p))) s) (\<lambda>s.
            obind (end_op ROOTDEV s) (\<lambda>s.
            Ok (0, p_upd p (\<lambda>x. x\<lparr>cwd := Some ip\<rparr>) s)))))))))"

section \<open>exec and pipe\<close>

text \<open>
  The loop that copies the argument strings into pages: whether it ends at a null pointer, and the pages allocated
  so far.
\<close>

primrec exec_argv :: "nat list \<Rightarrow> u64 \<Rightarrow> u64 list \<Rightarrow> 'a ksys_scheme \<Rightarrow> ((bool \<times> u64 list) \<times> 'a ksys_scheme) outcome" where
  "exec_argv [] uargv argv s = Ok ((False, argv), s)"
| "exec_argv (i # is) uargv argv s =
     obind (fetchaddr (uargv + 8 * of_nat i) s) (\<lambda>r.
     case r of None \<Rightarrow> Ok ((False, argv), s)
     | Some uarg \<Rightarrow>
         if uarg = 0 then Ok ((True, argv), s)
         else obind (kalloc s) (\<lambda>(page, s).
           if page = 0 then Panic ''sys_exec kalloc''
           else obind (fetchstr uarg (unat PGSIZE) s) (\<lambda>(r, bs).
             let s = s\<lparr>mem := store_bytes (mem s) page bs\<rparr> in
             if r < 0 then Ok ((False, argv @ [page]), s) else exec_argv is uargv (argv @ [page]) s)))"

definition sys_exec :: "'a ksys_scheme \<Rightarrow> (u64 \<times> 'a ksys_scheme) outcome" where
  "sys_exec s =
     obind (argpath 0 s) (\<lambda>path. case path of None \<Rightarrow> Ok (-1, s) | Some path \<Rightarrow>
     obind (argaddr 1 s) (\<lambda>uargv.
     obind (exec_argv [0..<MAXARG] uargv [] s) (\<lambda>((fine, argv), s).
     if fine
     then obind (exec path argv s) (\<lambda>(ret, s). obind (ofold kfree argv s) (\<lambda>s. Ok (of_int ret, s)))
     else obind (ofold kfree argv s) (\<lambda>s. Ok (-1, s)))))"

definition pipe_undo :: "nat list \<Rightarrow> nat \<Rightarrow> nat \<Rightarrow> 'a ksys_scheme \<Rightarrow> (u64 \<times> 'a ksys_scheme) outcome" where
  "pipe_undo fds rfile wfile s =
     obind (fileclose rfile (fold fdclear fds s)) (\<lambda>s.
     obind (fileclose wfile s) (\<lambda>s. Ok (-1, s)))"

definition sys_pipe :: "'a ksys_scheme \<Rightarrow> (u64 \<times> 'a ksys_scheme) outcome" where
  "sys_pipe s =
     (let p = myproc s in
      obind (argaddr 0 s) (\<lambda>fdarray.
      obind (pipealloc s) (\<lambda>(r, s).
      case r of None \<Rightarrow> Ok (-1, s)
      | Some (rfile, wfile) \<Rightarrow>
          (case fdalloc rfile s of
             (None, s) \<Rightarrow> pipe_undo [] rfile wfile s
           | (Some fd0, s) \<Rightarrow>
               (case fdalloc wfile s of
                  (None, s) \<Rightarrow> pipe_undo [fd0] rfile wfile s
                | (Some fd1, s) \<Rightarrow>
                    obind (copyout (pagetable (procs s ! p)) fdarray (le_bytes 4 (of_nat fd0 :: u32)) s) (\<lambda>(r, s).
                    if r < 0 then pipe_undo [fd0, fd1] rfile wfile s
                    else obind (copyout (pagetable (procs s ! p)) (fdarray + 4) (le_bytes 4 (of_nat fd1 :: u32)) s) (\<lambda>(r, s).
                      if r < 0 then pipe_undo [fd0, fd1] rfile wfile s else Ok (0, s))))))))"

end
