(* ===== verification/KVirtio.thy ===== *)
theory KVirtio
  imports KProc
begin

text \<open>
  \<^verbatim>\<open>kernel/virtio_disk.c\<close> and \<^verbatim>\<open>kernel/virtio.h\<close>: the driver of the virtio disks. A call of \<^verbatim>\<open>virtio_disk_rw\<close> is split
  where it waits: \<open>rw_submit\<close> hands the request to the device, \<open>rw_wait\<close> is one test of the waiting loop with what
  follows it. The device is not part of the program; it reads the descriptors and writes the used ring.
\<close>

section \<open>State\<close>

definition NDISK :: nat where "NDISK = 2"
definition NUM :: nat where "NUM = 8"
definition VRING_DESC_F_NEXT :: u16 where "VRING_DESC_F_NEXT = 1"
definition VRING_DESC_F_WRITE :: u16 where "VRING_DESC_F_WRITE = 2"
definition VIRTIO_BLK_T_IN :: u32 where "VIRTIO_BLK_T_IN = 0"
definition VIRTIO_BLK_T_OUT :: u32 where "VIRTIO_BLK_T_OUT = 1"

record vring_desc =
  d_addr :: u64
  d_len :: u32
  d_flags :: u16
  d_next :: u16

text \<open>
  \<^verbatim>\<open>struct disk\<close>. The two pages of the queue are their contents: the descriptors, the array \<^verbatim>\<open>avail\<close>, and the index
  and the completed descriptors of the used area.
\<close>

record vdisk =
  v_desc :: "nat \<Rightarrow> vring_desc"
  v_avail :: "nat \<Rightarrow> u16"
  v_used_id :: u16
  v_used_elems :: "nat \<Rightarrow> u32"
  v_free :: "nat \<Rightarrow> bool"
  v_used_idx :: u16
  v_info_b :: "nat \<Rightarrow> nat option"
  v_info_status :: "nat \<Rightarrow> u8"
  v_init :: bool

text \<open>
  \<open>mmio_in\<close> is what the registers of a device read as, \<open>mmio\<close> the writes made to them, oldest first. \<open>vpages\<close>,
  \<open>data_at\<close> and \<open>status_at\<close> are the addresses of \<^verbatim>\<open>disk[n].pages\<close>, of \<^verbatim>\<open>b->data\<close> and of \<^verbatim>\<open>disk[n].info[i].status\<close>.
\<close>

record kvirtio = ksys +
  vd :: "nat \<Rightarrow> vdisk"
  mmio_in :: "nat \<Rightarrow> u32 \<Rightarrow> u32"
  mmio :: "(nat \<times> u32 \<times> u32) list"
  vpages :: "nat \<Rightarrow> u64"
  data_at :: "nat \<Rightarrow> u64"
  status_at :: "nat \<Rightarrow> nat \<Rightarrow> u64"

definition v_upd :: "nat \<Rightarrow> (vdisk \<Rightarrow> vdisk) \<Rightarrow> 'a kvirtio_scheme \<Rightarrow> 'a kvirtio_scheme" where
  "v_upd n f s = s\<lparr>vd := (vd s)(n := f (vd s n))\<rparr>"

definition d_set :: "nat \<Rightarrow> nat \<Rightarrow> vring_desc \<Rightarrow> 'a kvirtio_scheme \<Rightarrow> 'a kvirtio_scheme" where
  "d_set n i d = v_upd n (\<lambda>v. v\<lparr>v_desc := (v_desc v)(i := d)\<rparr>)"

definition mmio_write :: "nat \<Rightarrow> u32 \<Rightarrow> u32 \<Rightarrow> 'a kvirtio_scheme \<Rightarrow> 'a kvirtio_scheme" where
  "mmio_write n r v s = s\<lparr>mmio := mmio s @ [(n, r, v)]\<rparr>"

section \<open>Initialisation\<close>

definition MAGIC_VALUE :: u32 where "MAGIC_VALUE = 0x000"
definition VERSION :: u32 where "VERSION = 0x004"
definition DEVICE_ID :: u32 where "DEVICE_ID = 0x008"
definition VENDOR_ID :: u32 where "VENDOR_ID = 0x00c"
definition DEVICE_FEATURES :: u32 where "DEVICE_FEATURES = 0x010"
definition DRIVER_FEATURES :: u32 where "DRIVER_FEATURES = 0x020"
definition GUEST_PAGE_SIZE :: u32 where "GUEST_PAGE_SIZE = 0x028"
definition QUEUE_SEL :: u32 where "QUEUE_SEL = 0x030"
definition QUEUE_NUM_MAX :: u32 where "QUEUE_NUM_MAX = 0x034"
definition QUEUE_NUM :: u32 where "QUEUE_NUM = 0x038"
definition QUEUE_PFN :: u32 where "QUEUE_PFN = 0x040"
definition QUEUE_NOTIFY :: u32 where "QUEUE_NOTIFY = 0x050"
definition STATUS :: u32 where "STATUS = 0x070"

text \<open>The feature bits the driver turns off, in the order of the code.\<close>

definition refused :: "nat list" where "refused = [5, 7, 11, 12, 27, 29, 28]"

definition zero_desc :: vring_desc where
  "zero_desc = \<lparr>d_addr = 0, d_len = 0, d_flags = 0, d_next = 0\<rparr>"

definition virtio_disk_init :: "nat \<Rightarrow> 'a kvirtio_scheme \<Rightarrow> 'a kvirtio_scheme outcome" where
  "virtio_disk_init n s =
     (if v_init (vd s n) then Ok s
      else obind (printf (cbytes ''virtio disk init %d'' @ [10]) [PInt (of_nat n)] s) (\<lambda>s.
        let r = mmio_in s n in
        if r MAGIC_VALUE \<noteq> 0x74726976 \<or> r VERSION \<noteq> 1 \<or> r DEVICE_ID \<noteq> 2 \<or> r VENDOR_ID \<noteq> 0x554d4551
        then Panic ''could not find virtio disk''
        else
          let s = mmio_write n STATUS 1 s;
              s = mmio_write n STATUS 3 s;
              features = fold (\<lambda>b (f :: u64). f AND NOT (push_bit b 1)) refused (ucast (r DEVICE_FEATURES));
              s = mmio_write n DRIVER_FEATURES (ucast features) s;
              s = mmio_write n STATUS 11 s;
              s = mmio_write n STATUS 15 s;
              s = mmio_write n GUEST_PAGE_SIZE (ucast PGSIZE) s;
              s = mmio_write n QUEUE_SEL 0 s;
              qmax = r QUEUE_NUM_MAX in
          if qmax = 0 then Panic ''virtio disk has no queue 0''
          else if qmax < of_nat NUM then Panic ''virtio disk max queue too short''
          else
            let s = mmio_write n QUEUE_NUM (of_nat NUM) s;
                s = v_upd n (\<lambda>v. v\<lparr>v_desc := (\<lambda>_. zero_desc), v_avail := (\<lambda>_. 0), v_used_id := 0,
                                   v_used_elems := (\<lambda>_. 0)\<rparr>) s;
                s = mmio_write n QUEUE_PFN (ucast (drop_bit 12 (vpages s n))) s
            in Ok (v_upd n (\<lambda>v. v\<lparr>v_free := (\<lambda>i. i < NUM), v_init := True\<rparr>) s)))"

section \<open>Descriptors\<close>

primrec alloc_desc_from :: "nat list \<Rightarrow> nat \<Rightarrow> 'a kvirtio_scheme \<Rightarrow> nat option \<times> 'a kvirtio_scheme" where
  "alloc_desc_from [] n s = (None, s)"
| "alloc_desc_from (i # is) n s =
     (if v_free (vd s n) i then (Some i, v_upd n (\<lambda>v. v\<lparr>v_free := (v_free v)(i := False)\<rparr>) s)
      else alloc_desc_from is n s)"

definition alloc_desc :: "nat \<Rightarrow> 'a kvirtio_scheme \<Rightarrow> nat option \<times> 'a kvirtio_scheme" where
  "alloc_desc n s = alloc_desc_from [0..<NUM] n s"

definition free_desc :: "nat \<Rightarrow> nat \<Rightarrow> 'a kvirtio_scheme \<Rightarrow> 'a kvirtio_scheme outcome" where
  "free_desc n i s =
     (if i \<ge> NUM then Panic ''virtio_disk_intr 1''
      else if v_free (vd s n) i then Panic ''virtio_disk_intr 2''
      else wakeup (ChDiskFree n)
        (v_upd n (\<lambda>v. v\<lparr>v_desc := (v_desc v)(i := (v_desc v i)\<lparr>d_addr := 0\<rparr>), v_free := (v_free v)(i := True)\<rparr>) s))"

text \<open>Freeing a chain ends because \<^verbatim>\<open>free_desc\<close> refuses a descriptor that is free already.\<close>

definition busy :: "vdisk \<Rightarrow> nat set" where "busy v = {i. i < NUM \<and> \<not> v_free v i}"

lemma wakeup_vd: "wakeup ch (s :: 'a kvirtio_scheme) = Ok t \<Longrightarrow> vd t = vd s"
  unfolding wakeup_def
  by (erule ofold_invariant) (auto simp: acquire_lk_def release_lk_def p_upd_def Let_def split: if_splits)

lemma free_desc_vd:
  "free_desc n i s = Ok t \<Longrightarrow> i \<in> busy (vd s n) \<and> vd t = (vd s)(n := (vd s n)\<lparr>
     v_desc := (v_desc (vd s n))(i := (v_desc (vd s n) i)\<lparr>d_addr := 0\<rparr>), v_free := (v_free (vd s n))(i := True)\<rparr>)"
  by (auto simp: free_desc_def v_upd_def busy_def dest!: wakeup_vd split: if_splits)

lemma free_desc_busy: "free_desc n i s = Ok t \<Longrightarrow> card (busy (vd t n)) < card (busy (vd s n))"
proof -
  assume "free_desc n i s = Ok t"
  then have "busy (vd t n) = busy (vd s n) - {i}" "i \<in> busy (vd s n)" by (auto simp: busy_def dest!: free_desc_vd split: if_splits)
  moreover have "finite (busy (vd s n))" by (simp add: busy_def)
  ultimately show ?thesis by (simp only: card_Diff1_less)
qed

function free_chain :: "nat \<Rightarrow> nat \<Rightarrow> 'a kvirtio_scheme \<Rightarrow> 'a kvirtio_scheme outcome" where
  "free_chain n i s =
     obind (free_desc n i s) (\<lambda>s.
     if d_flags (v_desc (vd s n) i) AND VRING_DESC_F_NEXT \<noteq> 0
     then free_chain n (unat (d_next (v_desc (vd s n) i))) s else Ok s)"
  by pat_completeness auto

termination
  by (relation "measure (\<lambda>(n, i, s). card (busy (vd s n)))") (auto dest: free_desc_busy)

declare free_chain.simps [simp del]

definition alloc3_desc :: "nat \<Rightarrow> 'a kvirtio_scheme \<Rightarrow> ((nat \<times> nat \<times> nat) option \<times> 'a kvirtio_scheme) outcome" where
  "alloc3_desc n s =
     (case alloc_desc n s of (None, s) \<Rightarrow> Ok (None, s) | (Some i0, s) \<Rightarrow>
     (case alloc_desc n s of (None, s) \<Rightarrow> obind (free_desc n i0 s) (\<lambda>s. Ok (None, s)) | (Some i1, s) \<Rightarrow>
     (case alloc_desc n s of
        (None, s) \<Rightarrow> obind (free_desc n i0 s) (\<lambda>s. obind (free_desc n i1 s) (\<lambda>s. Ok (None, s)))
      | (Some i2, s) \<Rightarrow> Ok (Some (i0, i1, i2), s))))"

section \<open>A request\<close>

text \<open>
  The request header \<^verbatim>\<open>buf0\<close>, at the address \<open>buf0\<close> of the caller's kernel stack. The sector number is computed in
  32 bits.
\<close>

definition outhdr :: "bool \<Rightarrow> u32 \<Rightarrow> u8 list" where
  "outhdr write blockno =
     le_bytes 4 (if write then VIRTIO_BLK_T_OUT else VIRTIO_BLK_T_IN) @ le_bytes 4 (0 :: u32)
     @ le_bytes 8 (ucast (blockno * (of_nat BSIZE div 512)) :: u64)"

text \<open>The descriptors of a request, once three have been found.\<close>

definition rw_format :: "nat \<Rightarrow> nat \<Rightarrow> bool \<Rightarrow> u64 \<Rightarrow> nat \<times> nat \<times> nat \<Rightarrow> 'a kvirtio_scheme \<Rightarrow> 'a kvirtio_scheme" where
  "rw_format n b write hdr idx s =
     (case idx of (i0, i1, i2) \<Rightarrow>
      let s = d_set n i0 \<lparr>d_addr = hdr, d_len = 16, d_flags = VRING_DESC_F_NEXT, d_next = of_nat i1\<rparr> s;
          s = d_set n i1 \<lparr>d_addr = data_at s b, d_len = of_nat BSIZE,
                d_flags = (if write then 0 else VRING_DESC_F_WRITE) OR VRING_DESC_F_NEXT, d_next = of_nat i2\<rparr> s;
          s = v_upd n (\<lambda>v. v\<lparr>v_info_status := (v_info_status v)(i0 := 0)\<rparr>) s;
          s = d_set n i2 \<lparr>d_addr = status_at s n i0, d_len = 1, d_flags = VRING_DESC_F_WRITE, d_next = 0\<rparr> s;
          s = b_upd b (\<lambda>x. x\<lparr>b_disk := True\<rparr>) s;
          s = v_upd n (\<lambda>v. v\<lparr>v_info_b := (v_info_b v)(i0 := Some b)\<rparr>) s;
          s = v_upd n (\<lambda>v. v\<lparr>v_avail := (v_avail v)(2 + unat (v_avail v 1) mod NUM := of_nat i0)\<rparr>) s;
          s = v_upd n (\<lambda>v. v\<lparr>v_avail := (v_avail v)(1 := v_avail v 1 + 1)\<rparr>) s
      in mmio_write n QUEUE_NOTIFY 0 s)"

definition rw_submit :: "nat \<Rightarrow> nat \<Rightarrow> bool \<Rightarrow> u64 \<Rightarrow> 'a kvirtio_scheme \<Rightarrow> (nat \<times> 'a kvirtio_scheme) outcome" where
  "rw_submit n b write buf0 s =
     obind (acquire_lk (LkVdisk n) s) (\<lambda>s.
     obind (alloc3_desc n s) (\<lambda>(r, s).
     case r of None \<Rightarrow> Sleep (ChDiskFree n)
     | Some (i0, i1, i2) \<Rightarrow>
         obind (kvmpa buf0 s) (\<lambda>hdr.
         let s = s\<lparr>mem := store_bytes (mem s) hdr (outhdr write (b_blockno (bufs s b)))\<rparr>
         in Ok (i0, rw_format n b write hdr (i0, i1, i2) s))))"

definition rw_wait :: "nat \<Rightarrow> nat \<Rightarrow> nat \<Rightarrow> 'a kvirtio_scheme \<Rightarrow> 'a kvirtio_scheme outcome" where
  "rw_wait n b i0 s =
     (if b_disk (bufs s b) then Sleep (ChBuf b)
      else let s = v_upd n (\<lambda>v. v\<lparr>v_info_b := (v_info_b v)(i0 := None)\<rparr>) s in
        obind (free_chain n i0 s) (release_lk (LkVdisk n)))"

section \<open>The interrupt\<close>

lemma idx_step:
  fixes u d :: u16
  assumes "unat u mod NUM \<noteq> unat d mod NUM"
  shows "(unat d mod NUM + (NUM - unat ((u + 1) mod of_nat NUM) mod NUM)) mod NUM
    < (unat d mod NUM + (NUM - unat u mod NUM)) mod NUM"
proof -
  define a b where "a = unat u mod 8" and "b = unat d mod 8"
  have lt: "a < 8" "b < 8" by (simp_all add: a_def b_def)
  have "unat (u + 1) mod 8 = (a + 1) mod 8"
  proof -
    have "unat (u + 1) = (unat u + 1) mod 65536" by (simp add: unat_word_ariths)
    then have "unat (u + 1) mod 8 = (unat u + 1) mod 8" by (simp add: mod_mod_cancel)
    then show ?thesis by (simp add: a_def mod_simps)
  qed
  then have "unat ((u + 1) mod of_nat NUM) mod NUM = (a + 1) mod 8" by (simp add: NUM_def unat_mod)
  moreover have "(b + (8 - (a + 1) mod 8)) mod 8 < (b + (8 - a)) mod 8"
  proof -
    have "\<forall>a<8. \<forall>b<8. a \<noteq> b \<longrightarrow> (b + (8 - (a + 1) mod 8)) mod 8 < (b + (8 - a)) mod (8 :: nat)" by code_simp
    then show ?thesis using lt assms unfolding NUM_def a_def b_def by blast
  qed
  ultimately show ?thesis by (simp add: NUM_def a_def b_def)
qed

text \<open>A null pointer in \<^verbatim>\<open>info[id].b\<close> would be dereferenced, which ends in \<^verbatim>\<open>kerneltrap\<close>.\<close>

function intr_loop :: "nat \<Rightarrow> 'a kvirtio_scheme \<Rightarrow> 'a kvirtio_scheme outcome" where
  "intr_loop n s =
     (let v = vd s n in
      if unat (v_used_idx v) mod NUM \<noteq> unat (v_used_id v) mod NUM then
        let i = unat (v_used_elems v (unat (v_used_idx v))) in
        if v_info_status v i \<noteq> 0 then Panic ''virtio_disk_intr status''
        else case v_info_b v i of
          None \<Rightarrow> Panic ''kerneltrap''
        | Some b \<Rightarrow>
            obind (wakeup (ChBuf b) (b_upd b (\<lambda>x. x\<lparr>b_disk := False\<rparr>) s)) (\<lambda>s.
            intr_loop n (v_upd n (\<lambda>v. v\<lparr>v_used_idx := (v_used_idx v + 1) mod of_nat NUM\<rparr>) s))
      else Ok s)"
  by pat_completeness auto

termination
  by (relation "measure (\<lambda>(n, s). (unat (v_used_id (vd s n)) mod NUM + (NUM - unat (v_used_idx (vd s n)) mod NUM)) mod NUM)")
    (auto dest!: wakeup_vd simp: v_upd_def b_upd_def idx_step)

declare intr_loop.simps [simp del]

definition virtio_disk_intr :: "nat \<Rightarrow> 'a kvirtio_scheme \<Rightarrow> 'a kvirtio_scheme outcome" where
  "virtio_disk_intr n s =
     obind (acquire_lk (LkVdisk n) s) (\<lambda>s. obind (intr_loop n s) (release_lk (LkVdisk n)))"

end
