(* ===== verification/KTrap.thy ===== *)
theory KTrap
  imports KSysfile KVirtio
begin

text \<open>
  \<^verbatim>\<open>kernel/sysproc.c\<close>, the dispatcher of \<^verbatim>\<open>kernel/syscall.c\<close>, \<^verbatim>\<open>kernel/plic.c\<close> and \<^verbatim>\<open>kernel/trap.c\<close>: how system calls,
  interrupts and exceptions reach the handlers, and the way back to user space.
\<close>

section \<open>State\<close>

text \<open>
  The control registers of the hart and the interrupt controller: \<open>plic_in\<close> lists what the claim register returns
  next, \<open>plic_out\<close> the words written to the controller. \<open>spins\<close> is the lock structures with their counters, which
  the operations on \<open>held\<close> abstract from.
\<close>

record ktrap = kvirtio +
  stvec :: u64
  sstatus :: u64
  sepc :: u64
  scause :: u64
  stval :: u64
  sip :: u64
  tp :: u64
  plic_in :: "u32 list"
  plic_out :: "(u64 \<times> u32) list"
  spins :: machine

definition SSTATUS_SPP :: u64 where "SSTATUS_SPP = push_bit 8 1"
definition SSTATUS_SPIE :: u64 where "SSTATUS_SPIE = push_bit 5 1"
definition SSTATUS_SIE :: u64 where "SSTATUS_SIE = push_bit 1 1"

definition intr_on :: "'a ktrap_scheme \<Rightarrow> 'a ktrap_scheme" where
  "intr_on s = s\<lparr>sstatus := sstatus s OR SSTATUS_SIE\<rparr>"

definition intr_off :: "'a ktrap_scheme \<Rightarrow> 'a ktrap_scheme" where
  "intr_off s = s\<lparr>sstatus := sstatus s AND NOT SSTATUS_SIE\<rparr>"

definition intr_get :: "'a ktrap_scheme \<Rightarrow> bool" where
  "intr_get s \<longleftrightarrow> sstatus s AND SSTATUS_SIE \<noteq> 0"

definition cpuid :: "'a ktrap_scheme \<Rightarrow> int" where
  "cpuid s = sint (ucast (tp s) :: u32)"

section \<open>Process system calls\<close>

text \<open>A system call returns a value for \<^verbatim>\<open>a0\<close>, or ends the process.\<close>

datatype 'a sysres = Return u64 'a | Exited 'a

definition ret :: "(u64 \<times> 'a) outcome \<Rightarrow> 'a sysres outcome" where
  "ret m = obind m (\<lambda>(v, s). Ok (Return v s))"

definition sys_exit :: "'a ksys_scheme \<Rightarrow> ('a ksys_scheme) sysres outcome" where
  "sys_exit s = obind (argint 0 s) (\<lambda>n. obind (exit n s) (\<lambda>s. Ok (Exited s)))"

definition sys_getpid :: "'a ksys_scheme \<Rightarrow> (u64 \<times> 'a ksys_scheme) outcome" where
  "sys_getpid s = Ok (of_int (pid (procs s ! myproc s)), s)"

definition sys_fork :: "'a ksys_scheme \<Rightarrow> (u64 \<times> 'a ksys_scheme) outcome" where
  "sys_fork s = obind (fork s) (\<lambda>(r, s). Ok (of_int r, s))"

definition sys_wait :: "'a ksys_scheme \<Rightarrow> (u64 \<times> 'a ksys_scheme) outcome" where
  "sys_wait s = obind (argaddr 0 s) (\<lambda>p. obind (wait p s) (\<lambda>(r, s). Ok (of_int r, s)))"

definition sys_sbrk :: "'a ksys_scheme \<Rightarrow> (u64 \<times> 'a ksys_scheme) outcome" where
  "sys_sbrk s =
     obind (argint 0 s) (\<lambda>n.
     let addr = sint (ucast (psz (procs s ! myproc s)) :: u32) in
     obind (growproc n s) (\<lambda>(r, s). if r < 0 then Ok (-1, s) else Ok (of_int addr, s)))"

text \<open>
  The loop of \<^verbatim>\<open>sys_sleep\<close> from a test on: the comparison is unsigned. After a wakeup it continues here with the same
  \<open>ticks0\<close>.
\<close>

definition sys_sleep_loop :: "u32 \<Rightarrow> int \<Rightarrow> 'a ksys_scheme \<Rightarrow> (u64 \<times> 'a ksys_scheme) outcome" where
  "sys_sleep_loop ticks0 n s =
     (if ticks s - ticks0 < of_int n then
        if killed (procs s ! myproc s) then obind (release_lk LkTicks s) (\<lambda>s. Ok (-1, s))
        else Sleep ChTicks
      else obind (release_lk LkTicks s) (\<lambda>s. Ok (0, s)))"

definition sys_sleep :: "'a ksys_scheme \<Rightarrow> (u64 \<times> 'a ksys_scheme) outcome" where
  "sys_sleep s =
     obind (argint 0 s) (\<lambda>n.
     obind (acquire_lk LkTicks s) (\<lambda>s. sys_sleep_loop (ticks s) n s))"

definition sys_kill :: "'a ksys_scheme \<Rightarrow> (u64 \<times> 'a ksys_scheme) outcome" where
  "sys_kill s = obind (argint 0 s) (\<lambda>n. obind (kill n s) (\<lambda>(r, s). Ok (of_int r, s)))"

definition sys_uptime :: "'a ksys_scheme \<Rightarrow> (u64 \<times> 'a ksys_scheme) outcome" where
  "sys_uptime s =
     obind (acquire_lk LkTicks s) (\<lambda>s.
     let xticks = ticks s in obind (release_lk LkTicks s) (\<lambda>s. Ok (ucast xticks, s)))"

text \<open>\<^verbatim>\<open>sys_ntas\<close> on the lock structures; \<open>stat_line\<close> is the output of \<^verbatim>\<open>print_lock\<close>.\<close>

definition stat_line :: "string \<times> u32 \<times> u32 \<Rightarrow> 'a ktrap_scheme \<Rightarrow> 'a ktrap_scheme outcome" where
  "stat_line l s =
     (case l of (name, nts, n) \<Rightarrow>
      printf (cbytes ''lock: %s: #test-and-set %d #acquire() %d'' @ [10]) [PStr (Some (cbytes name)), PInt nts, PInt n] s)"

definition sys_ntas_out :: "'a ktrap_scheme \<Rightarrow> (u64 \<times> 'a ktrap_scheme) outcome" where
  "sys_ntas_out s =
     obind (argint 0 s) (\<lambda>zero.
     case sys_ntas zero (spins s) of
       (r, None, m) \<Rightarrow> Ok (of_int r, s\<lparr>spins := m\<rparr>)
     | (r, Some (sel, tops), m) \<Rightarrow>
         obind (printf (cbytes ''=== lock kmem/bcache stats'' @ [10]) [] (s\<lparr>spins := m\<rparr>)) (\<lambda>s.
         obind (ofold stat_line sel s) (\<lambda>s.
         obind (printf (cbytes ''=== top 5 contended locks:'' @ [10]) [] s) (\<lambda>s.
         obind (ofold stat_line tops s) (\<lambda>s. Ok (of_int r, s))))))"

section \<open>The dispatcher\<close>

definition syscalls :: "int \<Rightarrow> ('a ktrap_scheme \<Rightarrow> ('a ktrap_scheme) sysres outcome) option" where
  "syscalls num =
     (if num = 1 then Some (\<lambda>s. ret (sys_fork s)) else if num = 2 then Some sys_exit
      else if num = 3 then Some (\<lambda>s. ret (sys_wait s)) else if num = 4 then Some (\<lambda>s. ret (sys_pipe s))
      else if num = 5 then Some (\<lambda>s. ret (sys_read s)) else if num = 6 then Some (\<lambda>s. ret (sys_kill s))
      else if num = 7 then Some (\<lambda>s. ret (sys_exec s)) else if num = 8 then Some (\<lambda>s. ret (sys_fstat s))
      else if num = 9 then Some (\<lambda>s. ret (sys_chdir s)) else if num = 10 then Some (\<lambda>s. ret (sys_dup s))
      else if num = 11 then Some (\<lambda>s. ret (sys_getpid s)) else if num = 12 then Some (\<lambda>s. ret (sys_sbrk s))
      else if num = 13 then Some (\<lambda>s. ret (sys_sleep s)) else if num = 14 then Some (\<lambda>s. ret (sys_uptime s))
      else if num = 15 then Some (\<lambda>s. ret (sys_open s)) else if num = 16 then Some (\<lambda>s. ret (sys_write s))
      else if num = 17 then Some (\<lambda>s. ret (sys_mknod s)) else if num = 18 then Some (\<lambda>s. ret (sys_unlink s))
      else if num = 19 then Some (\<lambda>s. ret (sys_link s)) else if num = 20 then Some (\<lambda>s. ret (sys_mkdir s))
      else if num = 21 then Some (\<lambda>s. ret (sys_close s)) else if num = 22 then Some (\<lambda>s. ret (sys_ntas_out s))
      else None)"

definition syscall :: "'a ktrap_scheme \<Rightarrow> ('a ktrap_scheme) sysres outcome" where
  "syscall s =
     (let p = myproc s; num = sint (ucast (tf_get p Tf_a7 s) :: u32) in
      case syscalls num of
        Some f \<Rightarrow>
          obind (f s) (\<lambda>r. case r of Return v s \<Rightarrow> Ok (Return v (tf_set p Tf_a0 v s)) | Exited s \<Rightarrow> Ok (Exited s))
      | None \<Rightarrow>
          obind (printf (cbytes ''%d %s: unknown sys call %d'' @ [10])
             [PInt (of_int (pid (procs s ! p))), PStr (Some (takeWhile (\<lambda>c. c \<noteq> 0) (pname (procs s ! p)))), PInt (of_int num)] s) (\<lambda>s.
          Ok (Return (-1) (tf_set p Tf_a0 (-1) s))))"

section \<open>The interrupt controller\<close>

definition UART0_IRQ :: u64 where "UART0_IRQ = 10"
definition VIRTIO0_IRQ :: u64 where "VIRTIO0_IRQ = 1"
definition VIRTIO1_IRQ :: u64 where "VIRTIO1_IRQ = 2"
definition PLIC_SENABLE :: "u64 \<Rightarrow> u64" where "PLIC_SENABLE hart = PLIC + 0x2080 + hart * 0x100"
definition PLIC_SPRIORITY :: "u64 \<Rightarrow> u64" where "PLIC_SPRIORITY hart = PLIC + 0x201000 + hart * 0x2000"
definition PLIC_SCLAIM :: "u64 \<Rightarrow> u64" where "PLIC_SCLAIM hart = PLIC + 0x201004 + hart * 0x2000"

definition plic_write :: "u64 \<Rightarrow> u32 \<Rightarrow> 'a ktrap_scheme \<Rightarrow> 'a ktrap_scheme" where
  "plic_write a v s = s\<lparr>plic_out := plic_out s @ [(a, v)]\<rparr>"

definition plicinit :: "'a ktrap_scheme \<Rightarrow> 'a ktrap_scheme" where
  "plicinit s = plic_write (PLIC + VIRTIO0_IRQ * 4) 1 (plic_write (PLIC + UART0_IRQ * 4) 1 s)"

definition plicinithart :: "'a ktrap_scheme \<Rightarrow> 'a ktrap_scheme" where
  "plicinithart s =
     (let hart = of_int (cpuid s);
          s = plic_write (PLIC_SENABLE hart) (push_bit (unat UART0_IRQ) 1 OR push_bit (unat VIRTIO0_IRQ) 1) s
      in plic_write (PLIC_SPRIORITY hart) 0 s)"

text \<open>With nothing pending the claim register reads as 0.\<close>

definition plic_claim :: "'a ktrap_scheme \<Rightarrow> int \<times> 'a ktrap_scheme" where
  "plic_claim s =
     (case plic_in s of [] \<Rightarrow> (0, s) | irq # rest \<Rightarrow> (sint irq, s\<lparr>plic_in := rest\<rparr>))"

definition plic_complete :: "int \<Rightarrow> 'a ktrap_scheme \<Rightarrow> 'a ktrap_scheme" where
  "plic_complete irq s = plic_write (PLIC_SCLAIM (of_int (cpuid s))) (of_int irq) s"

section \<open>Interrupts\<close>

definition trapinithart :: "'a ktrap_scheme \<Rightarrow> 'a ktrap_scheme" where
  "trapinithart s = s\<lparr>stvec := sym s ''kernelvec''\<rparr>"

definition clockintr :: "'a ksys_scheme \<Rightarrow> 'a ksys_scheme outcome" where
  "clockintr s =
     obind (acquire_lk LkTicks s) (\<lambda>s.
     obind (wakeup ChTicks (s\<lparr>ticks := ticks s + 1\<rparr>)) (release_lk LkTicks))"

definition devintr :: "'a ktrap_scheme \<Rightarrow> (int \<times> 'a ktrap_scheme) outcome" where
  "devintr s =
     (if scause s AND 0x8000000000000000 \<noteq> 0 \<and> scause s AND 0xff = 9 then
        (case plic_claim s of (irq, s) \<Rightarrow>
         obind (if irq = uint UART0_IRQ then uartintr s
                else if irq = uint VIRTIO0_IRQ \<or> irq = uint VIRTIO1_IRQ
                then virtio_disk_intr (nat (irq - uint VIRTIO0_IRQ)) s
                else Ok s) (\<lambda>s.
         Ok (1, if irq \<noteq> 0 then plic_complete irq s else s)))
      else if scause s = 0x8000000000000001 then
        obind (if cpuid s = 0 then clockintr s else Ok s) (\<lambda>s.
        Ok (2, s\<lparr>sip := sip s AND NOT 2\<rparr>))
      else Ok (0, s))"

definition intr_desc :: "string list" where
  "intr_desc = [
     ''user software interrupt'',
     ''supervisor software interrupt'',
     ''<reserved for future standard use>'',
     ''<reserved for future standard use>'',
     ''user timer interrupt'',
     ''supervisor timer interrupt'',
     ''<reserved for future standard use>'',
     ''<reserved for future standard use>'',
     ''user external interrupt'',
     ''supervisor external interrupt'',
     ''<reserved for future standard use>'',
     ''<reserved for future standard use>'',
     ''<reserved for future standard use>'',
     ''<reserved for future standard use>'',
     ''<reserved for future standard use>'',
     ''<reserved for future standard use>'']"

definition nointr_desc :: "string list" where
  "nointr_desc = [
     ''instruction address misaligned'',
     ''instruction access fault'',
     ''illegal instruction'',
     ''breakpoint'',
     ''load address misaligned'',
     ''load access fault'',
     ''store/AMO address misaligned'',
     ''store/AMO access fault'',
     ''environment call from U-mode'',
     ''environment call from S-mode'',
     ''<reserved for future standard use>'',
     ''<reserved for future standard use>'',
     ''instruction page fault'',
     ''load page fault'',
     ''<reserved for future standard use>'',
     ''store/AMO page fault'']"

definition scause_desc :: "u64 \<Rightarrow> string" where
  "scause_desc c =
     (let interrupt = c AND 0x8000000000000000; code = c AND NOT 0x8000000000000000 in
      if interrupt \<noteq> 0 then
        if code < 16 then intr_desc ! unat code else ''<reserved for platform use>''
      else if code < 16 then nointr_desc ! unat code
      else if code \<le> 23 then ''<reserved for future standard use>''
      else if code \<le> 31 then ''<reserved for custom use>''
      else if code \<le> 47 then ''<reserved for future standard use>''
      else if code \<le> 63 then ''<reserved for custom use>''
      else ''<reserved for future standard use>'')"

section \<open>Traps\<close>

text \<open>
  The state in which \<^verbatim>\<open>usertrapret\<close> jumps to \<^verbatim>\<open>userret\<close>, with the second argument of that jump.
\<close>

definition usertrapret :: "'a ktrap_scheme \<Rightarrow> u64 \<times> 'a ktrap_scheme" where
  "usertrapret s =
     (let p = myproc s;
          s = intr_off s;
          s = s\<lparr>stvec := TRAMPOLINE + (sym s ''uservec'' - trampoline s)\<rparr>;
          s = tf_set p Kernel_satp (satp s) s;
          s = tf_set p Kernel_sp (kstack (procs s ! p) + PGSIZE) s;
          s = tf_set p Kernel_trap (sym s ''usertrap'') s;
          s = tf_set p Kernel_hartid (tp s) s;
          s = s\<lparr>sstatus := (sstatus s AND NOT SSTATUS_SPP) OR SSTATUS_SPIE\<rparr>;
          s = s\<lparr>sepc := tf_get p Epc s\<rparr>
      in (push_bit 60 8 OR drop_bit 12 (pagetable (procs s ! p)), s))"

text \<open>
  How a trap from user space ends: on the way back to user space, in \<^verbatim>\<open>exit\<close>, or giving up the CPU in \<^verbatim>\<open>yield\<close>, after
  which \<open>usertrap_resume\<close> goes on.
\<close>

datatype 'a utrap = ToUser u64 'a | Gone 'a | Yielded 'a

definition usertrap_end :: "int \<Rightarrow> 'a ktrap_scheme \<Rightarrow> ('a ktrap_scheme) utrap outcome" where
  "usertrap_end which_dev s =
     (if killed (procs s ! myproc s) then obind (exit (-1) s) (\<lambda>s. Ok (Gone s))
      else if which_dev = 2 then obind (yield_enter s) (\<lambda>s. Ok (Yielded s))
      else case usertrapret s of (v, s) \<Rightarrow> Ok (ToUser v s))"

definition usertrap_resume :: "'a ktrap_scheme \<Rightarrow> ('a ktrap_scheme) utrap outcome" where
  "usertrap_resume s = obind (yield_exit s) (\<lambda>s. case usertrapret s of (v, s) \<Rightarrow> Ok (ToUser v s))"

definition usertrap_unknown :: "'a ktrap_scheme \<Rightarrow> 'a ktrap_scheme outcome" where
  "usertrap_unknown s =
     (let p = myproc s in
      obind (printf (cbytes ''usertrap(): unexpected scause %p (%s) pid=%d'' @ [10])
        [PPtr (scause s), PStr (Some (cbytes (scause_desc (scause s)))), PInt (of_int (pid (procs s ! p)))] s) (\<lambda>s.
      obind (printf (cbytes ''            sepc=%p stval=%p'' @ [10]) [PPtr (sepc s), PPtr (stval s)] s) (\<lambda>s.
      Ok (p_upd p (\<lambda>x. x\<lparr>killed := True\<rparr>) s))))"

definition usertrap :: "'a ktrap_scheme \<Rightarrow> ('a ktrap_scheme) utrap outcome" where
  "usertrap s =
     (if sstatus s AND SSTATUS_SPP \<noteq> 0 then Panic ''usertrap: not from user mode''
      else
        let s = s\<lparr>stvec := sym s ''kernelvec''\<rparr>; p = myproc s; s = tf_set p Epc (sepc s) s in
        if scause s = 8 then
          if killed (procs s ! p) then obind (exit (-1) s) (\<lambda>s. Ok (Gone s))
          else
            let s = tf_set p Epc (tf_get p Epc s + 4) s; s = intr_on s in
            obind (syscall s) (\<lambda>r. case r of Exited s \<Rightarrow> Ok (Gone s) | Return _ s \<Rightarrow> usertrap_end 0 s)
        else obind (devintr s) (\<lambda>(which_dev, s).
          if which_dev \<noteq> 0 then usertrap_end which_dev s
          else obind (usertrap_unknown s) (usertrap_end 0)))"

text \<open>\<^verbatim>\<open>kerneltrap\<close>, with \<open>True\<close> when it stops in \<^verbatim>\<open>yield\<close>; \<open>kerneltrap_end\<close> is what follows.\<close>

definition kerneltrap_end :: "u64 \<Rightarrow> u64 \<Rightarrow> 'a ktrap_scheme \<Rightarrow> 'a ktrap_scheme" where
  "kerneltrap_end epc st s = s\<lparr>sepc := epc, sstatus := st\<rparr>"

definition kerneltrap :: "'a ktrap_scheme \<Rightarrow> (bool \<times> 'a ktrap_scheme) outcome" where
  "kerneltrap s =
     (let epc = sepc s; st = sstatus s; cause = scause s in
      if st AND SSTATUS_SPP = 0 then Panic ''kerneltrap: not from supervisor mode''
      else if intr_get s then Panic ''kerneltrap: interrupts enabled''
      else obind (devintr s) (\<lambda>(which_dev, s).
        if which_dev = 0 then
          obind (printf (cbytes ''scause %p (%s)'' @ [10]) [PPtr cause, PStr (Some (cbytes (scause_desc cause)))] s) (\<lambda>s.
          obind (printf (cbytes ''sepc=%p stval=%p'' @ [10]) [PPtr (sepc s), PPtr (stval s)] s) (\<lambda>s.
          Panic ''kerneltrap''))
        else if which_dev = 2 \<and> curp s \<noteq> None \<and> pstate (procs s ! myproc s) = RUNNING
        then obind (yield_enter s) (\<lambda>s. Ok (True, s))
        else Ok (False, kerneltrap_end epc st s)))"

definition forkret :: "'a ktrap_scheme \<Rightarrow> (u64 \<times> 'a ktrap_scheme) outcome" where
  "forkret s =
     obind (release_lk (LkProc (myproc s)) s) (\<lambda>s.
     obind (if forkret_first s then fsinit ROOTDEV (s\<lparr>forkret_first := False\<rparr>) else Ok s) (\<lambda>s.
     Ok (usertrapret s)))"

end
