(* ===== verification/KAsm.thy ===== *)
theory KAsm
  imports KProc
begin

text \<open>
  The assembly code of the kernel: \<^verbatim>\<open>trampoline.S\<close>, \<^verbatim>\<open>kernelvec.S\<close>, \<^verbatim>\<open>swtch.S\<close> and \<^verbatim>\<open>entry.S\<close>, as lists of instructions
  with an interpreter. Loads and stores go through \<open>tr\<close>, the translation of the address by the page table whose
  \<^verbatim>\<open>satp\<close> value is its first argument; an aligned eight-byte access stays in one page.
\<close>

unbundle bit_operations_syntax

section \<open>Instructions\<close>

datatype reg = Ra | Sp | Gp | Tp | T0 | T1 | T2 | S0 | S1 | A0 | A1 | A2 | A3 | A4 | A5 | A6 | A7
  | S2 | S3 | S4 | S5 | S6 | S7 | S8 | S9 | S10 | S11 | T3 | T4 | T5 | T6

datatype csr = Sscratch | Satp | Sepc | Sip | Mscratch | Mepc | Mhartid

datatype instr =
    Sd reg nat reg | Ld reg nat reg | Csrrw reg csr reg | Csrr reg csr | Csrw csr reg
  | Addi reg reg int | Add reg reg reg | Mul reg reg reg | Li reg u64 | La reg string
  | Sfence | Call string | Jr reg | Ret | Sret | Mret

record hart =
  gpr :: "reg \<Rightarrow> u64"
  hcsr :: "csr \<Rightarrow> u64"
  npc :: u64
  hmem :: mem

type_synonym translation = "u64 \<Rightarrow> u64 \<Rightarrow> u64"

definition addr_of :: "translation \<Rightarrow> reg \<Rightarrow> nat \<Rightarrow> hart \<Rightarrow> u64" where
  "addr_of tr b off h = tr (hcsr h Satp) (gpr h b + of_nat off)"

text \<open>
  The effect of an instruction; a jump, a call and a return set the address of the next instruction. \<open>glob\<close> has the
  addresses of the symbols, and of the instruction after the call of a symbol under \<open>after_call\<close>. Of \<^verbatim>\<open>sip\<close>
  a program can write the bit of the software interrupt only.
\<close>

definition after_call :: "string \<Rightarrow> string" where
  "after_call f = ''after '' @ f"

definition csr_write :: "csr \<Rightarrow> u64 \<Rightarrow> u64 \<Rightarrow> u64" where
  [simp]: "csr_write c old v = (if c = Sip then old AND NOT 2 OR (v AND 2) else v)"

fun exec_instr :: "translation \<Rightarrow> (string \<Rightarrow> u64) \<Rightarrow> instr \<Rightarrow> hart \<Rightarrow> hart" where
  "exec_instr tr glob (Sd r off b) h = h\<lparr>hmem := store64 (hmem h) (addr_of tr b off h) (gpr h r)\<rparr>"
| "exec_instr tr glob (Ld r off b) h = h\<lparr>gpr := (gpr h)(r := load64 (hmem h) (addr_of tr b off h))\<rparr>"
| "exec_instr tr glob (Csrrw r c r') h = h\<lparr>gpr := (gpr h)(r := hcsr h c), hcsr := (hcsr h)(c := csr_write c (hcsr h c) (gpr h r'))\<rparr>"
| "exec_instr tr glob (Csrr r c) h = h\<lparr>gpr := (gpr h)(r := hcsr h c)\<rparr>"
| "exec_instr tr glob (Csrw c r) h = h\<lparr>hcsr := (hcsr h)(c := csr_write c (hcsr h c) (gpr h r))\<rparr>"
| "exec_instr tr glob (Addi r r' n) h = h\<lparr>gpr := (gpr h)(r := gpr h r' + of_int n)\<rparr>"
| "exec_instr tr glob (Add r r' r'') h = h\<lparr>gpr := (gpr h)(r := gpr h r' + gpr h r'')\<rparr>"
| "exec_instr tr glob (Mul r r' r'') h = h\<lparr>gpr := (gpr h)(r := gpr h r' * gpr h r'')\<rparr>"
| "exec_instr tr glob (Li r v) h = h\<lparr>gpr := (gpr h)(r := v)\<rparr>"
| "exec_instr tr glob (La r x) h = h\<lparr>gpr := (gpr h)(r := glob x)\<rparr>"
| "exec_instr tr glob Sfence h = h"
| "exec_instr tr glob (Call f) h = h\<lparr>npc := glob f, gpr := (gpr h)(Ra := glob (after_call f))\<rparr>"
| "exec_instr tr glob (Jr r) h = h\<lparr>npc := gpr h r\<rparr>"
| "exec_instr tr glob Ret h = h\<lparr>npc := gpr h Ra\<rparr>"
| "exec_instr tr glob Sret h = h\<lparr>npc := hcsr h Sepc\<rparr>"
| "exec_instr tr glob Mret h = h\<lparr>npc := hcsr h Mepc\<rparr>"

definition run :: "translation \<Rightarrow> (string \<Rightarrow> u64) \<Rightarrow> instr list \<Rightarrow> hart \<Rightarrow> hart" where
  "run tr glob is h = fold (exec_instr tr glob) is h"

section \<open>The programs\<close>

text \<open>User space to kernel.\<close>

definition uservec :: "instr list" where
  "uservec = [
     Csrrw A0 Sscratch A0, Sd Ra 40 A0, Sd Sp 48 A0, Sd Gp 56 A0, Sd Tp 64 A0, Sd T0 72 A0, Sd T1 80 A0,
     Sd T2 88 A0, Sd S0 96 A0, Sd S1 104 A0, Sd A1 120 A0, Sd A2 128 A0, Sd A3 136 A0, Sd A4 144 A0,
     Sd A5 152 A0, Sd A6 160 A0, Sd A7 168 A0, Sd S2 176 A0, Sd S3 184 A0, Sd S4 192 A0, Sd S5 200 A0,
     Sd S6 208 A0, Sd S7 216 A0, Sd S8 224 A0, Sd S9 232 A0, Sd S10 240 A0, Sd S11 248 A0, Sd T3 256 A0,
     Sd T4 264 A0, Sd T5 272 A0, Sd T6 280 A0, Csrr T0 Sscratch, Sd T0 112 A0, Ld Sp 8 A0, Ld Tp 32 A0,
     Ld T0 16 A0, Ld T1 0 A0, Csrw Satp T1, Sfence, Jr T0]"

text \<open>Kernel to user space.\<close>

definition userret :: "instr list" where
  "userret = [
     Csrw Satp A1, Sfence, Ld T0 112 A0, Csrw Sscratch T0, Ld Ra 40 A0, Ld Sp 48 A0, Ld Gp 56 A0,
     Ld Tp 64 A0, Ld T0 72 A0, Ld T1 80 A0, Ld T2 88 A0, Ld S0 96 A0, Ld S1 104 A0, Ld A1 120 A0,
     Ld A2 128 A0, Ld A3 136 A0, Ld A4 144 A0, Ld A5 152 A0, Ld A6 160 A0, Ld A7 168 A0, Ld S2 176 A0,
     Ld S3 184 A0, Ld S4 192 A0, Ld S5 200 A0, Ld S6 208 A0, Ld S7 216 A0, Ld S8 224 A0, Ld S9 232 A0,
     Ld S10 240 A0, Ld S11 248 A0, Ld T3 256 A0, Ld T4 264 A0, Ld T5 272 A0, Ld T6 280 A0,
     Csrrw A0 Sscratch A0, Sret]"

text \<open>A trap in the kernel: what precedes and what follows the call of \<^verbatim>\<open>kerneltrap\<close>.\<close>

definition kernelvec_save :: "instr list" where
  "kernelvec_save = [
     Addi Sp Sp (-256), Sd Ra 0 Sp, Sd Sp 8 Sp, Sd Gp 16 Sp, Sd Tp 24 Sp, Sd T0 32 Sp, Sd T1 40 Sp,
     Sd T2 48 Sp, Sd S0 56 Sp, Sd S1 64 Sp, Sd A0 72 Sp, Sd A1 80 Sp, Sd A2 88 Sp, Sd A3 96 Sp, Sd A4 104 Sp,
     Sd A5 112 Sp, Sd A6 120 Sp, Sd A7 128 Sp, Sd S2 136 Sp, Sd S3 144 Sp, Sd S4 152 Sp, Sd S5 160 Sp,
     Sd S6 168 Sp, Sd S7 176 Sp, Sd S8 184 Sp, Sd S9 192 Sp, Sd S10 200 Sp, Sd S11 208 Sp, Sd T3 216 Sp,
     Sd T4 224 Sp, Sd T5 232 Sp, Sd T6 240 Sp, Call ''kerneltrap'']"

definition kernelvec_restore :: "instr list" where
  "kernelvec_restore = [
     Ld Ra 0 Sp, Ld Sp 8 Sp, Ld Gp 16 Sp, Ld T0 32 Sp, Ld T1 40 Sp, Ld T2 48 Sp, Ld S0 56 Sp, Ld S1 64 Sp,
     Ld A0 72 Sp, Ld A1 80 Sp, Ld A2 88 Sp, Ld A3 96 Sp, Ld A4 104 Sp, Ld A5 112 Sp, Ld A6 120 Sp,
     Ld A7 128 Sp, Ld S2 136 Sp, Ld S3 144 Sp, Ld S4 152 Sp, Ld S5 160 Sp, Ld S6 168 Sp, Ld S7 176 Sp,
     Ld S8 184 Sp, Ld S9 192 Sp, Ld S10 200 Sp, Ld S11 208 Sp, Ld T3 216 Sp, Ld T4 224 Sp, Ld T5 232 Sp,
     Ld T6 240 Sp, Addi Sp Sp (256), Sret]"

text \<open>The timer interrupt in machine mode.\<close>

definition timervec :: "instr list" where
  "timervec = [
     Csrrw A0 Mscratch A0, Sd A1 0 A0, Sd A2 8 A0, Sd A3 16 A0, Ld A1 32 A0, Ld A2 40 A0, Ld A3 0 A1,
     Add A3 A3 A2, Sd A3 0 A1, Li A1 (2), Csrw Sip A1, Ld A3 16 A0, Ld A2 8 A0, Ld A1 0 A0,
     Csrrw A0 Mscratch A0, Mret]"

text \<open>The context switch.\<close>

definition swtch :: "instr list" where
  "swtch = [
     Sd Ra 0 A0, Sd Sp 8 A0, Sd S0 16 A0, Sd S1 24 A0, Sd S2 32 A0, Sd S3 40 A0, Sd S4 48 A0, Sd S5 56 A0,
     Sd S6 64 A0, Sd S7 72 A0, Sd S8 80 A0, Sd S9 88 A0, Sd S10 96 A0, Sd S11 104 A0, Ld Ra 0 A1, Ld Sp 8 A1,
     Ld S0 16 A1, Ld S1 24 A1, Ld S2 32 A1, Ld S3 40 A1, Ld S4 48 A1, Ld S5 56 A1, Ld S6 64 A1, Ld S7 72 A1,
     Ld S8 80 A1, Ld S9 88 A1, Ld S10 96 A1, Ld S11 104 A1, Ret]"

text \<open>The first instructions of a hart.\<close>

definition entry :: "instr list" where
  "entry = [
     La Sp ''stack0'', Li A0 (1024 * 4), Csrr A1 Mhartid, Addi A1 A1 (1), Mul A0 A0 A1, Add Sp Sp A0,
     Call ''start'']"

section \<open>Saving and restoring\<close>

text \<open>A run of stores relative to \<open>p\<close> and a run of loads, as \<open>(register, offset)\<close> pairs.\<close>

definition saved :: "u64 \<Rightarrow> (reg \<Rightarrow> u64) \<Rightarrow> (reg \<times> nat) list \<Rightarrow> mem \<Rightarrow> mem" where
  "saved p g L m = fold (\<lambda>(r, off) m. store64 m (p + of_nat off) (g r)) L m"

definition loaded :: "u64 \<Rightarrow> mem \<Rightarrow> (reg \<times> nat) list \<Rightarrow> (reg \<Rightarrow> u64) \<Rightarrow> reg \<Rightarrow> u64" where
  "loaded p m L g = (\<lambda>r. case map_of L r of Some off \<Rightarrow> load64 m (p + of_nat off) | None \<Rightarrow> g r)"

definition slots :: "(reg \<times> nat) list \<Rightarrow> bool" where
  "slots L \<longleftrightarrow> distinct (map fst L) \<and> distinct (map snd L) \<and> (\<forall>off\<in>snd ` set L. 8 dvd off \<and> off < 4096)"

text \<open>The page table of \<open>st\<close> maps the \<open>n\<close> bytes at \<open>va\<close> to those at \<open>p\<close>.\<close>

definition mapped_at :: "translation \<Rightarrow> u64 \<Rightarrow> u64 \<Rightarrow> u64 \<Rightarrow> nat \<Rightarrow> bool" where
  "mapped_at tr st va p n \<longleftrightarrow> (\<forall>off<n. tr st (va + of_nat off) = p + of_nat off)"

lemma mapped_atD: "mapped_at tr st va p n \<Longrightarrow> off < n \<Longrightarrow> tr st (va + of_nat off) = p + of_nat off"
  by (simp add: mapped_at_def)

lemma slot_apart:
  fixes p :: u64
  assumes "8 dvd a" "8 dvd b" "a < 4096" "b < 4096" "a \<noteq> b" "i < 8"
  shows "8 \<le> unat (p + of_nat b + of_nat i - (p + of_nat a))"
proof -
  have e: "p + of_nat b + of_nat i - (p + of_nat a) = of_nat (b + i) - of_nat a" by simp
  obtain c d where cd: "a = 8 * c" "b = 8 * d" using assms(1,2) by (elim dvdE)
  have u: "unat (of_nat (b + i) :: u64) = b + i" "unat (of_nat a :: u64) = a"
    using assms by (intro unat_of_nat_u64; simp)+
  have v: "unat (of_nat (b + i) - of_nat a :: u64) = (if a \<le> b + i then b + i - a else b + i + 2 ^ 64 - a)"
    unfolding unat_sub_if' u by simp
  have "c < d \<or> d < c" using assms(5) cd by auto
  then show ?thesis unfolding e v using assms(3,4,6) cd by auto
qed

lemma load64_store64_slot:
  "8 dvd a \<Longrightarrow> 8 dvd b \<Longrightarrow> a < 4096 \<Longrightarrow> b < 4096 \<Longrightarrow> a \<noteq> b
   \<Longrightarrow> load64 (store64 m (p + of_nat a) v) (p + of_nat b) = load64 m (p + of_nat b)"
  by (rule load64_cong) (rule store64_outside, rule slot_apart)

lemma load_saved_other:
  "slots L \<Longrightarrow> 8 dvd b \<Longrightarrow> b < 4096 \<Longrightarrow> b \<notin> snd ` set L
   \<Longrightarrow> load64 (saved p g L m) (p + of_nat b) = load64 m (p + of_nat b)"
proof (induction L arbitrary: m)
  case Nil
  then show ?case by (simp add: saved_def)
next
  case (Cons x L)
  obtain r a where x: "x = (r, a)" by (cases x)
  from Cons have "load64 (saved p g L (store64 m (p + of_nat a) (g r))) (p + of_nat b)
      = load64 (store64 m (p + of_nat a) (g r)) (p + of_nat b)" by (intro Cons.IH) (auto simp: slots_def)
  also have "\<dots> = load64 m (p + of_nat b)"
    using Cons.prems by (intro load64_store64_slot) (auto simp: slots_def x)
  finally show ?case by (simp add: saved_def x)
qed

lemma load_saved:
  "slots L \<Longrightarrow> (r, off) \<in> set L \<Longrightarrow> load64 (saved p g L m) (p + of_nat off) = g r"
proof (induction L arbitrary: m)
  case Nil
  then show ?case by simp
next
  case (Cons x L)
  have L: "slots L" using Cons.prems by (auto simp: slots_def)
  obtain q a where x: "x = (q, a)" by (cases x)
  have e: "saved p g ((q, a) # L) m = saved p g L (store64 m (p + of_nat a) (g q))" by (simp add: saved_def)
  show ?case
  proof (cases "(r, off) = x")
    case True
    then have "load64 (saved p g L (store64 m (p + of_nat a) (g q))) (p + of_nat off) = load64 (store64 m (p + of_nat a) (g q)) (p + of_nat off)"
      using Cons.prems by (intro load_saved_other L) (auto simp: slots_def x)
    then show ?thesis using True by (simp add: e x)
  next
    case False
    then have "(r, off) \<in> set L" using Cons.prems(2) by simp
    then show ?thesis using Cons.IH L by (simp add: e x)
  qed
qed

lemma saved_outside:
  "\<forall>(r, off)\<in>set L. 8 \<le> unat (x - (p + of_nat off)) \<Longrightarrow> saved p g L m x = m x"
proof (induction L arbitrary: m)
  case (Cons y L)
  then show ?case by (cases y) (auto simp: saved_def store64_outside)
qed (simp add: saved_def)

lemma run_saves:
  "mapped_at tr (hcsr h Satp) (gpr h b) p n \<Longrightarrow> \<forall>(r, off)\<in>set L. off < n
   \<Longrightarrow> fold (exec_instr tr glob) (map (\<lambda>(r, off). Sd r off b) L) h = h\<lparr>hmem := saved p (gpr h) L (hmem h)\<rparr>"
proof (induction L arbitrary: h)
  case (Cons x L)
  then show ?case by (cases x) (simp add: saved_def addr_of_def mapped_atD)
qed (simp add: saved_def)

lemma run_loads:
  "mapped_at tr (hcsr h Satp) (gpr h b) p n \<Longrightarrow> \<forall>(r, off)\<in>set L. off < n \<Longrightarrow> slots L
   \<Longrightarrow> \<forall>off. (b, off) \<in> set L \<longrightarrow> load64 (hmem h) (p + of_nat off) = gpr h b
   \<Longrightarrow> fold (exec_instr tr glob) (map (\<lambda>(r, off). Ld r off b) L) h = h\<lparr>gpr := loaded p (hmem h) L (gpr h)\<rparr>"
proof (induction L arbitrary: h)
  case Nil
  then show ?case by (simp add: loaded_def)
next
  case (Cons x L)
  obtain r a where x: "x = (r, a)" by (cases x)
  let ?h = "h\<lparr>gpr := (gpr h)(r := load64 (hmem h) (p + of_nat a))\<rparr>"
  have b: "gpr ?h b = gpr h b" using Cons.prems(4) by (auto simp: x)
  have "fold (exec_instr tr glob) (map (\<lambda>(r, off). Ld r off b) L) ?h = ?h\<lparr>gpr := loaded p (hmem ?h) L (gpr ?h)\<rparr>"
    using Cons.prems b by (intro Cons.IH) (auto simp: slots_def)
  moreover have "exec_instr tr glob (Ld r a b) h = ?h"
    using Cons.prems by (simp add: addr_of_def mapped_atD slots_def x)
  moreover have "loaded p (hmem h) L (gpr ?h) = loaded p (hmem h) (x # L) (gpr h)"
  proof -
    have "map_of L r = None" using Cons.prems(3) by (auto simp: slots_def x map_of_eq_None_iff)
    then show ?thesis by (auto simp: loaded_def x fun_eq_iff split: option.split)
  qed
  ultimately show ?case by (simp add: x)
qed

section \<open>Traps from user space\<close>

text \<open>The field of the trap frame for a register, and the registers \<^verbatim>\<open>uservec\<close> stores before \<^verbatim>\<open>a0\<close>.\<close>

definition reg_field :: "reg \<Rightarrow> tfield" where
  "reg_field r = (case r of
     Ra \<Rightarrow> Tf_ra | Sp \<Rightarrow> Tf_sp | Gp \<Rightarrow> Tf_gp | Tp \<Rightarrow> Tf_tp |
     T0 \<Rightarrow> Tf_t0 | T1 \<Rightarrow> Tf_t1 | T2 \<Rightarrow> Tf_t2 | S0 \<Rightarrow> Tf_s0 |
     S1 \<Rightarrow> Tf_s1 | A0 \<Rightarrow> Tf_a0 | A1 \<Rightarrow> Tf_a1 | A2 \<Rightarrow> Tf_a2 |
     A3 \<Rightarrow> Tf_a3 | A4 \<Rightarrow> Tf_a4 | A5 \<Rightarrow> Tf_a5 | A6 \<Rightarrow> Tf_a6 |
     A7 \<Rightarrow> Tf_a7 | S2 \<Rightarrow> Tf_s2 | S3 \<Rightarrow> Tf_s3 | S4 \<Rightarrow> Tf_s4 |
     S5 \<Rightarrow> Tf_s5 | S6 \<Rightarrow> Tf_s6 | S7 \<Rightarrow> Tf_s7 | S8 \<Rightarrow> Tf_s8 |
     S9 \<Rightarrow> Tf_s9 | S10 \<Rightarrow> Tf_s10 | S11 \<Rightarrow> Tf_s11 |
     T3 \<Rightarrow> Tf_t3 | T4 \<Rightarrow> Tf_t4 | T5 \<Rightarrow> Tf_t5 | T6 \<Rightarrow> Tf_t6)"

definition user_slots :: "(reg \<times> nat) list" where
  "user_slots = [
     (Ra, 40), (Sp, 48), (Gp, 56), (Tp, 64), (T0, 72), (T1, 80), (T2, 88), (S0, 96), (S1, 104), (A1, 120),
     (A2, 128), (A3, 136), (A4, 144), (A5, 152), (A6, 160), (A7, 168), (S2, 176), (S3, 184), (S4, 192),
     (S5, 200), (S6, 208), (S7, 216), (S8, 224), (S9, 232), (S10, 240), (S11, 248), (T3, 256), (T4, 264),
     (T5, 272), (T6, 280)]"

lemma slots_user: "slots user_slots" "slots (user_slots @ [(A0, 112)])"
  unfolding slots_def user_slots_def by simp_all

lemma user_slots_A0: "A0 \<notin> fst ` set user_slots"
  by (simp add: user_slots_def)

lemma user_slot: "(r, unat (tf_off (reg_field r))) \<in> set (user_slots @ [(A0, 112)])"
  by (cases r) (simp_all add: user_slots_def reg_field_def tf_off_def)

lemma map_of_user_slots:
  "map_of user_slots r = (if r = A0 then None else Some (unat (tf_off (reg_field r))))"
  by (cases r) (simp_all add: user_slots_def reg_field_def tf_off_def)

lemma uservec_eq:
  "uservec = Csrrw A0 Sscratch A0 # map (\<lambda>(r, off). Sd r off A0) user_slots
     @ [Csrr T0 Sscratch, Sd T0 112 A0, Ld Sp 8 A0, Ld Tp 32 A0, Ld T0 16 A0, Ld T1 0 A0, Csrw Satp T1, Sfence, Jr T0]"
  by (simp add: uservec_def user_slots_def)

lemma userret_eq:
  "userret = [Csrw Satp A1, Sfence, Ld T0 112 A0, Csrw Sscratch T0] @ map (\<lambda>(r, off). Ld r off A0) user_slots
     @ [Csrrw A0 Sscratch A0, Sret]"
  by (simp add: userret_def user_slots_def)

lemma tf_slot: "8 dvd unat (tf_off f)" "unat (tf_off f) < 288" "p + of_nat (unat (tf_off f)) = p + tf_off f"
  by (cases f; simp add: tf_off_def)+

lemma run_uservec:
  assumes "mapped_at tr us TRAPFRAME p 288" and "hcsr h Sscratch = TRAPFRAME" and "hcsr h Satp = us"
    and k: "k = run tr glob uservec h"
  shows "hmem k = saved p (gpr h) (user_slots @ [(A0, 112)]) (hmem h)"
    and "gpr k Sp = load64 (hmem k) (p + 8)" and "gpr k Tp = load64 (hmem k) (p + 32)"
    and "npc k = load64 (hmem k) (p + 16)" and "hcsr k Satp = load64 (hmem k) (p + 0)"
proof -
  let ?h1 = "exec_instr tr glob (Csrrw A0 Sscratch A0) h"
  have pg: "mapped_at tr (hcsr ?h1 Satp) (gpr ?h1 A0) p 288" using assms by simp
  have off: "\<forall>(r, off)\<in>set user_slots. off < 288" by (simp add: user_slots_def)
  have "gpr ?h1 = (gpr h)(A0 := TRAPFRAME)" using assms by simp
  then have s: "fold (exec_instr tr glob) (map (\<lambda>(r, off). Sd r off A0) user_slots) ?h1
      = ?h1\<lparr>hmem := saved p ((gpr h)(A0 := TRAPFRAME)) user_slots (hmem h)\<rparr>"
    using run_saves[OF pg off, of glob] by (simp only:) simp
  have g: "saved p ((gpr h)(A0 := TRAPFRAME)) user_slots m = saved p (gpr h) user_slots m" for m
    unfolding saved_def by (rule fold_cong) (use user_slots_A0 in \<open>force\<close>)+
  have a: "tr us (TRAPFRAME + of_nat off) = p + of_nat off" if "off < 288" for off
    by (rule mapped_atD[OF assms(1) that])
  have a': "tr us (TRAPFRAME + 112) = p + 112" "tr us (TRAPFRAME + 8) = p + 8" "tr us (TRAPFRAME + 32) = p + 32"
      "tr us (TRAPFRAME + 16) = p + 16" "tr us TRAPFRAME = p"
    using a[of 112] a[of 8] a[of 32] a[of 16] a[of 0] by simp_all
  show "hmem k = saved p (gpr h) (user_slots @ [(A0, 112)]) (hmem h)"
    and "gpr k Sp = load64 (hmem k) (p + 8)" and "gpr k Tp = load64 (hmem k) (p + 32)"
    and "npc k = load64 (hmem k) (p + 16)" and "hcsr k Satp = load64 (hmem k) (p + 0)"
    unfolding k run_def uservec_eq fold.simps fold_append comp_def s g
    by (simp_all add: assms(2,3) addr_of_def a') (simp add: saved_def)
qed

lemma run_userret:
  assumes "mapped_at tr us TRAPFRAME p 288" and "gpr h A0 = TRAPFRAME" and "gpr h A1 = us"
    and u: "u = run tr glob userret h"
  shows "gpr u r = load64 (hmem h) (p + tf_off (reg_field r))" and "hcsr u Satp = us"
    and "hcsr u Sscratch = TRAPFRAME" and "npc u = hcsr h Sepc" and "hmem u = hmem h"
proof -
  let ?h1 = "fold (exec_instr tr glob) [Csrw Satp A1, Sfence, Ld T0 112 A0, Csrw Sscratch T0] h"
  have "tr us (TRAPFRAME + of_nat 112) = p + of_nat 112" by (rule mapped_atD[OF assms(1)]) simp
  then have h1: "gpr ?h1 A0 = TRAPFRAME" "hcsr ?h1 Satp = us" "hmem ?h1 = hmem h" "hcsr ?h1 Sepc = hcsr h Sepc"
      "hcsr ?h1 Sscratch = load64 (hmem h) (p + 112)"
    using assms by (simp_all add: addr_of_def)
  have l: "fold (exec_instr tr glob) (map (\<lambda>(r, off). Ld r off A0) user_slots) ?h1
      = ?h1\<lparr>gpr := loaded p (hmem ?h1) user_slots (gpr ?h1)\<rparr>"
    by (rule run_loads[where n = 288]) (use assms(1) h1 slots_user(1) user_slots_A0 in \<open>force simp: user_slots_def\<close>)+
  have u': "u = fold (exec_instr tr glob) [Csrrw A0 Sscratch A0, Sret]
      (?h1\<lparr>gpr := loaded p (hmem ?h1) user_slots (gpr ?h1)\<rparr>)"
    unfolding u run_def userret_eq fold_append comp_def l ..
  define h1 where "h1 = ?h1"
  have A0: "loaded p (hmem h) user_slots (gpr h1) A0 = TRAPFRAME"
    using h1(1) unfolding h1_def by (simp add: loaded_def map_of_user_slots)
  show "hcsr u Satp = us" "hcsr u Sscratch = TRAPFRAME" "npc u = hcsr h Sepc" "hmem u = hmem h"
    using h1 A0 unfolding u' h1_def[symmetric] by simp_all
  show "gpr u r = load64 (hmem h) (p + tf_off (reg_field r))"
  proof (cases "r = A0")
    case True
    then show ?thesis using h1(5) unfolding u' h1_def[symmetric] by (simp add: reg_field_def tf_off_def)
  next
    case False
    then have "loaded p (hmem h) user_slots (gpr h1) r = load64 (hmem h) (p + tf_off (reg_field r))"
      unfolding loaded_def map_of_user_slots by (simp add: tf_slot)
    then show ?thesis using False h1(3) unfolding u' h1_def[symmetric] by simp
  qed
qed

lemma saved_user_outside:
  "unat (x - p) < 40 \<or> 288 \<le> unat (x - p) \<Longrightarrow> saved p g (user_slots @ [(A0, 112)]) m x = m x"
proof (rule saved_outside, clarify)
  fix r off assume x: "unat (x - p) < 40 \<or> 288 \<le> unat (x - p)" and "(r, off) \<in> set (user_slots @ [(A0, 112)])"
  then have off: "40 \<le> off" "off \<le> 280" by (auto simp: user_slots_def)
  then have u: "unat (of_nat off :: u64) = off" by (intro unat_of_nat_u64) simp
  have "x - (p + of_nat off) = (x - p) - of_nat off" by simp
  then have "unat (x - (p + of_nat off)) = (if off \<le> unat (x - p) then unat (x - p) - off else unat (x - p) + 2 ^ 64 - off)"
    by (simp only: unat_sub_if' u) simp
  then show "8 \<le> unat (x - (p + of_nat off))" using x off by auto
qed

text \<open>
  C6. A trap from user space loses no register, and the way back restores them all. When a process traps, \<^verbatim>\<open>uservec\<close>
  leaves each of its 31 registers in the trap frame field that has the register's name, writes nothing else, and
  enters the kernel with the stack, the hart number, the page table and the address of \<^verbatim>\<open>usertrap\<close> that
  \<^verbatim>\<open>usertrapret\<close> left in the frame. Whatever the kernel then does, \<^verbatim>\<open>userret\<close> gives every register the value of its
  field, so that a process sees exactly the changes the kernel made in the frame, and leaves \<^verbatim>\<open>sscratch\<close> ready for
  the next trap. \<open>mapped_at\<close> says that the user page table maps the
  trap frame.
\<close>

theorem user_trap_registers:
  assumes "mapped_at tr us TRAPFRAME p 288" and "hcsr h Sscratch = TRAPFRAME" and "hcsr h Satp = us"
    and k: "k = run tr glob uservec h"
  shows "(\<forall>r. load64 (hmem k) (p + tf_off (reg_field r)) = gpr h r)
    \<and> (\<forall>x. unat (x - p) < 40 \<or> 288 \<le> unat (x - p) \<longrightarrow> hmem k x = hmem h x)
    \<and> gpr k Sp = load64 (hmem h) (p + tf_off Kernel_sp) \<and> gpr k Tp = load64 (hmem h) (p + tf_off Kernel_hartid)
    \<and> npc k = load64 (hmem h) (p + tf_off Kernel_trap) \<and> hcsr k Satp = load64 (hmem h) (p + tf_off Kernel_satp)
    \<and> (\<forall>k' u. gpr k' A0 = TRAPFRAME \<and> gpr k' A1 = us \<and> u = run tr glob userret k' \<longrightarrow>
         (\<forall>r. gpr u r = load64 (hmem k') (p + tf_off (reg_field r))) \<and> hcsr u Satp = us
         \<and> hcsr u Sscratch = TRAPFRAME \<and> npc u = hcsr k' Sepc \<and> hmem u = hmem k')"
proof -
  note m = run_uservec[OF assms]
  have regs: "load64 (hmem k) (p + tf_off (reg_field r)) = gpr h r" for r
    using load_saved[OF slots_user(2) user_slot, of p "gpr h" "hmem h" r] unfolding m(1) by (simp only: tf_slot)
  have out: "hmem k x = hmem h x" if "unat (x - p) < 40 \<or> 288 \<le> unat (x - p)" for x
    unfolding m(1) using that by (rule saved_user_outside)
  have low: "load64 (hmem k) (p + of_nat off) = load64 (hmem h) (p + of_nat off)" if "off \<le> 32" for off
  proof (rule load64_cong)
    fix i :: nat assume "i < 8"
    then have "unat (of_nat (off + i) :: u64) = off + i" using that by (intro unat_of_nat_u64) simp
    moreover have "p + of_nat off + of_nat i - p = (of_nat (off + i) :: u64)" by simp
    ultimately show "hmem k (p + of_nat off + of_nat i) = hmem h (p + of_nat off + of_nat i)"
      using \<open>i < 8\<close> that by (intro out) (simp only:, linarith)
  qed
  have k1: "gpr k Sp = load64 (hmem h) (p + tf_off Kernel_sp)" using low[of 8] m(2) by (simp add: tf_off_def)
  have k2: "gpr k Tp = load64 (hmem h) (p + tf_off Kernel_hartid)" using low[of 32] m(3) by (simp add: tf_off_def)
  have k3: "npc k = load64 (hmem h) (p + tf_off Kernel_trap)" using low[of 16] m(4) by (simp add: tf_off_def)
  have k4: "hcsr k Satp = load64 (hmem h) (p + tf_off Kernel_satp)" using low[of 0] m(5) by (simp add: tf_off_def)
  have rest: "(\<forall>r. gpr u r = load64 (hmem k') (p + tf_off (reg_field r))) \<and> hcsr u Satp = us
         \<and> hcsr u Sscratch = TRAPFRAME \<and> npc u = hcsr k' Sepc \<and> hmem u = hmem k'"
    if "gpr k' A0 = TRAPFRAME \<and> gpr k' A1 = us \<and> u = run tr glob userret k'" for k' u
    using run_userret[OF assms(1), of k' u glob] that by simp
  show ?thesis
    by (intro conjI; (intro allI impI)?) (rule regs, erule out, rule k1, rule k2, rule k3, rule k4, erule rest)
qed

theorem user_trap_registers_witness:
  "\<exists>tr us p h k. mapped_at tr us TRAPFRAME p 288 \<and> hcsr h Sscratch = TRAPFRAME \<and> hcsr h Satp = us
     \<and> k = run tr (\<lambda>_. 0) uservec h \<and> gpr h S5 = 77 \<and> load64 (hmem k) (p + tf_off (reg_field S5)) = 77"
proof -
  define tr :: translation where "tr = (\<lambda>_ va. va - TRAPFRAME + 0x80001000)"
  define h :: hart where "h = \<lparr>gpr = (\<lambda>r. if r = S5 then 77 else 0), hcsr = (\<lambda>c. if c = Sscratch then TRAPFRAME else 5), npc = 0, hmem = (\<lambda>_. 0)\<rparr>"
  have "mapped_at tr 5 TRAPFRAME 0x80001000 288" "hcsr h Sscratch = TRAPFRAME" "hcsr h Satp = 5" "gpr h S5 = 77"
    by (simp_all add: mapped_at_def tr_def h_def)
  moreover from user_trap_registers[OF this(1-3) refl, of "\<lambda>_. 0"] this(4)
  have "load64 (hmem (run tr (\<lambda>_. 0) uservec h)) (0x80001000 + tf_off (reg_field S5)) = 77" by simp
  ultimately show ?thesis by blast
qed

section \<open>Context switches\<close>

definition ctx_slots :: "(reg \<times> nat) list" where
  "ctx_slots = [
     (Ra, 0), (Sp, 8), (S0, 16), (S1, 24), (S2, 32), (S3, 40), (S4, 48), (S5, 56), (S6, 64), (S7, 72),
     (S8, 80), (S9, 88), (S10, 96), (S11, 104)]"

definition ctx_of :: "(reg \<Rightarrow> u64) \<Rightarrow> kcontext" where
  "ctx_of g = \<lparr>ctx_ra = g Ra, ctx_sp = g Sp, ctx_s = map g [S0, S1, S2, S3, S4, S5, S6, S7, S8, S9, S10, S11]\<rparr>"

text \<open>The structure in memory at an address.\<close>

definition ctx_at :: "mem \<Rightarrow> u64 \<Rightarrow> kcontext" where
  "ctx_at m a = \<lparr>ctx_ra = load64 m a, ctx_sp = load64 m (a + 8), ctx_s = map (\<lambda>i. load64 m (a + 16 + 8 * of_nat i)) [0..<12]\<rparr>"

lemma swtch_eq:
  "swtch = map (\<lambda>(r, off). Sd r off A0) ctx_slots @ map (\<lambda>(r, off). Ld r off A1) ctx_slots @ [Ret]"
  by (simp add: swtch_def ctx_slots_def)

lemma slots_ctx: "slots ctx_slots"
  unfolding slots_def ctx_slots_def by simp

lemma ctx_at_slots: "\<forall>(r, off)\<in>set ctx_slots. load64 m (a + of_nat off) = g r \<Longrightarrow> ctx_at m a = ctx_of g"
  by (simp add: ctx_at_def ctx_of_def ctx_slots_def upt_rec add.assoc)

lemma ctx_of_loaded: "ctx_of (loaded a m ctx_slots g) = ctx_at m a"
  by (simp add: ctx_at_def ctx_of_def ctx_slots_def loaded_def upt_rec add.assoc)

text \<open>A region of \<open>n\<close> bytes at \<open>p\<close> holds every slot of \<open>L\<close>.\<close>

lemma saved_region:
  assumes "\<forall>(r, off)\<in>set L. off + 8 \<le> n" and "n \<le> unat (x - p)"
  shows "saved p g L m x = m x"
proof (rule saved_outside, clarify)
  fix r off assume "(r, off) \<in> set L"
  then have off: "off + 8 \<le> n" using assms(1) by auto
  have "unat (x - p) < 2 ^ 64" using unat_lt_u64[of "x - p"] by simp
  then have "off < 2 ^ 64" using off assms(2) by simp
  then have u: "unat (of_nat off :: u64) = off" by (intro unat_of_nat_u64) simp
  have "x - (p + of_nat off) = (x - p) - of_nat off" by simp
  then have "unat (x - (p + of_nat off)) = (if off \<le> unat (x - p) then unat (x - p) - off else unat (x - p) + 2 ^ 64 - off)"
    by (simp only: unat_sub_if' u) simp
  then show "8 \<le> unat (x - (p + of_nat off))" using assms(2) off by auto
qed

text \<open>
  C25. A context switch saves the callee-saved registers of the caller in \<^verbatim>\<open>old\<close> and loads those of \<^verbatim>\<open>new\<close>, for contexts
  that do not overlap. The structure at \<^verbatim>\<open>old\<close> becomes exactly the caller's registers, the registers become exactly
  the structure at \<^verbatim>\<open>new\<close>, and execution goes on at its return address; no other register, control register or
  memory changes. So switching to a context that \<^verbatim>\<open>swtch\<close> saved resumes its thread with the registers it had.
\<close>

theorem swtch_exchanges_contexts:
  assumes "mapped_at tr (hcsr h Satp) (gpr h A0) old 112" and "mapped_at tr (hcsr h Satp) (gpr h A1) new 112"
    and apart: "\<forall>i<112. 112 \<le> unat (new + of_nat i - old)"
    and k: "k = run tr glob swtch h"
  shows "ctx_at (hmem k) old = ctx_of (gpr h) \<and> ctx_of (gpr k) = ctx_at (hmem h) new
    \<and> npc k = ctx_ra (ctx_at (hmem h) new) \<and> hcsr k = hcsr h
    \<and> (\<forall>r. r \<notin> fst ` set ctx_slots \<longrightarrow> gpr k r = gpr h r)
    \<and> (\<forall>x. 112 \<le> unat (x - old) \<longrightarrow> hmem k x = hmem h x)"
proof -
  have off: "\<forall>(r, off)\<in>set ctx_slots. off < 112" "\<forall>(r, off)\<in>set ctx_slots. off + 8 \<le> 112" by (simp_all add: ctx_slots_def)
  define m where "m = saved old (gpr h) ctx_slots (hmem h)"
  have same: "m x = hmem h x" if "112 \<le> unat (x - old)" for x
    unfolding m_def by (rule saved_region[OF off(2) that])
  have new: "load64 m (new + of_nat o') = load64 (hmem h) (new + of_nat o')" if "(r, o') \<in> set ctx_slots" for r o'
  proof (rule load64_cong)
    fix i :: nat assume "i < 8"
    then have "o' + i < 112" using that off(2) by fastforce
    then show "m (new + of_nat o' + of_nat i) = hmem h (new + of_nat o' + of_nat i)"
      using apart by (intro same) (metis add.assoc of_nat_add)
  qed
  have l: "loaded new m ctx_slots g = loaded new (hmem h) ctx_slots g" for g
    unfolding loaded_def fun_eq_iff using new by (auto split: option.split dest: map_of_SomeD)
  have s: "fold (exec_instr tr glob) (map (\<lambda>(r, off). Sd r off A0) ctx_slots) h = h\<lparr>hmem := m\<rparr>"
    unfolding m_def by (rule run_saves[OF assms(1) off(1)])
  have "fold (exec_instr tr glob) (map (\<lambda>(r, off). Ld r off A1) ctx_slots) (h\<lparr>hmem := m\<rparr>)
      = (h\<lparr>hmem := m\<rparr>)\<lparr>gpr := loaded new (hmem (h\<lparr>hmem := m\<rparr>)) ctx_slots (gpr (h\<lparr>hmem := m\<rparr>))\<rparr>"
    by (rule run_loads[where n = 112]) (use assms(2) off slots_ctx in \<open>simp_all add: ctx_slots_def\<close>)
  then have k': "k = (h\<lparr>hmem := m, gpr := loaded new (hmem h) ctx_slots (gpr h), npc := loaded new (hmem h) ctx_slots (gpr h) Ra\<rparr>)"
    unfolding k run_def swtch_eq fold_append comp_def s by (simp add: l)
  have "ctx_at m old = ctx_of (gpr h)"
    unfolding m_def by (rule ctx_at_slots) (auto intro: load_saved[OF slots_ctx])
  moreover have "loaded new (hmem h) ctx_slots (gpr h) Ra = ctx_ra (ctx_at (hmem h) new)"
    by (simp add: loaded_def ctx_slots_def ctx_at_def)
  moreover have "loaded new (hmem h) ctx_slots (gpr h) r = gpr h r" if "r \<notin> fst ` set ctx_slots" for r
    using that by (simp add: loaded_def map_of_eq_None_iff[THEN iffD2])
  ultimately show ?thesis using same unfolding k' by (simp add: ctx_of_loaded)
qed

theorem swtch_exchanges_contexts_witness:
  "\<exists>h k. gpr h A0 = 0x80001000 \<and> gpr h A1 = 0x80002000 \<and> gpr h S3 = 33
     \<and> k = run (\<lambda>_ va. va) (\<lambda>_. 0) swtch h \<and> ctx_at (hmem k) 0x80001000 = ctx_of (gpr h) \<and> gpr k A0 = gpr h A0"
proof -
  define h :: hart where "h = \<lparr>gpr = (\<lambda>r. if r = A0 then 0x80001000 else if r = A1 then 0x80002000 else 33),
    hcsr = (\<lambda>_. 0), npc = 0, hmem = (\<lambda>_. 0)\<rparr>"
  have h: "gpr h A0 = 0x80001000" "gpr h A1 = 0x80002000" "gpr h S3 = 33" by (simp_all add: h_def)
  have "112 \<le> unat (0x80002000 + of_nat i - 0x80001000 :: u64)" if "i < 112" for i
  proof -
    have "0x80002000 + of_nat i - 0x80001000 = (of_nat (0x1000 + i) :: u64)" by simp
    then show ?thesis using that by (simp only: unat_of_nat_u64)
  qed
  then have "ctx_at (hmem (run (\<lambda>_ va. va) (\<lambda>_. 0) swtch h)) 0x80001000 = ctx_of (gpr h)
      \<and> gpr (run (\<lambda>_ va. va) (\<lambda>_. 0) swtch h) A0 = gpr h A0"
    using swtch_exchanges_contexts[of "\<lambda>_ va. va" h "0x80001000" "0x80002000" _ "\<lambda>_. 0", OF _ _ _ refl] h
    by (simp add: mapped_at_def ctx_slots_def)
  then show ?thesis using h by blast
qed

section \<open>Traps in the kernel\<close>

definition kernel_slots :: "(reg \<times> nat) list" where
  "kernel_slots = [
     (Ra, 0), (Sp, 8), (Gp, 16), (Tp, 24), (T0, 32), (T1, 40), (T2, 48), (S0, 56), (S1, 64), (A0, 72),
     (A1, 80), (A2, 88), (A3, 96), (A4, 104), (A5, 112), (A6, 120), (A7, 128), (S2, 136), (S3, 144),
     (S4, 152), (S5, 160), (S6, 168), (S7, 176), (S8, 184), (S9, 192), (S10, 200), (S11, 208), (T3, 216),
     (T4, 224), (T5, 232), (T6, 240)]"

definition restore_slots :: "(reg \<times> nat) list" where
  "restore_slots = [
     (Ra, 0), (Sp, 8), (Gp, 16), (T0, 32), (T1, 40), (T2, 48), (S0, 56), (S1, 64), (A0, 72), (A1, 80),
     (A2, 88), (A3, 96), (A4, 104), (A5, 112), (A6, 120), (A7, 128), (S2, 136), (S3, 144), (S4, 152),
     (S5, 160), (S6, 168), (S7, 176), (S8, 184), (S9, 192), (S10, 200), (S11, 208), (T3, 216), (T4, 224),
     (T5, 232), (T6, 240)]"

lemma kernelvec_save_eq:
  "kernelvec_save = Addi Sp Sp (-256) # map (\<lambda>(r, off). Sd r off Sp) kernel_slots @ [Call ''kerneltrap'']"
  by (simp add: kernelvec_save_def kernel_slots_def)

lemma kernelvec_restore_eq:
  "kernelvec_restore = map (\<lambda>(r, off). Ld r off Sp) restore_slots @ [Addi Sp Sp 256, Sret]"
  by (simp add: kernelvec_restore_def restore_slots_def)

lemma slots_kernel: "slots kernel_slots" "slots restore_slots"
  unfolding slots_def kernel_slots_def restore_slots_def by simp_all

lemma restore_slots_eq: "map_of restore_slots r = (if r = Tp then None else map_of kernel_slots r)"
  by (cases r) (simp_all add: restore_slots_def kernel_slots_def)

lemma kernel_slots_all: "\<exists>off. map_of kernel_slots r = Some off \<and> off + 8 \<le> 248"
  by (cases r) (simp_all add: kernel_slots_def)

text \<open>
  C23. A trap taken in the kernel is invisible to the code it interrupts. If \<^verbatim>\<open>kerneltrap\<close> returns with the stack
  pointer and the page table it was given and without having written to the frame that \<^verbatim>\<open>kernelvec\<close> made below the
  interrupted stack pointer, then \<^verbatim>\<open>kernelvec\<close> leaves every register as it was when the trap came in, except \<^verbatim>\<open>tp\<close>,
  which keeps the value it has after \<^verbatim>\<open>kerneltrap\<close>, since the process may have moved to another hart; execution goes
  on at \<^verbatim>\<open>sepc\<close>. Only the frame is written.
\<close>

theorem kernel_trap_transparent:
  assumes "mapped_at tr (hcsr h Satp) (gpr h Sp - 256) p 248"
    and k: "k = run tr glob kernelvec_save h"
    and "gpr k' Sp = gpr k Sp" and "hcsr k' Satp = hcsr k Satp"
    and keep: "\<forall>i<248. hmem k' (p + of_nat i) = hmem k (p + of_nat i)"
    and u: "u = run tr glob kernelvec_restore k'"
  shows "(\<forall>r. gpr u r = (if r = Tp then gpr k' Tp else gpr h r)) \<and> npc u = hcsr k' Sepc
    \<and> npc k = glob ''kerneltrap'' \<and> (\<forall>x. 248 \<le> unat (x - p) \<longrightarrow> hmem k x = hmem h x)"
proof -
  let ?g = "(gpr h)(Sp := gpr h Sp - 256)"
  have off: "\<forall>(r, off)\<in>set kernel_slots. off < 248" "\<forall>(r, off)\<in>set kernel_slots. off + 8 \<le> 248"
      "\<forall>(r, off)\<in>set restore_slots. off < 248" by (simp_all add: kernel_slots_def restore_slots_def)
  define m where "m = saved p ?g kernel_slots (hmem h)"
  have "fold (exec_instr tr glob) (map (\<lambda>(r, off). Sd r off Sp) kernel_slots) (h\<lparr>gpr := ?g\<rparr>)
      = h\<lparr>gpr := ?g, hmem := m\<rparr>"
    using run_saves[of tr "h\<lparr>gpr := ?g\<rparr>" Sp p 248 kernel_slots glob] assms(1) off(1) unfolding m_def by simp
  then have k1: "k = h\<lparr>gpr := ?g(Ra := glob (after_call ''kerneltrap'')), hmem := m, npc := glob ''kerneltrap''\<rparr>"
    unfolding k run_def kernelvec_save_eq by simp
  have slot: "load64 (hmem k') (p + of_nat off) = ?g r" if "map_of kernel_slots r = Some off" for r off
  proof -
    have "off + 8 \<le> 248" using kernel_slots_all[of r] that by simp
    then have "load64 (hmem k') (p + of_nat off) = load64 m (p + of_nat off)"
      using keep by (intro load64_cong) (simp add: k1 add.assoc flip: of_nat_add)
    then show ?thesis unfolding m_def using load_saved[OF slots_kernel(1) map_of_SomeD[OF that]] by simp
  qed
  have "map_of kernel_slots Sp = Some 8" by (simp add: kernel_slots_def)
  from slot[OF this] have sp: "load64 (hmem k') (p + of_nat 8) = gpr k' Sp" using assms(3) by (simp add: k1)
  have "\<forall>off. (Sp, off) \<in> set restore_slots \<longrightarrow> load64 (hmem k') (p + of_nat off) = gpr k' Sp"
    using sp by (simp add: restore_slots_def)
  moreover have "mapped_at tr (hcsr k' Satp) (gpr k' Sp) p 248" using assms(1,3,4) by (simp add: k1)
  ultimately have l: "fold (exec_instr tr glob) (map (\<lambda>(r, off). Ld r off Sp) restore_slots) k'
      = k'\<lparr>gpr := loaded p (hmem k') restore_slots (gpr k')\<rparr>"
    by (intro run_loads[where n = 248] off(3) slots_kernel(2))
  have g: "loaded p (hmem k') restore_slots (gpr k') r = (if r = Tp then gpr k' Tp else ?g r)" for r
    using kernel_slots_all[of r] slot[of r] by (auto simp: loaded_def restore_slots_eq)
  have "u = fold (exec_instr tr glob) [Addi Sp Sp 256, Sret] (k'\<lparr>gpr := loaded p (hmem k') restore_slots (gpr k')\<rparr>)"
    unfolding u run_def kernelvec_restore_eq fold_append comp_def l ..
  then have "gpr u r = (if r = Tp then gpr k' Tp else gpr h r)" "npc u = hcsr k' Sepc" for r
    by (simp_all add: g)
  moreover have "m x = hmem h x" if "248 \<le> unat (x - p)" for x
    unfolding m_def by (rule saved_region[OF off(2) that])
  ultimately show ?thesis by (simp add: k1)
qed

theorem kernel_trap_transparent_witness:
  "\<exists>h. gpr h Sp = 0x80003000 \<and> gpr h A4 = 44
     \<and> gpr (run (\<lambda>_ va. va) (\<lambda>_. 0) kernelvec_restore (run (\<lambda>_ va. va) (\<lambda>_. 0) kernelvec_save h)) A4 = 44"
proof -
  define h :: hart where "h = \<lparr>gpr = (\<lambda>r. if r = Sp then 0x80003000 else 44), hcsr = (\<lambda>_. 0), npc = 0, hmem = (\<lambda>_. 0)\<rparr>"
  let ?k = "run (\<lambda>_ va. va) (\<lambda>_. 0) kernelvec_save h"
  have "mapped_at (\<lambda>_ va. va) (hcsr h Satp) (gpr h Sp - 256) (gpr h Sp - 256) 248" by (simp add: mapped_at_def)
  from kernel_trap_transparent[OF this refl, of ?k "\<lambda>_. 0", OF refl refl _ refl]
  have "gpr (run (\<lambda>_ va. va) (\<lambda>_. 0) kernelvec_restore ?k) A4 = gpr h A4" by simp
  then show ?thesis by (intro exI[of _ h]) (simp add: h_def)
qed

section \<open>The timer\<close>

lemma raise_bit: "x AND NOT a OR a = x OR (a :: u64)"
  by (rule bit_word_eqI) (auto simp: bit_simps)

text \<open>
  C24. The timer interrupt of machine mode is invisible to the code it interrupts, in whatever mode that runs: every
  register is as before, the comparison register of the CLINT has moved on by the interval that \<^verbatim>\<open>timerinit\<close> stored in
  the scratch area, the supervisor software interrupt is pending besides what was pending before, and only the three words of the scratch area and
  the comparison register are written. The register may not lie in the save area.
\<close>

theorem timer_interrupt_transparent:
  assumes s: "hcsr h Mscratch = s" and c: "c = load64 (hmem h) (s + 32)"
    and apart: "\<forall>i<8. 24 \<le> unat (c + of_nat i - s)"
    and k: "k = run (\<lambda>_ va. va) glob timervec h"
  shows "gpr k = gpr h \<and> hcsr k = (hcsr h)(Sip := hcsr h Sip OR 2) \<and> npc k = hcsr h Mepc
    \<and> load64 (hmem k) c = load64 (hmem h) c + load64 (hmem h) (s + 40)
    \<and> (\<forall>x. 24 \<le> unat (x - s) \<and> 8 \<le> unat (x - c) \<longrightarrow> hmem k x = hmem h x)"
proof -
  let ?L = "[(A1, 0), (A2, 8), (A3, 16)] :: (reg \<times> nat) list"
  have L: "slots ?L" by (simp add: slots_def)
  define m where "m = saved s (gpr h) ?L (hmem h)"
  have m: "m = store64 (store64 (store64 (hmem h) s (gpr h A1)) (s + 8) (gpr h A2)) (s + 16) (gpr h A3)"
    by (simp add: m_def saved_def)
  have scr: "load64 m (s + 32) = c" "load64 m (s + 40) = load64 (hmem h) (s + 40)"
    using load_saved_other[OF L, of 32 s "gpr h" "hmem h"] load_saved_other[OF L, of 40 s "gpr h" "hmem h"]
    by (simp_all add: m_def c)
  have out: "m x = hmem h x" if "24 \<le> unat (x - s)" for x
    unfolding m_def by (rule saved_region[where n = 24, OF _ that]) simp
  then have cmp: "load64 m c = load64 (hmem h) c" using apart by (intro load64_cong) simp
  let ?v = "load64 (hmem h) c + load64 (hmem h) (s + 40)"
  have sv: "load64 (store64 m c ?v) (s + of_nat off) = load64 m (s + of_nat off)" if "off \<le> 16" for off
  proof (intro load64_cong store64_outside)
    fix i :: nat assume "i < 8"
    show "8 \<le> unat (s + of_nat off + of_nat i - c)"
    proof (rule ccontr)
      assume "\<not> 8 \<le> unat (s + of_nat off + of_nat i - c)"
      then have "24 \<le> unat (c + of_nat (unat (s + of_nat off + of_nat i - c)) - s)"
        by (intro apart[rule_format]) simp
      moreover have "c + of_nat (unat (s + of_nat off + of_nat i - c)) - s = (of_nat (off + i) :: u64)" by simp
      ultimately have "24 \<le> unat (of_nat (off + i) :: u64)" by (simp only:)
      then show False using that \<open>i < 8\<close> by (subst (asm) unat_of_nat_u64) simp_all
    qed
  qed
  have rest: "load64 (store64 m c ?v) (s + 16) = gpr h A3" "load64 (store64 m c ?v) (s + 8) = gpr h A2"
      "load64 (store64 m c ?v) s = gpr h A1"
    using sv[of 16] sv[of 8] sv[of 0] load_saved[OF L, of A3 16 s "gpr h" "hmem h"]
      load_saved[OF L, of A2 8 s "gpr h" "hmem h"] load_saved[OF L, of A1 0 s "gpr h" "hmem h"] by (simp_all add: m_def)
  have "k = h\<lparr>gpr := gpr h, hcsr := (hcsr h)(Sip := hcsr h Sip OR 2), npc := hcsr h Mepc, hmem := store64 m c ?v\<rparr>"
    unfolding k run_def timervec_def
    using raise_bit[of "hcsr h Sip" 2]
    by (simp add: addr_of_def s m[symmetric] scr cmp rest fun_upd_twist) (auto simp: fun_eq_iff s)
  then show ?thesis using out by (simp add: store64_outside)
qed

theorem timer_interrupt_transparent_witness:
  "\<exists>h k. k = run (\<lambda>_ va. va) (\<lambda>_. 0) timervec h \<and> hcsr h Mscratch = 0x80005000
     \<and> load64 (hmem h) 0x80005020 = 0x2004000 \<and> load64 (hmem h) 0x80005028 = 1000000
     \<and> load64 (hmem k) 0x2004000 = load64 (hmem h) 0x2004000 + 1000000"
proof -
  define m where "m = store64 (store64 (\<lambda>_. 0) 0x80005020 0x2004000) 0x80005028 1000000"
  define h :: hart where "h = \<lparr>gpr = (\<lambda>_. 0), hcsr = (\<lambda>c. if c = Mscratch then 0x80005000 else 0), npc = 0, hmem = m\<rparr>"
  have "load64 m 0x80005028 = 1000000" by (simp add: m_def)
  moreover have "load64 m 0x80005020 = 0x2004000"
    using load64_store64_slot[of "0x28" "0x20" _ "0x80005000"] by (simp add: m_def)
  moreover have "24 \<le> unat (0x2004000 + of_nat i - 0x80005000 :: u64)" if "i < 8" for i
  proof -
    have "0x2004000 + of_nat i - 0x80005000 = (of_nat (18446744071595618304 + i) :: u64)" by simp
    then show ?thesis using that by (simp only: unat_of_nat_u64)
  qed
  ultimately show ?thesis
    using timer_interrupt_transparent[of h "0x80005000" "0x2004000" _ "\<lambda>_. 0", OF _ _ _ refl]
    by - (rule exI[of _ h], rule exI[of _ "run (\<lambda>_ va. va) (\<lambda>_. 0) timervec h"], simp add: h_def)
qed

end
