(* ===== verification/KBuddy.thy ===== *)
theory KBuddy
  imports KList KSpin KPrintf
begin

text \<open>
  \<^verbatim>\<open>kernel/buddy.c\<close>: the buddy allocator. The state has the number of sizes, the base address, the free list of each size
  as a circular list of \<open>KList\<close>, and the two bit arrays of each size. A list node is a list head or a block, named by
  its address. The arrays and the heads live at the start of the memory the allocator manages and are separate objects
  here; \<^verbatim>\<open>bd_init\<close> computes how much of it they take. What \<^verbatim>\<open>bd_init\<close> prints is left out. A request above \<open>2 ^ 63\<close>
  bytes makes \<^verbatim>\<open>firstk\<close> run forever, which is the result \<open>None\<close>.
\<close>

unbundle bit_operations_syntax

section \<open>State\<close>

datatype bptr = Head nat | Blk u64

record kbuddy = kbase +
  nsizes :: nat
  bd_base :: u64
  bd_links :: "bptr links"
  bd_alloc :: "nat \<Rightarrow> u8 list"
  bd_split :: "nat \<Rightarrow> u8 list"

definition LEAF_SIZE :: nat where "LEAF_SIZE = 16"

definition BLK_SIZE :: "nat \<Rightarrow> nat" where
  "BLK_SIZE k = 2 ^ k * LEAF_SIZE"

definition MAXSIZE :: "'a kbuddy_scheme \<Rightarrow> nat" where
  "MAXSIZE s = nsizes s - 1"

definition NBLK :: "nat \<Rightarrow> 'a kbuddy_scheme \<Rightarrow> nat" where
  "NBLK k s = 2 ^ (MAXSIZE s - k)"

definition ROUNDUP :: "nat \<Rightarrow> nat \<Rightarrow> nat" where
  "ROUNDUP n sz = ((n - 1) div sz + 1) * sz"

section \<open>Bit arrays\<close>

definition bit_isset :: "u8 list \<Rightarrow> nat \<Rightarrow> bool" where
  "bit_isset array index = (let b = array ! (index div 8); m = push_bit (index mod 8) 1 in b AND m = m)"

definition bit_set :: "u8 list \<Rightarrow> nat \<Rightarrow> u8 list" where
  "bit_set array index = array[index div 8 := array ! (index div 8) OR push_bit (index mod 8) 1]"

definition bit_clear :: "u8 list \<Rightarrow> nat \<Rightarrow> u8 list" where
  "bit_clear array index = array[index div 8 := array ! (index div 8) AND NOT (push_bit (index mod 8) 1)]"

text \<open>The ranges that \<^verbatim>\<open>bd_print_vector\<close> prints.\<close>

fun bd_ranges :: "nat list \<Rightarrow> (nat \<Rightarrow> bool) \<Rightarrow> nat \<Rightarrow> bool \<Rightarrow> nat \<Rightarrow> (nat \<times> nat) list" where
  "bd_ranges [] v lb on len = (if lb = 0 \<or> on then [(lb, len)] else [])"
| "bd_ranges (b # bs) v lb on len =
     (if on = v b then bd_ranges bs v lb on len
      else (if on then [(lb, b)] else []) @ bd_ranges bs v b (v b) len)"

definition bd_print_vector :: "u8 list \<Rightarrow> nat \<Rightarrow> u8 list" where
  "bd_print_vector vector len =
     concat (map (\<lambda>(a, b). the (printf_bytes (cbytes '' [%d, %d)'') [PInt (of_nat a), PInt (of_nat b)]))
       (bd_ranges [0..<len] (bit_isset vector) 0 True len)) @ [10]"

section \<open>Sizes and addresses\<close>

partial_function (option) firstk_loop :: "u64 \<Rightarrow> u64 \<Rightarrow> nat \<Rightarrow> nat option" where
  "firstk_loop n sz k = (if sz < n then firstk_loop n (sz * 2) (Suc k) else Some k)"

definition firstk :: "u64 \<Rightarrow> nat option" where
  "firstk n = firstk_loop n (of_nat LEAF_SIZE) 0"

text \<open>
  The offset of an address is an \<^verbatim>\<open>int\<close>: it is cut to 32 bits. Addresses are never below the base.
\<close>

definition bd_off :: "u64 \<Rightarrow> 'a kbuddy_scheme \<Rightarrow> nat" where
  "bd_off p s = nat (sint (ucast (p - bd_base s) :: u32))"

definition blk_index :: "nat \<Rightarrow> u64 \<Rightarrow> 'a kbuddy_scheme \<Rightarrow> nat" where
  "blk_index k p s = bd_off p s div BLK_SIZE k"

definition addr :: "nat \<Rightarrow> nat \<Rightarrow> 'a kbuddy_scheme \<Rightarrow> u64" where
  "addr k bi s = bd_base s + scast (of_nat (bi * BLK_SIZE k) :: u32)"

definition upd_alloc :: "nat \<Rightarrow> (u8 list \<Rightarrow> u8 list) \<Rightarrow> 'a kbuddy_scheme \<Rightarrow> 'a kbuddy_scheme" where
  "upd_alloc k f s = s\<lparr>bd_alloc := (bd_alloc s)(k := f (bd_alloc s k))\<rparr>"

definition upd_split :: "nat \<Rightarrow> (u8 list \<Rightarrow> u8 list) \<Rightarrow> 'a kbuddy_scheme \<Rightarrow> 'a kbuddy_scheme" where
  "upd_split k f s = s\<lparr>bd_split := (bd_split s)(k := f (bd_split s k))\<rparr>"

definition upd_links :: "(bptr links \<Rightarrow> bptr links) \<Rightarrow> 'a kbuddy_scheme \<Rightarrow> 'a kbuddy_scheme" where
  "upd_links f s = s\<lparr>bd_links := f (bd_links s)\<rparr>"

section \<open>Allocation\<close>

text \<open>The splitting loop, from size \<open>k\<close> down to \<open>fk\<close>.\<close>

fun split_loop :: "nat \<Rightarrow> nat \<Rightarrow> u64 \<Rightarrow> 'a kbuddy_scheme \<Rightarrow> 'a kbuddy_scheme" where
  "split_loop fk 0 p s = s"
| "split_loop fk (Suc k) p s =
     (if Suc k > fk then
        let q = p + of_nat (BLK_SIZE k);
            s = upd_split (Suc k) (\<lambda>a. bit_set a (blk_index (Suc k) p s)) s;
            s = upd_alloc k (\<lambda>a. bit_set a (blk_index k p s)) s;
            s = upd_links (lst_push (Head k) (Blk q)) s
        in split_loop fk k p s
      else s)"

definition blk_addr :: "bptr \<Rightarrow> u64" where
  "blk_addr p = (case p of Blk a \<Rightarrow> a | Head k \<Rightarrow> 0)"

definition bd_malloc :: "u64 \<Rightarrow> 'a kbuddy_scheme \<Rightarrow> (u64 \<times> 'a kbuddy_scheme) outcome option" where
  "bd_malloc nbytes s =
     map_option (\<lambda>fk.
       obind (acquire_lk LkBuddy s) (\<lambda>s.
       case find (\<lambda>k. \<not> lst_empty (Head k) (bd_links s)) [fk..<nsizes s] of
         None \<Rightarrow> obind (release_lk LkBuddy s) (\<lambda>s. Ok (0, s))
       | Some k \<Rightarrow>
           obind (lst_pop (Head k) (bd_links s)) (\<lambda>(e, l).
           let p = blk_addr e;
               s = s\<lparr>bd_links := l\<rparr>;
               s = upd_alloc k (\<lambda>a. bit_set a (blk_index k p s)) s;
               s = split_loop fk k p s
           in obind (release_lk LkBuddy s) (\<lambda>s. Ok (p, s))))) (firstk nbytes)"

text \<open>\<^verbatim>\<open>size\<close>; its last round reads the array one past the last size.\<close>

definition bd_size :: "u64 \<Rightarrow> 'a kbuddy_scheme \<Rightarrow> nat" where
  "bd_size p s =
     (case find (\<lambda>k. bit_isset (bd_split s (Suc k)) (blk_index (Suc k) p s)) [0..<nsizes s] of
        Some k \<Rightarrow> k | None \<Rightarrow> 0)"

definition buddy_of :: "nat \<Rightarrow> nat" where
  "buddy_of bi = (if bi mod 2 = 0 then bi + 1 else bi - 1)"

text \<open>The loop of \<^verbatim>\<open>bd_free\<close> up to size \<open>K\<close>: the size and the block it stops with.\<close>

function free_loop :: "nat \<Rightarrow> nat \<Rightarrow> u64 \<Rightarrow> 'a kbuddy_scheme \<Rightarrow> nat \<times> u64 \<times> 'a kbuddy_scheme" where
  "free_loop K k p s =
     (if k < K then
        let bi = blk_index k p s;
            buddy = buddy_of bi;
            s = upd_alloc k (\<lambda>a. bit_clear a bi) s
        in if bit_isset (bd_alloc s k) buddy then (k, p, s)
           else let q = addr k buddy s;
                    s = upd_links (lst_remove (Blk q)) s;
                    p = (if buddy mod 2 = 0 then q else p);
                    s = upd_split (Suc k) (\<lambda>a. bit_clear a (blk_index (Suc k) p s)) s
                in free_loop K (Suc k) p s
      else (k, p, s))"
  by pat_completeness auto

termination free_loop
  by (relation "measure (\<lambda>(K, k, _, _). K - k)") auto

declare free_loop.simps [simp del]

definition bd_free :: "u64 \<Rightarrow> 'a kbuddy_scheme \<Rightarrow> 'a kbuddy_scheme outcome" where
  "bd_free p s =
     obind (acquire_lk LkBuddy s) (\<lambda>s.
     case free_loop (MAXSIZE s) (bd_size p s) p s of (k, p, s) \<Rightarrow>
       release_lk LkBuddy (upd_links (lst_push (Head k) (Blk p)) s))"

section \<open>Initialisation\<close>

definition blk_index_next :: "nat \<Rightarrow> u64 \<Rightarrow> 'a kbuddy_scheme \<Rightarrow> nat" where
  "blk_index_next k p s =
     (let n = unat (p - bd_base s) in if n mod BLK_SIZE k \<noteq> 0 then n div BLK_SIZE k + 1 else n div BLK_SIZE k)"

fun log2 :: "nat \<Rightarrow> nat" where
  "log2 n = (if n > 1 then Suc (log2 (n div 2)) else 0)"

declare log2.simps [simp del]

definition mark_block :: "nat \<Rightarrow> nat \<Rightarrow> 'a kbuddy_scheme \<Rightarrow> 'a kbuddy_scheme" where
  "mark_block k bi s =
     (let s = (if k > 0 then upd_split k (\<lambda>a. bit_set a bi) s else s) in upd_alloc k (\<lambda>a. bit_set a bi) s)"

definition bd_mark :: "u64 \<Rightarrow> u64 \<Rightarrow> 'a kbuddy_scheme \<Rightarrow> 'a kbuddy_scheme outcome" where
  "bd_mark start stop s =
     (if unat start mod LEAF_SIZE \<noteq> 0 \<or> unat stop mod LEAF_SIZE \<noteq> 0 then Panic ''bd_mark''
      else Ok (fold (\<lambda>k s. fold (mark_block k) [blk_index k start s..<blk_index_next k stop s] s) [0..<nsizes s] s))"

definition bd_initfree_pair :: "nat \<Rightarrow> nat \<Rightarrow> 'a kbuddy_scheme \<Rightarrow> nat \<times> 'a kbuddy_scheme" where
  "bd_initfree_pair k bi s =
     (let buddy = buddy_of bi in
      if bit_isset (bd_alloc s k) bi \<noteq> bit_isset (bd_alloc s k) buddy then
        (BLK_SIZE k,
         if bit_isset (bd_alloc s k) bi then upd_links (lst_push (Head k) (Blk (addr k buddy s))) s
         else upd_links (lst_push (Head k) (Blk (addr k bi s))) s)
      else (0, s))"

fun bd_initfree_loop :: "nat list \<Rightarrow> u64 \<Rightarrow> u64 \<Rightarrow> nat \<Rightarrow> 'a kbuddy_scheme \<Rightarrow> nat \<times> 'a kbuddy_scheme" where
  "bd_initfree_loop [] bd_left bd_right free s = (free, s)"
| "bd_initfree_loop (k # ks) bd_left bd_right free s =
     (let left = blk_index_next k bd_left s; right = blk_index k bd_right s;
          (f, s) = bd_initfree_pair k left s
      in if right \<le> left then bd_initfree_loop ks bd_left bd_right (free + f) s
         else let (g, s) = bd_initfree_pair k right s in bd_initfree_loop ks bd_left bd_right (free + f + g) s)"

definition bd_initfree :: "u64 \<Rightarrow> u64 \<Rightarrow> 'a kbuddy_scheme \<Rightarrow> nat \<times> 'a kbuddy_scheme" where
  "bd_initfree bd_left bd_right s = bd_initfree_loop [0..<MAXSIZE s] bd_left bd_right 0 s"

definition bd_mark_data_structures :: "u64 \<Rightarrow> 'a kbuddy_scheme \<Rightarrow> (nat \<times> 'a kbuddy_scheme) outcome" where
  "bd_mark_data_structures p s = obind (bd_mark (bd_base s) p s) (\<lambda>t. Ok (unat (p - bd_base s), t))"

text \<open>The end is never above the end of the heap, so that the unavailable part is not negative.\<close>

definition bd_mark_unavailable :: "u64 \<Rightarrow> 'a kbuddy_scheme \<Rightarrow> (nat \<times> 'a kbuddy_scheme) outcome" where
  "bd_mark_unavailable bend s =
     (let heap = BLK_SIZE (MAXSIZE s);
          un = heap - unat (bend - bd_base s);
          un = (if un > 0 then ROUNDUP un LEAF_SIZE else un)
      in obind (bd_mark (bd_base s + of_nat (heap - un)) (bd_base s + of_nat heap) s) (\<lambda>t. Ok (un, t)))"

definition bd_sizes_for :: "nat \<Rightarrow> nat" where
  "bd_sizes_for len = (let n = log2 (len div LEAF_SIZE) + 1 in if len > BLK_SIZE (n - 1) then n + 1 else n)"

definition vec_bytes :: "nat \<Rightarrow> 'a kbuddy_scheme \<Rightarrow> nat" where
  "vec_bytes k s = ROUNDUP (NBLK k s) 8 div 8"

definition bd_init :: "u64 \<Rightarrow> u64 \<Rightarrow> 'a kbuddy_scheme \<Rightarrow> 'a kbuddy_scheme outcome" where
  "bd_init base bend s =
     (let p = of_nat (ROUNDUP (unat base) LEAF_SIZE);
          s = s\<lparr>bd_base := p, nsizes := bd_sizes_for (unat (bend - p))\<rparr>;
          p = p + of_nat (32 * nsizes s);
          s = fold (\<lambda>k. upd_links (lst_init (Head k))) [0..<nsizes s] s;
          s = s\<lparr>bd_alloc := (\<lambda>k. if k < nsizes s then replicate (vec_bytes k s) 0 else bd_alloc s k)\<rparr>;
          p = p + of_nat (sum_list (map (\<lambda>k. vec_bytes k s) [0..<nsizes s]));
          s = s\<lparr>bd_split := (\<lambda>k. if 0 < k \<and> k < nsizes s then replicate (vec_bytes k s) 0 else bd_split s k)\<rparr>;
          p = p + of_nat (sum_list (map (\<lambda>k. vec_bytes k s) [1..<nsizes s]));
          p = of_nat (ROUNDUP (unat p) LEAF_SIZE)
      in obind (bd_mark_data_structures p s) (\<lambda>(meta, s).
         obind (bd_mark_unavailable bend s) (\<lambda>(unavailable, s).
         let bd_end = bd_base s + of_nat (BLK_SIZE (MAXSIZE s) - unavailable);
             (free, s) = bd_initfree p bd_end s
         in if free \<noteq> BLK_SIZE (MAXSIZE s) - meta - unavailable then Panic ''bd_init: free mem'' else Ok s)))"

section \<open>Bits and addresses\<close>

lemma bit_isset_bit: "bit_isset a index \<longleftrightarrow> bit (a ! (index div 8)) (index mod 8)"
proof -
  have "(b AND push_bit n 1 = push_bit n 1) = bit b n" if "n < 8" for b :: u8 and n
    using that by (auto simp: bit_eq_iff[where 'a = u8] bit_simps)
  then show ?thesis by (simp add: bit_isset_def Let_def)
qed

lemma same_bit: "i div 8 = j div 8 \<and> i mod 8 = j mod 8 \<longleftrightarrow> i = (j :: nat)"
  by (metis div_mod_decomp)

lemma bit_isset_set: "i div 8 < length a \<Longrightarrow> bit_isset (bit_set a i) j \<longleftrightarrow> j = i \<or> bit_isset a j"
  using same_bit[of i j] by (cases "i div 8 = j div 8") (auto simp: bit_isset_bit bit_set_def bit_simps)

lemma bit_isset_clear: "i div 8 < length a \<Longrightarrow> bit_isset (bit_clear a i) j \<longleftrightarrow> j \<noteq> i \<and> bit_isset a j"
  using same_bit[of i j] by (cases "i div 8 = j div 8") (auto simp: bit_isset_bit bit_clear_def bit_simps)

lemma length_bits [simp]: "length (bit_set a i) = length a" "length (bit_clear a i) = length a"
  by (simp_all add: bit_set_def bit_clear_def)

text \<open>
  The shape of a heap: less than 2 GB, within the address space, with arrays that have a bit for every block. Bits at
  other positions are outside the arrays.
\<close>

definition heap_shape :: "'a kbuddy_scheme \<Rightarrow> bool" where
  "heap_shape s \<longleftrightarrow>
     0 < nsizes s \<and> BLK_SIZE (MAXSIZE s) < 2 ^ 31 \<and> unat (bd_base s) + BLK_SIZE (MAXSIZE s) < 2 ^ 64
   \<and> (\<forall>k \<le> MAXSIZE s. NBLK k s \<le> 8 * length (bd_alloc s k) \<and> (0 < k \<longrightarrow> NBLK k s \<le> 8 * length (bd_split s k)))"

definition abit :: "'a kbuddy_scheme \<Rightarrow> nat \<Rightarrow> nat \<Rightarrow> bool" where
  "abit s k i = bit_isset (bd_alloc s k) i"

definition sbit :: "'a kbuddy_scheme \<Rightarrow> nat \<Rightarrow> nat \<Rightarrow> bool" where
  "sbit s k i = bit_isset (bd_split s k) i"

lemma upd_simps [simp]:
  "nsizes (upd_alloc k f s) = nsizes s" "nsizes (upd_split k f s) = nsizes s" "nsizes (upd_links g s) = nsizes s"
  "bd_base (upd_alloc k f s) = bd_base s" "bd_base (upd_split k f s) = bd_base s" "bd_base (upd_links g s) = bd_base s"
  "bd_links (upd_alloc k f s) = bd_links s" "bd_links (upd_split k f s) = bd_links s" "bd_links (upd_links g s) = g (bd_links s)"
  "bd_alloc (upd_alloc k f s) = (bd_alloc s)(k := f (bd_alloc s k))" "bd_alloc (upd_split k f s) = bd_alloc s"
  "bd_alloc (upd_links g s) = bd_alloc s"
  "bd_split (upd_alloc k f s) = bd_split s" "bd_split (upd_split k f s) = (bd_split s)(k := f (bd_split s k))"
  "bd_split (upd_links g s) = bd_split s"
  "held (upd_alloc k f s) = held s" "held (upd_split k f s) = held s" "held (upd_links g s) = held s"
  by (simp_all add: upd_alloc_def upd_split_def upd_links_def)

text \<open>Two states with the same base and sizes place the blocks alike.\<close>

definition same_heap :: "'a kbuddy_scheme \<Rightarrow> 'a kbuddy_scheme \<Rightarrow> bool" where
  "same_heap s t \<longleftrightarrow> nsizes t = nsizes s \<and> bd_base t = bd_base s \<and> held t = held s
     \<and> (\<forall>k. length (bd_alloc t k) = length (bd_alloc s k) \<and> length (bd_split t k) = length (bd_split s k))"

lemma same_heap_geo:
  assumes "same_heap s t"
  shows "MAXSIZE t = MAXSIZE s" and "NBLK k t = NBLK k s" and "addr k i t = addr k i s" and "blk_index k p t = blk_index k p s"
    and "heap_shape t = heap_shape s"
  using assms by (auto simp: same_heap_def MAXSIZE_def NBLK_def addr_def blk_index_def bd_off_def heap_shape_def)

lemma same_heap_refl [simp]: "same_heap s s"
  by (simp add: same_heap_def)

lemma same_heap_trans: "same_heap s t \<Longrightarrow> same_heap t u \<Longrightarrow> same_heap s u"
  by (simp add: same_heap_def)

lemma same_heap_upd [simp]:
  "same_heap s (upd_alloc k (\<lambda>a. bit_set a i) t) = same_heap s t" "same_heap s (upd_alloc k (\<lambda>a. bit_clear a i) t) = same_heap s t"
  "same_heap s (upd_split k (\<lambda>a. bit_set a i) t) = same_heap s t" "same_heap s (upd_split k (\<lambda>a. bit_clear a i) t) = same_heap s t"
  "same_heap s (upd_links g t) = same_heap s t"
  by (auto simp: same_heap_def)

lemma BLK_SIZE_Suc: "BLK_SIZE (Suc k) = 2 * BLK_SIZE k"
  by (simp add: BLK_SIZE_def)

lemma BLK_SIZE_pos [simp]: "0 < BLK_SIZE k" "BLK_SIZE k \<noteq> 0"
  by (simp_all add: BLK_SIZE_def LEAF_SIZE_def)

lemma NBLK_BLK: "k \<le> MAXSIZE s \<Longrightarrow> NBLK k s * BLK_SIZE k = BLK_SIZE (MAXSIZE s)"
  by (simp add: NBLK_def BLK_SIZE_def power_add[symmetric])

lemma NBLK_Suc: "Suc k \<le> MAXSIZE s \<Longrightarrow> NBLK k s = 2 * NBLK (Suc k) s"
  by (simp add: NBLK_def Suc_diff_le[symmetric] flip: power_Suc)

lemma block_bound:
  assumes "k \<le> MAXSIZE s" and "i < NBLK k s"
  shows "i * BLK_SIZE k + BLK_SIZE k \<le> BLK_SIZE (MAXSIZE s)"
proof -
  have "Suc i * BLK_SIZE k \<le> NBLK k s * BLK_SIZE k" using assms(2) by (intro mult_le_mono1) simp
  then show ?thesis using NBLK_BLK[OF assms(1)] by simp
qed

text \<open>The address of an offset.\<close>

lemma off_of:
  assumes "n < 2 ^ 31"
  shows "bd_off (bd_base s + of_nat n) s = n" and "scast (of_nat n :: u32) = (of_nat n :: u64)"
proof -
  have u: "ucast (of_nat n :: u64) = (of_nat n :: u32)" by (rule bit_word_eqI) (auto simp: bit_simps)
  have i: "sint (of_nat n :: u32) = int n"
    using assms by (simp add: signed_of_nat signed_take_bit_int_eq_self)
  show "bd_off (bd_base s + of_nat n) s = n" by (simp add: bd_off_def u i)
  show "scast (of_nat n :: u32) = (of_nat n :: u64)" by (simp add: scast_eq i)
qed

lemma addr_eq:
  assumes "heap_shape s" and "k \<le> MAXSIZE s" and "i < NBLK k s"
  shows "addr k i s = bd_base s + of_nat (i * BLK_SIZE k)" and "unat (addr k i s) = unat (bd_base s) + i * BLK_SIZE k"
    and "bd_off (addr k i s) s = i * BLK_SIZE k"
proof -
  have n: "i * BLK_SIZE k < BLK_SIZE (MAXSIZE s)" using block_bound[OF assms(2,3)] BLK_SIZE_pos[of k] by linarith
  then have n31: "i * BLK_SIZE k < 2 ^ 31" using assms(1) by (simp add: heap_shape_def)
  show a: "addr k i s = bd_base s + of_nat (i * BLK_SIZE k)" unfolding addr_def off_of(2)[OF n31] ..
  show "bd_off (addr k i s) s = i * BLK_SIZE k" unfolding a by (rule off_of(1)[OF n31])
  have "unat (of_nat (i * BLK_SIZE k) :: u64) = i * BLK_SIZE k" using n31 by (intro unat_of_nat_u64) simp
  then show "unat (addr k i s) = unat (bd_base s) + i * BLK_SIZE k"
    unfolding a using n assms(1) by (simp add: unat_plus_u64 heap_shape_def)
qed

lemma blk_index_addr:
  assumes "heap_shape s" and "k \<le> MAXSIZE s" and "i < NBLK k s" and "k \<le> j"
  shows "blk_index j (addr k i s) s = i div 2 ^ (j - k)"
proof -
  have "BLK_SIZE j = 2 ^ (j - k) * BLK_SIZE k" using assms(4) by (simp add: BLK_SIZE_def flip: power_add)
  then show ?thesis using addr_eq(3)[OF assms(1-3)] by (simp add: blk_index_def)
qed

lemma addr_inj:
  assumes "heap_shape s" and "k \<le> MAXSIZE s" and "i < NBLK k s" and "k' \<le> MAXSIZE s" and "i' < NBLK k' s"
  shows "addr k i s = addr k' i' s \<longleftrightarrow> i * BLK_SIZE k = i' * BLK_SIZE k'"
  using addr_eq(1,3)[OF assms(1-3)] addr_eq(1,3)[OF assms(1,4,5)] by metis

lemma array_bound:
  assumes "heap_shape s" and "k \<le> MAXSIZE s" and "i < NBLK k s"
  shows "i div 8 < length (bd_alloc s k)" and "0 < k \<Longrightarrow> i div 8 < length (bd_split s k)"
  using assms by (fastforce simp: heap_shape_def)+

lemma abit_upd:
  assumes "heap_shape s" and "k \<le> MAXSIZE s" and "i < NBLK k s"
  shows "abit (upd_alloc k (\<lambda>a. bit_set a i) s) j x \<longleftrightarrow> (j = k \<and> x = i) \<or> abit s j x"
    and "abit (upd_alloc k (\<lambda>a. bit_clear a i) s) j x \<longleftrightarrow> \<not> (j = k \<and> x = i) \<and> abit s j x"
    and "0 < k \<Longrightarrow> sbit (upd_split k (\<lambda>a. bit_set a i) s) j x \<longleftrightarrow> (j = k \<and> x = i) \<or> sbit s j x"
    and "0 < k \<Longrightarrow> sbit (upd_split k (\<lambda>a. bit_clear a i) s) j x \<longleftrightarrow> \<not> (j = k \<and> x = i) \<and> sbit s j x"
  using array_bound[OF assms] by (auto simp: abit_def sbit_def bit_isset_set bit_isset_clear)

lemma bits_upd_other [simp]:
  "sbit (upd_alloc k f s) = sbit s" "abit (upd_split k f s) = abit s"
  "abit (upd_links g s) = abit s" "sbit (upd_links g s) = sbit s"
  by (auto simp: abit_def sbit_def fun_eq_iff)

section \<open>The tree of blocks\<close>

text \<open>
  What the arrays describe: every block is free, in use, or split into its two halves. In a split block at least one
  half is not free: two free buddies are one free block of the next size. Inside a whole block every bit is clear.
\<close>

datatype btree = BFree | BUsed | BSplit btree btree

fun quiet :: "(nat \<Rightarrow> nat \<Rightarrow> bool) \<Rightarrow> (nat \<Rightarrow> nat \<Rightarrow> bool) \<Rightarrow> nat \<Rightarrow> nat \<Rightarrow> bool" where
  "quiet a sp 0 i = True"
| "quiet a sp (Suc k) i \<longleftrightarrow> \<not> sp (Suc k) i \<and> \<not> a k (2 * i) \<and> \<not> a k (2 * i + 1) \<and> quiet a sp k (2 * i) \<and> quiet a sp k (2 * i + 1)"

fun tree_ok :: "(nat \<Rightarrow> nat \<Rightarrow> bool) \<Rightarrow> (nat \<Rightarrow> nat \<Rightarrow> bool) \<Rightarrow> nat \<Rightarrow> nat \<Rightarrow> btree \<Rightarrow> bool" where
  "tree_ok a sp k i BFree = quiet a sp k i"
| "tree_ok a sp k i BUsed = quiet a sp k i"
| "tree_ok a sp 0 i (BSplit l r) = False"
| "tree_ok a sp (Suc k) i (BSplit l r) \<longleftrightarrow>
     sp (Suc k) i \<and> (a k (2 * i) \<longleftrightarrow> l \<noteq> BFree) \<and> (a k (2 * i + 1) \<longleftrightarrow> r \<noteq> BFree) \<and> (l \<noteq> BFree \<or> r \<noteq> BFree)
   \<and> tree_ok a sp k (2 * i) l \<and> tree_ok a sp k (2 * i + 1) r"

fun frees :: "nat \<Rightarrow> nat \<Rightarrow> btree \<Rightarrow> (nat \<times> nat) set" where
  "frees k i BFree = {(k, i)}"
| "frees k i BUsed = {}"
| "frees 0 i (BSplit l r) = {}"
| "frees (Suc k) i (BSplit l r) = frees k (2 * i) l \<union> frees k (2 * i + 1) r"

fun useds :: "nat \<Rightarrow> nat \<Rightarrow> btree \<Rightarrow> (nat \<times> nat) set" where
  "useds k i BFree = {}"
| "useds k i BUsed = {(k, i)}"
| "useds 0 i (BSplit l r) = {}"
| "useds (Suc k) i (BSplit l r) = useds k (2 * i) l \<union> useds k (2 * i + 1) r"

definition within :: "nat \<Rightarrow> nat \<Rightarrow> nat \<Rightarrow> nat \<Rightarrow> bool" where
  "within k i j x \<longleftrightarrow> j \<le> k \<and> x div 2 ^ (k - j) = i"

lemma within_refl [simp]: "within k i k x \<longleftrightarrow> x = i"
  by (auto simp: within_def)

lemma within_0 [simp]: "within 0 i j x \<longleftrightarrow> j = 0 \<and> x = i"
  by (auto simp: within_def)

lemma within_Suc: "within (Suc k) i j x \<longleftrightarrow> (j = Suc k \<and> x = i) \<or> within k (2 * i) j x \<or> within k (2 * i + 1) j x"
proof (cases "j \<le> k")
  case True
  then have "x div 2 ^ (Suc k - j) = x div 2 ^ (k - j) div 2" by (simp add: Suc_diff_le power_Suc2 div_mult2_eq del: power_Suc)
  moreover have "y div 2 = i \<longleftrightarrow> y = 2 * i \<or> y = 2 * i + 1" for y by linarith
  ultimately show ?thesis using True by (auto simp: within_def)
qed (auto simp: within_def)

lemma within_start: "within k i j x \<Longrightarrow> x * 2 ^ j div 2 ^ k = i"
proof -
  assume w: "within k i j x"
  then have "(2 :: nat) ^ k = 2 ^ (k - j) * 2 ^ j" by (simp add: within_def flip: power_add)
  then show ?thesis using w by (simp add: within_def)
qed

lemma within_interval:
  assumes "within k i j x"
  shows "i * 2 ^ k \<le> x * 2 ^ j" and "x * 2 ^ j + 2 ^ j \<le> i * 2 ^ k + 2 ^ k"
proof -
  have k: "(2 :: nat) ^ k = 2 ^ (k - j) * 2 ^ j" using assms by (simp add: within_def flip: power_add)
  have x: "i = x div 2 ^ (k - j)" using assms by (simp add: within_def)
  have "i * 2 ^ (k - j) \<le> x" unfolding x by simp
  then have "i * 2 ^ (k - j) * 2 ^ j \<le> x * 2 ^ j" by simp
  then show "i * 2 ^ k \<le> x * 2 ^ j" by (simp add: k)
  have "x < i * 2 ^ (k - j) + 2 ^ (k - j)" unfolding x using dividend_less_div_times[of "2 ^ (k - j)" x] by (simp add: add.commute)
  then have "Suc x * 2 ^ j \<le> (i * 2 ^ (k - j) + 2 ^ (k - j)) * 2 ^ j" by (intro mult_le_mono1) simp
  then show "x * 2 ^ j + 2 ^ j \<le> i * 2 ^ k + 2 ^ k" by (simp add: k algebra_simps)
qed

lemma within_trans: "within k i j x \<Longrightarrow> within j x l y \<Longrightarrow> within k i l y"
proof -
  assume w: "within k i j x" "within j x l y"
  then have "(2 :: nat) ^ (k - l) = 2 ^ (j - l) * 2 ^ (k - j)" by (simp add: within_def flip: power_add)
  then show ?thesis using w by (auto simp: within_def div_mult2_eq)
qed

lemma within_halves: "\<not> (within k (2 * i) j x \<and> within k (2 * i + 1) j x)"
  by (auto simp: within_def)

lemma blocks_within: "b \<in> frees k i T \<union> useds k i T \<Longrightarrow> within k i (fst b) (snd b)"
  by (induction k i T rule: frees.induct) (auto simp: within_Suc)

lemma quiet_cong:
  assumes "\<And>j x. within k i j x \<Longrightarrow> j < k \<Longrightarrow> a' j x = a j x" and "\<And>j x. within k i j x \<Longrightarrow> sp' j x = sp j x"
  shows "quiet a' sp' k i = quiet a sp k i"
  using assms
proof (induction k arbitrary: i)
  case (Suc k)
  have "quiet a' sp' k (2 * i) = quiet a sp k (2 * i)" "quiet a' sp' k (2 * i + 1) = quiet a sp k (2 * i + 1)"
    by (rule Suc.IH; simp add: Suc.prems within_Suc)+
  then show ?case using Suc.prems by (simp add: within_Suc)
qed simp

lemma tree_ok_cong:
  assumes "\<And>j x. within k i j x \<Longrightarrow> j < k \<Longrightarrow> a' j x = a j x" and "\<And>j x. within k i j x \<Longrightarrow> sp' j x = sp j x"
  shows "tree_ok a' sp' k i T = tree_ok a sp k i T"
  using assms
proof (induction T arbitrary: k i)
  case (BSplit l r)
  show ?case
  proof (cases k)
    case (Suc m)
    have "tree_ok a' sp' m (2 * i) l = tree_ok a sp m (2 * i) l" "tree_ok a' sp' m (2 * i + 1) r = tree_ok a sp m (2 * i + 1) r"
      by (rule BSplit.IH; rule BSplit.prems; simp add: Suc within_Suc)+
    then show ?thesis using BSplit.prems[of m "2 * i"] BSplit.prems[of m "2 * i + 1"] BSplit.prems(2)[of k i] Suc
      by (simp add: within_Suc)
  qed simp
next
  case BFree
  then show ?case using quiet_cong[of k i a' a sp' sp] by simp
next
  case BUsed
  then show ?case using quiet_cong[of k i a' a sp' sp] by simp
qed

lemma quiet_inside: "quiet a sp k i \<Longrightarrow> within k i j x \<Longrightarrow> 0 < j \<Longrightarrow> \<not> sp j x"
  by (induction k arbitrary: i) (auto simp: within_Suc)

text \<open>The bits of a block in use: its size is the first one whose parent is split.\<close>

lemma used_split:
  assumes "tree_ok a sp k i T" and "(m, x) \<in> useds k i T" and "T \<noteq> BUsed"
  shows "sp (Suc m) (x div 2) \<and> quiet a sp m x \<and> m < k"
  using assms
proof (induction k i T rule: useds.induct)
  case (4 k i l r)
  have down: ?case if "tree_ok a sp k c U" "(m, x) \<in> useds k c U" "c div 2 = i"
    "U \<noteq> BUsed \<Longrightarrow> sp (Suc m) (x div 2) \<and> quiet a sp m x \<and> m < k" for c U
    using that 4(3) by (cases "U = BUsed") auto
  show ?case using 4 down[of "2 * i" l] down[of "2 * i + 1" r] by auto
qed simp_all

lemma frees_quiet: "tree_ok a sp k i T \<Longrightarrow> (m, x) \<in> frees k i T \<Longrightarrow> quiet a sp m x"
  by (induction k i T rule: frees.induct) auto

section \<open>The free lists\<close>

definition start :: "nat \<times> nat \<Rightarrow> nat" where
  "start b = snd b * 2 ^ fst b"

definition in_heap :: "'a kbuddy_scheme \<Rightarrow> nat \<times> nat \<Rightarrow> bool" where
  "in_heap s b \<longleftrightarrow> fst b \<le> MAXSIZE s \<and> snd b < NBLK (fst b) s"

text \<open>The list of every size holds the free blocks of that size, and no address is in two of them.\<close>

definition lists_ok :: "'a kbuddy_scheme \<Rightarrow> (nat \<times> nat) set \<Rightarrow> bool" where
  "lists_ok s F \<longleftrightarrow> Ball F (in_heap s) \<and> inj_on start F
     \<and> (\<forall>k \<le> MAXSIZE s. \<exists>xs. is_list (bd_links s) (Head k) xs \<and> set xs = {Blk (addr k i s) |i. (k, i) \<in> F})"

lemma lists_ok_same:
  assumes "same_heap s t" and "bd_links t = bd_links s"
  shows "lists_ok t F = lists_ok s F"
  by (simp add: lists_ok_def in_heap_def same_heap_geo[OF assms(1)] assms(2))

lemma in_heap_same: "same_heap s t \<Longrightarrow> in_heap t b = in_heap s b"
  by (simp add: in_heap_def same_heap_geo)

lemma addr_start:
  assumes "heap_shape s" and "in_heap s (k, i)" and "in_heap s (j, x)"
  shows "addr k i s = addr j x s \<longleftrightarrow> start (k, i) = start (j, x)"
  using addr_inj[of s k i j x] assms by (simp add: in_heap_def start_def BLK_SIZE_def LEAF_SIZE_def)

lemma lists_ok_heap: "lists_ok s F \<Longrightarrow> (k, i) \<in> F \<Longrightarrow> in_heap s (k, i)"
  by (auto simp: lists_ok_def)

lemma lists_ok_list:
  assumes "lists_ok s F" and "k \<le> MAXSIZE s"
  obtains xs where "is_list (bd_links s) (Head k) xs" and "set xs = {Blk (addr k i s) |i. (k, i) \<in> F}"
  using assms unfolding lists_ok_def by blast

lemma lists_ok_addr:
  assumes "heap_shape s" and "lists_ok s F" and "(j, x) \<in> F" and "(m, y) \<in> F"
  shows "addr j x s = addr m y s \<longleftrightarrow> j = m \<and> x = y"
proof -
  have "start (j, x) = start (m, y) \<longleftrightarrow> (j, x) = (m, y)"
    using assms(2-4) unfolding lists_ok_def by (blast dest: inj_onD)
  then show ?thesis using addr_start[OF assms(1) lists_ok_heap[OF assms(2,3)] lists_ok_heap[OF assms(2,4)]] by simp
qed

lemma lists_push:
  assumes "heap_shape s" and "lists_ok s F" and "in_heap s (k, i)" and "start (k, i) \<notin> start ` F"
  shows "lists_ok (upd_links (lst_push (Head k) (Blk (addr k i s))) s) (insert (k, i) F)"
proof -
  let ?t = "upd_links (lst_push (Head k) (Blk (addr k i s))) s"
  have same: "same_heap s ?t" by simp
  have new: "addr j x s \<noteq> addr k i s" if "(j, x) \<in> F" for j x
    using addr_start[OF assms(1) lists_ok_heap[OF assms(2) that] assms(3)] that assms(4) by (metis imageI)
  note other = lists_ok_addr[OF assms(1,2)]
  have k: "k \<le> MAXSIZE s" using assms(3) by (simp add: in_heap_def)
  obtain xs where xs: "is_list (bd_links s) (Head k) xs" "set xs = {Blk (addr k i s) |i. (k, i) \<in> F}"
    by (rule lists_ok_list[OF assms(2) k])
  have "\<exists>ys. is_list (bd_links ?t) (Head j) ys \<and> set ys = {Blk (addr j x s) |x. (j, x) \<in> insert (k, i) F}" if j: "j \<le> MAXSIZE s" for j
  proof (cases "j = k")
    case True
    have "is_list (bd_links ?t) (Head k) (Blk (addr k i s) # xs)" using is_list_push[OF xs(1)] xs(2) new by force
    then show ?thesis using True xs(2) by (intro exI[of _ "Blk (addr k i s) # xs"]) auto
  next
    case False
    obtain ys where ys: "is_list (bd_links s) (Head j) ys" "set ys = {Blk (addr j i s) |i. (j, i) \<in> F}"
      by (rule lists_ok_list[OF assms(2) j])
    have "is_list (bd_links ?t) (Head j) ys"
      unfolding upd_simps
      by (rule is_list_frame_push[OF xs(1) ys(1)]) (use False xs(2) ys(2) new other in fastforce)+
    then show ?thesis using False ys(2) by auto
  qed
  moreover have "start (k, i) \<notin> start ` (F - {(k, i)})" using assms(4) by auto
  ultimately show ?thesis using assms
    by (simp add: lists_ok_def in_heap_same[OF same] same_heap_geo[OF same])
qed

lemma lists_remove:
  assumes "heap_shape s" and "lists_ok s F" and "(k, i) \<in> F"
  shows "lists_ok (upd_links (lst_remove (Blk (addr k i s))) s) (F - {(k, i)})"
proof -
  let ?t = "upd_links (lst_remove (Blk (addr k i s))) s"
  have same: "same_heap s ?t" by simp
  note other = lists_ok_addr[OF assms(1,2)]
  have k: "k \<le> MAXSIZE s" using lists_ok_heap[OF assms(2,3)] by (simp add: in_heap_def)
  obtain xs where xs: "is_list (bd_links s) (Head k) xs" "set xs = {Blk (addr k i s) |i. (k, i) \<in> F}"
    by (rule lists_ok_list[OF assms(2) k])
  have mem: "Blk (addr k i s) \<in> set xs" using xs(2) assms(3) by auto
  have "\<exists>ys. is_list (bd_links ?t) (Head j) ys \<and> set ys = {Blk (addr j x s) |x. (j, x) \<in> F - {(k, i)}}" if j: "j \<le> MAXSIZE s" for j
  proof (cases "j = k")
    case True
    obtain us vs where uv: "xs = us @ Blk (addr k i s) # vs" using split_list[OF mem] by auto
    have "set (us @ vs) = set xs - {Blk (addr k i s)}" using xs(1) uv by (auto simp: is_list_def)
    also have "\<dots> = {Blk (addr j x s) |x. (j, x) \<in> F - {(k, i)}}"
      using True xs(2) other assms(3) by auto
    finally have "set (us @ vs) = {Blk (addr j x s) |x. (j, x) \<in> F - {(k, i)}}" .
    moreover have "is_list (bd_links ?t) (Head j) (us @ vs)"
      using is_list_remove[of "bd_links s" "Head k" us "Blk (addr k i s)" vs] xs(1) True by (simp add: uv)
    ultimately show ?thesis by blast
  next
    case False
    obtain ys where ys: "is_list (bd_links s) (Head j) ys" "set ys = {Blk (addr j i s) |i. (j, i) \<in> F}"
      by (rule lists_ok_list[OF assms(2) j])
    have "is_list (bd_links ?t) (Head j) ys"
      unfolding upd_simps
      by (rule is_list_frame_remove[OF xs(1) mem ys(1)]) (use False xs(2) ys(2) other in fastforce)
    then show ?thesis using False ys(2) by auto
  qed
  moreover have "inj_on start (F - {(k, i)})" using assms(2) by (auto simp: lists_ok_def intro: inj_on_subset)
  ultimately show ?thesis using assms(2)
    by (simp add: lists_ok_def in_heap_same[OF same] same_heap_geo[OF same])
qed

text \<open>No block of the tree starts inside another one.\<close>

lemma blocks_apart:
  assumes "b \<in> frees k i T \<union> useds k i T" and "c \<in> frees k i T \<union> useds k i T" and "b \<noteq> c"
  shows "start c div 2 ^ fst b \<noteq> snd b"
  using assms
proof (induction k i T rule: frees.induct)
  case (4 k i l r)
  have w: "start c div 2 ^ k = n" "start b div 2 ^ k = n'"
    if "b \<in> frees k n' V \<union> useds k n' V" "c \<in> frees k n U \<union> useds k n U" for U V n n'
    using that blocks_within[of c k n U] blocks_within[of b k n' V] within_start by (auto simp: start_def)
  have in_b: "within k n' (fst b) (snd b)" if "b \<in> frees k n' V \<union> useds k n' V" for n' V using blocks_within that .
  have cross: False if "b \<in> frees k n' V \<union> useds k n' V" "c \<in> frees k n U \<union> useds k n U" "n \<noteq> n'"
    "start c div 2 ^ fst b = snd b" for U V n n'
  proof -
    have "(2 :: nat) ^ k = 2 ^ fst b * 2 ^ (k - fst b)" using in_b[OF that(1)] by (simp add: within_def flip: power_add)
    then have "start c div 2 ^ k = snd b div 2 ^ (k - fst b)" using that(4) by (simp add: div_mult2_eq)
    then show False using w(1)[OF that(1,2)] in_b[OF that(1)] that(3) by (simp add: within_def)
  qed
  show ?case
    using 4 cross[of "2 * i" l "2 * i + 1" r] cross[of "2 * i + 1" r "2 * i" l] by fastforce
qed auto

lemma frees_apart: "(m, x) \<in> frees k i T \<Longrightarrow> b \<in> frees k i T \<Longrightarrow> b \<noteq> (m, x) \<Longrightarrow> start b div 2 ^ m \<noteq> x"
  using blocks_apart[of "(m, x)" k i T b] by simp

lemma frees_not_used: "b \<in> frees k i T \<Longrightarrow> b \<notin> useds k i T"
proof (induction k i T rule: frees.induct)
  case (4 k i l r)
  have "b \<notin> useds k c' U" if "b \<in> frees k c V" "c \<noteq> c'" for c c' U V
    using that blocks_within[of b k c V] blocks_within[of b k c' U] by (auto simp: within_def)
  from this[of "2 * i" l "2 * i + 1" r] this[of "2 * i + 1" r "2 * i" l] show ?case using 4 by auto
qed auto

lemma used_in_heap: "b \<in> useds (MAXSIZE s) 0 T \<Longrightarrow> in_heap s b"
  and free_in_heap: "b \<in> frees (MAXSIZE s) 0 T \<Longrightarrow> in_heap s b"
  using blocks_within[of b "MAXSIZE s" 0 T] by (auto simp: in_heap_def within_def NBLK_def div_eq_0_iff)

section \<open>Splitting and putting\<close>

text \<open>Only bits inside a block change.\<close>

definition inside_only :: "nat \<Rightarrow> nat \<Rightarrow> 'a kbuddy_scheme \<Rightarrow> 'a kbuddy_scheme \<Rightarrow> bool" where
  "inside_only k i s t \<longleftrightarrow>
     (\<forall>j x. \<not> (within k i j x \<and> j < k) \<longrightarrow> abit t j x = abit s j x) \<and> (\<forall>j x. \<not> within k i j x \<longrightarrow> sbit t j x = sbit s j x)"

lemma inside_only_refl [simp]: "inside_only k i s s"
  by (simp add: inside_only_def)

lemma inside_only_trans: "inside_only k i s t \<Longrightarrow> inside_only k i t u \<Longrightarrow> inside_only k i s u"
  by (simp add: inside_only_def)

lemma inside_only_half:
  assumes "inside_only k c s t" and "c div 2 = i"
  shows "inside_only (Suc k) i s t"
proof -
  have "within k c j x \<Longrightarrow> within (Suc k) i j x" for j x
    using assms(2) by (cases "even c") (auto simp: within_Suc elim!: evenE oddE)
  then show ?thesis using assms(1) unfolding inside_only_def
    by (metis less_SucI)
qed

lemma in_heap_halves: "in_heap s (Suc k, i) \<Longrightarrow> c div 2 = i \<Longrightarrow> in_heap s (k, c)"
  using NBLK_Suc[of k s] by (auto simp: in_heap_def)

lemma addr_half: "addr k (2 * i) s = addr (Suc k) i s"
  by (simp add: addr_def BLK_SIZE_Suc mult.assoc mult.left_commute)

lemma addr_other_half:
  assumes "heap_shape s" and "in_heap s (Suc k, i)"
  shows "addr (Suc k) i s + of_nat (BLK_SIZE k) = addr k (2 * i + 1) s"
proof -
  have "in_heap s (k, 2 * i)" "in_heap s (k, 2 * i + 1)" using in_heap_halves[OF assms(2)] by auto
  then show ?thesis using addr_eq(1)[OF assms(1), of k "2 * i"] addr_eq(1)[OF assms(1), of k "2 * i + 1"]
    unfolding addr_half[symmetric] by (simp add: in_heap_def algebra_simps)
qed

lemma start_half: "start b div 2 ^ k = c \<Longrightarrow> start b div 2 ^ Suc k = c div 2"
  by (simp add: power_Suc2 div_mult2_eq del: power_Suc)

lemma start_index: "start (k, i) div 2 ^ k = i"
  by (simp add: start_def)

text \<open>The tree that the splitting loop carves out of a free block.\<close>

fun carve :: "nat \<Rightarrow> nat \<Rightarrow> btree" where
  "carve fk 0 = BUsed"
| "carve fk (Suc k) = (if Suc k > fk then BSplit (carve fk k) BFree else BUsed)"

lemma carve_not_free [simp]: "carve fk k \<noteq> BFree"
  by (cases k) auto

lemma useds_carve: "fk \<le> k \<Longrightarrow> useds k i (carve fk k) = {(fk, i * 2 ^ (k - fk))}"
  by (induction k arbitrary: i) (auto simp: Suc_diff_le le_Suc_eq)

lemma addr_carve: "fk \<le> k \<Longrightarrow> addr fk (i * 2 ^ (k - fk)) s = addr k i s"
proof -
  assume "fk \<le> k"
  then have "i * 2 ^ (k - fk) * BLK_SIZE fk = i * BLK_SIZE k"
    by (simp add: BLK_SIZE_def mult.assoc) (simp flip: mult.assoc power_add)
  then show ?thesis by (simp only: addr_def)
qed

lemma split_loop_tree:
  assumes "heap_shape s" and "in_heap s (k, i)" and "quiet (abit s) (sbit s) k i" and "lists_ok s F"
    and "\<forall>b \<in> F. start b div 2 ^ k \<noteq> i" and "fk \<le> k" and "p = addr k i s" and "t = split_loop fk k p s"
  shows "same_heap s t \<and> tree_ok (abit t) (sbit t) k i (carve fk k) \<and> lists_ok t (F \<union> frees k i (carve fk k)) \<and> inside_only k i s t"
  using assms
proof (induction k arbitrary: i s F)
  case (Suc k)
  show ?case
  proof (cases "fk < Suc k")
    case True
    define s1 where "s1 = upd_split (Suc k) (\<lambda>a. bit_set a i) s"
    define s2 where "s2 = upd_alloc k (\<lambda>a. bit_set a (2 * i)) s1"
    define s3 where "s3 = upd_links (lst_push (Head k) (Blk (addr k (2 * i + 1) s2))) s2"
    have same: "same_heap s s1" "same_heap s s2" "same_heap s s3" by (simp_all add: s1_def s2_def s3_def)
    note geo = same_heap_geo[OF same(1)] same_heap_geo[OF same(2)] same_heap_geo[OF same(3)]
    have halves: "in_heap s (k, 2 * i)" "in_heap s (k, 2 * i + 1)" using in_heap_halves[OF Suc.prems(2)] by auto
    have p: "blk_index (Suc k) p s = i" "blk_index k p s1 = 2 * i"
      using blk_index_addr[OF Suc.prems(1), of "Suc k" i "Suc k"] blk_index_addr[OF Suc.prems(1), of k "2 * i" k]
        Suc.prems(2,7) halves(1) by (simp_all add: in_heap_def geo addr_half)
    have q: "p + of_nat (BLK_SIZE k) = addr k (2 * i + 1) s2"
      using addr_other_half[OF Suc.prems(1,2)] Suc.prems(7) by (simp add: geo)
    have t: "t = split_loop fk k p s3" using Suc.prems(8) True by (simp add: Let_def p[unfolded s1_def] q[unfolded s1_def s2_def] s1_def s2_def s3_def)
    have far: "\<forall>b \<in> F. start b div 2 ^ k \<noteq> 2 * i \<and> start b div 2 ^ k \<noteq> 2 * i + 1"
      using Suc.prems(5) start_half by fastforce
    have l: "lists_ok s2 F" using Suc.prems(4) lists_ok_same[OF same(2)] by (simp add: s1_def s2_def)
    have "start (k, 2 * i + 1) \<notin> start ` F" using far start_index[of k "2 * i + 1"] by force
    then have l3: "lists_ok s3 (insert (k, 2 * i + 1) F)"
      using lists_push[OF _ l, of k "2 * i + 1"] Suc.prems(1) halves(2) unfolding s3_def
      by (simp add: geo in_heap_same[OF same(2)])
    have a3: "abit s3 j x \<longleftrightarrow> (j = k \<and> x = 2 * i) \<or> abit s j x" for j x
      using abit_upd(1)[of s1 k "2 * i" j x] Suc.prems(1) halves(1) geo unfolding s3_def s2_def
      by (simp add: in_heap_def) (simp add: s1_def)
    have b3: "sbit s3 j x \<longleftrightarrow> (j = Suc k \<and> x = i) \<or> sbit s j x" for j x
      using abit_upd(3)[of s "Suc k" i j x] Suc.prems(1,2) by (simp add: in_heap_def s1_def s2_def s3_def)
    have quiet: "\<not> abit s k (2 * i + 1)" "quiet (abit s) (sbit s) k (2 * i)" "quiet (abit s) (sbit s) k (2 * i + 1)"
      using Suc.prems(3) by auto
    have q3: "quiet (abit s3) (sbit s3) k (2 * i)"
      using quiet(2) quiet_cong[of k "2 * i" "abit s3" "abit s" "sbit s3" "sbit s"]
      by (simp add: a3 b3 within_def)
    have IH: "same_heap s3 t" "tree_ok (abit t) (sbit t) k (2 * i) (carve fk k)"
      "lists_ok t (insert (k, 2 * i + 1) F \<union> frees k (2 * i) (carve fk k))" "inside_only k (2 * i) s3 t"
      using Suc.IH[of s3 "2 * i" "insert (k, 2 * i + 1) F"] Suc.prems(1,7) True t halves l3 q3 far
      by (simp_all add: geo in_heap_same[OF same(3)] addr_half start_index)
    have bits: "sbit t (Suc k) i" "abit t k (2 * i)" "\<not> abit t k (2 * i + 1)"
      using IH(4) quiet(1) by (simp_all add: inside_only_def a3 b3 within_def)
    have "quiet (abit t) (sbit t) k (2 * i + 1)"
      using quiet(3) quiet_cong[of k "2 * i + 1" "abit t" "abit s" "sbit t" "sbit s"] IH(4) within_halves[of k i]
      by (simp add: inside_only_def a3 b3) (metis Suc_n_not_le_n nat_less_le within_def)
    then have "tree_ok (abit t) (sbit t) (Suc k) i (carve fk (Suc k))" using IH(2) bits True by simp
    moreover have "inside_only (Suc k) i s s3" using a3 b3 by (auto simp: inside_only_def within_Suc)
    then have "inside_only (Suc k) i s t"
      using inside_only_half[OF IH(4), of i] inside_only_trans by force
    moreover have "F \<union> frees (Suc k) i (carve fk (Suc k)) = insert (k, 2 * i + 1) F \<union> frees k (2 * i) (carve fk k)"
      using True by auto
    ultimately show ?thesis using IH(1,3) same_heap_trans[OF same(3)] by metis
  next
    case False
    then show ?thesis using Suc.prems by simp
  qed
qed simp

text \<open>A subtree in the place of a free block.\<close>

lemma tree_put:
  assumes "tree_ok (abit s) (sbit s) k i T" and "(m, y) \<in> frees k i T" and "tree_ok (abit t) (sbit t) m y N" and "N \<noteq> BFree"
    and "\<And>j x. \<not> within m y j x \<Longrightarrow> abit t j x = abit s j x \<and> sbit t j x = sbit s j x" and "abit t m y"
  shows "\<exists>U. tree_ok (abit t) (sbit t) k i U \<and> U \<noteq> BFree \<and> frees k i U = frees k i T - {(m, y)} \<union> frees m y N
    \<and> useds k i U = useds k i T \<union> useds m y N \<and> (T \<noteq> BFree \<longrightarrow> (\<exists>l r. U = BSplit l r))"
  using assms(1,2)
proof (induction k i T rule: frees.induct)
  case (4 k i l r)
  have bits: "sbit s (Suc k) i" "abit s k (2 * i) \<longleftrightarrow> l \<noteq> BFree" "abit s k (2 * i + 1) \<longleftrightarrow> r \<noteq> BFree"
    "tree_ok (abit s) (sbit s) k (2 * i) l" "tree_ok (abit s) (sbit s) k (2 * i + 1) r"
    using 4(3) by auto
  have out: "within k c m y" if "(m, y) \<in> frees k c U" for c U using blocks_within[of "(m, y)" k c U] that by simp
  have keep: "tree_ok (abit t) (sbit t) k c' U" "abit t k c' = abit s k c'"
    if "tree_ok (abit s) (sbit s) k c' U" "within k c m y" "c \<noteq> c'" for c c' U
  proof -
    have d: "\<not> within m y j x" if "within k c' j x" for j x
      using within_trans[OF \<open>within k c m y\<close>, of j x] that \<open>c \<noteq> c'\<close> by (auto simp: within_def)
    then show "tree_ok (abit t) (sbit t) k c' U" using that(1) tree_ok_cong[of k c' "abit t" "abit s" "sbit t" "sbit s"] assms(5) by blast
    show "abit t k c' = abit s k c'" using assms(5) d[of k c'] by simp
  qed
  have mine: "abit t k c" if "within k c m y" "abit s k c \<or> (m, y) = (k, c)" for c
    using assms(5,6) that by (metis Pair_inject le_antisym within_def within_refl)
  have sp: "sbit t (Suc k) i" if "within k c m y" for c
    using assms(5) bits(1) that by (auto simp: within_def)
  from 4(4) consider (L) "(m, y) \<in> frees k (2 * i) l" | (R) "(m, y) \<in> frees k (2 * i + 1) r" by auto
  then show ?case
  proof cases
    case L
    from 4(1)[OF bits(4) L] obtain U where U: "tree_ok (abit t) (sbit t) k (2 * i) U" "U \<noteq> BFree"
      "frees k (2 * i) U = frees k (2 * i) l - {(m, y)} \<union> frees m y N" "useds k (2 * i) U = useds k (2 * i) l \<union> useds m y N" by blast
    have "abit t k (2 * i)" using mine[OF out[OF L]] bits(2) L by (cases "l = BFree") auto
    moreover have "(m, y) \<notin> frees k (2 * i + 1) r" using out[OF L] out[of "2 * i + 1" r] within_halves[of k i] by blast
    ultimately show ?thesis using U keep[OF bits(5) out[OF L]] sp[OF out[OF L]] bits(3)
      by (intro exI[of _ "BSplit U r"]) auto
  next
    case R
    from 4(2)[OF bits(5) R] obtain U where U: "tree_ok (abit t) (sbit t) k (2 * i + 1) U" "U \<noteq> BFree"
      "frees k (2 * i + 1) U = frees k (2 * i + 1) r - {(m, y)} \<union> frees m y N"
      "useds k (2 * i + 1) U = useds k (2 * i + 1) r \<union> useds m y N" by blast
    have "abit t k (2 * i + 1)" using mine[OF out[OF R]] bits(3) R by (cases "r = BFree") auto
    moreover have "(m, y) \<notin> frees k (2 * i) l" using out[OF R] out[of "2 * i" l] within_halves[of k i] by blast
    ultimately show ?thesis using U keep[OF bits(4) out[OF R]] sp[OF out[OF R]] bits(2)
      by (intro exI[of _ "BSplit l U"]) auto
  qed
qed (use assms in auto)

section \<open>Allocation keeps the tree\<close>

text \<open>The state of the allocator: the arrays describe a tree, the lists hold its free blocks, and some block is in use.\<close>

definition bd_inv :: "'a kbuddy_scheme \<Rightarrow> btree \<Rightarrow> bool" where
  "bd_inv s T \<longleftrightarrow> heap_shape s \<and> tree_ok (abit s) (sbit s) (MAXSIZE s) 0 T \<and> lists_ok s (frees (MAXSIZE s) 0 T)
     \<and> (\<exists>l r. T = BSplit l r)"

lemma bd_inv_held [simp]:
  "bd_inv (s\<lparr>held := h\<rparr>) T = bd_inv s T" "addr k i (s\<lparr>held := h\<rparr>) = addr k i s" "blk_index k p (s\<lparr>held := h\<rparr>) = blk_index k p s"
  "MAXSIZE (s\<lparr>held := h\<rparr>) = MAXSIZE s" "in_heap (s\<lparr>held := h\<rparr>) b = in_heap s b" "bd_size p (s\<lparr>held := h\<rparr>) = bd_size p s"
proof -
  show "in_heap (s\<lparr>held := h\<rparr>) b = in_heap s b" for b by (simp add: in_heap_def MAXSIZE_def NBLK_def)
  then show "bd_inv (s\<lparr>held := h\<rparr>) T = bd_inv s T"
    by (simp add: bd_inv_def heap_shape_def lists_ok_def MAXSIZE_def NBLK_def addr_def abit_def[abs_def] sbit_def[abs_def])
qed (simp_all add: MAXSIZE_def addr_def blk_index_def bd_off_def bd_size_def)

lemma firstk_loop_fits:
  assumes "unat n \<le> 2 ^ 63" and "k \<le> 59"
  shows "\<exists>fk. firstk_loop n (of_nat (BLK_SIZE k)) k = Some fk \<and> fk \<le> 59 \<and> unat n \<le> BLK_SIZE fk
    \<and> (fk = k \<or> BLK_SIZE (fk - 1) < unat n)"
  using assms(2)
proof (induction "59 - k" arbitrary: k)
  case 0
  then have "unat (of_nat (BLK_SIZE k) :: u64) = BLK_SIZE k" "BLK_SIZE k = 2 ^ 63"
    by (simp_all add: BLK_SIZE_def LEAF_SIZE_def)
  then show ?case using 0 assms(1) by (simp add: firstk_loop.simps word_less_nat_alt)
next
  case (Suc d)
  have "BLK_SIZE k \<le> BLK_SIZE 59"
    using Suc(3) unfolding BLK_SIZE_def by (intro mult_le_mono1 power_increasing) simp_all
  then have u: "unat (of_nat (BLK_SIZE k) :: u64) = BLK_SIZE k" by (intro unat_of_nat_u64) (simp add: BLK_SIZE_def LEAF_SIZE_def)
  show ?case
  proof (cases "BLK_SIZE k < unat n")
    case True
    have "d = 59 - Suc k" "Suc k \<le> 59" using Suc(2,3) by simp_all
    from Suc(1)[OF this] obtain fk where "firstk_loop n (of_nat (BLK_SIZE (Suc k))) (Suc k) = Some fk" "fk \<le> 59"
      "unat n \<le> BLK_SIZE fk" "fk = Suc k \<or> BLK_SIZE (fk - 1) < unat n" by auto
    moreover have "(of_nat (BLK_SIZE (Suc k)) :: u64) = of_nat (BLK_SIZE k) * 2" by (simp add: BLK_SIZE_Suc)
    ultimately show ?thesis using True u by (auto simp: firstk_loop.simps[of n "of_nat (BLK_SIZE k)"] word_less_nat_alt)
  next
    case False
    then show ?thesis using u Suc(3) by (simp add: firstk_loop.simps[of n "of_nat (BLK_SIZE k)"] word_less_nat_alt)
  qed
qed

lemma firstk_fits:
  assumes "unat n \<le> 2 ^ 63"
  shows "\<exists>fk. firstk n = Some fk \<and> unat n \<le> BLK_SIZE fk \<and> (fk = 0 \<or> BLK_SIZE (fk - 1) < unat n)"
  using firstk_loop_fits[OF assms, of 0] by (auto simp: firstk_def BLK_SIZE_def)

lemma bd_inv_list:
  assumes "bd_inv s T" and "k < nsizes s"
  shows "lst_empty (Head k) (bd_links s) \<longleftrightarrow> (\<forall>i. (k, i) \<notin> frees (MAXSIZE s) 0 T)"
    and "\<not> lst_empty (Head k) (bd_links s) \<Longrightarrow> \<exists>i. (k, i) \<in> frees (MAXSIZE s) 0 T
      \<and> lst_pop (Head k) (bd_links s) = Ok (Blk (addr k i s), lst_remove (Blk (addr k i s)) (bd_links s))"
proof -
  have k: "k \<le> MAXSIZE s" using assms(2) by (simp add: MAXSIZE_def)
  have l: "lists_ok s (frees (MAXSIZE s) 0 T)" using assms(1) by (simp add: bd_inv_def)
  obtain xs where xs: "is_list (bd_links s) (Head k) xs" "set xs = {Blk (addr k i s) |i. (k, i) \<in> frees (MAXSIZE s) 0 T}"
    by (rule lists_ok_list[OF l k])
  show "lst_empty (Head k) (bd_links s) \<longleftrightarrow> (\<forall>i. (k, i) \<notin> frees (MAXSIZE s) 0 T)"
    using is_list_empty[OF xs(1)] xs(2) by (auto simp flip: set_empty)
  assume "\<not> lst_empty (Head k) (bd_links s)"
  then obtain x ys where x: "xs = x # ys" using is_list_empty[OF xs(1)] by (cases xs) auto
  then obtain i where "(k, i) \<in> frees (MAXSIZE s) 0 T" "x = Blk (addr k i s)" using xs(2) by auto
  then show "\<exists>i. (k, i) \<in> frees (MAXSIZE s) 0 T
      \<and> lst_pop (Head k) (bd_links s) = Ok (Blk (addr k i s), lst_remove (Blk (addr k i s)) (bd_links s))"
    using is_list_pop[of "bd_links s" "Head k" x ys] xs(1) x by auto
qed

lemma bd_take:
  assumes inv: "bd_inv s T" and free: "(k, i) \<in> frees (MAXSIZE s) 0 T" and fk: "fk \<le> k"
    and t: "t = split_loop fk k (addr k i s) (upd_alloc k (\<lambda>a. bit_set a i) (upd_links (lst_remove (Blk (addr k i s))) s))"
  shows "same_heap s t \<and> (\<exists>U. bd_inv t U \<and> useds (MAXSIZE s) 0 U = insert (fk, i * 2 ^ (k - fk)) (useds (MAXSIZE s) 0 T))
    \<and> (fk, i * 2 ^ (k - fk)) \<notin> useds (MAXSIZE s) 0 T"
proof -
  let ?F = "frees (MAXSIZE s) 0 T"
  define r where "r = upd_links (lst_remove (Blk (addr k i s))) s"
  define u where "u = upd_alloc k (\<lambda>a. bit_set a i) r"
  have inv': "heap_shape s" "tree_ok (abit s) (sbit s) (MAXSIZE s) 0 T" "lists_ok s ?F" "\<exists>l r. T = BSplit l r"
    using inv by (auto simp: bd_inv_def)
  have same: "same_heap s r" "same_heap s u" by (simp_all add: r_def u_def)
  note geo = same_heap_geo[OF same(1)] same_heap_geo[OF same(2)]
  have heap: "in_heap s (k, i)" using lists_ok_heap[OF inv'(3) free] .
  have a: "abit u j x \<longleftrightarrow> (j = k \<and> x = i) \<or> abit s j x" "sbit u j x = sbit s j x" for j x
    using abit_upd(1)[of r k i j x] heap inv'(1) geo by (simp_all add: u_def in_heap_def) (simp_all add: r_def)
  have l: "lists_ok u (?F - {(k, i)})"
    using lists_remove[OF inv'(1,3) free] lists_ok_same[of r u] unfolding u_def r_def by simp
  have quiet: "quiet (abit u) (sbit u) k i"
    using frees_quiet[OF inv'(2) free] quiet_cong[of k i "abit u" "abit s" "sbit u" "sbit s"] by (simp add: a)
  have far: "\<forall>b \<in> ?F - {(k, i)}. start b div 2 ^ k \<noteq> i"
    using frees_apart[OF free] by auto
  have st: "same_heap u t \<and> tree_ok (abit t) (sbit t) k i (carve fk k)
    \<and> lists_ok t (?F - {(k, i)} \<union> frees k i (carve fk k)) \<and> inside_only k i u t"
  proof (rule split_loop_tree[OF _ _ quiet l far fk])
    show "heap_shape u" "in_heap u (k, i)" "addr k i s = addr k i u"
      using heap inv'(1) by (simp_all add: geo in_heap_same[OF same(2)])
    show "t = split_loop fk k (addr k i s) u" using t by (simp add: u_def r_def)
  qed
  have out: "abit t j x = abit s j x \<and> sbit t j x = sbit s j x" if "\<not> within k i j x" for j x
    using st that a[of j x] by (auto simp: inside_only_def)
  have own: "abit t k i" using st a[of k i] by (simp add: inside_only_def)
  obtain U where U: "tree_ok (abit t) (sbit t) (MAXSIZE s) 0 U" "frees (MAXSIZE s) 0 U = ?F - {(k, i)} \<union> frees k i (carve fk k)"
    "useds (MAXSIZE s) 0 U = useds (MAXSIZE s) 0 T \<union> useds k i (carve fk k)" "\<exists>l r. U = BSplit l r"
    using tree_put[OF inv'(2) free conjunct1[OF conjunct2[OF st]] carve_not_free out own] inv'(4) by auto
  have "(fk, i * 2 ^ (k - fk)) \<notin> useds (MAXSIZE s) 0 T"
    using blocks_apart[of "(k, i)" "MAXSIZE s" 0 T "(fk, i * 2 ^ (k - fk))"] free frees_not_used[OF free] fk
    by (cases "k = fk") (auto simp: start_def mult.assoc simp flip: power_add)
  moreover have "same_heap s t" using same_heap_trans[OF same(2)] st by blast
  ultimately show ?thesis using U st inv'(1) useds_carve[OF fk, of i] unfolding bd_inv_def by (auto simp: same_heap_geo)
qed

lemma bd_malloc_cases:
  assumes inv: "bd_inv s T" and held: "LkBuddy \<notin> set (held s)" and fk: "firstk n = Some fk"
  shows "(\<forall>b \<in> frees (MAXSIZE s) 0 T. fst b < fk) \<and> bd_malloc n s = Some (Ok (0, s))
    \<or> (\<exists>x t U. bd_malloc n s = Some (Ok (addr fk x s, t)) \<and> same_heap s t \<and> bd_inv t U \<and> (fk, x) \<notin> useds (MAXSIZE s) 0 T
        \<and> useds (MAXSIZE s) 0 U = insert (fk, x) (useds (MAXSIZE s) 0 T))"
proof (cases "find (\<lambda>k. \<not> lst_empty (Head k) (bd_links s)) [fk..<nsizes s]")
  case None
  have heap: "fst b < nsizes s" if "b \<in> frees (MAXSIZE s) 0 T" for b
    using inv that by (cases b) (auto simp: bd_inv_def lists_ok_def in_heap_def heap_shape_def MAXSIZE_def)
  have "fst b < fk" if b: "b \<in> frees (MAXSIZE s) 0 T" for b
    using None bd_inv_list(1)[OF inv heap[OF b]] heap[OF b] b by (cases b) (fastforce simp: find_None_iff)
  moreover have "bd_malloc n s = Some (Ok (0, s))" using None held fk by (simp add: bd_malloc_def)
  ultimately show ?thesis by blast
next
  case (Some k)
  then have k: "fk \<le> k" "k < nsizes s" "\<not> lst_empty (Head k) (bd_links s)" by (auto dest: find_SomeD)
  obtain i where i: "(k, i) \<in> frees (MAXSIZE s) 0 T"
    "lst_pop (Head k) (bd_links s) = Ok (Blk (addr k i s), lst_remove (Blk (addr k i s)) (bd_links s))"
    using bd_inv_list(2)[OF inv k(2,3)] by auto
  let ?s = "s\<lparr>held := LkBuddy # held s\<rparr>"
  define t where "t = split_loop fk k (addr k i ?s) (upd_alloc k (\<lambda>a. bit_set a i) (upd_links (lst_remove (Blk (addr k i ?s))) ?s))"
  have take: "same_heap ?s t" "\<exists>U. bd_inv t U \<and> useds (MAXSIZE s) 0 U = insert (fk, i * 2 ^ (k - fk)) (useds (MAXSIZE s) 0 T)"
    "(fk, i * 2 ^ (k - fk)) \<notin> useds (MAXSIZE s) 0 T"
    using bd_take[of ?s T k i fk t] inv i(1) k(1) t_def by simp_all
  have idx: "blk_index k (addr k i s) s = i"
    using inv i(1) blk_index_addr[of s k i k] lists_ok_heap[of s _ k i] by (auto simp: bd_inv_def in_heap_def)
  have "bd_malloc n s = Some (Ok (addr k i s, t\<lparr>held := held s\<rparr>))"
    using held fk Some i(2) idx take(1)
    by (simp add: bd_malloc_def blk_addr_def t_def upd_links_def same_heap_def)
      (simp add: blk_index_def bd_off_def Let_def)
  moreover have "same_heap s (t\<lparr>held := held s\<rparr>)" using take(1) by (simp add: same_heap_def)
  ultimately show ?thesis using take(2,3) addr_carve[OF k(1), of i s] by (intro disjI2) (metis bd_inv_held(1))
qed

section \<open>Freeing keeps the tree\<close>

lemma free_loop_Suc:
  assumes "k \<le> K"
  shows "free_loop (Suc K) k p s =
    (case free_loop K k p s of (k', p', t) \<Rightarrow> if k' = K then free_loop (Suc K) K p' t else (k', p', t))"
  using assms
proof (induction K k p s rule: free_loop.induct)
  case (1 K k p s)
  show ?case
  proof (cases "k < K")
    case True
    then show ?thesis
      using 1(1)[OF True refl refl refl] by (simp add: free_loop.simps[of "Suc K" k] free_loop.simps[of K k] Let_def)
  next
    case False
    then have "k = K" using 1(2) by simp
    then show ?thesis by (simp add: free_loop.simps[of K K])
  qed
qed

text \<open>A split block, from the half at index \<open>c\<close> and the other half.\<close>

definition halves :: "nat \<Rightarrow> btree \<Rightarrow> btree \<Rightarrow> btree" where
  "halves c T V = (if even c then BSplit T V else BSplit V T)"

lemma half_cases:
  assumes "c div 2 = i"
  obtains (left) "c = 2 * i" "even c" "buddy_of c = 2 * i + 1" | (right) "c = 2 * i + 1" "odd c" "buddy_of c = 2 * i"
proof (cases "even c")
  case True
  then show ?thesis using left assms by (auto simp: buddy_of_def)
next
  case False
  then show ?thesis using right assms by (auto simp: buddy_of_def elim!: oddE)
qed

lemma halves_simps:
  assumes "c div 2 = i"
  shows "tree_ok a sp (Suc k) i (halves c T V) \<longleftrightarrow>
      sp (Suc k) i \<and> (a k c \<longleftrightarrow> T \<noteq> BFree) \<and> (a k (buddy_of c) \<longleftrightarrow> V \<noteq> BFree) \<and> (T \<noteq> BFree \<or> V \<noteq> BFree)
    \<and> tree_ok a sp k c T \<and> tree_ok a sp k (buddy_of c) V"
    and "frees (Suc k) i (halves c T V) = frees k c T \<union> frees k (buddy_of c) V"
    and "useds (Suc k) i (halves c T V) = useds k c T \<union> useds k (buddy_of c) V"
    and "quiet a sp (Suc k) i \<longleftrightarrow> \<not> sp (Suc k) i \<and> \<not> a k c \<and> \<not> a k (buddy_of c) \<and> quiet a sp k c \<and> quiet a sp k (buddy_of c)"
proof -
  show "tree_ok a sp (Suc k) i (halves c T V) \<longleftrightarrow>
      sp (Suc k) i \<and> (a k c \<longleftrightarrow> T \<noteq> BFree) \<and> (a k (buddy_of c) \<longleftrightarrow> V \<noteq> BFree) \<and> (T \<noteq> BFree \<or> V \<noteq> BFree)
    \<and> tree_ok a sp k c T \<and> tree_ok a sp k (buddy_of c) V"
    by (rule half_cases[OF assms]; simp add: halves_def; blast)
  show "quiet a sp (Suc k) i \<longleftrightarrow> \<not> sp (Suc k) i \<and> \<not> a k c \<and> \<not> a k (buddy_of c) \<and> quiet a sp k c \<and> quiet a sp k (buddy_of c)"
    by (rule half_cases[OF assms]; simp; blast)
  show "frees (Suc k) i (halves c T V) = frees k c T \<union> frees k (buddy_of c) V"
    by (rule half_cases[OF assms]; simp add: halves_def Un_commute)
  show "useds (Suc k) i (halves c T V) = useds k c T \<union> useds k (buddy_of c) V"
    by (rule half_cases[OF assms]; simp add: halves_def Un_commute)
qed

lemma buddy_of_simps [simp]: "buddy_of c div 2 = c div 2" "buddy_of c \<noteq> c"
proof -
  obtain i where "c div 2 = i" by blast
  then show "buddy_of c div 2 = c div 2" "buddy_of c \<noteq> c" by (rule half_cases; simp)+
qed

lemma split_halves: "BSplit l r = halves (2 * i) l r" "BSplit l r = halves (2 * i + 1) r l"
  by (simp_all add: halves_def)

lemma within_apart: "within k c j x \<Longrightarrow> c \<noteq> c' \<Longrightarrow> \<not> within k c' j x"
  by (auto simp: within_def)

lemma inside_only_other:
  assumes "inside_only k c s t" and "c \<noteq> c'"
  shows "tree_ok (abit t) (sbit t) k c' V = tree_ok (abit s) (sbit s) k c' V" and "abit t k c' = abit s k c'"
    and "sbit t (Suc k) i = sbit s (Suc k) i" and "abit t k c = abit s k c"
proof -
  show "tree_ok (abit t) (sbit t) k c' V = tree_ok (abit s) (sbit s) k c' V"
    by (rule tree_ok_cong) (use assms within_apart in \<open>auto simp: inside_only_def\<close>)
qed (use assms in \<open>auto simp: inside_only_def within_def\<close>)

text \<open>One round of the loop, on a half that has become free.\<close>

lemma free_step:
  assumes shape: "heap_shape s" and heap: "in_heap s (Suc k, i)" and c: "c div 2 = i"
    and tree: "sbit s (Suc k) i" "quiet (abit s) (sbit s) k c"
      "abit s k (buddy_of c) \<longleftrightarrow> V \<noteq> BFree" "tree_ok (abit s) (sbit s) k (buddy_of c) V"
    and lists: "lists_ok s F" "frees k (buddy_of c) V \<subseteq> F"
    and run: "free_loop (Suc k) k (addr k c s) s = (k', p', t)"
  shows "same_heap s t \<and> inside_only (Suc k) i s t \<and>
    (if V = BFree then k' = Suc k \<and> p' = addr (Suc k) i s \<and> tree_ok (abit t) (sbit t) (Suc k) i BFree \<and> lists_ok t (F - {(k, buddy_of c)})
     else k' = k \<and> p' = addr k c s \<and> tree_ok (abit t) (sbit t) (Suc k) i (halves c BFree V) \<and> lists_ok t F)"
proof -
  let ?b = "buddy_of c"
  define u where "u = upd_alloc k (\<lambda>a. bit_clear a c) s"
  have half: "in_heap s (k, c)" "in_heap s (k, ?b)" using in_heap_halves[OF heap] c by auto
  have idx: "blk_index k (addr k c s) s = c" using blk_index_addr[OF shape, of k c k] half by (simp add: in_heap_def)
  have same: "same_heap s u" by (simp add: u_def)
  have a: "abit u j x \<longleftrightarrow> \<not> (j = k \<and> x = c) \<and> abit s j x" "sbit u j x = sbit s j x" for j x
    using abit_upd(2)[OF shape, of k c j x] half by (simp_all add: u_def in_heap_def)
  have wc: "within (Suc k) i k c" using c by (auto simp: within_Suc)
  have iu: "inside_only (Suc k) i s u" using wc by (auto simp: inside_only_def a)
  have keep: "tree_ok (abit u) (sbit u) k e W = tree_ok (abit s) (sbit s) k e W" for e W by (rule tree_ok_cong) (auto simp: a)
  have lu: "lists_ok u F" using lists_ok_same[OF same] lists(1) by (simp add: u_def)
  show ?thesis
  proof (cases "V = BFree")
    case False
    then have "(k', p', t) = (k, addr k c s, u)"
      using run tree(3) a(1)[of k ?b] by (auto simp: free_loop.simps[of "Suc k" k] idx abit_def u_def Let_def)
    moreover have "tree_ok (abit u) (sbit u) (Suc k) i (halves c BFree V)"
      using tree False keep[of c BFree] keep[of ?b V] by (simp add: halves_simps[OF c] a)
    ultimately show ?thesis using same iu lu False by simp
  next
    case True
    define v where "v = upd_links (lst_remove (Blk (addr k ?b u))) u"
    define w where "w = upd_split (Suc k) (\<lambda>a. bit_clear a i) v"
    have same2: "same_heap s v" "same_heap s w" by (simp_all add: u_def v_def w_def)
    note geo = same_heap_geo[OF same] same_heap_geo[OF same2(1)]
    have p: "(if ?b mod 2 = 0 then addr k ?b u else addr k c s) = addr (Suc k) i s"
      by (rule half_cases[OF c]; simp add: geo flip: addr_half)
    have pi: "blk_index (Suc k) (addr (Suc k) i s) v = i"
      using blk_index_addr[OF shape, of "Suc k" i "Suc k"] heap by (simp add: in_heap_def geo)
    have "(k', p', t) = (Suc k, addr (Suc k) i s, w)"
      using run tree(3) True a(1)[of k ?b] p pi
      by (auto simp: free_loop.simps[of "Suc k" k] free_loop.simps[of "Suc k" "Suc k"] idx abit_def u_def v_def w_def Let_def)
    moreover have b: "abit w = abit u" "sbit w j x \<longleftrightarrow> \<not> (j = Suc k \<and> x = i) \<and> sbit s j x" for j x
      using abit_upd(4)[of v "Suc k" i j x] shape heap geo a(2) by (simp_all add: w_def in_heap_def) (simp_all add: v_def)
    have "quiet (abit w) (sbit w) k e = quiet (abit s) (sbit s) k e" for e
      by (rule quiet_cong) (auto simp: b a within_def)
    then have "tree_ok (abit w) (sbit w) (Suc k) i BFree"
      using tree True by (simp add: halves_simps(4)[OF c] b a del: quiet.simps)
    moreover have "inside_only (Suc k) i s w" using iu by (auto simp: inside_only_def b a)
    moreover have "lists_ok v (F - {(k, ?b)})"
      using lists_remove[OF _ lu, of k ?b] shape lists(2) True by (simp add: v_def geo)
    then have "lists_ok w (F - {(k, ?b)})" using lists_ok_same[of v w] by (simp add: w_def)
    ultimately show ?thesis using same2(2) True by simp
  qed
qed

text \<open>What the loop does to the tree: the block is gone, and the free block it ends with is not yet in a list.\<close>

definition freed :: "'a kbuddy_scheme \<Rightarrow> nat \<Rightarrow> nat \<Rightarrow> btree \<Rightarrow> nat \<times> nat \<Rightarrow> (nat \<times> nat) set \<Rightarrow> nat \<Rightarrow> u64 \<Rightarrow> 'a kbuddy_scheme \<Rightarrow> bool" where
  "freed s k i T b F k' p' t \<longleftrightarrow> same_heap s t \<and> inside_only k i s t \<and>
     (\<exists>y U. p' = addr k' y s \<and> (k', y) \<in> frees k i U \<and> tree_ok (abit t) (sbit t) k i U \<and> (U = BFree \<longleftrightarrow> k' = k)
        \<and> useds k i U = useds k i T - {b} \<and> lists_ok t (F - frees k i T \<union> (frees k i U - {(k', y)})))"

lemma freedI:
  assumes "same_heap s t" and "inside_only k i s t" and "p' = addr k' y s" and "(k', y) \<in> frees k i U"
    and "tree_ok (abit t) (sbit t) k i U" and "U = BFree \<longleftrightarrow> k' = k" and "useds k i U = useds k i T - {b}"
    and "lists_ok t G" and "F - frees k i T \<union> (frees k i U - {(k', y)}) = G"
  shows "freed s k i T b F k' p' t"
  unfolding freed_def using assms by blast

lemma halves_not_free [simp]: "halves c T V \<noteq> BFree"
  by (simp add: halves_def)

lemma free_half:
  assumes shape: "heap_shape s" and heap: "in_heap s (Suc k, i)" and c: "c div 2 = i"
    and tree: "tree_ok (abit s) (sbit s) (Suc k) i (halves c T V)" and b: "(m, x) \<in> useds k c T" and m: "m \<le> k"
    and lists: "frees (Suc k) i (halves c T V) \<subseteq> F"
    and run: "free_loop (Suc k) m (addr m x s) s = (k', p', t)"
    and IH: "\<And>k' p' t. free_loop k m (addr m x s) s = (k', p', t) \<Longrightarrow> freed s k c T (m, x) F k' p' t"
  shows "freed s (Suc k) i (halves c T V) (m, x) F k' p' t"
proof -
  let ?b = "buddy_of c"
  have used: "T \<noteq> BFree" using b by auto
  have tr: "sbit s (Suc k) i" "abit s k c" "abit s k ?b \<longleftrightarrow> V \<noteq> BFree" "tree_ok (abit s) (sbit s) k ?b V"
    using tree used by (simp_all add: halves_simps[OF c])
  have apart: "B \<inter> C = {}" if "B \<subseteq> frees k c U \<union> useds k c U" "C \<subseteq> frees k ?b W \<union> useds k ?b W" for B C U W
    using that blocks_within[of _ k c U] blocks_within[of _ k ?b W] within_apart[of k c _ _ ?b] by (metis buddy_of_simps(2) disjoint_iff subsetD)
  obtain k1 p1 u where 1: "free_loop k m (addr m x s) s = (k1, p1, u)" by (metis prod_cases3)
  obtain y U where ih: "same_heap s u" "inside_only k c s u" "p1 = addr k1 y s" "(k1, y) \<in> frees k c U"
    "tree_ok (abit u) (sbit u) k c U" "U = BFree \<longleftrightarrow> k1 = k" "useds k c U = useds k c T - {(m, x)}"
    "lists_ok u (F - frees k c T \<union> (frees k c U - {(k1, y)}))"
    using IH[OF 1] unfolding freed_def by blast
  note other = inside_only_other[OF ih(2) buddy_of_simps(2)[symmetric]]
  have used': "useds k ?b V \<union> (useds k c T - {(m, x)}) = useds (Suc k) i (halves c T V) - {(m, x)}"
    using apart[of "{(m, x)}" T "useds k ?b V" V] b by (auto simp: halves_simps[OF c])
  have in_F: "frees k ?b V \<subseteq> F" "frees k c T \<inter> frees k ?b V = {}"
    using lists apart[of "frees k c T" T "frees k ?b V" V] by (simp_all add: halves_simps[OF c])
  show ?thesis
  proof (cases "k1 = k")
    case False
    then have r: "(k', p', t) = (k1, p1, u)" using run free_loop_Suc[OF m, of "addr m x s" s] 1 by simp
    have "tree_ok (abit u) (sbit u) (Suc k) i (halves c U V)" using tr used ih(5,6) False other by (simp add: halves_simps[OF c])
    moreover have "F - frees (Suc k) i (halves c T V) \<union> (frees (Suc k) i (halves c U V) - {(k1, y)}) = F - frees k c T \<union> (frees k c U - {(k1, y)})"
      using in_F apart[of "{(k1, y)}" U "frees k ?b V" V] ih(4) by (auto simp: halves_simps[OF c])
    moreover have "k1 \<noteq> Suc k" using blocks_within[of "(k1, y)" k c U] ih(4) by (auto simp: within_def)
    moreover have "useds (Suc k) i (halves c U V) = useds (Suc k) i (halves c T V) - {(m, x)}"
      using used' ih(7) by (simp add: halves_simps(3)[OF c] Un_commute)
    moreover have "(k1, y) \<in> frees (Suc k) i (halves c U V)" using ih(4) by (simp add: halves_simps[OF c])
    ultimately show ?thesis using r freedI[OF ih(1) inside_only_half[OF ih(2) c] ih(3), of "halves c U V"] ih(8) by simp
  next
    case True
    then have U: "U = BFree" "y = c" using ih(4,6) by auto
    have r: "free_loop (Suc k) k (addr k c u) u = (k', p', t)"
      using run free_loop_Suc[OF m, of "addr m x s" s] 1 True ih(1,3) U by (simp add: same_heap_geo)
    have lu: "lists_ok u (F - frees k c T)" using ih(8) True U by simp
    have step: "same_heap u t \<and> inside_only (Suc k) i u t \<and>
      (if V = BFree then k' = Suc k \<and> p' = addr (Suc k) i u \<and> tree_ok (abit t) (sbit t) (Suc k) i BFree \<and> lists_ok t (F - frees k c T - {(k, ?b)})
       else k' = k \<and> p' = addr k c u \<and> tree_ok (abit t) (sbit t) (Suc k) i (halves c BFree V) \<and> lists_ok t (F - frees k c T))"
      by (rule free_step[OF _ _ c _ _ _ _ lu _ r])
        (use shape heap tr other ih(1,5) U in_F in \<open>auto simp: same_heap_geo in_heap_same\<close>)
    have st: "same_heap s t" "inside_only (Suc k) i s t"
      using step same_heap_trans[OF ih(1)] inside_only_trans[OF inside_only_half[OF ih(2) c]] by blast+
    show ?thesis
    proof (cases "V = BFree")
      case V: True
      have "F - frees (Suc k) i (halves c T V) \<union> (frees (Suc k) i BFree - {(Suc k, i)}) = F - frees k c T - {(k, ?b)}"
        using V by (auto simp: halves_simps[OF c])
      moreover have "useds (Suc k) i BFree = useds (Suc k) i (halves c T V) - {(m, x)}" using used' ih(7) U V by auto
      ultimately show ?thesis using step V ih(1) freedI[OF st, of p' "Suc k" i BFree "halves c T V" "(m, x)" "F - frees k c T - {(k, ?b)}" F]
        by (simp add: same_heap_geo del: tree_ok.simps)
    next
      case V: False
      have "F - frees (Suc k) i (halves c T V) \<union> (frees (Suc k) i (halves c BFree V) - {(k, c)}) = F - frees k c T"
        using in_F apart[of "{(k, c)}" BFree "frees k ?b V" V] by (auto simp: halves_simps[OF c])
      moreover have "useds (Suc k) i (halves c BFree V) = useds (Suc k) i (halves c T V) - {(m, x)}"
        using used' ih(7) U by (auto simp: halves_simps[OF c])
      moreover have "(k, c) \<in> frees (Suc k) i (halves c BFree V)" by (simp add: halves_simps[OF c])
      ultimately show ?thesis using step V ih(1) freedI[OF st, of p' k c "halves c BFree V" "halves c T V" "(m, x)" "F - frees k c T" F]
        by (simp add: same_heap_geo)
    qed
  qed
qed

lemma free_loop_tree:
  assumes "heap_shape s" and "in_heap s (k, i)" and "tree_ok (abit s) (sbit s) k i T" and "(m, x) \<in> useds k i T"
    and "lists_ok s F" and "frees k i T \<subseteq> F" and "free_loop k m (addr m x s) s = (k', p', t)"
  shows "freed s k i T (m, x) F k' p' t"
  using assms(2-4,6,7)
proof (induction k i T arbitrary: k' p' t rule: useds.induct)
  case (2 k i)
  then show ?case using assms(5) by (auto simp: freed_def free_loop.simps[of k k])
next
  case (4 k i l r)
  have le: "m \<le> k" if "(m, x) \<in> useds k c U" for c U
    using blocks_within[of "(m, x)" k c U] that by (simp add: within_def)
  from 4(5) consider (L) "(m, x) \<in> useds k (2 * i) l" | (R) "(m, x) \<in> useds k (2 * i + 1) r" by auto
  then show ?case
  proof cases
    case L
    show ?thesis unfolding split_halves(1)[of l r i]
      by (rule free_half[OF assms(1) 4(3) _ 4(4)[unfolded split_halves(1)[of l r i]] L le[OF L] 4(6)[unfolded split_halves(1)[of l r i]] 4(7)])
        (use 4 L in_heap_halves[OF 4(3)] in auto)
  next
    case R
    show ?thesis unfolding split_halves(2)[of l r i]
      by (rule free_half[OF assms(1) 4(3) _ 4(4)[unfolded split_halves(2)[of l r i]] R le[OF R] 4(6)[unfolded split_halves(2)[of l r i]] 4(7)])
        (use 4 R in_heap_halves[OF 4(3)] in auto)
  qed
qed auto

lemma bd_size_used:
  assumes inv: "bd_inv s T" and b: "(m, x) \<in> useds (MAXSIZE s) 0 T"
  shows "bd_size (addr m x s) s = m" and "in_heap s (m, x)" and "m < MAXSIZE s"
proof -
  have i: "heap_shape s" "tree_ok (abit s) (sbit s) (MAXSIZE s) 0 T" "T \<noteq> BUsed" using inv by (auto simp: bd_inv_def)
  note sp = used_split[OF i(2) b i(3)]
  show heap: "in_heap s (m, x)" using used_in_heap[OF b] by simp
  show m: "m < MAXSIZE s" using sp by simp
  have idx: "blk_index (Suc m) (addr m x s) s = x div 2"
    using blk_index_addr[OF i(1), of m x "Suc m"] heap by (simp add: in_heap_def)
  have low: "\<not> sbit s (Suc j) (blk_index (Suc j) (addr m x s) s)" if "j < m" for j
  proof -
    have "BLK_SIZE m = 2 ^ (m - Suc j) * BLK_SIZE (Suc j)" using that by (simp add: BLK_SIZE_def del: power_Suc flip: power_add)
    then have "blk_index (Suc j) (addr m x s) s = x * 2 ^ (m - Suc j)"
      using addr_eq(3)[OF i(1), of m x] heap by (simp add: blk_index_def in_heap_def)
    then show ?thesis using quiet_inside[of "abit s" "sbit s" m x "Suc j"] sp that by (simp add: within_def)
  qed
  have "find (\<lambda>k. bit_isset (bd_split s (Suc k)) (blk_index (Suc k) (addr m x s) s)) [0..<nsizes s] = Some m"
    using sp low m idx by (auto simp: find_Some_iff sbit_def MAXSIZE_def intro!: exI[of _ m])
  then show "bd_size (addr m x s) s = m" by (simp add: bd_size_def)
qed

lemma bd_free_used:
  assumes inv: "bd_inv s T" and held: "LkBuddy \<notin> set (held s)" and b: "(m, x) \<in> useds (MAXSIZE s) 0 T"
    and more: "useds (MAXSIZE s) 0 T \<noteq> {(m, x)}"
  shows "\<exists>t U. bd_free (addr m x s) s = Ok t \<and> same_heap s t \<and> bd_inv t U
    \<and> useds (MAXSIZE s) 0 U = useds (MAXSIZE s) 0 T - {(m, x)}"
proof -
  let ?M = "MAXSIZE s" and ?s = "s\<lparr>held := LkBuddy # held s\<rparr>"
  have i: "heap_shape ?s" "tree_ok (abit ?s) (sbit ?s) ?M 0 T" "lists_ok ?s (frees ?M 0 T)"
    using bd_inv_held(1)[of "LkBuddy # held s" s T] inv unfolding bd_inv_def bd_inv_held(4) by blast+
  have root: "in_heap ?s (?M, 0)" by (simp add: in_heap_def NBLK_def)
  obtain k p u where run: "free_loop ?M m (addr m x s) ?s = (k, p, u)" by (metis prod_cases3)
  then have "freed ?s ?M 0 T (m, x) (frees ?M 0 T) k p u"
    using free_loop_tree[OF i(1) root i(2) b i(3) subset_refl] by simp
  then obtain y U where f: "same_heap ?s u" "p = addr k y ?s" "(k, y) \<in> frees ?M 0 U" "tree_ok (abit u) (sbit u) ?M 0 U"
    "U = BFree \<longleftrightarrow> k = ?M" "useds ?M 0 U = useds ?M 0 T - {(m, x)}" "lists_ok u (frees ?M 0 U - {(k, y)})"
    unfolding freed_def Diff_cancel Un_empty_left by blast
  define t where "t = upd_links (lst_push (Head k) (Blk (addr k y u))) u"
  have same: "same_heap ?s t" using f(1) by (simp add: t_def)
  have heap: "in_heap u (k, y)" using free_in_heap[OF f(3)] by (simp add: in_heap_same[OF f(1)])
  have "start (k, y) \<notin> start ` (frees ?M 0 U - {(k, y)})"
    using frees_apart[OF f(3)] start_index[of k y] by force
  then have "lists_ok t (insert (k, y) (frees ?M 0 U - {(k, y)}))"
    unfolding t_def using i(1) by (intro lists_push[OF _ f(7) heap]) (simp add: same_heap_geo[OF f(1)])
  then have l: "lists_ok t (frees ?M 0 U)" using f(3) by (simp add: insert_absorb)
  have "U \<noteq> BFree" using f(6) b more by (cases U) auto
  moreover have "U \<noteq> BUsed" using f(3) by auto
  ultimately have "\<exists>l r. U = BSplit l r" by (cases U) auto
  moreover have "abit t = abit u" "sbit t = sbit u" by (simp_all add: t_def)
  ultimately have "bd_inv t U" using f(4) l i(1) by (simp add: bd_inv_def same_heap_geo[OF same])
  moreover have "bd_free (addr m x s) s = Ok (t\<lparr>held := held s\<rparr>)"
    using run held bd_size_used(1)[OF inv b] f(1,2)
    by (simp add: bd_free_def t_def same_heap_def addr_def)
  ultimately show ?thesis using f(6) same
    by (intro exI[of _ "t\<lparr>held := held s\<rparr>"] exI[of _ U]) (simp add: same_heap_def)
qed

section \<open>The contract of the allocator\<close>

definition overlap :: "nat \<times> nat \<Rightarrow> nat \<times> nat \<Rightarrow> bool" where
  "overlap r r' \<longleftrightarrow> fst r < fst r' + snd r' \<and> fst r' < fst r + snd r"

definition blk_range :: "'a kbuddy_scheme \<Rightarrow> nat \<times> nat \<Rightarrow> nat \<times> nat" where
  "blk_range s b = (unat (addr (fst b) (snd b) s), BLK_SIZE (fst b))"

text \<open>The memory in use, as start addresses and lengths.\<close>

definition in_use :: "'a kbuddy_scheme \<Rightarrow> (nat \<times> nat) set \<Rightarrow> bool" where
  "in_use s A \<longleftrightarrow> (\<exists>T. bd_inv s T \<and> A = blk_range s ` useds (MAXSIZE s) 0 T)"

lemma overlap_blocks:
  assumes "heap_shape s" and "in_heap s (k, x)" and "in_heap s (m, y)"
  shows "overlap (blk_range s (k, x)) (blk_range s (m, y)) \<longleftrightarrow> x * 2 ^ k < y * 2 ^ m + 2 ^ m \<and> y * 2 ^ m < x * 2 ^ k + 2 ^ k"
proof -
  have m: "j * BLK_SIZE n = j * 2 ^ n * 16" "BLK_SIZE n = 2 ^ n * 16" for j n by (simp_all add: BLK_SIZE_def LEAF_SIZE_def)
  show ?thesis using addr_eq(2)[OF assms(1), of k x] addr_eq(2)[OF assms(1), of m y] assms(2,3)
    unfolding overlap_def blk_range_def in_heap_def by (simp only: fst_conv snd_conv m) linarith
qed

lemma within_overlap:
  assumes "within k i m y"
  shows "i * 2 ^ k < y * 2 ^ m + 2 ^ m \<and> y * 2 ^ m < i * 2 ^ k + 2 ^ k"
proof -
  have "0 < (2 :: nat) ^ m" by simp
  then show ?thesis using within_interval[OF assms] by linarith
qed

lemma useds_nonempty: "tree_ok a sp k i T \<Longrightarrow> T \<noteq> BFree \<Longrightarrow> useds k i T \<noteq> {}"
  by (induction k i T rule: useds.induct) auto

text \<open>Free buddies are always joined: when no free block is large enough, every place for one meets a block in use.\<close>

lemma no_room:
  assumes "tree_ok a sp k i T" and "within k i m y" and "\<forall>b \<in> frees k i T. fst b < m"
  shows "\<exists>b \<in> useds k i T. within m y (fst b) (snd b) \<or> within (fst b) (snd b) m y"
  using assms
proof (induction k i T rule: useds.induct)
  case (1 k i)
  then show ?case by (auto simp: within_def)
next
  case (4 k i l r)
  show ?case
  proof (cases "m = Suc k")
    case True
    have "useds (Suc k) i (BSplit l r) \<noteq> {}" using useds_nonempty[OF 4(3)] by simp
    then obtain b where "b \<in> useds (Suc k) i (BSplit l r)" by blast
    then show ?thesis using blocks_within[of b "Suc k" i "BSplit l r"] 4(4) True by auto
  next
    case False
    then have "within k (2 * i) m y \<or> within k (2 * i + 1) m y" using 4(4) by (simp add: within_Suc)
    then show ?thesis using 4 by auto
  qed
qed auto

lemma blocks_no_overlap:
  assumes "heap_shape s" and "b \<in> useds (MAXSIZE s) 0 T" and "c \<in> useds (MAXSIZE s) 0 T" and "b \<noteq> c"
  shows "\<not> overlap (blk_range s b) (blk_range s c)"
proof -
  have ap: "start c div 2 ^ fst b \<noteq> snd b" "start b div 2 ^ fst c \<noteq> snd c"
    using blocks_apart[of b "MAXSIZE s" 0 T c] blocks_apart[of c "MAXSIZE s" 0 T b] assms(2-4) by auto
  have out: "\<not> (j * 2 ^ n \<le> z \<and> z < j * 2 ^ n + 2 ^ n)" if "z div 2 ^ n \<noteq> j" for z j n :: nat
    using that by (metis add.commute div_nat_eqI mult.commute mult_Suc)
  show ?thesis
    using overlap_blocks[OF assms(1), of "fst b" "snd b" "fst c" "snd c"] used_in_heap[OF assms(2)] used_in_heap[OF assms(3)]
      out[OF ap(1)] out[OF ap(2)] by (auto simp: start_def)
qed

lemma buddy_apart:
  assumes "bd_inv s T" and "A = blk_range s ` useds (MAXSIZE s) 0 T"
  shows "\<forall>r \<in> A. \<forall>r' \<in> A. r \<noteq> r' \<longrightarrow> \<not> overlap r r'"
  using assms blocks_no_overlap[of s _ T] by (auto simp: bd_inv_def)

lemma in_use_same:
  assumes "bd_inv t U" and "same_heap s t"
  shows "in_use t (blk_range s ` useds (MAXSIZE s) 0 U)"
  using assms by (auto simp: in_use_def blk_range_def same_heap_geo)

lemma blk_range_inj:
  assumes "heap_shape s" and "b \<in> useds (MAXSIZE s) 0 T" and "c \<in> useds (MAXSIZE s) 0 T" and "blk_range s b = blk_range s c"
  shows "b = c"
proof (rule ccontr)
  assume "b \<noteq> c"
  then have "\<not> overlap (blk_range s b) (blk_range s b)" using blocks_no_overlap[OF assms(1-3)] assms(4) by simp
  then show False by (simp add: overlap_def blk_range_def)
qed

lemma BLK_SIZE_mono: "k \<le> j \<Longrightarrow> BLK_SIZE k \<le> BLK_SIZE j"
  by (simp add: BLK_SIZE_def power_increasing)

lemma buddy_free_case:
  assumes T: "bd_inv s T" "A = blk_range s ` useds (MAXSIZE s) 0 T" and held: "LkBuddy \<notin> set (held s)"
    and p: "(unat p, sz) \<in> A" "A \<noteq> {(unat p, sz)}"
  shows "\<exists>t. bd_free p s = Ok t \<and> held t = held s \<and> in_use t (A - {(unat p, sz)})"
proof -
  have shape: "heap_shape s" using T(1) by (simp add: bd_inv_def)
  obtain b where b: "b \<in> useds (MAXSIZE s) 0 T" "(unat p, sz) = blk_range s b" using p(1) T(2) by blast
  have addr: "p = addr (fst b) (snd b) s" using b(2) by (simp add: blk_range_def word_unat_eq_iff)
  have more: "useds (MAXSIZE s) 0 T \<noteq> {b}" using p(2) T(2) b(2) by auto
  obtain t U where t: "bd_free p s = Ok t" "same_heap s t" "bd_inv t U" "useds (MAXSIZE s) 0 U = useds (MAXSIZE s) 0 T - {b}"
    using bd_free_used[OF T(1) held, of "fst b" "snd b"] b(1) more addr by auto
  have "inj_on (blk_range s) (useds (MAXSIZE s) 0 T)" using blk_range_inj[OF shape] by (auto intro: inj_onI)
  then have "blk_range s ` (useds (MAXSIZE s) 0 T - {b}) = A - {(unat p, sz)}"
    using b T(2) inj_on_image_set_diff[of "blk_range s" _ "useds (MAXSIZE s) 0 T" "{b}"] by auto
  then show ?thesis using t in_use_same[OF t(3,2)] by (auto simp: same_heap_def)
qed

lemma buddy_malloc_cases:
  assumes T: "bd_inv s T" "A = blk_range s ` useds (MAXSIZE s) 0 T" and held: "LkBuddy \<notin> set (held s)" and n: "unat n \<le> 2 ^ 63"
  shows "\<exists>p t. bd_malloc n s = Some (Ok (p, t)) \<and> held t = held s \<and>
    (p = 0 \<and> t = s
       \<and> (\<forall>k x. k \<le> MAXSIZE s \<longrightarrow> x < NBLK k s \<longrightarrow> unat n \<le> BLK_SIZE k \<longrightarrow> (\<exists>r \<in> A. overlap (blk_range s (k, x)) r))
     \<or> (\<exists>k. unat n \<le> BLK_SIZE k \<and> (k = 0 \<or> BLK_SIZE (k - 1) < unat n)
       \<and> unat (bd_base s) \<le> unat p \<and> unat p + BLK_SIZE k \<le> unat (bd_base s) + BLK_SIZE (MAXSIZE s)
       \<and> (\<forall>r \<in> A. \<not> overlap (unat p, BLK_SIZE k) r) \<and> in_use t (insert (unat p, BLK_SIZE k) A)))"
proof -
  have inv: "heap_shape s" "tree_ok (abit s) (sbit s) (MAXSIZE s) 0 T" using T(1) by (simp_all add: bd_inv_def)
  obtain fk where fk: "firstk n = Some fk" "unat n \<le> BLK_SIZE fk" "fk = 0 \<or> BLK_SIZE (fk - 1) < unat n"
    using firstk_fits[OF n] by blast
  from bd_malloc_cases[OF T(1) held fk(1)] show ?thesis
  proof (elim disjE conjE exE)
    assume none: "\<forall>b \<in> frees (MAXSIZE s) 0 T. fst b < fk" and r: "bd_malloc n s = Some (Ok (0, s))"
    have "\<exists>r \<in> A. overlap (blk_range s (k, x)) r" if k: "k \<le> MAXSIZE s" "x < NBLK k s" "unat n \<le> BLK_SIZE k" for k x
    proof -
      have "fk \<le> k" using fk(3) k(3) BLK_SIZE_mono[of k "fk - 1"] by (cases "k \<le> fk - 1") auto
      then have small: "\<forall>b \<in> frees (MAXSIZE s) 0 T. fst b < k" using none by fastforce
      have w: "within (MAXSIZE s) 0 k x" using k by (simp add: within_def NBLK_def)
      obtain b where b: "b \<in> useds (MAXSIZE s) 0 T" "within k x (fst b) (snd b) \<or> within (fst b) (snd b) k x"
        using no_room[OF inv(2) w small] by blast
      then have "overlap (blk_range s (k, x)) (blk_range s b)"
        using overlap_blocks[OF inv(1), of k x "fst b" "snd b"] used_in_heap[OF b(1)] k within_overlap by (auto simp: in_heap_def)
      then show ?thesis using b(1) T(2) by blast
    qed
    then show ?thesis using r by auto
  next
    fix x t U assume r: "bd_malloc n s = Some (Ok (addr fk x s, t))" "same_heap s t" "bd_inv t U"
      and new: "(fk, x) \<notin> useds (MAXSIZE s) 0 T" and U: "useds (MAXSIZE s) 0 U = insert (fk, x) (useds (MAXSIZE s) 0 T)"
    have heap: "in_heap s (fk, x)" using used_in_heap[of "(fk, x)" s U] U by simp
    have bnd: "unat (bd_base s) \<le> unat (addr fk x s) \<and> unat (addr fk x s) + BLK_SIZE fk \<le> unat (bd_base s) + BLK_SIZE (MAXSIZE s)"
      using addr_eq(2)[OF inv(1)] block_bound[of fk s x] heap by (simp add: in_heap_def)
    have free: "\<forall>r \<in> A. \<not> overlap (unat (addr fk x s), BLK_SIZE fk) r"
      using blocks_no_overlap[OF inv(1), of "(fk, x)" U] U new T(2) by (fastforce simp: blk_range_def)
    have use: "in_use t (insert (unat (addr fk x s), BLK_SIZE fk) A)"
      using in_use_same[OF r(3,2)] U T(2) by (simp add: blk_range_def)
    have "held t = held s" using r(2) by (simp add: same_heap_def)
    then show ?thesis using r(1) bnd free use fk(2,3) by auto
  qed
qed

text \<open>
  C5. The buddy allocator, in every state that its arrays and lists describe: \<open>A\<close> is the memory in use, and no two ranges
  of it overlap. \<^verbatim>\<open>bd_malloc\<close> returns, and either hands out a range of the smallest block size that holds the request,
  inside the heap and apart from everything in use, which is then in use too; or it returns 0 and changes nothing, and then
  every aligned block that could hold the request meets a range in use: no free memory is lost to fragmentation that
  joining buddies could undo. \<^verbatim>\<open>bd_free\<close> of a range in use returns and takes exactly that range back.
\<close>

theorem buddy_contract:
  assumes use: "in_use s A" and held: "LkBuddy \<notin> set (held s)"
  shows "(\<forall>r \<in> A. \<forall>r' \<in> A. r \<noteq> r' \<longrightarrow> \<not> overlap r r')
   \<and> (unat n \<le> 2 ^ 63 \<longrightarrow> (\<exists>p t. bd_malloc n s = Some (Ok (p, t)) \<and> held t = held s \<and>
        (p = 0 \<and> t = s
           \<and> (\<forall>k x. k \<le> MAXSIZE s \<longrightarrow> x < NBLK k s \<longrightarrow> unat n \<le> BLK_SIZE k \<longrightarrow> (\<exists>r \<in> A. overlap (blk_range s (k, x)) r))
         \<or> (\<exists>k. unat n \<le> BLK_SIZE k \<and> (k = 0 \<or> BLK_SIZE (k - 1) < unat n)
           \<and> unat (bd_base s) \<le> unat p \<and> unat p + BLK_SIZE k \<le> unat (bd_base s) + BLK_SIZE (MAXSIZE s)
           \<and> (\<forall>r \<in> A. \<not> overlap (unat p, BLK_SIZE k) r) \<and> in_use t (insert (unat p, BLK_SIZE k) A)))))
   \<and> ((unat p, sz) \<in> A \<longrightarrow> A \<noteq> {(unat p, sz)} \<longrightarrow>
        (\<exists>t. bd_free p s = Ok t \<and> held t = held s \<and> in_use t (A - {(unat p, sz)})))"
proof -
  obtain T where T: "bd_inv s T" "A = blk_range s ` useds (MAXSIZE s) 0 T" using use by (auto simp: in_use_def)
  show ?thesis using buddy_apart[OF T] buddy_malloc_cases[OF T held, of n] buddy_free_case[OF T held, of p sz] by blast
qed

text \<open>A heap of four leaves, of which the first and the third are in use.\<close>

definition bd_example :: kbuddy where
  "bd_example = \<lparr>held = [], nsizes = 3, bd_base = 4096,
     bd_links = lst_push (Head 0) (Blk 4112) (lst_push (Head 0) (Blk 4144)
       (lst_init (Head 2) (lst_init (Head 1) (lst_init (Head 0) \<lparr>nxt = \<lambda>p. p, prv = \<lambda>p. p\<rparr>)))),
     bd_alloc = (\<lambda>k. [[5], [3], [1]] ! k), bd_split = (\<lambda>k. [[], [3], [1]] ! k)\<rparr>"

lemma bd_example_in_use: "in_use bd_example {(4096, 16), (4128, 16)}"
proof -
  let ?T = "BSplit (BSplit BUsed BFree) (BSplit BUsed BFree)"
  have le2: "k \<le> 2 \<longleftrightarrow> k = 0 \<or> k = 1 \<or> k = 2" for k :: nat by linarith
  have max: "MAXSIZE bd_example = 2" "MAXSIZE bd_example = Suc (Suc 0)" by (simp_all add: MAXSIZE_def bd_example_def)
  have fr: "frees 2 0 ?T = {(0, 1), (0, 3)}" "useds 2 0 ?T = {(0, 0), (0, 2)}" by (auto simp: numeral_2_eq_2 eval_nat_numeral)
  have addr: "addr 0 i bd_example = 4096 + scast (of_nat (i * 16) :: u32)" for i
    by (simp add: addr_def bd_example_def BLK_SIZE_def LEAF_SIZE_def)
  have shape: "heap_shape bd_example"
    by (simp add: heap_shape_def max le2) (simp add: bd_example_def BLK_SIZE_def LEAF_SIZE_def NBLK_def MAXSIZE_def)
  have tree: "tree_ok (abit bd_example) (sbit bd_example) 2 0 ?T"
    by (simp add: numeral_2_eq_2) (simp add: abit_def sbit_def bd_example_def bit_isset_def)
  have "is_list (bd_links bd_example) (Head 0) [Blk 4112, Blk 4144]" "is_list (bd_links bd_example) (Head 1) []"
    "is_list (bd_links bd_example) (Head 2) []"
    by (simp_all add: bd_example_def is_list_def lst_push_def lst_init_def Let_def)
  then have "lists_ok bd_example (frees 2 0 ?T)"
    unfolding fr lists_ok_def max le2
    by (auto simp: in_heap_def max NBLK_def inj_on_def start_def addr conj_disj_distribL ex_disj_distrib
        intro!: exI[of _ "[]"] exI[of _ "[Blk 4112, Blk 4144]"])
  then have "bd_inv bd_example ?T" using shape tree by (simp add: bd_inv_def max)
  then show ?thesis unfolding in_use_def using fr
    by (intro exI[of _ ?T]) (simp add: max blk_range_def addr BLK_SIZE_def LEAF_SIZE_def)
qed

theorem buddy_contract_witness:
  "(\<exists>p t. bd_malloc 10 bd_example = Some (Ok (p, t)) \<and> held t = [])
   \<and> (\<exists>t. bd_free 4128 bd_example = Ok t \<and> in_use t {(4096, 16)})"
proof -
  have "LkBuddy \<notin> set (held bd_example)" "held bd_example = []" by (simp_all add: bd_example_def)
  then show ?thesis using buddy_contract[OF bd_example_in_use, of 10 4128 16] by (auto simp: insert_Diff_if)
qed

end
