(* ===== verification/KBuddyInit.thy ===== *)
theory KBuddyInit
  imports KBuddy
begin

text \<open>
  What \<^verbatim>\<open>bd_init\<close> of \<^verbatim>\<open>kernel/buddy.c\<close> builds: the tree in which the leaves of the allocator's own data and of the
  unavailable end of the heap are in use, with its free blocks in the lists, or the panic of its final check.
\<close>

section \<open>The tree of an initial heap\<close>

text \<open>A block is marked when it has a leaf below \<open>L\<close> or from \<open>R\<close> on.\<close>

definition marked :: "nat \<Rightarrow> nat \<Rightarrow> nat \<Rightarrow> nat \<Rightarrow> bool" where
  "marked L R k i \<longleftrightarrow> i * 2 ^ k < L \<or> R < i * 2 ^ k + 2 ^ k"

fun init_tree :: "nat \<Rightarrow> nat \<Rightarrow> nat \<Rightarrow> nat \<Rightarrow> btree" where
  "init_tree L R 0 i = (if marked L R 0 i then BUsed else BFree)"
| "init_tree L R (Suc k) i =
     (if marked L R (Suc k) i then BSplit (init_tree L R k (2 * i)) (init_tree L R k (2 * i + 1)) else BFree)"

lemma marked_Suc: "marked L R (Suc k) i \<longleftrightarrow> marked L R k (2 * i) \<or> marked L R k (2 * i + 1)"
proof -
  have e: "i * 2 ^ Suc k + 2 ^ Suc k = (2 * i + 1) * 2 ^ k + 2 ^ k"
    "i * 2 ^ Suc k = 2 * i * 2 ^ k" "(2 * i + 1) * 2 ^ k = 2 * i * 2 ^ k + 2 ^ k" by (simp_all add: algebra_simps)
  show ?thesis unfolding marked_def e by (auto simp: e(3))
qed

lemma init_tree_free [simp]: "init_tree L R k i = BFree \<longleftrightarrow> \<not> marked L R k i"
  by (cases k) auto

lemma init_quiet:
  assumes "\<not> marked L R k i"
    and "\<And>j x. within k i j x \<Longrightarrow> j < k \<Longrightarrow> a j x = marked L R j x" and "\<And>j x. within k i j x \<Longrightarrow> 0 < j \<Longrightarrow> sp j x = marked L R j x"
  shows "quiet a sp k i"
  using assms
proof (induction k arbitrary: i)
  case (Suc k)
  have un: "\<not> marked L R k (2 * i)" "\<not> marked L R k (2 * i + 1)" using Suc.prems(1) marked_Suc by blast+
  have "quiet a sp k c" if "c = 2 * i \<or> c = 2 * i + 1" for c
    using that un Suc.prems(2,3) by (intro Suc.IH) (auto simp: within_Suc)
  then show ?case using un Suc.prems by (simp add: within_Suc)
qed simp

lemma init_tree_ok:
  assumes "\<And>j x. within k i j x \<Longrightarrow> j < k \<Longrightarrow> a j x = marked L R j x" and "\<And>j x. within k i j x \<Longrightarrow> 0 < j \<Longrightarrow> sp j x = marked L R j x"
  shows "tree_ok a sp k i (init_tree L R k i)"
  using assms
proof (induction k arbitrary: i)
  case (Suc k)
  have sub: "tree_ok a sp k c (init_tree L R k c)" if "c = 2 * i \<or> c = 2 * i + 1" for c
    using that Suc.prems by (intro Suc.IH) (auto simp: within_Suc)
  show ?case
  proof (cases "marked L R (Suc k) i")
    case True
    then show ?thesis using sub Suc.prems marked_Suc[of L R k i] by (simp add: within_Suc)
  next
    case False
    then have "quiet a sp (Suc k) i" using Suc.prems by (intro init_quiet) auto
    then show ?thesis using False by simp
  qed
qed simp

lemma init_tree_frees:
  "(j, x) \<in> frees k i (init_tree L R k i) \<longleftrightarrow> within k i j x \<and> \<not> marked L R j x \<and> (j < k \<longrightarrow> marked L R (Suc j) (x div 2))"
proof (induction k arbitrary: i)
  case (Suc k)
  have up: "marked L R k c" if "within k c j x" "marked L R j x" for c j x
    using that within_interval[OF that(1)] by (auto simp: marked_def)
  show ?case
  proof (cases "marked L R (Suc k) i")
    case True
    have "x div 2 = i" if "within k (2 * i) k x \<or> within k (2 * i + 1) k x" for x using that by auto
    then have top: "marked L R (Suc j) (x div 2)" if "within k (2 * i) j x \<or> within k (2 * i + 1) j x" "\<not> j < k"
      using that True by (cases "j = k") (auto simp: within_def)
    show ?thesis using True Suc.IH[of "2 * i"] Suc.IH[of "2 * i + 1"] top by (auto simp: within_Suc)
  next
    case False
    have "\<not> marked L R (Suc j) (x div 2)" if w: "within (Suc k) i j x" "j < Suc k"
    proof -
      have "within (Suc k) i (Suc j) (x div 2)"
        using w by (auto simp: within_def div_mult2_eq Suc_diff_le simp flip: power_Suc) (simp add: div_mult2_eq)
      then show ?thesis using False within_interval by (fastforce simp: marked_def)
    qed
    then show ?thesis using False by (cases "j = Suc k") (auto simp: within_def le_Suc_eq)
  qed
qed (cases "j = 0"; auto)

lemma init_tree_useds: "b \<in> useds k i (init_tree L R k i) \<longleftrightarrow> fst b = 0 \<and> within k i 0 (snd b) \<and> marked L R 0 (snd b)"
proof (induction k arbitrary: i)
  case (Suc k)
  have "marked L R (Suc k) i" if "within (Suc k) i 0 x" "marked L R 0 x" for x
    using that(2) within_interval[OF that(1)] by (auto simp: marked_def)
  then show ?case using Suc.IH[of "2 * i"] Suc.IH[of "2 * i + 1"] by (auto simp: within_Suc)
qed (cases b; auto)

lemma finite_frees: "finite (frees k i T)"
  by (induction k i T rule: frees.induct) auto

text \<open>The free blocks hold exactly the leaves from \<open>L\<close> to \<open>R\<close>.\<close>

lemma init_tree_size:
  assumes "L \<le> R"
  shows "(\<Sum>b \<in> frees k i (init_tree L R k i). 2 ^ fst b) = card ({i * 2 ^ k..<i * 2 ^ k + 2 ^ k} \<inter> {L..<R})"
proof (induction k arbitrary: i)
  case 0
  have "{i..<Suc i} = {i}" by auto
  then show ?case using assms by (auto simp: marked_def)
next
  case (Suc k)
  show ?case
  proof (cases "marked L R (Suc k) i")
    case True
    have e: "{i * 2 ^ Suc k..<i * 2 ^ Suc k + 2 ^ Suc k} =
      {2 * i * 2 ^ k..<2 * i * 2 ^ k + 2 ^ k} \<union> {(2 * i + 1) * 2 ^ k..<(2 * i + 1) * 2 ^ k + 2 ^ k}"
      by (auto simp: algebra_simps)
    have "frees k (2 * i) (init_tree L R k (2 * i)) \<inter> frees k (2 * i + 1) (init_tree L R k (2 * i + 1)) = {}"
      using blocks_within[of _ k] within_halves[of k i] by blast
    then have "(\<Sum>b \<in> frees (Suc k) i (init_tree L R (Suc k) i). 2 ^ fst b) =
      card ({2 * i * 2 ^ k..<2 * i * 2 ^ k + 2 ^ k} \<inter> {L..<R}) + card ({(2 * i + 1) * 2 ^ k..<(2 * i + 1) * 2 ^ k + 2 ^ k} \<inter> {L..<R})"
      using True Suc.IH[of "2 * i"] Suc.IH[of "2 * i + 1"] by (simp add: sum.union_disjoint finite_frees)
    also have "\<dots> = card ({i * 2 ^ Suc k..<i * 2 ^ Suc k + 2 ^ Suc k} \<inter> {L..<R})"
      unfolding e Int_Un_distrib2 by (subst card_Un_disjoint) (auto simp: algebra_simps)
    finally show ?thesis .
  next
    case False
    then have "{i * 2 ^ Suc k..<i * 2 ^ Suc k + 2 ^ Suc k} \<inter> {L..<R} = {i * 2 ^ Suc k..<i * 2 ^ Suc k + 2 ^ Suc k}"
      by (auto simp: marked_def)
    then show ?thesis using False by simp
  qed
qed

section \<open>Marking\<close>

definition bits_or :: "'a kbuddy_scheme \<Rightarrow> 'a kbuddy_scheme \<Rightarrow> (nat \<Rightarrow> nat \<Rightarrow> bool) \<Rightarrow> bool" where
  "bits_or s t Q \<longleftrightarrow> same_heap s t \<and> bd_links t = bd_links s
     \<and> (\<forall>k x. abit t k x \<longleftrightarrow> abit s k x \<or> Q k x) \<and> (\<forall>k x. sbit t k x \<longleftrightarrow> sbit s k x \<or> 0 < k \<and> Q k x)"

lemma bits_or_trans: "bits_or s t Q \<Longrightarrow> bits_or t u P \<Longrightarrow> bits_or s u (\<lambda>k x. Q k x \<or> P k x)"
  using same_heap_trans[of s t u] by (auto simp: bits_or_def)

lemma mark_block_bits:
  assumes "heap_shape s" and "k \<le> MAXSIZE s" and "x < NBLK k s"
  shows "bits_or s (mark_block k x s) (\<lambda>j y. j = k \<and> y = x)"
proof (cases "k = 0")
  case True
  then show ?thesis using abit_upd[OF assms] by (auto simp: bits_or_def mark_block_def)
next
  case False
  let ?u = "upd_split k (\<lambda>a. bit_set a x) s"
  have same: "same_heap s ?u" by simp
  show ?thesis using False abit_upd[OF assms] abit_upd[of ?u k x] assms
    by (auto simp: bits_or_def mark_block_def same_heap_geo[OF same])
qed

lemma mark_blocks_bits:
  assumes "heap_shape s" and "k \<le> MAXSIZE s" and "\<forall>x \<in> set xs. x < NBLK k s"
  shows "bits_or s (fold (mark_block k) xs s) (\<lambda>j y. j = k \<and> y \<in> set xs)"
  using assms
proof (induction xs arbitrary: s)
  case (Cons x xs)
  have b: "bits_or s (mark_block k x s) (\<lambda>j y. j = k \<and> y = x)" using Cons.prems by (intro mark_block_bits) auto
  then have same: "same_heap s (mark_block k x s)" by (simp add: bits_or_def)
  have "bits_or (mark_block k x s) (fold (mark_block k) xs (mark_block k x s)) (\<lambda>j y. j = k \<and> y \<in> set xs)"
    using Cons.prems by (intro Cons.IH) (auto simp: same_heap_geo[OF same])
  from bits_or_trans[OF b this] show ?case by (auto simp: bits_or_def)
qed (simp add: bits_or_def)

lemma mark_levels_bits:
  assumes "heap_shape s" and "\<forall>k \<in> set ks. k \<le> MAXSIZE s \<and> hi k \<le> NBLK k s"
    and "\<And>k t. same_heap s t \<Longrightarrow> k \<in> set ks \<Longrightarrow> blk_index k p t = lo k \<and> blk_index_next k q t = hi k"
  shows "bits_or s (fold (\<lambda>k s. fold (mark_block k) [blk_index k p s..<blk_index_next k q s] s) ks s)
    (\<lambda>j y. j \<in> set ks \<and> lo j \<le> y \<and> y < hi j)"
  using assms
proof (induction ks arbitrary: s)
  case (Cons k ks)
  let ?t = "fold (mark_block k) [lo k..<hi k] s"
  have b: "bits_or s ?t (\<lambda>j y. j = k \<and> y \<in> set [lo k..<hi k])" using Cons.prems(1,2) by (intro mark_blocks_bits) auto
  then have same: "same_heap s ?t" by (simp add: bits_or_def)
  have "bits_or ?t (fold (\<lambda>k s. fold (mark_block k) [blk_index k p s..<blk_index_next k q s] s) ks ?t)
      (\<lambda>j y. j \<in> set ks \<and> lo j \<le> y \<and> y < hi j)"
    using Cons.prems same_heap_trans[OF same] by (intro Cons.IH) (auto simp: same_heap_geo[OF same])
  from bits_or_trans[OF b this] show ?case using Cons.prems(3)[of s k] by (auto simp: bits_or_def)
qed (simp add: bits_or_def)

section \<open>Building the free lists\<close>

definition leftb :: "nat \<Rightarrow> nat \<Rightarrow> nat" where
  "leftb L k = (if L mod 2 ^ k \<noteq> 0 then L div 2 ^ k + 1 else L div 2 ^ k)"

lemma leftb_less: "x * 2 ^ k < L \<longleftrightarrow> x < leftb L k"
proof -
  let ?d = "(2 :: nat) ^ k"
  have L: "L = L div ?d * ?d + L mod ?d" "L mod ?d < ?d" by (simp_all only: div_mult_mod_eq) simp
  consider "x < L div ?d" | "x = L div ?d" | "Suc (L div ?d) \<le> x" by linarith
  then show ?thesis
  proof cases
    case 1
    then have "x * ?d < L div ?d * ?d" by simp
    then have "x * ?d < L" using L(1) by linarith
    then show ?thesis using 1 by (simp add: leftb_def)
  next
    case 2
    have "L div ?d * ?d < L \<longleftrightarrow> 0 < L mod ?d" using L(1) by linarith
    then show ?thesis using 2 by (simp add: leftb_def)
  next
    case 3
    then have "Suc (L div ?d) * ?d \<le> x * ?d" by (intro mult_le_mono1) simp
    then have "?d + L div ?d * ?d \<le> x * ?d" by simp
    then have "\<not> x * ?d < L" using L by linarith
    then show ?thesis using 3 by (simp add: leftb_def)
  qed
qed

lemma marked_iff: "marked L R k x \<longleftrightarrow> x < leftb L k \<or> R div 2 ^ k \<le> x"
proof -
  have "R < x * 2 ^ k + 2 ^ k \<longleftrightarrow> R div 2 ^ k \<le> x"
    using div_less_iff_less_mult[of "2 ^ k" R "Suc x"] by (simp add: less_Suc_eq_le add.commute)
  then show ?thesis by (simp add: marked_def leftb_less)
qed

text \<open>The free block of the pair of a block, when the other one is marked.\<close>

definition pair_free :: "nat \<Rightarrow> nat \<Rightarrow> nat \<Rightarrow> nat \<Rightarrow> nat set" where
  "pair_free L R k b = {x \<in> {b, buddy_of b}. \<not> marked L R k x \<and> marked L R k (buddy_of x)}"

lemma buddy_of_inv [simp]: "buddy_of (buddy_of b) = b"
proof -
  obtain i where "b div 2 = i" by blast
  then show ?thesis by (rule half_cases) (auto simp: buddy_of_def)
qed

lemma pair_free_eq:
  "pair_free L R k b = (if marked L R k b = marked L R k (buddy_of b) then {}
     else if marked L R k b then {buddy_of b} else {b})"
  by (auto simp: pair_free_def)

lemma buddy_in_heap: "k < MAXSIZE s \<Longrightarrow> b < NBLK k s \<Longrightarrow> buddy_of b < NBLK k s"
  using in_heap_halves[of s k "b div 2" "buddy_of b"] NBLK_Suc[of k s] by (auto simp: in_heap_def)

lemma initfree_pair:
  assumes "heap_shape s" and "k < MAXSIZE s" and "b < NBLK k s" and "\<forall>x < NBLK k s. abit s k x = marked L R k x"
    and "bd_initfree_pair k b s = (f, t)"
  shows "f = card (pair_free L R k b) * BLK_SIZE k" and "same_heap s t" and "abit t = abit s" and "sbit t = sbit s"
    and "lists_ok s F \<Longrightarrow> \<forall>x \<in> pair_free L R k b. start (k, x) \<notin> start ` F \<Longrightarrow> lists_ok t (F \<union> Pair k ` pair_free L R k b)"
proof -
  have bits: "bit_isset (bd_alloc s k) b = marked L R k b" "bit_isset (bd_alloc s k) (buddy_of b) = marked L R k (buddy_of b)"
    using assms(3,4) buddy_in_heap[OF assms(2,3)] by (auto simp: abit_def)
  have heap: "in_heap s (k, b)" "in_heap s (k, buddy_of b)" using assms(2,3) buddy_in_heap[OF assms(2,3)] by (auto simp: in_heap_def)
  show "f = card (pair_free L R k b) * BLK_SIZE k" "same_heap s t" "abit t = abit s" "sbit t = sbit s"
    using assms(5) by (auto simp: bd_initfree_pair_def Let_def bits pair_free_eq split: if_splits)
  assume "lists_ok s F" "\<forall>x \<in> pair_free L R k b. start (k, x) \<notin> start ` F"
  then show "lists_ok t (F \<union> Pair k ` pair_free L R k b)"
    using assms(5) lists_push[OF assms(1), of F k] heap
    by (auto simp: bd_initfree_pair_def Let_def bits pair_free_eq split: if_splits)
qed

definition level_free :: "nat \<Rightarrow> nat \<Rightarrow> nat \<Rightarrow> nat set" where
  "level_free L R k = {x. leftb L k \<le> x \<and> x < R div 2 ^ k \<and> marked L R k (buddy_of x)}"

text \<open>Both ends of the free memory are in one pair, whose left block is free.\<close>

definition twice :: "nat \<Rightarrow> nat \<Rightarrow> nat \<Rightarrow> bool" where
  "twice L R k \<longleftrightarrow> even (leftb L k) \<and> R div 2 ^ k = leftb L k + 1"

lemma buddy_near: "buddy_of x = x + 1 \<or> Suc (buddy_of x) = x"
  by (auto simp: buddy_of_def)

definition left_pair :: "nat \<Rightarrow> nat \<Rightarrow> nat \<Rightarrow> nat set" where
  "left_pair L R k = pair_free L R k (leftb L k)"

definition right_pair :: "nat \<Rightarrow> nat \<Rightarrow> nat \<Rightarrow> nat set" where
  "right_pair L R k = (if R div 2 ^ k \<le> leftb L k then {} else pair_free L R k (R div 2 ^ k))"

lemma level_pairs:
  shows "level_free L R k = left_pair L R k \<union> right_pair L R k" and "card (left_pair L R k) + card (right_pair L R k) = card (level_free L R k) + (if twice L R k then 1 else 0)"
    and "\<not> twice L R k \<Longrightarrow> left_pair L R k \<inter> right_pair L R k = {}"
proof -
  let ?l = "leftb L k" and ?r = "R div 2 ^ k"
  have m: "marked L R k x \<longleftrightarrow> x < ?l \<or> ?r \<le> x" for x by (rule marked_iff)
  show eq: "level_free L R k = left_pair L R k \<union> right_pair L R k"
  proof (intro equalityI subsetI)
    fix x assume "x \<in> level_free L R k"
    then have x: "?l \<le> x" "x < ?r" "buddy_of x < ?l \<or> ?r \<le> buddy_of x" by (auto simp: level_free_def m)
    then show "x \<in> left_pair L R k \<union> right_pair L R k"
    proof (cases "buddy_of x < ?l")
      case True
      then have "x = ?l" using x buddy_near[of x] by linarith
      then show ?thesis using x by (auto simp: left_pair_def pair_free_def m)
    next
      case False
      then have "buddy_of x = ?r" using x buddy_near[of x] by linarith
      then have "x = buddy_of ?r" by (metis buddy_of_inv)
      then show ?thesis using x \<open>buddy_of x = ?r\<close> by (auto simp: right_pair_def pair_free_def m)
    qed
  next
    fix x assume "x \<in> left_pair L R k \<union> right_pair L R k"
    then show "x \<in> level_free L R k" by (auto simp: left_pair_def right_pair_def pair_free_def level_free_def m split: if_splits)
  qed
  have fin: "finite (left_pair L R k)" "finite (right_pair L R k)" by (auto simp: left_pair_def right_pair_def pair_free_eq)
  show dis: "left_pair L R k \<inter> right_pair L R k = {}" if "\<not> twice L R k"
  proof (rule ccontr)
    assume "left_pair L R k \<inter> right_pair L R k \<noteq> {}"
    then have "?l < ?r" "?r = buddy_of ?l \<or> buddy_of ?r = ?l \<or> buddy_of ?r = buddy_of ?l"
      by (auto simp: left_pair_def right_pair_def pair_free_def split: if_splits)
    then have "?l < ?r" "?r = buddy_of ?l" by (metis buddy_of_inv less_irrefl)+
    then have "even ?l" "?r = ?l + 1" by (auto simp: buddy_of_def split: if_splits)
    then show False using that by (simp add: twice_def)
  qed
  show "card (left_pair L R k) + card (right_pair L R k) = card (level_free L R k) + (if twice L R k then 1 else 0)"
  proof (cases "twice L R k")
    case True
    then have t: "?r = ?l + 1" "buddy_of ?l = ?r" "buddy_of ?r = ?l" by (auto simp: twice_def buddy_of_def)
    then have "left_pair L R k = {?l}" "right_pair L R k = {?l}" by (auto simp: left_pair_def right_pair_def pair_free_eq m)
    then show ?thesis using True eq by simp
  next
    case False
    then show ?thesis using eq dis card_Un_disjoint[OF fin] by simp
  qed
qed

text \<open>The state around one round of the loop.\<close>

definition ends_at :: "'a kbuddy_scheme \<Rightarrow> nat \<Rightarrow> nat \<Rightarrow> u64 \<Rightarrow> u64 \<Rightarrow> nat \<Rightarrow> bool" where
  "ends_at s L R p q k \<longleftrightarrow> k < MAXSIZE s \<and> leftb L k < NBLK k s \<and> R div 2 ^ k < NBLK k s
     \<and> blk_index_next k p s = leftb L k \<and> blk_index k q s = R div 2 ^ k"

lemma ends_at_same: "same_heap s t \<Longrightarrow> ends_at t L R p q k = ends_at s L R p q k"
  by (simp add: ends_at_def same_heap_geo blk_index_next_def) (simp add: same_heap_def)

definition count_free :: "nat \<Rightarrow> nat \<Rightarrow> nat \<Rightarrow> nat" where
  "count_free L R k = (card (level_free L R k) + (if twice L R k then 1 else 0)) * BLK_SIZE k"

lemma start_apart:
  assumes "(k, x) \<in> frees m i T" and "F \<subseteq> frees m i T" and "(k, x) \<notin> F"
  shows "start (k, x) \<notin> start ` F"
proof
  assume "start (k, x) \<in> start ` F"
  then obtain b where b: "b \<in> F" "start b = start (k, x)" by auto
  have "b \<in> frees m i T" "b \<noteq> (k, x)" using b(1) assms(2,3) by auto
  then have "start b div 2 ^ k \<noteq> x" by (rule frees_apart[OF assms(1)])
  then show False using b(2) start_index[of k x] by simp
qed

lemma initfree_round:
  assumes shape: "heap_shape s" and e: "ends_at s L R p q k" and bits: "\<forall>x < NBLK k s. abit s k x = marked L R k x"
  obtains t where "\<And>ks f. bd_initfree_loop (k # ks) p q f s = bd_initfree_loop ks p q (f + count_free L R k) t"
    and "same_heap s t" and "abit t = abit s" and "sbit t = sbit s"
    and "\<And>F m i T. lists_ok s F \<Longrightarrow> \<not> twice L R k \<Longrightarrow> F \<inter> Pair k ` level_free L R k = {} \<Longrightarrow>
      F \<union> Pair k ` level_free L R k \<subseteq> frees m i T \<Longrightarrow> lists_ok t (F \<union> Pair k ` level_free L R k)"
proof -
  let ?l = "leftb L k" and ?r = "R div 2 ^ k"
  note lp = level_pairs[of L R k]
  have e': "k < MAXSIZE s" "?l < NBLK k s" "?r < NBLK k s" "blk_index_next k p s = ?l" "blk_index k q s = ?r"
    using e by (simp_all add: ends_at_def)
  obtain f u where 1: "bd_initfree_pair k ?l s = (f, u)" by (metis surj_pair)
  note p1 = initfree_pair[OF shape e'(1,2) bits 1, folded left_pair_def]
  obtain g v where 2: "bd_initfree_pair k ?r u = (g, v)" by (metis surj_pair)
  have p2: "g = card (pair_free L R k ?r) * BLK_SIZE k" "same_heap u v" "abit v = abit u" "sbit v = sbit u"
    "lists_ok u F \<Longrightarrow> \<forall>x \<in> pair_free L R k ?r. start (k, x) \<notin> start ` F \<Longrightarrow> lists_ok v (F \<union> Pair k ` pair_free L R k ?r)" for F
    using initfree_pair[OF _ _ _ _ 2, of L R] shape e'(1,3) bits by (auto simp: same_heap_geo[OF p1(2)] p1(3))
  have run: "bd_initfree_loop (k # ks) p q h s = bd_initfree_loop ks p q (h + count_free L R k) (if ?r \<le> ?l then u else v)" for ks h
    using 1 2 e'(4,5) p1(1) p2(1) lp(2) by (auto simp: Let_def count_free_def right_pair_def add_mult_distrib add.assoc simp flip: lp(2))
  have lists: "lists_ok (if ?r \<le> ?l then u else v) (F \<union> Pair k ` level_free L R k)"
    if "lists_ok s F" "\<not> twice L R k" "F \<inter> Pair k ` level_free L R k = {}" "F \<union> Pair k ` level_free L R k \<subseteq> frees m i T" for F m i T
  proof -
    have new: "start (k, x) \<notin> start ` G" if "x \<in> level_free L R k" "(k, x) \<notin> G" "G \<subseteq> F \<union> Pair k ` level_free L R k" for x G
      using start_apart[of k x m i T G] that \<open>F \<union> Pair k ` level_free L R k \<subseteq> frees m i T\<close> by blast
    have u: "lists_ok u (F \<union> Pair k ` left_pair L R k)"
      using that(1,3) lp(1) by (intro p1(5) ballI new) auto
    show ?thesis
    proof (cases "?r \<le> ?l")
      case True
      then show ?thesis using u lp(1) by (simp add: right_pair_def)
    next
      case False
      then have r: "pair_free L R k ?r = right_pair L R k" by (simp add: right_pair_def)
      have "lists_ok v (F \<union> Pair k ` left_pair L R k \<union> Pair k ` right_pair L R k)"
        using p2(5)[OF u] that(2,3) lp(1,3) unfolding r by (intro p2(5)[OF u, unfolded r] ballI new) auto
      then show ?thesis using False lp(1) by (simp add: image_Un Un_assoc)
    qed
  qed
  show thesis
    by (rule that[OF run _ _ _ lists]) (use p1 p2 same_heap_trans in auto)
qed

lemma initfree_all:
  assumes "heap_shape s" and "distinct ks"
    and "\<forall>k \<in> set ks. ends_at s L R p q k \<and> (\<forall>x < NBLK k s. abit s k x = marked L R k x)" and "bd_initfree_loop ks p q f s = (g, t)"
  shows "g = f + sum_list (map (count_free L R) ks) \<and> same_heap s t \<and> abit t = abit s \<and> sbit t = sbit s"
    and "lists_ok s F \<Longrightarrow> \<forall>k \<in> set ks. \<not> twice L R k \<Longrightarrow> F \<inter> Sigma (set ks) (level_free L R) = {} \<Longrightarrow>
      F \<union> Sigma (set ks) (level_free L R) \<subseteq> frees m i T \<Longrightarrow> lists_ok t (F \<union> Sigma (set ks) (level_free L R))"
  using assms
proof (induction ks arbitrary: s f F)
  case (Cons k ks)
  {
    case 1
    obtain u where u: "\<And>ks f. bd_initfree_loop (k # ks) p q f s = bd_initfree_loop ks p q (f + count_free L R k) u"
      "same_heap s u" "abit u = abit s" "sbit u = sbit s"
      by (rule initfree_round[of s L R p q k]) (use 1 in auto)
    have "g = f + count_free L R k + sum_list (map (count_free L R) ks) \<and> same_heap u t \<and> abit t = abit u \<and> sbit t = sbit u"
      by (rule Cons.IH(1)) (use 1 u in \<open>auto simp: same_heap_geo[OF u(2)] ends_at_same[OF u(2)]\<close>)
    then show ?case using u same_heap_trans[OF u(2)] by simp
  next
    case 2
    obtain u where u: "\<And>ks f. bd_initfree_loop (k # ks) p q f s = bd_initfree_loop ks p q (f + count_free L R k) u"
      "same_heap s u" "abit u = abit s" "lists_ok u (F \<union> Pair k ` level_free L R k)"
    proof (rule initfree_round[of s L R p q k])
      fix u assume u: "\<And>ks f. bd_initfree_loop (k # ks) p q f s = bd_initfree_loop ks p q (f + count_free L R k) u"
        "same_heap s u" "abit u = abit s" and l: "\<And>F m i T. lists_ok s F \<Longrightarrow> \<not> twice L R k \<Longrightarrow> F \<inter> Pair k ` level_free L R k = {} \<Longrightarrow>
          F \<union> Pair k ` level_free L R k \<subseteq> frees m i T \<Longrightarrow> lists_ok u (F \<union> Pair k ` level_free L R k)"
      show thesis by (rule that[OF u l[of F m i T]]) (use 2 in auto)
    qed (use 2 in auto)
    have e: "F \<union> Sigma (set (k # ks)) (level_free L R) = F \<union> Pair k ` level_free L R k \<union> Sigma (set ks) (level_free L R)" by auto
    show ?case unfolding e
      by (rule Cons.IH(2)[where f = "f + count_free L R k"])
        (use 2 u in \<open>auto simp: same_heap_geo[OF u(2)] ends_at_same[OF u(2)]\<close>)
  }
qed auto

lemma level_free_tree:
  assumes "0 < L" and "R < 2 ^ M" and "0 < M"
  shows "frees M 0 (init_tree L R M 0) = Sigma {..<M} (level_free L R)"
proof -
  have root: "marked L R M 0" using assms(1) by (simp add: marked_def)
  have parent: "marked L R (Suc j) (x div 2) \<longleftrightarrow> marked L R j x \<or> marked L R j (buddy_of x)" for j x
    by (rule half_cases[OF refl, of x]) (use marked_Suc[of L R j "x div 2"] in auto)
  have bound: "x < 2 ^ (M - j)" if "x < R div 2 ^ j" "j \<le> M" for x j
  proof -
    have "R div 2 ^ j \<le> 2 ^ M div 2 ^ j" using assms(2) by (intro div_le_mono) simp
    then show ?thesis using that by (simp add: power_diff)
  qed
  have "(j, x) \<in> frees M 0 (init_tree L R M 0) \<longleftrightarrow> j < M \<and> x \<in> level_free L R j" for j x
    unfolding init_tree_frees level_free_def using root bound[of x j] assms(2)
    by (cases "j < M") (auto simp: within_def parent marked_iff[of L R j x] div_eq_0_iff le_less)
  then show ?thesis by auto
qed

lemma count_free_sum:
  assumes "0 < L" and "L \<le> R" and "R < 2 ^ M" and "0 < M"
  shows "sum_list (map (count_free L R) [0..<M]) = 16 * (R - L) + (\<Sum>k < M. if twice L R k then BLK_SIZE k else 0)"
proof -
  have fin: "finite (level_free L R k)" for k by (rule finite_subset[of _ "{..<R div 2 ^ k}"]) (auto simp: level_free_def)
  have "{0 * 2 ^ M..<0 * 2 ^ M + 2 ^ M} \<inter> {L..<R} = {L..<R}" using assms(3) by auto
  then have "(\<Sum>b \<in> Sigma {..<M} (level_free L R). 2 ^ fst b) = R - L"
    using init_tree_size[OF assms(2), of M 0] level_free_tree[OF assms(1,3,4)] by simp
  moreover have "(\<Sum>b \<in> Sigma {..<M} (level_free L R). 2 ^ fst b) = (\<Sum>k < M. card (level_free L R k) * 2 ^ k)"
    using fin sum.Sigma[of "{..<M}" "level_free L R" "\<lambda>k x. 2 ^ k :: nat"] by (simp add: case_prod_beta)
  ultimately have "(\<Sum>k < M. card (level_free L R k) * BLK_SIZE k) = 16 * (R - L)"
    by (simp add: BLK_SIZE_def LEAF_SIZE_def mult.assoc[symmetric] flip: sum_distrib_right)
  then show ?thesis
    by (simp add: sum_list_distinct_conv_sum_set count_free_def add_mult_distrib sum.distrib lessThan_atLeast0 if_distrib[of "\<lambda>x. x * _"] cong: if_cong)
qed

section \<open>Initialisation\<close>

lemma BLK_16: "BLK_SIZE k = 16 * 2 ^ k"
  by (simp add: BLK_SIZE_def LEAF_SIZE_def)

lemma leaf_off:
  assumes "heap_shape s" and "a \<le> 2 ^ MAXSIZE s"
  shows "unat (bd_base s + of_nat (16 * a)) = unat (bd_base s) + 16 * a" and "bd_off (bd_base s + of_nat (16 * a)) s = 16 * a"
    and "unat (bd_base s + of_nat (16 * a) - bd_base s) = 16 * a"
proof -
  have "16 * a \<le> BLK_SIZE (MAXSIZE s)" using assms(2) by (simp add: BLK_16)
  then have b: "16 * a < 2 ^ 31" "unat (bd_base s) + 16 * a < 2 ^ 64" using assms(1) by (simp_all add: heap_shape_def)
  have u: "unat (of_nat (16 * a) :: u64) = 16 * a" using b(1) by (intro unat_of_nat_u64) simp
  have "unat (bd_base s) + unat (of_nat (16 * a) :: u64) < 18446744073709551616" unfolding u using b(2) by simp
  from unat_plus_u64[OF this] show "unat (bd_base s + of_nat (16 * a)) = unat (bd_base s) + 16 * a" unfolding u .
  show "bd_off (bd_base s + of_nat (16 * a)) s = 16 * a" by (rule off_of(1)[OF b(1)])
  show "unat (bd_base s + of_nat (16 * a) - bd_base s) = 16 * a"
    using u by (simp only: add_diff_cancel_left')
qed

lemma leaf_index:
  assumes "heap_shape s" and "a \<le> 2 ^ MAXSIZE s"
  shows "blk_index k (bd_base s + of_nat (16 * a)) s = a div 2 ^ k" and "blk_index_next k (bd_base s + of_nat (16 * a)) s = leftb a k"
proof -
  have "16 * a div BLK_SIZE k = a div 2 ^ k" "16 * a mod BLK_SIZE k = 16 * (a mod 2 ^ k)" by (simp_all add: BLK_16)
  then show "blk_index k (bd_base s + of_nat (16 * a)) s = a div 2 ^ k" "blk_index_next k (bd_base s + of_nat (16 * a)) s = leftb a k"
    unfolding blk_index_def blk_index_next_def leaf_off[OF assms] by (simp_all add: leftb_def)
qed

lemma leftb_le: "b \<le> n * 2 ^ k \<Longrightarrow> leftb b k \<le> n"
  using leftb_less[of n k b] by simp

lemma bd_mark_bits:
  assumes shape: "heap_shape s" and base: "unat (bd_base s) mod 16 = 0" and ab: "a \<le> b" "b \<le> 2 ^ MAXSIZE s"
  shows "\<exists>t. bd_mark (bd_base s + of_nat (16 * a)) (bd_base s + of_nat (16 * b)) s = Ok t
    \<and> bits_or s t (\<lambda>k x. k \<le> MAXSIZE s \<and> a div 2 ^ k \<le> x \<and> x < leftb b k)"
proof -
  let ?p = "bd_base s + of_nat (16 * a)" and ?q = "bd_base s + of_nat (16 * b)"
  have al: "unat ?p mod LEAF_SIZE = 0" "unat ?q mod LEAF_SIZE = 0"
    using leaf_off(1)[OF shape, of a] leaf_off(1)[OF shape, of b] ab base by (simp_all add: LEAF_SIZE_def mod_add_eq)
  have n: "k \<in> set [0..<nsizes s] \<longleftrightarrow> k \<le> MAXSIZE s" for k using shape by (auto simp: heap_shape_def MAXSIZE_def)
  have hi: "leftb b k \<le> NBLK k s" if "k \<le> MAXSIZE s" for k
    using that ab(2) by (intro leftb_le) (simp add: NBLK_def flip: power_add)
  have idx: "blk_index k ?p t = a div 2 ^ k \<and> blk_index_next k ?q t = leftb b k" if "same_heap s t" for k t
  proof -
    have "bd_base t = bd_base s" using that by (simp add: same_heap_def)
    then show ?thesis using leaf_index[of t a k] leaf_index[of t b k] shape ab by (simp add: same_heap_geo[OF that])
  qed
  have "bits_or s (fold (\<lambda>k s. fold (mark_block k) [blk_index k ?p s..<blk_index_next k ?q s] s) [0..<nsizes s] s)
      (\<lambda>j y. j \<in> set [0..<nsizes s] \<and> a div 2 ^ j \<le> y \<and> y < leftb b j)"
    by (rule mark_levels_bits[OF shape, of _ "\<lambda>k. leftb b k" ?p "\<lambda>k. a div 2 ^ k" ?q]) (use n hi idx in auto)
  then show ?thesis using al unfolding bd_mark_def n by (intro exI conjI) (auto simp: Let_def)
qed

text \<open>The bytes of the allocator's own data.\<close>

definition vec_size :: "nat \<Rightarrow> nat \<Rightarrow> nat" where
  "vec_size n k = ROUNDUP (2 ^ (n - 1 - k)) 8 div 8"

definition init_meta :: "nat \<Rightarrow> nat" where
  "init_meta n = ROUNDUP (32 * n + sum_list (map (vec_size n) [0..<n]) + sum_list (map (vec_size n) [1..<n])) 16"

text \<open>The state before the marking: empty lists and clear arrays.\<close>

definition init_clear :: "u64 \<Rightarrow> nat \<Rightarrow> 'a kbuddy_scheme \<Rightarrow> 'a kbuddy_scheme" where
  "init_clear base n s =
     (let s = s\<lparr>bd_base := base, nsizes := n\<rparr>;
          s = fold (\<lambda>k. upd_links (lst_init (Head k))) [0..<n] s;
          s = s\<lparr>bd_alloc := (\<lambda>k. if k < n then replicate (vec_size n k) 0 else bd_alloc s k)\<rparr>
      in s\<lparr>bd_split := (\<lambda>k. if 0 < k \<and> k < n then replicate (vec_size n k) 0 else bd_split s k)\<rparr>)"

lemma init_links: "fold (\<lambda>k. upd_links (lst_init (Head k))) ks s = s\<lparr>bd_links := fold (\<lambda>k. lst_init (Head k)) ks (bd_links s)\<rparr>"
  by (induction ks arbitrary: s) (simp_all add: upd_links_def)

lemma init_heads:
  "k \<in> set ks \<or> is_list l (Head k) [] \<Longrightarrow> is_list (fold (\<lambda>k. lst_init (Head k)) ks l) (Head k) []"
proof (induction ks arbitrary: l)
  case (Cons j ks)
  have "k \<in> set ks \<or> is_list (lst_init (Head j) l) (Head k) []"
    using Cons.prems by (auto simp: is_list_def lst_init_def)
  then show ?case using Cons.IH by simp
qed simp

lemma init_clear_state:
  assumes "0 < n" and "BLK_SIZE (n - 1) < 2 ^ 31" and "unat base + BLK_SIZE (n - 1) < 2 ^ 64"
    and u_def: "u = init_clear base n s"
  shows "heap_shape u" and "lists_ok u {}" and "bd_base u = base" and "MAXSIZE u = n - 1" and "nsizes u = n" and "held u = held s"
    and "k \<le> n - 1 \<Longrightarrow> x < NBLK k u \<Longrightarrow> \<not> abit u k x" and "0 < k \<Longrightarrow> k \<le> n - 1 \<Longrightarrow> x < NBLK k u \<Longrightarrow> \<not> sbit u k x"
proof -
  show base: "bd_base u = base" "MAXSIZE u = n - 1" "nsizes u = n" "held u = held s"
    by (simp_all add: u_def init_clear_def Let_def init_links MAXSIZE_def)
  have vec: "2 ^ (n - Suc k) \<le> 8 * vec_size n k" for k
    unfolding vec_size_def ROUNDUP_def by simp
  have arr: "bd_alloc u k = (if k < n then replicate (vec_size n k) 0 else bd_alloc s k)"
    "bd_split u k = (if 0 < k \<and> k < n then replicate (vec_size n k) 0 else bd_split s k)" for k
    by (simp_all add: u_def init_clear_def Let_def init_links)
  have le: "k \<le> n - 1 \<longleftrightarrow> k < n" "k \<le> n - Suc 0 \<longleftrightarrow> k < n" for k using assms(1) by auto
  show "heap_shape u"
    using assms(1-3) vec by (simp add: heap_shape_def base arr le NBLK_def)
  show "lists_ok u {}"
  proof -
    have "is_list (bd_links u) (Head k) []" if "k < n" for k
      using init_heads[of k "[0..<n]" "bd_links s"] that by (simp add: u_def init_clear_def Let_def init_links)
    then show ?thesis using assms(1) by (auto simp: lists_ok_def base le intro: exI[of _ "[]"])
  qed
  have z: "\<not> bit_isset (replicate m 0) x" if "x < 8 * m" for m x
    using that by (simp add: bit_isset_bit less_mult_imp_div_less mult.commute)
  have nb: "NBLK k u \<le> 8 * vec_size n k" for k
    using vec[of k] by (simp add: NBLK_def base)
  show "\<not> abit u k x" if "k \<le> n - 1" "x < NBLK k u"
    using that z[of x "vec_size n k"] nb[of k] le by (simp add: abit_def arr)
  show "\<not> sbit u k x" if "0 < k" "k \<le> n - 1" "x < NBLK k u"
    using that z[of x "vec_size n k"] nb[of k] le by (simp add: sbit_def arr)
qed

text \<open>A range that the allocator can manage: aligned, below 2 GB, not a power of two, with room for its own data.\<close>

definition init_range :: "u64 \<Rightarrow> u64 \<Rightarrow> bool" where
  "init_range base bend \<longleftrightarrow>
     (let len = unat (bend - base); n = bd_sizes_for len; heap = BLK_SIZE (n - 1)
      in unat base mod 16 = 0 \<and> 0 < unat base \<and> 1 < n \<and> len < heap \<and> init_meta n \<le> len \<and> 2 * init_meta n \<le> heap
       \<and> heap < 2 ^ 31 \<and> unat base + heap < 2 ^ 64)"

lemma roundup_16: "0 < x \<Longrightarrow> b mod 16 = 0 \<Longrightarrow> ROUNDUP (b + x) 16 = b + ROUNDUP x 16"
proof -
  assume x: "0 < x" and "b mod 16 = 0"
  then obtain c where c: "b = 16 * c" by auto
  have "(16 * c + x - 1) div 16 = c + (x - 1) div 16" using x by (metis Nat.add_diff_assoc One_nat_def Suc_leI div_mult_self4 zero_neq_numeral)
  then show ?thesis by (simp add: ROUNDUP_def c)
qed

lemma init_end:
  assumes "len < 16 * N"
  shows "16 * N - ROUNDUP (16 * N - len) 16 = 16 * (len div 16)"
proof -
  have "(16 * N - len - 1) div 16 + 1 = N - len div 16" using assms by linarith
  then show ?thesis using assms by (simp add: ROUNDUP_def)
qed

lemma init_meta_pos: "0 < n \<Longrightarrow> 0 < init_meta n div 16" and init_meta_16: "16 * (init_meta n div 16) = init_meta n"
  by (simp_all add: init_meta_def ROUNDUP_def)

lemma bd_init_clear:
  assumes r: "init_range base bend" and n: "n = bd_sizes_for (unat (bend - base))"
  shows "bd_init base bend s =
    (let u = init_clear base n s; p = base + of_nat (init_meta n)
     in obind (bd_mark_data_structures p u) (\<lambda>(meta, s).
        obind (bd_mark_unavailable bend s) (\<lambda>(unavailable, s).
        let bd_end = bd_base s + of_nat (BLK_SIZE (MAXSIZE s) - unavailable);
            (free, s) = bd_initfree p bd_end s
        in if free \<noteq> BLK_SIZE (MAXSIZE s) - meta - unavailable then Panic ''bd_init: free mem'' else Ok s)))"
proof -
  let ?x = "32 * n + sum_list (map (vec_size n) [0..<n]) + sum_list (map (vec_size n) [1..<n])"
  have c: "unat base mod 16 = 0" "0 < unat base" "1 < n" "2 * init_meta n \<le> BLK_SIZE (n - 1)"
    "unat base + BLK_SIZE (n - 1) < 18446744073709551616"
    using r n by (simp_all add: init_range_def Let_def)
  have base: "of_nat (ROUNDUP (unat base) LEAF_SIZE) = base"
  proof -
    obtain c where "unat base = 16 * c" using c(1) by auto
    then have "ROUNDUP (unat base) LEAF_SIZE = unat base" using c(2) by (cases c) (simp_all add: ROUNDUP_def LEAF_SIZE_def)
    then show ?thesis by simp
  qed
  have vec: "vec_bytes k t = vec_size (nsizes t) k" for k and t :: "'a kbuddy_scheme"
    by (simp add: vec_bytes_def vec_size_def NBLK_def MAXSIZE_def)
  have xm: "?x \<le> init_meta n" by (simp add: init_meta_def ROUNDUP_def)
  have "unat (of_nat ?x :: u64) = ?x" using xm c(4,5) by (intro unat_of_nat_u64) linarith
  then have "unat (base + of_nat ?x) = unat base + ?x"
    using xm c(4,5) unat_plus_u64[of base "of_nat ?x"] by linarith
  moreover have "ROUNDUP (unat base + ?x) 16 = unat base + init_meta n"
    using roundup_16[of ?x "unat base"] c(1,3) by (simp add: init_meta_def)
  ultimately have p: "of_nat (ROUNDUP (unat (base + of_nat (32 * n) + of_nat (sum_list (map (vec_size n) [0..<n]))
      + of_nat (sum_list (map (vec_size n) [1..<n])))) LEAF_SIZE) = base + of_nat (init_meta n)"
    by (simp add: LEAF_SIZE_def add.assoc)
  show ?thesis
    unfolding bd_init_def init_clear_def base init_links vec Let_def using p by (simp add: n[symmetric] init_links cong: if_cong)
qed

lemma leftb_pow: "k \<le> M \<Longrightarrow> leftb (2 ^ M) k = 2 ^ (M - k)"
  by (simp add: leftb_def power_diff le_imp_power_dvd)

lemma init_marks:
  assumes shape: "heap_shape u" and base: "unat (bd_base u) mod 16 = 0" and LR: "L \<le> R" "R < 2 ^ MAXSIZE u" and lists: "lists_ok u {}"
    and clear: "\<And>k x. k \<le> MAXSIZE u \<Longrightarrow> x < NBLK k u \<Longrightarrow> \<not> abit u k x \<and> (0 < k \<longrightarrow> \<not> sbit u k x)"
  obtains v w where "bd_mark (bd_base u) (bd_base u + of_nat (16 * L)) u = Ok v"
    and "bd_mark (bd_base u + of_nat (16 * R)) (bd_base u + of_nat (16 * 2 ^ MAXSIZE u)) v = Ok w"
    and "same_heap u v" and "same_heap u w" and "lists_ok w {}"
    and "\<And>k x. k \<le> MAXSIZE u \<Longrightarrow> x < NBLK k u \<Longrightarrow> abit w k x = marked L R k x \<and> (0 < k \<longrightarrow> sbit w k x = marked L R k x)"
proof -
  obtain v where v: "bd_mark (bd_base u) (bd_base u + of_nat (16 * L)) u = Ok v"
    "bits_or u v (\<lambda>k x. k \<le> MAXSIZE u \<and> 0 div 2 ^ k \<le> x \<and> x < leftb L k)"
    using bd_mark_bits[OF shape base, of 0 L] LR by auto
  have sv: "same_heap u v" using v(2) by (simp add: bits_or_def)
  then have bv: "bd_base v = bd_base u" by (simp add: same_heap_def)
  obtain w where w: "bd_mark (bd_base u + of_nat (16 * R)) (bd_base u + of_nat (16 * 2 ^ MAXSIZE u)) v = Ok w"
    "bits_or v w (\<lambda>k x. k \<le> MAXSIZE u \<and> R div 2 ^ k \<le> x \<and> x < leftb (2 ^ MAXSIZE u) k)"
    using bd_mark_bits[of v R "2 ^ MAXSIZE u"] shape base LR(2) by (auto simp: same_heap_geo[OF sv] bv)
  have uw: "bits_or u w (\<lambda>k x. (k \<le> MAXSIZE u \<and> 0 div 2 ^ k \<le> x \<and> x < leftb L k)
      \<or> (k \<le> MAXSIZE u \<and> R div 2 ^ k \<le> x \<and> x < leftb (2 ^ MAXSIZE u) k))"
    by (rule bits_or_trans[OF v(2) w(2)])
  have bits: "abit w k x = marked L R k x \<and> (0 < k \<longrightarrow> sbit w k x = marked L R k x)" if "k \<le> MAXSIZE u" "x < NBLK k u" for k x
    using uw clear[OF that] that leftb_pow[OF that(1)] by (auto simp: bits_or_def marked_iff NBLK_def)
  have sw: "same_heap u w" "lists_ok w {}" using uw lists lists_ok_same[of u w] by (auto simp: bits_or_def)
  show thesis by (rule that[OF v(1) w(1) sv sw bits])
qed

lemma init_tree_inv:
  assumes shape: "heap_shape t" and LR: "0 < L" "R < 2 ^ MAXSIZE t" and M: "0 < MAXSIZE t"
    and bits: "\<And>k x. k \<le> MAXSIZE t \<Longrightarrow> x < NBLK k t \<Longrightarrow> abit t k x = marked L R k x \<and> (0 < k \<longrightarrow> sbit t k x = marked L R k x)"
    and lists: "lists_ok t (Sigma {..<MAXSIZE t} (level_free L R))"
  shows "in_use t {(unat (bd_base t) + 16 * x, 16) |x. x < 2 ^ MAXSIZE t \<and> (x < L \<or> R \<le> x)}"
proof -
  let ?M = "MAXSIZE t" and ?T = "init_tree L R (MAXSIZE t) 0"
  have w: "k \<le> ?M \<and> x < NBLK k t" if "within ?M 0 k x" for k x using that by (auto simp: within_def NBLK_def div_eq_0_iff)
  have "tree_ok (abit t) (sbit t) ?M 0 ?T" by (rule init_tree_ok) (use bits w in auto)
  moreover have "marked L R ?M 0" using LR(1) by (simp add: marked_def)
  then have "\<exists>l r. ?T = BSplit l r" using M by (cases ?M) auto
  ultimately have inv: "bd_inv t ?T" using shape lists level_free_tree[OF LR M] by (simp add: bd_inv_def)
  have "useds ?M 0 ?T = {(0, x) |x. x < 2 ^ ?M \<and> (x < L \<or> R \<le> x)}"
    by (auto simp: init_tree_useds within_def marked_def div_eq_0_iff)
  moreover have "blk_range t (0, x) = (unat (bd_base t) + 16 * x, 16)" if "x < 2 ^ ?M" for x
    using addr_eq(2)[OF shape, of 0 x] that by (simp add: blk_range_def NBLK_def BLK_16 mult.commute)
  ultimately have "blk_range t ` useds ?M 0 ?T = {(unat (bd_base t) + 16 * x, 16) |x. x < 2 ^ ?M \<and> (x < L \<or> R \<le> x)}"
    by (force simp: image_iff)
  then show ?thesis using inv unfolding in_use_def by metis
qed

lemma init_range_leaves:
  assumes "init_range base bend" and n: "n = bd_sizes_for (unat (bend - base))"
    and "L = init_meta n div 16" and "R = unat (bend - base) div 16"
  shows "unat base mod 16 = 0" and "1 < n" and "0 < n" and "BLK_SIZE (n - 1) < 2 ^ 31" and "unat base + BLK_SIZE (n - 1) < 2 ^ 64"
    and "unat (bend - base) < 16 * 2 ^ (n - 1)" and "16 * L = init_meta n" and "0 < L" and "L \<le> R" and "R < 2 ^ (n - 1)"
    and "L \<le> 2 ^ (n - 2)"
proof -
  have c: "unat base mod 16 = 0" "1 < n" "unat (bend - base) < 16 * 2 ^ (n - 1)" "init_meta n \<le> unat (bend - base)"
    "2 * init_meta n \<le> 16 * 2 ^ (n - 1)" "BLK_SIZE (n - 1) < 2 ^ 31" "unat base + BLK_SIZE (n - 1) < 2 ^ 64" "0 < n"
    using assms(1) n by (simp_all add: init_range_def Let_def BLK_16)
  then show "unat base mod 16 = 0" "1 < n" "0 < n" "BLK_SIZE (n - 1) < 2 ^ 31" "unat base + BLK_SIZE (n - 1) < 2 ^ 64"
    "unat (bend - base) < 16 * 2 ^ (n - 1)" by blast+
  show m: "16 * L = init_meta n" "0 < L" using init_meta_16[of n] init_meta_pos[of n] c(8) assms(3) by simp_all
  show "L \<le> R" "R < 2 ^ (n - 1)" using m(1) c(3,4) assms(4) by (simp_all add: less_mult_imp_div_less mult.commute)
  have "n - 1 = Suc (n - 2)" using c(2) by simp
  then have "2 ^ (n - 1) = 2 * (2 :: nat) ^ (n - 2)" by (simp only: power_Suc)
  then show "L \<le> 2 ^ (n - 2)" using m(1) c(5) by linarith
qed

lemma init_ends:
  assumes "heap_shape w" and "k < MAXSIZE w" and "L \<le> 2 ^ (MAXSIZE w - 1)" and "R < 2 ^ MAXSIZE w"
  shows "ends_at w L R (bd_base w + of_nat (16 * L)) (bd_base w + of_nat (16 * R)) k"
proof -
  let ?M = "MAXSIZE w"
  have d: "(2 :: nat) ^ (?M - 1) = 2 ^ (?M - 1 - k) * 2 ^ k" "(2 :: nat) ^ (?M - 1 - k) < 2 ^ (?M - k)"
    using assms(2) by (simp_all flip: power_add)
  have "leftb L k \<le> 2 ^ (?M - 1 - k)" by (rule leftb_le) (use assms(3) d(1) in simp)
  then have "leftb L k < NBLK k w" unfolding NBLK_def using d(2) by (rule le_less_trans)
  moreover have "R div 2 ^ k < NBLK k w"
    using assms(2,4) by (intro less_mult_imp_div_less) (simp add: NBLK_def flip: power_add)
  moreover have "L \<le> 2 ^ ?M" by (rule order.trans[OF assms(3)]) simp
  ultimately show ?thesis using leaf_index[OF assms(1), of L] leaf_index[OF assms(1), of R] assms(2-4)
    by (simp add: ends_at_def)
qed

text \<open>
  C22. \<^verbatim>\<open>bd_init\<close> on a range that the allocator can manage, with \<open>L\<close> leaves of its own data and \<open>R\<close> leaves in all: it
  returns with the allocator's contract in force, where exactly its own data and the leaves from \<open>R\<close> to the end of the
  power-of-two heap are in use; or its final check panics. The panic happens exactly when, at some size, the free memory
  begins at a left block of a pair and ends within its right one: \<^verbatim>\<open>bd_initfree\<close> then counts that pair twice.
\<close>

theorem bd_init_builds:
  assumes r: "init_range base bend" and n: "n = bd_sizes_for (unat (bend - base))"
    and L: "L = init_meta n div 16" and R: "R = unat (bend - base) div 16"
  shows "if \<exists>k < n - 1. twice L R k then bd_init base bend s = Panic ''bd_init: free mem''
    else \<exists>t. bd_init base bend s = Ok t \<and> held t = held s
      \<and> in_use t {(unat base + 16 * x, 16) |x. x < 2 ^ (n - 1) \<and> (x < L \<or> R \<le> x)}"
proof -
  define u where "u = init_clear base n s"
  let ?M = "n - 1" and ?p = "base + of_nat (16 * L) :: u64"
  note c = init_range_leaves[OF r n L R]
  note st = init_clear_state[OF c(3,4,5) u_def]
  have clear: "\<not> abit u k x \<and> (0 < k \<longrightarrow> \<not> sbit u k x)" if "k \<le> ?M" "x < NBLK k u" for k x
    using st(7)[OF that] st(8)[OF _ that] by simp
  obtain v w where m: "bd_mark base ?p u = Ok v" "bd_mark (base + of_nat (16 * R)) (base + of_nat (16 * 2 ^ ?M)) v = Ok w"
    "same_heap u v" "same_heap u w" "lists_ok w {}"
    "\<And>k x. k \<le> ?M \<Longrightarrow> x < NBLK k u \<Longrightarrow> abit w k x = marked L R k x \<and> (0 < k \<longrightarrow> sbit w k x = marked L R k x)"
    by (rule init_marks[of u L R, unfolded st(3,4), OF st(1) c(1,9,10) st(2) clear]) (assumption | rule that)+
  have geo: "bd_base v = base" "MAXSIZE v = ?M" "bd_base w = base" "MAXSIZE w = ?M" "heap_shape w" "NBLK k w = NBLK k u" for k
    using m(3,4) st by (simp_all add: same_heap_geo[OF m(3)] same_heap_geo[OF m(4)]) (simp_all add: same_heap_def)
  have meta: "bd_mark_data_structures (base + of_nat (init_meta n)) u = Ok (16 * L, v)"
  proof -
    have "L \<le> 2 ^ ?M" using c(9,10) by simp
    then have "unat (?p - base) = 16 * L" by (rule leaf_off(3)[OF st(1), unfolded st(3,4)])
    then show ?thesis unfolding bd_mark_data_structures_def c(7)[symmetric] st(3) m(1) by (simp only: obind.simps)
  qed
  let ?un = "ROUNDUP (16 * 2 ^ ?M - unat (bend - base)) 16"
  have un: "bd_mark_unavailable bend v = Ok (?un, w)" "BLK_SIZE ?M - ?un = 16 * R"
    using m(2) init_end[OF c(6)] c(6) R by (simp_all add: bd_mark_unavailable_def geo(1,2) BLK_16 Let_def LEAF_SIZE_def)
  obtain g t where gt: "bd_initfree_loop [0..<?M] ?p (base + of_nat (16 * R)) 0 w = (g, t)" by (metis surj_pair)
  have ends: "\<forall>k \<in> set [0..<?M]. ends_at w L R ?p (base + of_nat (16 * R)) k \<and> (\<forall>x < NBLK k w. abit w k x = marked L R k x)"
    using init_ends[OF geo(5), unfolded geo(3,4), of _ L R] c(10,11) m(6) by (simp add: geo(6) numeral_2_eq_2)
  note all = initfree_all[OF geo(5) distinct_upt ends gt]
  have g: "g = 16 * (R - L) + (\<Sum>k < ?M. if twice L R k then BLK_SIZE k else 0)"
    using all(1) count_free_sum[OF c(8-10)] c(2) by simp
  have same: "same_heap w t" "abit t = abit w" "sbit t = sbit w" using all(1) by auto
  have run: "bd_init base bend s = (if g \<noteq> 16 * R - 16 * L then Panic ''bd_init: free mem'' else Ok t)"
  proof -
    have "BLK_SIZE ?M - (16 * L + ?un) = 16 * R - 16 * L" using un(2) by linarith
    then show ?thesis using gt meta un unfolding bd_init_clear[OF r n, of s, folded u_def]
      by (simp add: bd_initfree_def geo(3,4) same_heap_geo(1)[OF same(1)] flip: c(7))
  qed
  show ?thesis
  proof (cases "\<exists>k < ?M. twice L R k")
    case True
    then have "0 < (\<Sum>k < ?M. if twice L R k then BLK_SIZE k else 0)" by (auto intro!: sum_pos2)
    then show ?thesis using True run g by (auto simp: diff_mult_distrib2)
  next
    case False
    then have "g = 16 * R - 16 * L" using g by (simp add: diff_mult_distrib2)
    moreover have "lists_ok t ({} \<union> Sigma (set [0..<?M]) (level_free L R))"
      by (rule all(2)[OF m(5), of ?M 0 "init_tree L R ?M 0"])
        (use False level_free_tree[OF c(8,10)] c(2) in \<open>auto simp: lessThan_atLeast0\<close>)
    then have "in_use t {(unat base + 16 * x, 16) |x. x < 2 ^ ?M \<and> (x < L \<or> R \<le> x)}"
      using init_tree_inv[of t L R] geo(3-6) m(6) c(2,8,10) same
      by (simp add: same_heap_geo[OF same(1)] lessThan_atLeast0) (simp add: same_heap_def)
    moreover have "held t = held s" using same(1) m(4) st by (simp add: same_heap_def)
    ultimately show ?thesis using False run by auto
  qed
qed

lemma init_meta_6: "init_meta 6 = 208"
  by (simp add: init_meta_def vec_size_def ROUNDUP_def upt_rec)

lemma init_sizes: "bd_sizes_for 288 = 6" "bd_sizes_for 496 = 6"
  by (simp_all add: bd_sizes_for_def BLK_16 LEAF_SIZE_def log2.simps Let_def)

lemma init_ranges: "init_range 4096 4384" "init_range 4096 4592"
  by (simp_all add: init_range_def Let_def init_sizes init_meta_6 BLK_16)

theorem bd_init_builds_witness:
  "(\<exists>t. bd_init 4096 4384 bd_example = Ok t \<and> held t = []
      \<and> in_use t {(4096 + 16 * x, 16) |x. x < 32 \<and> (x < 13 \<or> 18 \<le> x)})
   \<and> bd_init 4096 4592 bd_example = Panic ''bd_init: free mem''"
proof -
  have ok: "\<not> twice 13 18 k" if "k < 5" for k
  proof -
    consider "k = 0" | "k = 1" | "k = 2" | "k = 3" | "k = 4" using \<open>k < 5\<close> by linarith
    then show ?thesis by cases (simp_all add: twice_def leftb_def)
  qed
  then have ok': "(\<exists>k < 5. twice 13 18 k) = False" by blast
  have "twice 13 31 3" by (simp add: twice_def leftb_def)
  then have bad: "(\<exists>k < 5. twice 13 31 k) = True" by (auto intro!: exI[of _ 3])
  have held: "held bd_example = []" by (simp add: bd_example_def)
  have "\<exists>t. bd_init 4096 4384 bd_example = Ok t \<and> held t = []
      \<and> in_use t {(4096 + 16 * x, 16) |x. x < 32 \<and> (x < 13 \<or> 18 \<le> x)}"
    using bd_init_builds[OF init_ranges(1), of 6 13 18 bd_example] by (simp add: init_sizes init_meta_6 held ok')
  moreover have "bd_init 4096 4592 bd_example = Panic ''bd_init: free mem''"
    using bd_init_builds[OF init_ranges(2), of 6 13 31 bd_example] by (simp add: init_sizes init_meta_6 bad)
  ultimately show ?thesis ..
qed

end
