(* ===== verification/ULib.thy ===== *)
theory ULib
  imports KString KPrintf
begin

text \<open>
  User programs as the kernel sees them: \<^verbatim>\<open>user/user.h\<close>, \<^verbatim>\<open>user/ulib.c\<close> and \<^verbatim>\<open>user/printf.c\<close>. Code that makes a bounded
  number of system calls is a tree of calls that branches on the replies. A program with a loop around a system call is
  a function from the replies to the calls it makes: every call takes one reply, so that it ends for every list of
  replies, and the run of a process that is at its end, or that waits for a reply that is not there, has no result.
  \<^verbatim>\<open>fork\<close> returns 0 or a pid like any other call, so that the replies follow one process through all forks.
\<close>

section \<open>System calls\<close>

datatype ucall =
    CFork | CExit int | CWait | CPipe | CRead int nat | CKill int | CExec "u8 list" "u8 list list" | CFstat int
  | CChdir "u8 list" | CDup int | CGetpid | CSbrk int | CSleep int | COpen "u8 list" int | CWrite int "u8 list"
  | CMknod "u8 list" int int | CUnlink "u8 list" | CLink "u8 list" "u8 list" | CMkdir "u8 list" | CClose int

text \<open>The return value, the bytes stored through a pointer argument and the two descriptors of a pipe.\<close>

record ustat =
  st_type :: int
  st_ino :: u32
  st_size :: u64

record reply =
  ret :: int
  bytes :: "u8 list"
  pfds :: "int \<times> int"
  rstat :: ustat

datatype 'a prog = Done 'a | Stop int | Call ucall "reply \<Rightarrow> 'a prog"

primrec gbind :: "'a prog \<Rightarrow> ('a \<Rightarrow> 'b prog) \<Rightarrow> 'b prog" where
  "gbind (Done x) f = f x"
| "gbind (Stop n) f = Stop n"
| "gbind (Call c k) f = Call c (\<lambda>r. gbind (k r) f)"

definition gthen :: "'a prog \<Rightarrow> 'b prog \<Rightarrow> 'b prog" where
  "gthen m n = gbind m (\<lambda>_. n)"

definition sys :: "ucall \<Rightarrow> reply prog" where
  "sys c = Call c Done"

definition sysret :: "ucall \<Rightarrow> int prog" where
  "sysret c = Call c (\<lambda>r. Done (ret r))"

lemma gthen_simps [simp]:
  "gthen (Done x) n = n" "gthen (Stop e) n = Stop e" "gthen (Call c k) n = Call c (\<lambda>r. gthen (k r) n)"
  by (simp_all add: gthen_def)

lemma sys_simps [simp]:
  "gbind (sys c) f = Call c f" "gthen (sys c) n = Call c (\<lambda>_. n)"
  "gbind (sysret c) g = Call c (\<lambda>r. g (ret r))" "gthen (sysret c) n = Call c (\<lambda>_. n)"
  by (simp_all add: sys_def sysret_def gthen_def)

text \<open>A call for each element.\<close>

primrec geach :: "('a \<Rightarrow> 'b prog) \<Rightarrow> 'a list \<Rightarrow> unit prog" where
  "geach f [] = Done ()"
| "geach f (x # xs) = gthen (f x) (geach f xs)"

text \<open>Runs: the calls made and, if the program returns, its result and the replies left.\<close>

type_synonym 'a urun = "ucall list \<times> ('a \<times> reply list) option"
type_synonym 'a uproc = "reply list \<Rightarrow> 'a urun"

primrec urun :: "'a prog \<Rightarrow> 'a uproc" where
  "urun (Done x) rs = ([], Some (x, rs))"
| "urun (Stop n) rs = ([CExit n], None)"
| "urun (Call c k) rs =
     (case rs of [] \<Rightarrow> ([c], None) | r # rs \<Rightarrow> (case urun (k r) rs of (t, res) \<Rightarrow> (c # t, res)))"

definition ubind :: "'a uproc \<Rightarrow> ('a \<Rightarrow> 'b uproc) \<Rightarrow> 'b uproc" where
  "ubind m f rs =
     (case m rs of (t, None) \<Rightarrow> (t, None) | (t, Some (x, rs')) \<Rightarrow> (case f x rs' of (t', r) \<Rightarrow> (t @ t', r)))"

lemma ubind_cong [fundef_cong]:
  assumes "m = m'" and "rs = rs'" and "\<And>t x rs''. m' rs' = (t, Some (x, rs'')) \<Longrightarrow> f x rs'' = g x rs''"
  shows "ubind m f rs = ubind m' g rs'"
  using assms by (cases "m' rs'") (auto simp: ubind_def split: option.splits)

lemma urun_replies: "urun m rs = (t, Some (x, rs')) \<Longrightarrow> rs = take (length t) rs @ rs' \<and> length t \<le> length rs"
proof (induction m arbitrary: rs t)
  case (Call c k)
  then show ?case using Call.IH[OF rangeI] by (fastforce split: list.splits prod.splits)
qed auto

lemma urun_le: "urun m rs = (t, Some (x, rs')) \<Longrightarrow> length rs' \<le> length rs"
  using urun_replies[of m rs t x rs'] by (metis length_append le_add2)

lemma urun_Call_less: "urun (Call c k) rs = (t, Some (x, rs')) \<Longrightarrow> length rs' < length rs"
  by (auto split: list.splits prod.splits dest: urun_le)

lemma sysret_less: "urun (sysret c) rs = (t, Some (x, rs')) \<Longrightarrow> length rs' < length rs"
  unfolding sysret_def by (rule urun_Call_less)

lemma sys_less: "urun (sys c) rs = (t, Some (x, rs')) \<Longrightarrow> length rs' < length rs"
  unfolding sys_def by (rule urun_Call_less)

lemma urun_gbind: "urun (gbind m f) = ubind (urun m) (\<lambda>x. urun (f x))"
proof (rule ext)
  show "urun (gbind m f) rs = ubind (urun m) (\<lambda>x. urun (f x)) rs" for rs
  proof (induction m arbitrary: rs)
    case (Call c k)
    then show ?case using Call.IH[OF rangeI] by (auto simp: ubind_def split: list.splits prod.splits option.splits)
  qed (auto simp: ubind_def)
qed

section \<open>Strings and memory\<close>

text \<open>\<^verbatim>\<open>while((*s++ = *t++) != 0);\<close> and \<^verbatim>\<open>while(*p && *p == *q) p++, q++;\<close>: without a NUL they do not return.\<close>

partial_function (option) u_strcpy :: "mem \<Rightarrow> u64 \<Rightarrow> u64 \<Rightarrow> mem option" where
  "u_strcpy m s t = (let m' = m(s := m t) in if m t \<noteq> 0 then u_strcpy m' (s + 1) (t + 1) else Some m')"

partial_function (option) u_strcmp :: "mem \<Rightarrow> u64 \<Rightarrow> u64 \<Rightarrow> int option" where
  "u_strcmp m p q =
     (if m p \<noteq> 0 \<and> m p = m q then u_strcmp m (p + 1) (q + 1) else Some (uint (m p) - uint (m q)))"

definition u_strlen :: "mem \<Rightarrow> u64 \<Rightarrow> nat option" where
  "u_strlen m s = strlen_from m s 0"

definition u_memset :: "mem \<Rightarrow> u64 \<Rightarrow> u32 \<Rightarrow> u32 \<Rightarrow> mem" where
  "u_memset m dst c n = fold (\<lambda>i m. m(dst + of_nat i := ucast c)) [0..<unat n] m"

definition u_memmove :: "mem \<Rightarrow> u64 \<Rightarrow> u64 \<Rightarrow> int \<Rightarrow> mem" where
  "u_memmove m dst src n =
     (if src > dst then copy_up (nat n) m dst src
      else copy_down (nat n) m (dst + of_int n) (src + of_int n))"

definition u_memcmp :: "mem \<Rightarrow> u64 \<Rightarrow> u64 \<Rightarrow> u32 \<Rightarrow> int" where
  "u_memcmp m s1 s2 n = memcmp_loop (unat n) m s1 s2"

definition u_memcpy :: "mem \<Rightarrow> u64 \<Rightarrow> u64 \<Rightarrow> u32 \<Rightarrow> mem" where
  "u_memcpy m dst src n = u_memmove m dst src (sint n)"

text \<open>\<^verbatim>\<open>atoi\<close> on the bytes before the NUL; the sum wraps at 32 bits.\<close>

primrec atoi_from :: "u32 \<Rightarrow> u8 list \<Rightarrow> int" where
  "atoi_from n [] = sint n"
| "atoi_from n (c # s) = (if 48 \<le> c \<and> c \<le> 57 then atoi_from (n * 10 + ucast c - 48) s else sint n)"

definition atoi :: "u8 list \<Rightarrow> int" where
  "atoi s = atoi_from 0 s"

text \<open>\<^verbatim>\<open>gets\<close>: the bytes stored before the NUL.\<close>

primrec gets_loop :: "nat \<Rightarrow> u8 list \<Rightarrow> u8 list prog" where
  "gets_loop 0 buf = Done buf"
| "gets_loop (Suc k) buf =
     gbind (sys (CRead 0 1)) (\<lambda>r.
     if ret r < 1 then Done buf
     else let c = hd (bytes r @ [0]); buf = buf @ [c] in
       if c = 10 \<or> c = 13 then Done buf else gets_loop k buf)"

definition gets :: "nat \<Rightarrow> u8 list prog" where
  "gets nbuf = gets_loop (nbuf - 1) []"

text \<open>\<^verbatim>\<open>stat\<close>: the return value, and the status when it is not -1.\<close>

definition stat :: "u8 list \<Rightarrow> (int \<times> ustat) prog" where
  "stat n =
     gbind (sys (COpen n 0)) (\<lambda>fd.
     if ret fd < 0 then Done (-1, rstat fd)
     else gbind (sys (CFstat (ret fd))) (\<lambda>r. gthen (sys (CClose (ret fd))) (Done (ret r, rstat r))))"

section \<open>Printing\<close>

definition u_digits :: "u8 list" where
  "u_digits = cbytes ''0123456789ABCDEF''"

function u_digit_loop :: "nat \<Rightarrow> nat \<Rightarrow> u8 list" where
  "u_digit_loop base x =
     u_digits ! (x mod base) # (if x div base \<noteq> 0 \<and> 2 \<le> base then u_digit_loop base (x div base) else [])"
  by auto

termination
proof (relation "measure snd")
  show "((base, x div base), base, x) \<in> measure snd" if "x div base \<noteq> 0 \<and> 2 \<le> base" for base x :: nat
    using that div_less_dividend[of base x] by (cases "x = 0") auto
qed simp

declare u_digit_loop.simps [simp del]

definition u_printint :: "u32 \<Rightarrow> nat \<Rightarrow> bool \<Rightarrow> u8 list" where
  "u_printint xx base sign =
     (let neg = (sign \<and> sint xx < 0);
          x = (if neg then - xx else xx);
          buf = u_digit_loop base (unat x);
          buf = (if neg then buf @ [MINUS] else buf)
      in rev buf)"

definition u_printptr :: "u64 \<Rightarrow> u8 list" where
  "u_printptr x = cbytes ''0x'' @ map (\<lambda>i. u_digits ! unat (drop_bit 60 (push_bit (4 * i) x))) [0..<16]"

datatype uarg = UInt u32 | ULong u64 | UStr "u8 list option"

definition u_print_arg :: "u8 \<Rightarrow> uarg \<Rightarrow> u8 list option" where
  "u_print_arg c a =
     (case a of
        UInt n \<Rightarrow> if c = of_char (CHR ''d'') then Some (u_printint n 10 True)
                  else if c = of_char (CHR ''x'') then Some (u_printint n 16 False)
                  else if c = of_char (CHR ''c'') then Some [ucast n] else None
      | ULong p \<Rightarrow> if c = of_char (CHR ''l'') then Some (u_printint (ucast p) 10 False)
                   else if c = of_char (CHR ''p'') then Some (u_printptr p) else None
      | UStr str \<Rightarrow> if c = of_char (CHR ''s'') then Some (case str of None \<Rightarrow> cbytes ''(null)'' | Some x \<Rightarrow> x) else None)"

text \<open>
  The bytes \<^verbatim>\<open>vprintf\<close> writes; the flag is whether the last character was a percent sign. \<open>None\<close> when an argument is
  missing or is not what the format reads.
\<close>

primrec vformat :: "bool \<Rightarrow> u8 list \<Rightarrow> uarg list \<Rightarrow> u8 list option" where
  "vformat state [] args = Some []"
| "vformat state (c # fmt) args =
     (if \<not> state then
        (if c = PERCENT then vformat True fmt args else map_option ((#) c) (vformat False fmt args))
      else if c \<in> set (cbytes ''dlxpsc'') then
        (case args of [] \<Rightarrow> None
         | a # args \<Rightarrow>
             (case u_print_arg c a of None \<Rightarrow> None | Some x \<Rightarrow> map_option ((@) x) (vformat False fmt args)))
      else if c = PERCENT then map_option ((#) PERCENT) (vformat False fmt args)
      else map_option (\<lambda>y. PERCENT # c # y) (vformat False fmt args))"

definition putc :: "int \<Rightarrow> u8 \<Rightarrow> reply prog" where
  "putc fd c = sys (CWrite fd [c])"

text \<open>A call whose arguments do not fit its format is undefined in C as it is here.\<close>

definition vprintf :: "int \<Rightarrow> u8 list \<Rightarrow> uarg list \<Rightarrow> unit prog" where
  "vprintf fd fmt args = geach (putc fd) (the (vformat False fmt args))"

text \<open>The formats of the programs all end in a newline or in none; \<open>endl\<close> writes it out.\<close>

definition endl :: "string \<Rightarrow> string" where
  "endl s = s @ [CHR 0x0A]"

definition fprintf :: "int \<Rightarrow> string \<Rightarrow> uarg list \<Rightarrow> unit prog" where
  "fprintf fd fmt args = vprintf fd (cbytes fmt) args"

definition uprintf :: "string \<Rightarrow> uarg list \<Rightarrow> unit prog" where
  "uprintf fmt args = vprintf 1 (cbytes fmt) args"

section \<open>Agreement with the kernel's routines\<close>

text \<open>
  The user \<^verbatim>\<open>memmove\<close>, which copies downwards whenever the source is not above the destination, has the effect of the
  kernel's on blocks that do not run past the end of the address space.
\<close>

lemma u_memmove_eq:
  assumes "unat src + unat n < 2 ^ 64" and "unat dst + unat n < 2 ^ 64" and "unat n < 2 ^ 31"
  shows "u_memmove m dst src (int (unat n)) = memmove m dst src n"
proof (rule ext)
  fix a
  have n: "(of_int (int (unat n)) :: u64) = of_nat (unat n)" "nat (int (unat n)) = unat n" "unat n < 2 ^ 64" using assms(3) by simp_all
  have "u_memmove m dst src (int (unat n)) a = (if unat (a - dst) < unat n then m (src + (a - dst)) else m a)"
  proof (cases "src > dst")
    case True
    then have "unat (dst - src) = 2 ^ 64 + unat dst - unat src" by (simp add: unat_sub_if' word_less_nat_alt)
    then have "copy_up (unat n) m dst src a = (if unat (a - dst) < unat n then m (src + (a - dst)) else m a)"
      using assms(1) n(3) by (intro copy_up_apply) auto
    then show ?thesis using True n by (simp add: u_memmove_def)
  next
    case False
    then have "src = dst \<or> unat (src - dst) = 2 ^ 64 + unat src - unat dst"
      by (auto simp: unat_sub_if' word_less_nat_alt word_unat_eq_iff)
    then have "copy_down (unat n) m (dst + of_nat (unat n)) (src + of_nat (unat n)) a
        = (if unat (a - dst) < unat n then m (src + (a - dst)) else m a)"
      using assms(2) n(3) by (intro copy_down_apply) auto
    then show ?thesis using False n unfolding u_memmove_def by simp
  qed
  also have "\<dots> = memmove m dst src n a" using assms(1,2) by (intro memmove_apply[symmetric]) simp_all
  finally show "u_memmove m dst src (int (unat n)) a = memmove m dst src n a" .
qed

end
