(* ===== verification/UProgs.thy ===== *)
theory UProgs
  imports ULib
begin

text \<open>
  Small user programs: \<^verbatim>\<open>user/echo.c\<close>, \<^verbatim>\<open>cat.c\<close>, \<^verbatim>\<open>wc.c\<close>, \<^verbatim>\<open>kill.c\<close>, \<^verbatim>\<open>ln.c\<close>, \<^verbatim>\<open>mkdir.c\<close>, \<^verbatim>\<open>rm.c\<close>, \<^verbatim>\<open>sleep.c\<close>, \<^verbatim>\<open>zombie.c\<close>,
  \<^verbatim>\<open>pingpong.c\<close>, \<^verbatim>\<open>ls.c\<close> and \<^verbatim>\<open>init.c\<close>, as the system calls they make. The arguments are the strings after the name
  of the program.
\<close>

section \<open>Programs without loops around system calls\<close>

primrec echo_args :: "u8 list list \<Rightarrow> unit prog" where
  "echo_args [] = Done ()"
| "echo_args (a # as) =
     gthen (sys (CWrite 1 a)) (gthen (sys (CWrite 1 (if as \<noteq> [] then [32] else [10]))) (echo_args as))"

definition echo_main :: "u8 list list \<Rightarrow> unit prog" where
  "echo_main argv = gthen (echo_args argv) (Stop 0)"

definition kill_main :: "u8 list list \<Rightarrow> unit prog" where
  "kill_main argv =
     (if argv = [] then gthen (fprintf 2 (endl ''usage: kill pid...'') []) (Stop 1)
      else gthen (geach (\<lambda>a. sys (CKill (atoi a))) argv) (Stop 0))"

definition ln_main :: "u8 list list \<Rightarrow> unit prog" where
  "ln_main argv =
     (case argv of
        [old, new] \<Rightarrow>
          gbind (sysret (CLink old new)) (\<lambda>r.
          gthen (if r < 0 then fprintf 2 (endl ''link %s %s: failed'') [UStr (Some old), UStr (Some new)] else Done ()) (Stop 0))
      | _ \<Rightarrow> gthen (fprintf 2 (endl ''Usage: ln old new'') []) (Stop 1))"

primrec mkdir_args :: "u8 list list \<Rightarrow> unit prog" where
  "mkdir_args [] = Done ()"
| "mkdir_args (a # as) =
     gbind (sysret (CMkdir a)) (\<lambda>r.
     if r < 0 then fprintf 2 (endl ''mkdir: %s failed to create'') [UStr (Some a)] else mkdir_args as)"

definition mkdir_main :: "u8 list list \<Rightarrow> unit prog" where
  "mkdir_main argv =
     (if argv = [] then gthen (fprintf 2 (endl ''Usage: mkdir files...'') []) (Stop 1)
      else gthen (mkdir_args argv) (Stop 0))"

primrec rm_args :: "u8 list list \<Rightarrow> unit prog" where
  "rm_args [] = Done ()"
| "rm_args (a # as) =
     gbind (sysret (CUnlink a)) (\<lambda>r.
     if r < 0 then fprintf 2 (endl ''rm: %s failed to delete'') [UStr (Some a)] else rm_args as)"

definition rm_main :: "u8 list list \<Rightarrow> unit prog" where
  "rm_main argv =
     (if argv = [] then gthen (fprintf 2 (endl ''Usage: rm files...'') []) (Stop 1)
      else gthen (rm_args argv) (Stop 0))"

definition sleep_main :: "u8 list list \<Rightarrow> unit prog" where
  "sleep_main argv =
     (case argv of [] \<Rightarrow> gthen (fprintf 2 (endl ''Usage: sleep for a new sec...'') []) (Stop (-1))
      | a # _ \<Rightarrow> gthen (sys (CSleep (atoi a))) (Stop 1))"

definition zombie_main :: "unit prog" where
  "zombie_main = gbind (sysret CFork) (\<lambda>pid. gthen (if pid > 0 then gthen (sys (CSleep 5)) (Done ()) else Done ()) (Stop 0))"

definition pingpong_main :: "unit prog" where
  "pingpong_main =
     gbind (sys CPipe) (\<lambda>p.
     gbind (sysret CFork) (\<lambda>pid.
     gthen (if pid = 0 then
              gthen (sys (CWrite (snd (pfds p)) (cbytes ''ping''))) (
              gbind (sysret CGetpid) (\<lambda>me.
              uprintf (endl ''Thread id %d: received ping'') [UInt (of_int me)]))
            else
              gthen (sys CWait) (gthen (sys (CRead (fst (pfds p)) 4)) (
              gbind (sysret CGetpid) (\<lambda>me.
              uprintf (endl ''Thread id %d: received pong'') [UInt (of_int me)]))))
     (Stop 1)))"

section \<open>\<^verbatim>\<open>cat\<close>\<close>

definition data :: "reply \<Rightarrow> u8 list" where
  "data r = take (nat (ret r)) (bytes r)"

function cat :: "int \<Rightarrow> unit uproc" where
  "cat fd rs =
     ubind (urun (sys (CRead fd 512))) (\<lambda>r rs.
     if ret r > 0 then
       ubind (urun (sysret (CWrite 1 (data r)))) (\<lambda>n rs.
       if n \<noteq> ret r then urun (gthen (uprintf (endl ''cat: write error'') []) (Stop 1)) rs
       else cat fd rs) rs
     else if ret r < 0 then urun (gthen (uprintf (endl ''cat: read error'') []) (Stop 1)) rs
     else urun (Done ()) rs) rs"
  by pat_completeness auto

lemma cat_step:
  "urun (sys c) rs = (t, Some (r, rs1)) \<Longrightarrow> urun (sysret d) rs1 = (t', Some (n, rs2)) \<Longrightarrow> length rs2 < length rs"
  using sys_less[of c rs t r rs1] sysret_less[of d rs1 t' n rs2] by simp

termination cat
  by (relation "measure (\<lambda>(_, rs). length rs)") (auto intro: cat_step)

declare cat.simps [simp del]

primrec cat_files :: "u8 list list \<Rightarrow> unit uproc" where
  "cat_files [] = urun (Stop 0)"
| "cat_files (a # as) =
     ubind (urun (sysret (COpen a 0))) (\<lambda>fd.
     if fd < 0 then urun (gthen (uprintf (endl ''cat: cannot open %s'') [UStr (Some a)]) (Stop 1))
     else ubind (cat fd) (\<lambda>_. ubind (urun (sys (CClose fd))) (\<lambda>_. cat_files as)))"

definition cat_main :: "u8 list list \<Rightarrow> unit uproc" where
  "cat_main argv = (if argv = [] then ubind (cat 0) (\<lambda>_. urun (Stop 1)) else cat_files argv)"

section \<open>\<^verbatim>\<open>wc\<close>\<close>

text \<open>Lines, words, characters and whether the last character was inside a word.\<close>

type_synonym counts = "nat \<times> nat \<times> nat \<times> bool"

definition wc_blank :: "u8 \<Rightarrow> bool" where
  "wc_blank c \<longleftrightarrow> c \<in> set [32, 13, 9, 10, 11]"

fun wc_char :: "u8 \<Rightarrow> counts \<Rightarrow> counts" where
  "wc_char x (l, w, c, inword) =
     (let c = Suc c; l = (if x = 10 then Suc l else l) in
      if wc_blank x then (l, w, c, False) else if \<not> inword then (l, Suc w, c, True) else (l, w, c, inword))"

function wc_loop :: "int \<Rightarrow> counts \<Rightarrow> (int \<times> counts) uproc" where
  "wc_loop fd k rs =
     ubind (urun (sys (CRead fd 512))) (\<lambda>r rs.
     if ret r > 0 then wc_loop fd (fold wc_char (data r) k) rs else urun (Done (ret r, k)) rs) rs"
  by pat_completeness auto

termination wc_loop
  by (relation "measure (\<lambda>(_, _, rs). length rs)") (auto dest: sys_less)

declare wc_loop.simps [simp del]

definition wc :: "int \<Rightarrow> u8 list \<Rightarrow> unit uproc" where
  "wc fd name =
     ubind (wc_loop fd (0, 0, 0, False)) (\<lambda>(n, l, w, c, inword).
     if n < 0 then urun (gthen (uprintf (endl ''wc: read error'') []) (Stop 1))
     else urun (uprintf (endl ''%d %d %d %s'') [UInt (of_nat l), UInt (of_nat w), UInt (of_nat c), UStr (Some name)]))"

primrec wc_files :: "u8 list list \<Rightarrow> unit uproc" where
  "wc_files [] = urun (Stop 0)"
| "wc_files (a # as) =
     ubind (urun (sysret (COpen a 0))) (\<lambda>fd.
     if fd < 0 then urun (gthen (uprintf (endl ''wc: cannot open %s'') [UStr (Some a)]) (Stop 1))
     else ubind (wc fd a) (\<lambda>_. ubind (urun (sys (CClose fd))) (\<lambda>_. wc_files as)))"

definition wc_main :: "u8 list list \<Rightarrow> unit uproc" where
  "wc_main argv = (if argv = [] then ubind (wc 0 []) (\<lambda>_. urun (Stop 0)) else wc_files argv)"

text \<open>What \<^verbatim>\<open>wc\<close> counts does not depend on how the reads cut the input, and the words are the maximal runs of non-blanks.\<close>

fun words_of :: "bool \<Rightarrow> u8 list \<Rightarrow> nat" where
  "words_of inword [] = 0"
| "words_of inword (x # xs) = (if \<not> wc_blank x \<and> \<not> inword then 1 else 0) + words_of (\<not> wc_blank x) xs"

lemma wc_fold:
  "fold wc_char xs (l, w, c, b) = (l + count_list xs 10, w + words_of b xs, c + length xs, (if xs = [] then b else \<not> wc_blank (last xs)))"
  by (induction xs arbitrary: l w c b) (auto simp: Let_def wc_blank_def)

section \<open>\<^verbatim>\<open>ls\<close>\<close>

definition U_DIRSIZ :: nat where "U_DIRSIZ = 14"

text \<open>\<^verbatim>\<open>fmtname\<close>: the part after the last slash, blank-padded.\<close>

definition basename :: "u8 list \<Rightarrow> u8 list" where
  "basename p = rev (takeWhile (\<lambda>c. c \<noteq> 47) (rev p))"

definition fmtname :: "u8 list \<Rightarrow> u8 list" where
  "fmtname p = (let b = basename p in if length b \<ge> U_DIRSIZ then b else b @ replicate (U_DIRSIZ - length b) 32)"

text \<open>A directory entry as read: the inode number and the name, which ends at its first NUL or after \<^verbatim>\<open>DIRSIZ\<close> bytes.\<close>

definition ent_inum :: "u8 list \<Rightarrow> nat" where
  "ent_inum d = unat (d ! 0) + 256 * unat (d ! 1)"

definition ent_name :: "u8 list \<Rightarrow> u8 list" where
  "ent_name d = takeWhile (\<lambda>c. c \<noteq> 0) (take U_DIRSIZ (drop 2 d))"

function ls_entries :: "int \<Rightarrow> u8 list \<Rightarrow> unit uproc" where
  "ls_entries fd path rs =
     ubind (urun (sys (CRead fd 16))) (\<lambda>r rs.
     if ret r \<noteq> 16 then urun (Done ()) rs
     else if ent_inum (data r) = 0 then ls_entries fd path rs
     else let buf = path @ [47] @ ent_name (data r) in
       ubind (urun (stat buf)) (\<lambda>st rs.
       if fst st < 0 then ubind (urun (uprintf (endl ''ls: cannot stat %s'') [UStr (Some buf)])) (\<lambda>_ rs. ls_entries fd path rs) rs
       else ubind (urun (uprintf (endl ''%s %d %d %d'')
              [UStr (Some (fmtname buf)), UInt (of_int (st_type (snd st))), UInt (st_ino (snd st)), UInt (ucast (st_size (snd st)))]))
            (\<lambda>_ rs. ls_entries fd path rs) rs) rs) rs"
  by pat_completeness auto

lemma ls_step:
  "urun (sys c) rs = (t, Some (r, rs1)) \<Longrightarrow> urun m rs1 = (t', Some (x, rs2)) \<Longrightarrow> urun n rs2 = (t'', Some (y, rs3)) \<Longrightarrow> length rs3 < length rs"
  using sys_less[of c rs t r rs1] urun_le[of m rs1 t' x rs2] urun_le[of n rs2 t'' y rs3] by simp

termination ls_entries
  by (relation "measure (\<lambda>(_, _, rs). length rs)") (auto intro: ls_step dest: sys_less)

declare ls_entries.simps [simp del]

definition ls :: "u8 list \<Rightarrow> unit uproc" where
  "ls path =
     ubind (urun (sysret (COpen path 0))) (\<lambda>fd.
     if fd < 0 then urun (fprintf 2 (endl ''ls: cannot open %s'') [UStr (Some path)])
     else ubind (urun (sys (CFstat fd))) (\<lambda>r.
     if ret r < 0 then urun (gthen (fprintf 2 (endl ''ls: cannot stat %s'') [UStr (Some path)]) (gthen (sys (CClose fd)) (Done ())))
     else ubind
       (if st_type (rstat r) = 2 then
          urun (uprintf (endl ''%s %d %d %l'')
            [UStr (Some (fmtname path)), UInt (of_int (st_type (rstat r))), UInt (st_ino (rstat r)), ULong (st_size (rstat r))])
        else if st_type (rstat r) = 1 then
          (if length path + 1 + U_DIRSIZ + 1 > 512 then urun (uprintf (endl ''ls: path too long'') []) else ls_entries fd path)
        else urun (Done ()))
       (\<lambda>_. ubind (urun (sys (CClose fd))) (\<lambda>_. urun (Done ())))))"

primrec ls_files :: "u8 list list \<Rightarrow> unit uproc" where
  "ls_files [] = urun (Stop 0)"
| "ls_files (a # as) = ubind (ls a) (\<lambda>_. ls_files as)"

definition ls_main :: "u8 list list \<Rightarrow> unit uproc" where
  "ls_main argv = (if argv = [] then ubind (ls (cbytes ''.'')) (\<lambda>_. urun (Stop 0)) else ls_files argv)"

section \<open>\<^verbatim>\<open>init\<close>\<close>

function init_wait :: "int \<Rightarrow> unit uproc" where
  "init_wait pid rs =
     ubind (urun (sysret CWait)) (\<lambda>wpid rs. if wpid \<ge> 0 \<and> wpid \<noteq> pid then init_wait pid rs else urun (Done ()) rs) rs"
  by pat_completeness auto

termination init_wait
  by (relation "measure (\<lambda>(_, rs). length rs)") (auto dest: sysret_less)

declare init_wait.simps [simp del]

lemma init_wait_le: "init_wait pid rs = (t, Some (x, rs')) \<Longrightarrow> length rs' \<le> length rs"
proof (induction pid rs arbitrary: t rule: init_wait.induct)
  case (1 pid rs)
  obtain t1 o1 where r: "urun (sysret CWait) rs = (t1, o1)" by (cases "urun (sysret CWait) rs")
  show ?case
  proof (cases o1)
    case None
    then show ?thesis using 1(2) r by (simp add: init_wait.simps[of pid rs] ubind_def)
  next
    case (Some p)
    obtain wpid rs1 where p: "p = (wpid, rs1)" by (cases p)
    have less: "length rs1 < length rs" using r Some p sysret_less by blast
    show ?thesis
    proof (cases "wpid \<ge> 0 \<and> wpid \<noteq> pid")
      case True
      obtain t2 where "init_wait pid rs1 = (t2, Some (x, rs'))"
        using 1(2) r Some p True by (auto simp: init_wait.simps[of pid rs] ubind_def split: prod.splits)
      then show ?thesis using 1(1)[of t1 wpid rs1] r Some p True less by simp
    next
      case False
      then have "rs' = rs1" using 1(2) r Some p by (auto simp: init_wait.simps[of pid rs] ubind_def split: if_splits)
      then show ?thesis using less by simp
    qed
  qed
qed

definition init_start :: "int prog" where
  "init_start =
     gthen (uprintf (endl ''init: starting sh'') []) (
     gbind (sysret CFork) (\<lambda>pid.
     if pid < 0 then gthen (uprintf (endl ''init: fork failed'') []) (Stop 1)
     else if pid = 0 then
       gthen (sys (CExec (cbytes ''sh'') [cbytes ''sh''])) (gthen (uprintf (endl ''init: exec sh failed'') []) (Stop 1))
     else Done pid))"

lemma init_start_less:
  assumes "urun init_start rs = (t, Some (x, rs'))"
  shows "length rs' < length rs"
proof -
  obtain c k where "init_start = Call c k"
    by (simp add: init_start_def uprintf_def vprintf_def endl_def cbytes_def PERCENT_def putc_def)
  then show ?thesis using assms urun_Call_less[of c k rs t x rs'] by simp
qed

lemma init_step: "urun init_start rs = (t, Some (pid, rs1)) \<Longrightarrow> init_wait pid rs1 = (t', Some (x, rs2)) \<Longrightarrow> length rs2 < length rs"
  using init_start_less[of rs t pid rs1] init_wait_le[of pid rs1 t' x rs2] by simp

function init_loop :: "unit uproc" where
  "init_loop rs = ubind (urun init_start) (\<lambda>pid rs. ubind (init_wait pid) (\<lambda>_ rs. init_loop rs) rs) rs"
  by pat_completeness auto

termination init_loop
  by (relation "measure length") (auto intro: init_step)

declare init_loop.simps [simp del]

definition init_main :: "unit uproc" where
  "init_main =
     ubind (urun (gbind (sysret (COpen (cbytes ''console'') 2)) (\<lambda>fd.
       gthen (if fd < 0 then gthen (sys (CMknod (cbytes ''console'') 1 1)) (gthen (sys (COpen (cbytes ''console'') 2)) (Done ()))
              else Done ())
       (gthen (sys (CDup 0)) (gthen (sys (CDup 0)) (Done ())))))) (\<lambda>_. init_loop)"

end
