(* ===== verification/UGrep.thy ===== *)
theory UGrep
  imports KPrintf
begin

text \<open>
  \<^verbatim>\<open>user/grep.c\<close>: the pattern matcher and the loop over the lines of the input. A string is the list of its bytes
  before the NUL, so that \<^verbatim>\<open>re[1]\<close> of a one-byte string is the NUL.
\<close>

section \<open>The matcher\<close>

definition CARET :: u8 where "CARET = 94"
definition DOLLAR :: u8 where "DOLLAR = 36"
definition STAR :: u8 where "STAR = 42"
definition DOT :: u8 where "DOT = 46"

function matchhere :: "u8 list \<Rightarrow> u8 list \<Rightarrow> bool"
  and matchstar :: "u8 \<Rightarrow> u8 list \<Rightarrow> u8 list \<Rightarrow> bool" where
  "matchhere re str =
     (case re of [] \<Rightarrow> True
      | c # re1 \<Rightarrow>
          if re1 \<noteq> [] \<and> hd re1 = STAR then matchstar c (tl re1) str
          else if c = DOLLAR \<and> re1 = [] then str = []
          else str \<noteq> [] \<and> (c = DOT \<or> c = hd str) \<and> matchhere re1 (tl str))"
| "matchstar c re str =
     (if matchhere re str then True
      else if str \<noteq> [] \<and> (hd str = c \<or> c = DOT) then matchstar c re (tl str) else False)"
  by pat_completeness auto

termination
  by (relation "measures [case_sum (\<lambda>(re, str). length re) (\<lambda>(c, re, str). length re),
        case_sum (\<lambda>(re, str). length str) (\<lambda>(c, re, str). length str), case_sum (\<lambda>_. 0) (\<lambda>_. 1)]")
    (auto split: list.splits simp: neq_Nil_conv)

declare matchhere.simps [simp del] matchstar.simps [simp del]

text \<open>The loop of \<^verbatim>\<open>match\<close> tries every suffix of the text, the empty one included.\<close>

primrec match_from :: "u8 list \<Rightarrow> u8 list \<Rightarrow> bool" where
  "match_from re [] = matchhere re []"
| "match_from re (c # str) = (matchhere re (c # str) \<or> match_from re str)"

definition match :: "u8 list \<Rightarrow> u8 list \<Rightarrow> bool" where
  "match re str = (if re \<noteq> [] \<and> hd re = CARET then matchhere (tl re) str else match_from re str)"

section \<open>The meaning of a pattern\<close>

text \<open>
  The abstract syntax of a pattern without its anchors: a character, any character, or the repetition of one of
  these. The language is a set of strings.
\<close>

datatype item = One u8 | Many u8

fun items :: "u8 list \<Rightarrow> item list" where
  "items [] = []"
| "items [c] = (if c = DOLLAR then [] else [One c])"
| "items (c # d # re) = (if d = STAR then Many c # items re else One c # items (d # re))"

fun anchored :: "u8 list \<Rightarrow> bool" where
  "anchored [] = False"
| "anchored [c] = (c = DOLLAR)"
| "anchored (c # d # re) = (if d = STAR then anchored re else anchored (d # re))"

definition fits :: "u8 \<Rightarrow> u8 \<Rightarrow> bool" where
  "fits c x \<longleftrightarrow> c = DOT \<or> x = c"

primrec item_lang :: "item \<Rightarrow> u8 list set" where
  "item_lang (One c) = {[x] | x. fits c x}"
| "item_lang (Many c) = {xs. \<forall>x\<in>set xs. fits c x}"

primrec lang :: "item list \<Rightarrow> u8 list set" where
  "lang [] = {[]}"
| "lang (i # is) = {xs @ ys | xs ys. xs \<in> item_lang i \<and> ys \<in> lang is}"

lemma lang_One: "xs \<in> lang (One c # is) \<longleftrightarrow> (\<exists>x ys. xs = x # ys \<and> fits c x \<and> ys \<in> lang is)"
proof
  assume "\<exists>x ys. xs = x # ys \<and> fits c x \<and> ys \<in> lang is"
  then obtain x ys where "xs = [x] @ ys" "fits c x" "ys \<in> lang is" by auto
  then show "xs \<in> lang (One c # is)" unfolding lang.simps item_lang.simps by blast
qed auto

lemma lang_Many: "xs \<in> lang (Many c # is) \<longleftrightarrow> xs \<in> lang is \<or> (\<exists>x ys. xs = x # ys \<and> fits c x \<and> ys \<in> lang (Many c # is))"
proof
  assume "xs \<in> lang (Many c # is)"
  then obtain us vs where u: "xs = us @ vs" "\<forall>x\<in>set us. fits c x" "vs \<in> lang is" by auto
  show "xs \<in> lang is \<or> (\<exists>x ys. xs = x # ys \<and> fits c x \<and> ys \<in> lang (Many c # is))"
  proof (cases us)
    case Nil
    then show ?thesis using u by simp
  next
    case (Cons x us')
    then have "us' @ vs \<in> lang (Many c # is)" using u by auto
    then show ?thesis using u Cons by auto
  qed
next
  assume "xs \<in> lang is \<or> (\<exists>x ys. xs = x # ys \<and> fits c x \<and> ys \<in> lang (Many c # is))"
  then show "xs \<in> lang (Many c # is)"
  proof (elim disjE exE conjE)
    assume "xs \<in> lang is"
    then have "[] @ xs \<in> lang (Many c # is)" unfolding lang.simps by (intro CollectI exI conjI) (rule refl, simp_all)
    then show ?thesis by simp
  next
    fix x ys assume x: "xs = x # ys" "fits c x" "ys \<in> lang (Many c # is)"
    then obtain us vs where "ys = us @ vs" "\<forall>x\<in>set us. fits c x" "vs \<in> lang is" by auto
    then have "(x # us) @ vs \<in> lang (Many c # is)" unfolding lang.simps using x(2) by (intro CollectI exI conjI) (rule refl, simp_all)
    then show ?thesis using x \<open>ys = us @ vs\<close> by simp
  qed
qed

text \<open>A prefix of the text is in the language, and all of it if the pattern ends in \<^verbatim>\<open>$\<close>.\<close>

definition prefix_in :: "u8 list \<Rightarrow> item list \<Rightarrow> bool \<Rightarrow> bool" where
  "prefix_in str is whole \<longleftrightarrow> (\<exists>xs ys. str = xs @ ys \<and> xs \<in> lang is \<and> (whole \<longrightarrow> ys = []))"

lemma prefix_in_Nil: "prefix_in str [] whole \<longleftrightarrow> (whole \<longrightarrow> str = [])"
  by (auto simp: prefix_in_def)

lemma prefix_in_One:
  "prefix_in str (One c # is) whole \<longleftrightarrow> str \<noteq> [] \<and> fits c (hd str) \<and> prefix_in (tl str) is whole"
proof
  assume "prefix_in str (One c # is) whole"
  then obtain x xs ys where "str = (x # xs) @ ys" "fits c x" "xs \<in> lang is" "whole \<longrightarrow> ys = []"
    unfolding prefix_in_def lang_One by blast
  then show "str \<noteq> [] \<and> fits c (hd str) \<and> prefix_in (tl str) is whole" unfolding prefix_in_def by auto
next
  assume a: "str \<noteq> [] \<and> fits c (hd str) \<and> prefix_in (tl str) is whole"
  then obtain xs ys where "tl str = xs @ ys" "xs \<in> lang is" "whole \<longrightarrow> ys = []" unfolding prefix_in_def by blast
  moreover from a this have "str = (hd str # xs) @ ys" by (cases str) simp_all
  ultimately show "prefix_in str (One c # is) whole" using a unfolding prefix_in_def lang_One by blast
qed

lemma prefix_in_Many:
  "prefix_in str (Many c # is) whole
   \<longleftrightarrow> prefix_in str is whole \<or> str \<noteq> [] \<and> fits c (hd str) \<and> prefix_in (tl str) (Many c # is) whole"
proof
  assume "prefix_in str (Many c # is) whole"
  then obtain xs ys where x: "str = xs @ ys" "xs \<in> lang (Many c # is)" "whole \<longrightarrow> ys = []"
    unfolding prefix_in_def by blast
  from lang_Many[THEN iffD1, OF x(2)]
  show "prefix_in str is whole \<or> str \<noteq> [] \<and> fits c (hd str) \<and> prefix_in (tl str) (Many c # is) whole"
  proof (elim disjE exE conjE)
    assume "xs \<in> lang is"
    then show ?thesis using x unfolding prefix_in_def by blast
  next
    fix y us assume "xs = y # us" "fits c y" "us \<in> lang (Many c # is)"
    then show ?thesis using x unfolding prefix_in_def by (intro disjI2 conjI exI[of _ us] exI[of _ ys]) simp_all
  qed
next
  assume "prefix_in str is whole \<or> str \<noteq> [] \<and> fits c (hd str) \<and> prefix_in (tl str) (Many c # is) whole"
  then show "prefix_in str (Many c # is) whole"
  proof (elim disjE conjE)
    assume "prefix_in str is whole"
    then obtain xs ys where "str = xs @ ys" "xs \<in> lang is" "whole \<longrightarrow> ys = []" unfolding prefix_in_def by blast
    moreover from this(2) have "xs \<in> lang (Many c # is)" by (rule lang_Many[THEN iffD2, OF disjI1])
    ultimately show ?thesis unfolding prefix_in_def by blast
  next
    assume a: "str \<noteq> []" "fits c (hd str)" "prefix_in (tl str) (Many c # is) whole"
    then obtain xs ys where x: "tl str = xs @ ys" "xs \<in> lang (Many c # is)" "whole \<longrightarrow> ys = []"
      unfolding prefix_in_def by blast
    have "hd str # xs \<in> lang (Many c # is)" by (rule lang_Many[THEN iffD2, OF disjI2], intro exI conjI, rule refl) (rule a(2), rule x(2))
    moreover have "str = (hd str # xs) @ ys" using a(1) x(1) by (cases str) simp_all
    ultimately show ?thesis using x(3) unfolding prefix_in_def by blast
  qed
qed

lemma matchhere_iff:
  "matchhere re str \<longleftrightarrow> prefix_in str (items re) (anchored re)"
  "matchstar c re str \<longleftrightarrow> prefix_in str (Many c # items re) (anchored re)"
proof (induction re str and c re str rule: matchhere_matchstar.induct)
  case (1 re str)
  show ?case
  proof (cases re)
    case Nil
    then show ?thesis by (simp add: matchhere.simps prefix_in_Nil)
  next
    case (Cons c re1)
    show ?thesis
    proof (cases re1)
      case Nil
      then show ?thesis unfolding Cons
        by (auto simp: matchhere.simps[of "[c]"] matchhere.simps[of "[]"] prefix_in_One prefix_in_Nil fits_def)
    next
      case (Cons d re2)
      then show ?thesis using 1 \<open>re = c # re1\<close>
        by (auto simp: matchhere.simps[of "c # d # re2"] prefix_in_One fits_def)
    qed
  qed
next
  case (2 c re str)
  show ?case unfolding matchstar.simps[of c re str] prefix_in_Many[of str] using 2 by (auto simp: fits_def)
qed

lemma match_from_iff: "match_from re str \<longleftrightarrow> (\<exists>us vs. str = us @ vs \<and> matchhere re vs)"
proof (induction str)
  case Nil
  then show ?case by simp
next
  case (Cons x str)
  show ?case unfolding match_from.simps Cons.IH
    by (metis append.left_neutral append_eq_Cons_conv)
qed

text \<open>
  C17. The matcher of \<^verbatim>\<open>grep\<close> decides the language of its pattern. Read the pattern as a sequence of characters, dots
  and starred characters or dots between an optional \<^verbatim>\<open>^\<close> and an optional \<^verbatim>\<open>$\<close>; then \<^verbatim>\<open>match\<close> succeeds exactly when the
  line has a substring in the language of the sequence, at the beginning of the line after \<^verbatim>\<open>^\<close> and at its end before
  \<^verbatim>\<open>$\<close>. So the backtracking search neither misses a match nor reports a wrong one, and it always ends.
\<close>

theorem match_decides_language:
  "match re str \<longleftrightarrow> (let start = (re \<noteq> [] \<and> hd re = CARET); body = (if start then tl re else re) in
     \<exists>us xs ys. str = us @ xs @ ys \<and> xs \<in> lang (items body) \<and> (start \<longrightarrow> us = []) \<and> (anchored body \<longrightarrow> ys = []))"
proof (cases "re \<noteq> [] \<and> hd re = CARET")
  case True
  then show ?thesis by (simp add: match_def Let_def matchhere_iff prefix_in_def)
next
  case False
  then show ?thesis unfolding match_def Let_def match_from_iff matchhere_iff prefix_in_def by auto
qed

theorem match_decides_language_witness:
  "match [94, 97, 42, 98, 36] [97, 97, 98] \<and> \<not> match [94, 97, 42, 98, 36] [97, 99, 98]
   \<and> (\<exists>us xs ys. [97, 97, 98] = us @ xs @ ys \<and> xs \<in> lang [Many 97, One 98] \<and> us = [] \<and> ys = [])"
proof -
  have m: "match [94, 97, 42, 98, 36] [97, 97, 98]" "\<not> match [94, 97, 42, 98, 36] [97, 99, 98]" by code_simp+
  have i: "items [97, 42, 98, 36] = [Many 97, One 98]" "anchored [97, 42, 98, 36]" by code_simp+
  have "\<exists>us xs ys. [97, 97, 98] = us @ xs @ ys \<and> xs \<in> lang (items [97, 42, 98, 36]) \<and> (True \<longrightarrow> us = [])
    \<and> (anchored [97, 42, 98, 36] \<longrightarrow> ys = [])"
    using match_decides_language[of "[94, 97, 42, 98, 36]" "[97, 97, 98]", THEN iffD1, OF m(1)]
    unfolding Let_def CARET_def list.sel by (simp del: items.simps anchored.simps lang.simps)
  then show ?thesis using m i unfolding i(1) by blast
qed

section \<open>The lines of the input\<close>

text \<open>\<^verbatim>\<open>strchr\<close> of \<^verbatim>\<open>ulib.c\<close>: the rest of the string from the first occurrence on.\<close>

definition strchr :: "u8 list \<Rightarrow> u8 \<Rightarrow> u8 list option" where
  "strchr s c = (let r = dropWhile (\<lambda>x. x \<noteq> 0 \<and> x \<noteq> c) s in if r \<noteq> [] \<and> hd r \<noteq> 0 then Some r else None)"

lemma strchr_shorter: "strchr s c = Some q \<Longrightarrow> length (tl q) < length s"
proof -
  assume "strchr s c = Some q"
  then have "q = dropWhile (\<lambda>x. x \<noteq> 0 \<and> x \<noteq> c) s" and q: "q \<noteq> []" by (auto simp: strchr_def Let_def split: if_splits)
  then have "length q \<le> length s" by (simp add: length_dropWhile_le)
  then show ?thesis using q by (cases q) simp_all
qed

text \<open>
  The inner loop on the contents of the buffer: the lines written, and what remains for the next round.
\<close>

function grep_lines :: "u8 list \<Rightarrow> u8 list \<Rightarrow> u8 list list \<times> u8 list" where
  "grep_lines pattern p =
     (case strchr p 10 of None \<Rightarrow> ([], p)
      | Some q \<Rightarrow>
          let line = take (length p - length q) p; (outs, rest) = grep_lines pattern (tl q)
          in (if match pattern line then (line @ [10]) # outs else outs, rest))"
  by pat_completeness auto

termination
  by (relation "measure (\<lambda>(_, p). length p)") (auto dest: strchr_shorter)

declare grep_lines.simps [simp del]

definition BUFSZ :: nat where "BUFSZ = 1024"

text \<open>
  \<^verbatim>\<open>grep\<close> with the contents of \<^verbatim>\<open>buf\<close> and the chunks that the reads of the file would deliver. A read returns at most
  as many bytes as it is asked for and leaves the rest of its chunk to the next one; an empty list is the end of the
  file, an empty chunk a read that returns nothing or fails.
\<close>

function grep_loop :: "u8 list \<Rightarrow> u8 list \<Rightarrow> u8 list list \<Rightarrow> u8 list list" where
  "grep_loop pattern buf chunks =
     (case chunks of [] \<Rightarrow> []
      | c # cs \<Rightarrow>
          let room = BUFSZ - length buf - 1; got = take room c; left = drop room c in
          if got = [] then []
          else case grep_lines pattern (buf @ got) of
            (outs, rest) \<Rightarrow> outs @ grep_loop pattern rest (if left = [] then cs else left # cs))"
  by pat_completeness auto

termination
  by (relation "measure (\<lambda>(_, _, chunks). sum_list (map length chunks))") (auto simp: Let_def)

declare grep_loop.simps [simp del]

definition grep :: "u8 list \<Rightarrow> u8 list list \<Rightarrow> u8 list list" where
  "grep pattern chunks = grep_loop pattern [] chunks"

text \<open>
  \<^verbatim>\<open>main\<close>: the exit status and the writes, as pairs of descriptor and bytes. \<open>opn\<close> is what the files contain, \<open>None\<close>
  when \<^verbatim>\<open>open\<close> fails, and \<open>input\<close> what standard input delivers.
\<close>

primrec grep_files :: "u8 list \<Rightarrow> (u8 list \<Rightarrow> u8 list list option) \<Rightarrow> u8 list list \<Rightarrow> int \<times> (nat \<times> u8 list) list" where
  "grep_files pattern opn [] = (0, [])"
| "grep_files pattern opn (f # fs) =
     (case opn f of
        None \<Rightarrow> (1, [(1, cbytes ''grep: cannot open '' @ f @ [10])])
      | Some chunks \<Rightarrow>
          let (st, outs) = grep_files pattern opn fs in (st, map (Pair 1) (grep pattern chunks) @ outs))"

definition grep_main :: "u8 list list \<Rightarrow> (u8 list \<Rightarrow> u8 list list option) \<Rightarrow> u8 list list \<Rightarrow> int \<times> (nat \<times> u8 list) list" where
  "grep_main args opn input =
     (case args of
        [] \<Rightarrow> (1, [(2, cbytes ''usage: grep pattern [file ...]'' @ [10])])
      | [pattern] \<Rightarrow> (0, map (Pair 1) (grep pattern input))
      | pattern # files \<Rightarrow> grep_files pattern opn files)"

text \<open>The complete lines of a text, and what follows the last newline.\<close>

fun cut :: "u8 list \<Rightarrow> u8 list list \<times> u8 list" where
  "cut [] = ([], [])"
| "cut (x # xs) =
     (let (ls, r) = cut xs in
      if x = 10 then ([] # ls, r) else case ls of [] \<Rightarrow> ([], x # r) | l # ls \<Rightarrow> ((x # l) # ls, r))"

lemma cut_no_newline: "10 \<notin> set xs \<Longrightarrow> cut xs = ([], xs)"
  by (induction xs) auto

lemma cut_line: "10 \<notin> set l \<Longrightarrow> cut (l @ 10 # xs) = (l # fst (cut xs), snd (cut xs))"
  by (induction l) (auto simp: Let_def split: prod.splits)

lemma cut_partial: "10 \<notin> set (snd (cut xs))"
  by (induction xs) (auto simp: Let_def split: prod.splits list.splits)

lemma cut_subset: "set (snd (cut xs)) \<subseteq> set xs"
  by (induction xs) (auto simp: Let_def split: prod.splits list.splits)

lemma first_line: "10 \<in> set xs \<Longrightarrow> \<exists>l r. xs = l @ 10 # r \<and> 10 \<notin> set l"
  by (metis split_list_first)

lemma cut_append:
  "cut (xs @ ys) = (fst (cut xs) @ fst (cut (snd (cut xs) @ ys)), snd (cut (snd (cut xs) @ ys)))"
proof (induction "length xs" arbitrary: xs rule: less_induct)
  case less
  show ?case
  proof (cases "10 \<in> set xs")
    case True
    then obtain l r where "xs = l @ 10 # r" "10 \<notin> set l" using first_line by blast
    then show ?thesis using less[of r] by (simp add: cut_line)
  next
    case False
    then show ?thesis by (simp add: cut_no_newline)
  qed
qed

lemma cut_short:
  assumes "\<forall>l\<in>insert (snd (cut (xs @ ys))) (set (fst (cut (xs @ ys)))). length l \<le> n" and "10 \<notin> set xs"
  shows "length xs \<le> n"
proof (cases "10 \<in> set ys")
  case True
  then obtain l r where "ys = l @ 10 # r" "10 \<notin> set l" using first_line by blast
  then have "cut (xs @ ys) = ((xs @ l) # fst (cut r), snd (cut r))" using cut_line[of "xs @ l" r] assms(2) by simp
  then show ?thesis using assms(1) by simp
next
  case False
  then show ?thesis using assms by (simp add: cut_no_newline)
qed

lemma strchr_newline:
  assumes "0 \<notin> set p"
  shows "strchr p 10 = (if 10 \<in> set p then Some (dropWhile (\<lambda>x. x \<noteq> 10) p) else None)"
proof -
  have "dropWhile (\<lambda>x. x \<noteq> 0 \<and> x \<noteq> 10) p = dropWhile (\<lambda>x. x \<noteq> 10) p"
    by (rule dropWhile_cong[OF refl]) (use assms in auto)
  moreover have "dropWhile (\<lambda>x. x \<noteq> 10) p = [] \<longleftrightarrow> 10 \<notin> set p" by auto
  moreover have "hd (dropWhile (\<lambda>x. x \<noteq> 10) p) = 10" if "10 \<in> set p" using that hd_dropWhile[of "\<lambda>x. x \<noteq> 10" p] by auto
  ultimately show ?thesis by (auto simp: strchr_def Let_def)
qed

lemma grep_lines_cut:
  "0 \<notin> set p \<Longrightarrow> grep_lines pattern p = (map (\<lambda>l. l @ [10]) (filter (match pattern) (fst (cut p))), snd (cut p))"
proof (induction "length p" arbitrary: p rule: less_induct)
  case less
  show ?case
  proof (cases "10 \<in> set p")
    case True
    then obtain l r where p: "p = l @ 10 # r" and l: "10 \<notin> set l" using first_line by blast
    then have d: "dropWhile (\<lambda>x. x \<noteq> 10) p = 10 # r" by (auto simp: dropWhile_append3 dropWhile_append)
    have "grep_lines pattern r = (map (\<lambda>l. l @ [10]) (filter (match pattern) (fst (cut r))), snd (cut r))"
      using less p by (intro less.hyps) auto
    then show ?thesis using less.prems l by (simp add: grep_lines.simps[of pattern p] strchr_newline True d) (simp add: p cut_line)
  next
    case False
    then show ?thesis using less.prems by (simp add: grep_lines.simps[of pattern p] strchr_newline cut_no_newline)
  qed
qed

lemma grep_loop_cut:
  assumes "10 \<notin> set buf" and "0 \<notin> set (buf @ concat chunks)" and "[] \<notin> set chunks"
    and "\<forall>l\<in>insert (snd (cut (buf @ concat chunks))) (set (fst (cut (buf @ concat chunks)))). length l \<le> BUFSZ - 2"
  shows "grep_loop pattern buf chunks
    = map (\<lambda>l. l @ [10]) (filter (match pattern) (fst (cut (buf @ concat chunks))))"
  using assms
proof (induction pattern buf chunks rule: grep_loop.induct)
  case (1 pattern buf chunks)
  show ?case
  proof (cases chunks)
    case Nil
    then show ?thesis using 1 by (simp add: grep_loop.simps[of pattern buf "[]"] cut_no_newline)
  next
    case (Cons c cs)
    define room where "room = BUFSZ - length buf - 1"
    define left where "left = (if drop room c = [] then cs else drop room c # cs)"
    define got where "got = take room c"
    have "length buf \<le> BUFSZ - 2" by (rule cut_short[OF 1(5) 1(2)])
    then have "room > 0" by (simp add: room_def BUFSZ_def)
    then have g: "got \<noteq> []" using 1(4) by (auto simp: got_def Cons)
    have all: "buf @ concat chunks = (buf @ got) @ concat left" by (simp add: got_def left_def Cons)
    have z: "0 \<notin> set (buf @ got)" using 1(3) unfolding all by auto
    let ?rest = "snd (cut (buf @ got))"
    have gl: "grep_lines pattern (buf @ got) = (map (\<lambda>l. l @ [10]) (filter (match pattern) (fst (cut (buf @ got)))), ?rest)"
      by (rule grep_lines_cut[OF z])
    have step: "grep_loop pattern buf chunks
        = map (\<lambda>l. l @ [10]) (filter (match pattern) (fst (cut (buf @ got)))) @ grep_loop pattern ?rest left"
      unfolding Cons grep_loop.simps[of pattern buf "c # cs"] list.case Let_def room_def[symmetric] got_def[symmetric]
        gl left_def using g by simp
    have "set ?rest \<subseteq> set (buf @ got)" by (rule cut_subset)
    then have "grep_loop pattern ?rest left = map (\<lambda>l. l @ [10]) (filter (match pattern) (fst (cut (?rest @ concat left))))"
      using 1(3,4,5) g unfolding all cut_append[of "buf @ got"] left_def
      by (intro 1(1)[OF Cons room_def got_def refl _ gl[symmetric]]) (auto simp: cut_partial Cons)
    then show ?thesis unfolding step all cut_append[of "buf @ got"] by simp
  qed
qed

text \<open>
  C32. What \<^verbatim>\<open>grep\<close> prints does not depend on how the reads cut the input: it is exactly the complete lines of the file
  that match the pattern, in order, each with its newline, for a file without NUL bytes in which no line is longer
  than 1022 bytes. A last line without a newline is never printed.
\<close>

theorem grep_prints_matching_lines:
  assumes "0 \<notin> set (concat chunks)" and "[] \<notin> set chunks"
    and "\<forall>l\<in>insert (snd (cut (concat chunks))) (set (fst (cut (concat chunks)))). length l \<le> BUFSZ - 2"
  shows "grep pattern chunks = map (\<lambda>l. l @ [10]) (filter (match pattern) (fst (cut (concat chunks))))"
  using grep_loop_cut[of "[]" chunks pattern] assms by (simp add: grep_def)

theorem grep_prints_matching_lines_witness:
  "grep [97, 46] [[97, 98], [10, 98, 10, 99, 97], [99, 10, 97]] = [[97, 98, 10], [99, 97, 99, 10]]"
proof -
  have c: "cut (concat [[97, 98], [10, 98, 10, 99, 97], [99, 10, 97]]) = ([[97, 98], [98], [99, 97, 99]], [97 :: u8])" by code_simp
  have "match [97, 46] [97, 98] \<and> \<not> match [97, 46] [98] \<and> match [97, 46] [99, 97, 99]"
    by (simp add: match_def CARET_def matchhere.simps matchstar.simps STAR_def DOLLAR_def DOT_def)
  then show ?thesis
    using grep_prints_matching_lines[of "[[97, 98], [10, 98, 10, 99, 97], [99, 10, 97]]" "[97, 46]"]
    unfolding c by (simp add: BUFSZ_def)
qed

text \<open>A line that fills the buffer ends the search: \<^verbatim>\<open>read\<close> is then asked for no bytes, and nothing after it is looked at.\<close>

lemma grep_full_buffer_stops: "length buf = BUFSZ - 1 \<Longrightarrow> grep_loop pattern buf chunks = []"
  by (subst grep_loop.simps) (simp split: list.split)

lemma grep_long_line_stops:
  assumes "length c = BUFSZ - 1" and "10 \<notin> set c" and "0 \<notin> set c"
  shows "grep pattern (c # chunks) = []"
proof -
  have "grep_lines pattern c = ([], c)" using assms by (simp add: grep_lines_cut cut_no_newline)
  then show ?thesis
    using assms grep_full_buffer_stops[of c pattern chunks] unfolding grep_def
    by (subst grep_loop.simps) (simp add: Let_def BUFSZ_def)
qed

end
