(* ===== verification/UShell.thy ===== *)
theory UShell
  imports ULib "HOL-Library.Sublist"
begin

text \<open>
  \<^verbatim>\<open>user/sh.c\<close>: the parser of the shell. The command line is the list of its
  bytes before the NUL; a pointer into it is the rest of the line from there on, so that a token, which the code keeps
  as a pair of pointers, is a pair of suffixes. Memory for the nodes is taken to be available.
\<close>

section \<open>Commands\<close>

datatype 'w cmd =
    EXEC "'w list"
  | REDIR "'w cmd" 'w int int
  | PIPE "'w cmd" "'w cmd"
  | LIST "'w cmd" "'w cmd"
  | BACK "'w cmd"

type_synonym slice = "u8 list \<times> u8 list"

definition MAXARGS :: nat where "MAXARGS = 10"
definition O_WRCREATE :: int where "O_WRCREATE = 0x201"

text \<open>The result of a parsing function, or what it writes to the standard error before it exits.\<close>

datatype 'a parse = Parsed 'a | Syntax "u8 list"

text \<open>The output of \<^verbatim>\<open>panic\<close>.\<close>

abbreviation syntax_panic :: "string \<Rightarrow> 'a parse" where
  "syntax_panic msg \<equiv> Syntax (cbytes (endl msg))"

primrec pbind :: "'a parse \<Rightarrow> ('a \<Rightarrow> 'b parse) \<Rightarrow> 'b parse" where
  "pbind (Parsed x) f = f x"
| "pbind (Syntax e) f = Syntax e"

lemma pbind_cong [fundef_cong]:
  "m = m' \<Longrightarrow> (\<And>x. m' = Parsed x \<Longrightarrow> f x = g x) \<Longrightarrow> pbind m f = pbind m' g"
  by (cases m') auto

lemma pbind_Parsed_iff: "pbind m f = Parsed y \<longleftrightarrow> (\<exists>x. m = Parsed x \<and> f x = Parsed y)"
  by (cases m) auto

section \<open>Tokens\<close>

definition LT :: u8 where "LT = 60"
definition GT :: u8 where "GT = 62"
definition BAR :: u8 where "BAR = 124"
definition AMP :: u8 where "AMP = 38"
definition SEMI :: u8 where "SEMI = 59"
definition LPAR :: u8 where "LPAR = 40"
definition RPAR :: u8 where "RPAR = 41"

definition whitespace :: "u8 list" where "whitespace = [32, 9, 13, 10, 11]"
definition symbols :: "u8 list" where "symbols = [LT, BAR, GT, AMP, SEMI, LPAR, RPAR]"

definition skip_ws :: "u8 list \<Rightarrow> u8 list" where
  "skip_ws s = dropWhile (\<lambda>c. c \<in> set whitespace) s"

definition in_word :: "u8 \<Rightarrow> bool" where
  "in_word c \<longleftrightarrow> c \<notin> set whitespace \<and> c \<notin> set symbols"

text \<open>The kind of token: 0 at the end, \<^verbatim>\<open>'a'\<close> for a word, \<^verbatim>\<open>'+'\<close> for \<^verbatim>\<open>>>\<close>, and the character of a symbol.\<close>

definition WORD :: u8 where "WORD = 97"
definition PLUS :: u8 where "PLUS = 43"

definition gettoken :: "u8 list \<Rightarrow> u8 \<times> slice \<times> u8 list" where
  "gettoken s =
     (let q = skip_ws s;
          (ret, e) = (case q of [] \<Rightarrow> (0, [])
            | c # r \<Rightarrow>
                if c \<in> {BAR, LPAR, RPAR, SEMI, AMP, LT} then (c, r)
                else if c = GT then (if r \<noteq> [] \<and> hd r = GT then (PLUS, tl r) else (GT, r))
                else (WORD, dropWhile in_word q))
      in (ret, (q, e), skip_ws e))"

definition peek :: "u8 list \<Rightarrow> u8 list \<Rightarrow> bool \<times> u8 list" where
  "peek s toks = (let s = skip_ws s in (s \<noteq> [] \<and> hd s \<in> set toks, s))"

text \<open>The rest of the line after a token whose kind is known from \<^verbatim>\<open>peek\<close>.\<close>

definition after :: "u8 list \<Rightarrow> u8 list" where
  "after s = snd (snd (gettoken s))"

lemma skip_ws_le: "length (skip_ws s) \<le> length s"
  by (simp add: skip_ws_def length_dropWhile_le)

lemma skip_ws_le': "length s \<le> n \<Longrightarrow> length (skip_ws s) \<le> n"
  using skip_ws_le[of s] by simp

lemma skip_ws_idem [simp]: "skip_ws (skip_ws s) = skip_ws s"
  by (simp add: skip_ws_def)

lemma gettoken_le: "gettoken s = (t, w, s') \<Longrightarrow> length s' \<le> length s"
  using skip_ws_le[of s]
  by (auto simp: gettoken_def Let_def length_dropWhile_le split: list.splits if_splits
      intro!: skip_ws_le' dest: arg_cong[of _ _ length] intro: order_trans[OF length_dropWhile_le])

lemma skip_ws_hd: "skip_ws s = c # r \<Longrightarrow> c \<notin> set whitespace"
  unfolding skip_ws_def using hd_dropWhile[of "\<lambda>c. c \<in> set whitespace" s] by (metis list.distinct(1) list.sel(1))

lemma gettoken_less: "gettoken s = (t, w, s') \<Longrightarrow> t \<noteq> 0 \<Longrightarrow> length s' < length s"
proof (cases "skip_ws s")
  case Nil
  then show "gettoken s = (t, w, s') \<Longrightarrow> t \<noteq> 0 \<Longrightarrow> ?thesis" by (simp add: gettoken_def)
next
  case (Cons c r)
  assume a: "gettoken s = (t, w, s')"
  have "length r < length s" using skip_ws_le[of s] Cons by simp
  moreover have "length (dropWhile in_word (c # r)) \<le> length r" if "c \<notin> set symbols"
    using that skip_ws_hd[OF Cons] length_dropWhile_le[of in_word r] by (simp add: in_word_def)
  ultimately show ?thesis
    using a Cons skip_ws_le[of r] skip_ws_le[of "tl r"] skip_ws_le[of "dropWhile in_word (c # r)"]
    by (auto simp: gettoken_def Let_def symbols_def split: if_splits)
qed

lemma peek_less: "peek s toks = (True, s') \<Longrightarrow> set toks \<subseteq> set symbols \<Longrightarrow> length (after s') < length s"
proof -
  assume a: "peek s toks = (True, s')" "set toks \<subseteq> set symbols"
  obtain k w u where g: "gettoken s' = (k, w, u)" by (cases "gettoken s'")
  have "k \<noteq> 0" using a g
    by (auto simp: peek_def gettoken_def Let_def symbols_def WORD_def PLUS_def LT_def GT_def BAR_def AMP_def SEMI_def
        LPAR_def RPAR_def split: list.splits if_splits)
  then have "length u < length s'" using gettoken_less[OF g] by simp
  moreover have "length s' \<le> length s" using a(1) skip_ws_le[of s] by (auto simp: peek_def Let_def)
  ultimately show ?thesis by (simp add: after_def g)
qed

lemma peek_le: "peek s toks = (b, s') \<Longrightarrow> length s' \<le> length s"
  using skip_ws_le[of s] by (auto simp: peek_def Let_def)

section \<open>The parser\<close>

text \<open>
  The redirections of a command in the order of the line, as file, mode and descriptor. \<^verbatim>\<open>parseredirs\<close> wraps the
  command in one node per redirection; here they are collected and \<open>wrap\<close> builds the nodes, since \<^verbatim>\<open>parseexec\<close> goes on
  storing arguments in the innermost node.
\<close>

type_synonym redirs = "(slice \<times> int \<times> int) list"

definition wrap :: "('w \<times> int \<times> int) list \<Rightarrow> 'w cmd \<Rightarrow> 'w cmd" where
  "wrap rs c = fold (\<lambda>(f, mode, fd) c. REDIR c f mode fd) rs c"

definition redir_of :: "u8 \<Rightarrow> int \<times> int" where
  "redir_of tok = (if tok = LT then (0, 0) else (O_WRCREATE, 1))"

function parseredirs :: "redirs \<Rightarrow> u8 list \<Rightarrow> (redirs \<times> u8 list) parse" where
  "parseredirs rs s =
     (case peek s [LT, GT] of
        (False, s) \<Rightarrow> Parsed (rs, s)
      | (True, s) \<Rightarrow>
          (case gettoken s of (tok, _, s) \<Rightarrow>
           case gettoken s of (tok2, w, s) \<Rightarrow>
           if tok2 \<noteq> WORD then syntax_panic ''missing file for redirection''
           else parseredirs (rs @ [(w, redir_of tok)]) s))"
  by pat_completeness auto

lemma redir_step:
  assumes "(True, s1) = peek s [LT, GT]" and "(tok, w1, s2) = gettoken s1" and "(tok2, w, s3) = gettoken s2"
  shows "length s3 < length s"
proof -
  have "length (after s1) < length s" by (rule peek_less[OF assms(1)[symmetric]]) (simp add: symbols_def)
  then show ?thesis using gettoken_le[OF assms(3)[symmetric]] assms(2)[symmetric] by (simp add: after_def)
qed

termination parseredirs
  by (relation "measure (\<lambda>(_, s). length s)") (auto intro: redir_step)

declare parseredirs.simps [simp del]

lemma parseredirs_le: "parseredirs rs s = Parsed (rs', s') \<Longrightarrow> length s' \<le> length s"
proof (induction rs s rule: parseredirs.induct)
  case (1 rs s)
  obtain b s1 where p: "peek s [LT, GT] = (b, s1)" by (cases "peek s [LT, GT]")
  obtain tok w1 s2 where g: "gettoken s1 = (tok, w1, s2)" by (cases "gettoken s1")
  obtain tok2 w s3 where g2: "gettoken s2 = (tok2, w, s3)" by (cases "gettoken s2")
  show ?case
  proof (cases b)
    case True
    then have "tok2 = WORD" "parseredirs (rs @ [(w, redir_of tok)]) s3 = Parsed (rs', s')"
      using 1(2) p g g2 by (auto simp: parseredirs.simps[of rs s] split: if_splits)
    then have "length s' \<le> length s3" using 1(1)[OF p[symmetric] _ g[symmetric] refl g2[symmetric] refl] True by simp
    then show ?thesis using gettoken_le[OF g2] gettoken_le[OF g] peek_le[OF p] by simp
  next
    case False
    then show ?thesis using 1(2) p peek_le[OF p] by (simp add: parseredirs.simps[of rs s])
  qed
qed

text \<open>The loop over the arguments.\<close>

function parse_args :: "slice list \<Rightarrow> redirs \<Rightarrow> u8 list \<Rightarrow> (slice list \<times> redirs \<times> u8 list) parse" where
  "parse_args args rs s =
     (case peek s [BAR, RPAR, AMP, SEMI] of
        (True, s) \<Rightarrow> Parsed (args, rs, s)
      | (False, s) \<Rightarrow>
          (case gettoken s of (tok, w, s) \<Rightarrow>
           if tok = 0 then Parsed (args, rs, s)
           else if tok \<noteq> WORD then syntax_panic ''syntax''
           else if Suc (length args) \<ge> MAXARGS then syntax_panic ''too many args''
           else pbind (parseredirs rs s) (\<lambda>(rs, s). parse_args (args @ [w]) rs s)))"
  by pat_completeness auto

lemma arg_step:
  assumes "(False, s1) = peek s [BAR, RPAR, AMP, SEMI]" and "(tok, w, s2) = gettoken s1" and "tok \<noteq> 0"
    and "parseredirs rs s2 = Parsed (rs', s3)"
  shows "length s3 < length s"
  using gettoken_less[OF assms(2)[symmetric] assms(3)] parseredirs_le[OF assms(4)] peek_le[OF assms(1)[symmetric]] by simp

termination parse_args
  by (relation "measure (\<lambda>(_, _, s). length s)") (auto intro: arg_step simp: WORD_def)

declare parse_args.simps [simp del]

lemma parse_args_le: "parse_args args rs s = Parsed (args', rs', s') \<Longrightarrow> length s' \<le> length s"
proof (induction args rs s rule: parse_args.induct)
  case (1 args rs s)
  obtain b s1 where p: "peek s [BAR, RPAR, AMP, SEMI] = (b, s1)" by (cases "peek s [BAR, RPAR, AMP, SEMI]")
  obtain tok w s2 where g: "gettoken s1 = (tok, w, s2)" by (cases "gettoken s1")
  show ?case
  proof (cases "b \<or> tok = 0")
    case True
    then show ?thesis using 1(2) p g peek_le[OF p] gettoken_le[OF g]
      by (auto simp: parse_args.simps[of args rs s] split: if_splits bool.splits)
  next
    case False
    then have t: "tok = WORD" "\<not> Suc (length args) \<ge> MAXARGS"
      and "\<exists>r u. parseredirs rs s2 = Parsed (r, u) \<and> parse_args (args @ [w]) r u = Parsed (args', rs', s')"
      using 1(2) p g by (auto simp: parse_args.simps[of args rs s] pbind_Parsed_iff split: if_splits)
    then obtain r u where r: "parseredirs rs s2 = Parsed (r, u)" "parse_args (args @ [w]) r u = Parsed (args', rs', s')" by blast
    have "length s' \<le> length u"
      using 1(1)[OF p[symmetric] _ g[symmetric] refl _ _ _ r(1) refl r(2)] False t by simp
    then show ?thesis using arg_step[of s1 s tok w s2 rs r u] p g r(1) False by simp
  qed
qed

text \<open>The loop of \<^verbatim>\<open>parseline\<close> over \<^verbatim>\<open>&\<close>.\<close>

function parse_backs :: "slice cmd \<Rightarrow> u8 list \<Rightarrow> slice cmd \<times> u8 list" where
  "parse_backs c s =
     (case peek s [AMP] of (True, s) \<Rightarrow> parse_backs (BACK c) (after s) | (False, s) \<Rightarrow> (c, s))"
  by pat_completeness auto

lemma peek_step: "(True, s1) = peek s toks \<Longrightarrow> set toks \<subseteq> set symbols \<Longrightarrow> length (after s1) < length s"
  using peek_less[of s toks s1] by simp

termination parse_backs
  by (relation "measure (\<lambda>(_, s). length s)") (auto intro!: peek_step simp: symbols_def)

declare parse_backs.simps [simp del]

lemma parse_backs_le: "parse_backs c s = (c', s') \<Longrightarrow> length s' \<le> length s"
proof (induction c s rule: parse_backs.induct)
  case (1 c s)
  obtain b s1 where p: "peek s [AMP] = (b, s1)" by (cases "peek s [AMP]")
  show ?case
  proof (cases b)
    case True
    then have "length s' \<le> length (after s1)" using 1 p by (auto simp: parse_backs.simps[of c s])
    also have "\<dots> < length s" using p True peek_less[of s "[AMP]" s1] by (simp add: symbols_def)
    finally show ?thesis by simp
  next
    case False
    then show ?thesis using 1(2) p peek_le[OF p] by (simp add: parse_backs.simps[of c s])
  qed
qed

function parseline :: "u8 list \<Rightarrow> (slice cmd \<times> u8 list) parse"
  and parsepipe :: "u8 list \<Rightarrow> (slice cmd \<times> u8 list) parse"
  and parseexec :: "u8 list \<Rightarrow> (slice cmd \<times> u8 list) parse"
  and parseblock :: "u8 list \<Rightarrow> (slice cmd \<times> u8 list) parse" where
  "parseline s =
     pbind (parsepipe s) (\<lambda>(c, s).
     case parse_backs c s of (c, s) \<Rightarrow>
       (case peek s [SEMI] of
          (True, s) \<Rightarrow> pbind (parseline (after s)) (\<lambda>(c', s). Parsed (LIST c c', s))
        | (False, s) \<Rightarrow> Parsed (c, s)))"
| "parsepipe s =
     pbind (parseexec s) (\<lambda>(c, s).
     case peek s [BAR] of
       (True, s) \<Rightarrow> pbind (parsepipe (after s)) (\<lambda>(c', s). Parsed (PIPE c c', s))
     | (False, s) \<Rightarrow> Parsed (c, s))"
| "parseexec s =
     (case peek s [LPAR] of
        (True, s) \<Rightarrow> parseblock s
      | (False, s) \<Rightarrow>
          pbind (parseredirs [] s) (\<lambda>(rs, s).
          pbind (parse_args [] rs s) (\<lambda>(args, rs, s). Parsed (wrap rs (EXEC args), s))))"
| "parseblock s =
     (case peek s [LPAR] of
        (False, s) \<Rightarrow> syntax_panic ''parseblock''
      | (True, s) \<Rightarrow>
          pbind (parseline (after s)) (\<lambda>(c, s).
          case peek s [RPAR] of
            (False, s) \<Rightarrow> syntax_panic ''syntax - missing )''
          | (True, s) \<Rightarrow> pbind (parseredirs [] (after s)) (\<lambda>(rs, s). Parsed (wrap rs c, s))))"
  by pat_completeness auto

lemma parse_le:
  "parseline_parsepipe_parseexec_parseblock_dom (Inl (Inl s)) \<Longrightarrow> parseline s = Parsed (c, s') \<Longrightarrow> length s' \<le> length s"
  "parseline_parsepipe_parseexec_parseblock_dom (Inl (Inr s)) \<Longrightarrow> parsepipe s = Parsed (c, s') \<Longrightarrow> length s' \<le> length s"
  "parseline_parsepipe_parseexec_parseblock_dom (Inr (Inl s)) \<Longrightarrow> parseexec s = Parsed (c, s') \<Longrightarrow> length s' \<le> length s"
  "parseline_parsepipe_parseexec_parseblock_dom (Inr (Inr s)) \<Longrightarrow> parseblock s = Parsed (c, s') \<Longrightarrow> length s' \<le> length s"
proof (induction s and s and s and s arbitrary: c s' and c s' and c s' and c s' rule: parseline_parsepipe_parseexec_parseblock.pinduct)
  case (1 s)
  from 1(1,4) obtain c1 s1 where r: "parsepipe s = Parsed (c1, s1)" by (auto simp: parseline.psimps pbind_Parsed_iff)
  obtain c2 s2 where b: "parse_backs c1 s1 = (c2, s2)" by (cases "parse_backs c1 s1")
  obtain x s3 where p: "peek s2 [SEMI] = (x, s3)" by (cases "peek s2 [SEMI]")
  note le = 1(2)[OF r] parse_backs_le[OF b] peek_le[OF p]
  show ?case
  proof (cases x)
    case True
    then obtain c4 where r4: "parseline (after s3) = Parsed (c4, s')"
      using 1(1,4) r b p by (auto simp: parseline.psimps pbind_Parsed_iff)
    have "length s' \<le> length (after s3)" using 1(3)[OF r refl b[symmetric] p[symmetric] _ r4] True by simp
    then show ?thesis using le peek_less[of s2 "[SEMI]" s3] p True by (simp add: symbols_def)
  next
    case False
    then show ?thesis using 1(1,4) r b p le by (simp add: parseline.psimps)
  qed
next
  case (2 s)
  from 2(1,4) obtain c1 s1 where r: "parseexec s = Parsed (c1, s1)" by (auto simp: parsepipe.psimps pbind_Parsed_iff)
  obtain x s3 where p: "peek s1 [BAR] = (x, s3)" by (cases "peek s1 [BAR]")
  note le = 2(2)[OF r] peek_le[OF p]
  show ?case
  proof (cases x)
    case True
    then obtain c4 where r4: "parsepipe (after s3) = Parsed (c4, s')"
      using 2(1,4) r p by (auto simp: parsepipe.psimps pbind_Parsed_iff)
    have "length s' \<le> length (after s3)" using 2(3)[OF r refl p[symmetric] _ r4] True by simp
    then show ?thesis using le peek_less[of s1 "[BAR]" s3] p True by (simp add: symbols_def)
  next
    case False
    then show ?thesis using 2(1,4) r p le by (simp add: parsepipe.psimps)
  qed
next
  case (3 s)
  obtain x s1 where p: "peek s [LPAR] = (x, s1)" by (cases "peek s [LPAR]")
  show ?case
  proof (cases x)
    case True
    then have "parseblock s1 = Parsed (c, s')" using 3(1,3) p by (simp add: parseexec.psimps)
    then show ?thesis using 3(2)[OF p[symmetric]] True peek_le[OF p] by fastforce
  next
    case False
    then obtain rs s2 args rs' where "parseredirs [] s1 = Parsed (rs, s2)" "parse_args [] rs s2 = Parsed (args, rs', s')"
      using 3(1,3) p by (auto simp: parseexec.psimps pbind_Parsed_iff)
    then show ?thesis using parseredirs_le parse_args_le peek_le[OF p] by fastforce
  qed
next
  case (4 s)
  obtain x s1 where p: "peek s [LPAR] = (x, s1)" by (cases "peek s [LPAR]")
  have x: x using 4(1,3) p by (cases x) (simp_all add: parseblock.psimps)
  from 4(1,3) p x obtain c1 s2 where r: "parseline (after s1) = Parsed (c1, s2)"
    by (auto simp: parseblock.psimps pbind_Parsed_iff)
  obtain y s3 where q: "peek s2 [RPAR] = (y, s3)" by (cases "peek s2 [RPAR]")
  have y: y using 4(1,3) p x r q by (cases y) (simp_all add: parseblock.psimps)
  obtain rs where "parseredirs [] (after s3) = Parsed (rs, s')"
    using 4(1,3) p x r q y by (auto simp: parseblock.psimps pbind_Parsed_iff)
  then have "length s' \<le> length (after s3)" by (rule parseredirs_le)
  moreover have "length s2 \<le> length (after s1)" using 4(2)[OF p[symmetric] _ r] x by simp
  ultimately show ?case
    using peek_less[of s "[LPAR]" s1] p x peek_less[of s2 "[RPAR]" s3] q y by (simp add: symbols_def)
qed

lemma line_step:
  assumes "parsepipe s = Parsed (c, s1)" and "(c2, s2) = parse_backs c s1" and "(True, s3) = peek s2 [SEMI]"
    and "parseline_parsepipe_parseexec_parseblock_dom (Inl (Inr s))"
  shows "length (after s3) < length s"
  using parse_le(2)[OF assms(4,1)] parse_backs_le[OF assms(2)[symmetric]] peek_step[OF assms(3)] by (simp add: symbols_def)

lemma pipe_step:
  assumes "parseexec s = Parsed (c, s1)" and "(True, s2) = peek s1 [BAR]"
    and "parseline_parsepipe_parseexec_parseblock_dom (Inr (Inl s))"
  shows "length (after s2) < length s"
  using parse_le(3)[OF assms(3,1)] peek_step[OF assms(2)] by (simp add: symbols_def)

lemma block_step: "(True, s1) = peek s [LPAR] \<Longrightarrow> length (after s1) < length s"
  using peek_step[of s1 s "[LPAR]"] by (simp add: symbols_def)

lemma exec_step: "(b, s1) = peek s toks \<Longrightarrow> length s1 \<noteq> length s \<Longrightarrow> length s1 < length s"
  using peek_le[of s toks b s1] by simp

termination parseline
  by (relation "measures [case_sum (case_sum length length) (case_sum length length),
      case_sum (case_sum (\<lambda>_. 3) (\<lambda>_. 2)) (case_sum (\<lambda>_. 1) (\<lambda>_. 0))]")
    (auto intro: line_step pipe_step block_step exec_step)

declare parseline.simps [simp del] parsepipe.simps [simp del] parseexec.simps [simp del] parseblock.simps [simp del]

definition parsecmd :: "u8 list \<Rightarrow> slice cmd parse" where
  "parsecmd line =
     pbind (parseline line) (\<lambda>(c, s). case peek s [] of (_, s) \<Rightarrow> if s \<noteq> [] then Syntax (cbytes ''leftovers: '' @ s @ [10] @ cbytes (endl ''syntax'')) else Parsed c)"

text \<open>\<^verbatim>\<open>nulterminate\<close>: the pointers it writes a NUL through, and the line afterwards.\<close>

primrec nul_ends :: "slice cmd \<Rightarrow> u8 list list" where
  "nul_ends (EXEC ws) = map snd ws"
| "nul_ends (REDIR c f mode fd) = nul_ends c @ [snd f]"
| "nul_ends (PIPE l r) = nul_ends l @ nul_ends r"
| "nul_ends (LIST l r) = nul_ends l @ nul_ends r"
| "nul_ends (BACK c) = nul_ends c"

definition nulterminate :: "u8 list \<Rightarrow> slice cmd \<Rightarrow> u8 list \<Rightarrow> u8 list" where
  "nulterminate line c buf = fold (\<lambda>e buf. buf[length line - length e := 0]) (nul_ends c) buf"

section \<open>Words\<close>

text \<open>The characters of a token, and what every token of a line is: a maximal word of it.\<close>

definition word :: "slice \<Rightarrow> u8 list" where
  "word w = take (length (fst w) - length (snd w)) (fst w)"

definition tok_of :: "u8 list \<Rightarrow> slice \<Rightarrow> bool" where
  "tok_of s w \<longleftrightarrow> suffix (fst w) s \<and> snd w = dropWhile in_word (fst w) \<and> fst w \<noteq> [] \<and> in_word (hd (fst w))"

lemma tok_of_mono: "tok_of s w \<Longrightarrow> suffix s t \<Longrightarrow> tok_of t w"
  by (auto simp: tok_of_def intro: suffix_order.trans)

lemma skip_ws_suffix: "suffix (skip_ws s) s"
  by (simp add: skip_ws_def suffix_dropWhile)

lemma peek_suffix: "peek s toks = (b, s') \<Longrightarrow> suffix s' s"
  using skip_ws_suffix[of s] by (auto simp: peek_def Let_def)

lemma gettoken_suffix:
  assumes "gettoken s = (k, w, s')"
  shows "suffix s' s" and "k = WORD \<Longrightarrow> tok_of s w"
proof -
  have q: "suffix (skip_ws s) s" by (rule skip_ws_suffix)
  have "suffix (snd w) (skip_ws s)" using assms
    by (auto simp: gettoken_def Let_def suffix_ConsI suffix_dropWhile split: list.splits if_splits
        intro: suffix_order.trans[OF suffix_tl])
  moreover have "s' = skip_ws (snd w)" using assms by (auto simp: gettoken_def Let_def split: prod.splits)
  ultimately show "suffix s' s" using q skip_ws_suffix suffix_order.trans by metis
  show "tok_of s w" if "k = WORD"
    using assms q that skip_ws_hd[of s]
    by (auto simp: gettoken_def Let_def tok_of_def in_word_def symbols_def WORD_def PLUS_def LT_def GT_def BAR_def AMP_def SEMI_def LPAR_def RPAR_def
        split: list.splits if_splits)
qed

lemma after_suffix: "suffix (after s) s"
  by (cases "gettoken s") (simp add: after_def gettoken_suffix)

lemma parseredirs_toks:
  "parseredirs rs s = Parsed (rs', s') \<Longrightarrow> suffix s' s \<and> (\<forall>w\<in>fst ` set rs'. w \<in> fst ` set rs \<or> tok_of s w)"
proof (induction rs s rule: parseredirs.induct)
  case (1 rs s)
  obtain b s1 where p: "peek s [LT, GT] = (b, s1)" by (cases "peek s [LT, GT]")
  obtain tok w1 s2 where g: "gettoken s1 = (tok, w1, s2)" by (cases "gettoken s1")
  obtain tok2 w s3 where g2: "gettoken s2 = (tok2, w, s3)" by (cases "gettoken s2")
  have s2: "suffix s2 s" using gettoken_suffix(1)[OF g] peek_suffix[OF p] suffix_order.trans by blast
  show ?case
  proof (cases b)
    case True
    then have k: "tok2 = WORD" and r: "parseredirs (rs @ [(w, redir_of tok)]) s3 = Parsed (rs', s')"
      using 1(2) p g g2 by (auto simp: parseredirs.simps[of rs s] split: if_splits)
    have "tok_of s w" using gettoken_suffix(2)[OF g2 k] s2 tok_of_mono by blast
    moreover have "suffix s3 s" using gettoken_suffix(1)[OF g2] s2 suffix_order.trans by blast
    ultimately show ?thesis
      using 1(1)[OF p[symmetric] _ g[symmetric] refl g2[symmetric] refl] True k r
      by (auto intro: tok_of_mono suffix_order.trans)
  next
    case False
    then show ?thesis using 1(2) p peek_suffix[OF p] by (simp add: parseredirs.simps[of rs s])
  qed
qed

lemma parse_args_toks:
  "parse_args args rs s = Parsed (args', rs', s') \<Longrightarrow> suffix s' s
   \<and> (\<forall>w\<in>set args' \<union> fst ` set rs'. w \<in> set args \<union> fst ` set rs \<or> tok_of s w)"
proof (induction args rs s rule: parse_args.induct)
  case (1 args rs s)
  obtain b s1 where p: "peek s [BAR, RPAR, AMP, SEMI] = (b, s1)" by (cases "peek s [BAR, RPAR, AMP, SEMI]")
  obtain tok w s2 where g: "gettoken s1 = (tok, w, s2)" by (cases "gettoken s1")
  have s1: "suffix s1 s" and s2: "suffix s2 s" using gettoken_suffix(1)[OF g] peek_suffix[OF p] suffix_order.trans by blast+
  show ?case
  proof (cases "b \<or> tok = 0")
    case True
    then show ?thesis using 1(2) p g s1 s2 by (auto simp: parse_args.simps[of args rs s] split: if_splits bool.splits)
  next
    case False
    then have t: "tok = WORD" "\<not> Suc (length args) \<ge> MAXARGS"
      and "\<exists>r u. parseredirs rs s2 = Parsed (r, u) \<and> parse_args (args @ [w]) r u = Parsed (args', rs', s')"
      using 1(2) p g by (auto simp: parse_args.simps[of args rs s] pbind_Parsed_iff split: if_splits)
    then obtain r u where r: "parseredirs rs s2 = Parsed (r, u)" "parse_args (args @ [w]) r u = Parsed (args', rs', s')" by blast
    note rt = parseredirs_toks[OF r(1)]
    have u: "suffix u s" using rt s2 suffix_order.trans by blast
    have w: "tok_of s w" using gettoken_suffix(2)[OF g t(1)] s1 tok_of_mono by blast
    have IH: "suffix s' u \<and> (\<forall>w'\<in>set args' \<union> fst ` set rs'. w' \<in> set (args @ [w]) \<union> fst ` set r \<or> tok_of u w')"
      using 1(1)[OF p[symmetric] _ g[symmetric] refl _ _ _ r(1) refl r(2)] False t by simp
    have "w' \<in> set args \<union> fst ` set rs \<or> tok_of s w'" if "w' \<in> set args' \<union> fst ` set rs'" for w'
    proof -
      have "w' \<in> set (args @ [w]) \<union> fst ` set r \<or> tok_of u w'" using IH that by blast
      then consider "w' \<in> set args" | "w' = w" | "w' \<in> fst ` set r" | "tok_of u w'" by auto
      then show ?thesis
      proof cases
        case 3
        then have "w' \<in> fst ` set rs \<or> tok_of s2 w'" using rt by blast
        then show ?thesis using tok_of_mono[OF _ s2] by blast
      qed (use w tok_of_mono[OF _ u] in auto)
    qed
    moreover have "suffix s' s" using IH u suffix_order.trans by blast
    ultimately show ?thesis by blast
  qed
qed

lemma set_wrap: "set_cmd (wrap rs c) = fst ` set rs \<union> set_cmd c"
  unfolding wrap_def by (induction rs arbitrary: c) auto

lemma parse_backs_toks: "parse_backs c s = (c', s') \<Longrightarrow> suffix s' s \<and> set_cmd c' = set_cmd c"
proof (induction c s rule: parse_backs.induct)
  case (1 c s)
  obtain b s1 where p: "peek s [AMP] = (b, s1)" by (cases "peek s [AMP]")
  note suf = peek_suffix[OF p] after_suffix[of s1]
  show ?case
  proof (cases b)
    case True
    then have "suffix s' (after s1) \<and> set_cmd c' = set_cmd (BACK c)" using 1 p by (auto simp: parse_backs.simps[of c s])
    then show ?thesis using suf by (auto intro: suffix_order.trans)
  next
    case False
    then show ?thesis using 1(2) p suf by (simp add: parse_backs.simps[of c s])
  qed
qed

definition toks_of :: "u8 list \<Rightarrow> slice cmd \<Rightarrow> u8 list \<Rightarrow> bool" where
  "toks_of s c s' \<longleftrightarrow> suffix s' s \<and> (\<forall>w\<in>set_cmd c. tok_of s w)"

lemma toks_of_mono: "toks_of s c s' \<Longrightarrow> suffix s t \<Longrightarrow> toks_of t c s'"
  unfolding toks_of_def by (metis suffix_order.trans tok_of_mono)

lemma toks_of_suffix: "toks_of s c s' \<Longrightarrow> suffix s'' s' \<Longrightarrow> toks_of s c s''"
  unfolding toks_of_def by (metis suffix_order.trans)

lemma toks_of_two: "toks_of s c s' \<Longrightarrow> toks_of s' d s'' \<Longrightarrow> set_cmd e = set_cmd c \<union> set_cmd d \<Longrightarrow> toks_of s e s''"
  unfolding toks_of_def by (auto intro: suffix_order.trans tok_of_mono)

lemma parse_toks:
  "parseline s = Parsed (c, s') \<Longrightarrow> toks_of s c s'"
  "parsepipe s = Parsed (c, s') \<Longrightarrow> toks_of s c s'"
  "parseexec s = Parsed (c, s') \<Longrightarrow> toks_of s c s'"
  "parseblock s = Parsed (c, s') \<Longrightarrow> toks_of s c s'"
proof (induction s and s and s and s arbitrary: c s' and c s' and c s' and c s' rule: parseline_parsepipe_parseexec_parseblock.induct)
  case (1 s)
  from 1(3) obtain c1 s1 where r: "parsepipe s = Parsed (c1, s1)" by (auto simp: parseline.simps[of s] pbind_Parsed_iff)
  obtain c2 s2 where b: "parse_backs c1 s1 = (c2, s2)" by (cases "parse_backs c1 s1")
  obtain x s3 where p: "peek s2 [SEMI] = (x, s3)" by (cases "peek s2 [SEMI]")
  have "toks_of s c2 s2" using 1(1)[OF r] parse_backs_toks[OF b] by (auto simp: toks_of_def intro: suffix_order.trans)
  then have t: "toks_of s c2 s3" by (rule toks_of_suffix[OF _ peek_suffix[OF p]])
  show ?case
  proof (cases x)
    case True
    then obtain c4 where r4: "parseline (after s3) = Parsed (c4, s')" and c: "c = LIST c2 c4"
      using 1(3) r b p by (auto simp: parseline.simps[of s] pbind_Parsed_iff)
    have "toks_of s3 c4 s'" using 1(2)[OF r refl b[symmetric] p[symmetric] _ r4] True after_suffix toks_of_mono by blast
    then show ?thesis by (rule toks_of_two[OF t]) (simp add: c)
  next
    case False
    then show ?thesis using 1(3) r b p t by (simp add: parseline.simps[of s])
  qed
next
  case (2 s)
  from 2(3) obtain c1 s1 where r: "parseexec s = Parsed (c1, s1)" by (auto simp: parsepipe.simps[of s] pbind_Parsed_iff)
  obtain x s3 where p: "peek s1 [BAR] = (x, s3)" by (cases "peek s1 [BAR]")
  have t: "toks_of s c1 s3" by (rule toks_of_suffix[OF 2(1)[OF r] peek_suffix[OF p]])
  show ?case
  proof (cases x)
    case True
    then obtain c4 where r4: "parsepipe (after s3) = Parsed (c4, s')" and c: "c = PIPE c1 c4"
      using 2(3) r p by (auto simp: parsepipe.simps[of s] pbind_Parsed_iff)
    have "toks_of s3 c4 s'" using 2(2)[OF r refl p[symmetric] _ r4] True after_suffix toks_of_mono by blast
    then show ?thesis by (rule toks_of_two[OF t]) (simp add: c)
  next
    case False
    then show ?thesis using 2(3) r p t by (simp add: parsepipe.simps[of s])
  qed
next
  case (3 s)
  obtain x s1 where p: "peek s [LPAR] = (x, s1)" by (cases "peek s [LPAR]")
  show ?case
  proof (cases x)
    case True
    then have "parseblock s1 = Parsed (c, s')" using 3(2) p by (simp add: parseexec.simps[of s])
    then show ?thesis using 3(1)[OF p[symmetric]] True peek_suffix[OF p] toks_of_mono by blast
  next
    case False
    then obtain rs s2 args rs' where r: "parseredirs [] s1 = Parsed (rs, s2)" "parse_args [] rs s2 = Parsed (args, rs', s')"
      and c: "c = wrap rs' (EXEC args)"
      using 3(2) p by (auto simp: parseexec.simps[of s] pbind_Parsed_iff)
    note a = parseredirs_toks[OF r(1)] and b = parse_args_toks[OF r(2)]
    have "tok_of s1 w" if "w \<in> set_cmd c" for w
    proof -
      have "w \<in> fst ` set rs \<or> tok_of s2 w" using b that by (auto simp: c set_wrap)
      then show ?thesis using a tok_of_mono[of s2 w s1] by auto
    qed
    then have "toks_of s1 c s'" unfolding toks_of_def using a b suffix_order.trans by blast
    then show ?thesis using peek_suffix[OF p] by (rule toks_of_mono)
  qed
next
  case (4 s)
  obtain x s1 where p: "peek s [LPAR] = (x, s1)" by (cases "peek s [LPAR]")
  have x: x using 4(2) p by (cases x) (simp_all add: parseblock.simps[of s])
  from 4(2) p x obtain c1 s2 where r: "parseline (after s1) = Parsed (c1, s2)"
    by (auto simp: parseblock.simps[of s] pbind_Parsed_iff)
  obtain y s3 where q: "peek s2 [RPAR] = (y, s3)" by (cases "peek s2 [RPAR]")
  have y: y using 4(2) p x r q by (cases y) (simp_all add: parseblock.simps[of s])
  obtain rs where rs: "parseredirs [] (after s3) = Parsed (rs, s')" and c: "c = wrap rs c1"
    using 4(2) p x r q y by (auto simp: parseblock.simps[of s] pbind_Parsed_iff)
  have t: "toks_of s c1 s2"
    using 4(1)[OF p[symmetric] _ r] x after_suffix[of s1] peek_suffix[OF p] toks_of_mono by blast
  have s3: "suffix (after s3) s2" using after_suffix[of s3] peek_suffix[OF q] suffix_order.trans by blast
  have "toks_of s2 (wrap rs (EXEC [])) s'"
    using parseredirs_toks[OF rs] s3 unfolding toks_of_def set_wrap by (auto intro: suffix_order.trans tok_of_mono)
  with t show ?case by (rule toks_of_two) (auto simp: c set_wrap)
qed

lemma set_nul_ends: "set (nul_ends c) = snd ` set_cmd c"
  by (induction c) auto

lemma nulterminate_nth:
  "i < length buf \<Longrightarrow> nulterminate line c buf ! i = (if \<exists>e\<in>snd ` set_cmd c. i = length line - length e then 0 else buf ! i)"
proof -
  have "i < length buf \<Longrightarrow> fold (\<lambda>e buf. buf[length line - length e := 0]) es buf ! i
      = (if \<exists>e\<in>set es. i = length line - length e then 0 else buf ! i)" for es :: "u8 list list"
    by (induction es arbitrary: buf) (auto simp: nth_list_update)
  then show "i < length buf \<Longrightarrow> ?thesis" unfolding nulterminate_def set_nul_ends[symmetric] by blast
qed

lemma length_nulterminate [simp]: "length (nulterminate line c buf) = length buf"
proof -
  have "length (fold (\<lambda>e buf. buf[length line - length e := 0]) es buf) = length buf" for es :: "u8 list list"
    by (induction es arbitrary: buf) simp_all
  then show ?thesis by (simp add: nulterminate_def)
qed

lemma takeWhile_string:
  assumes "a \<le> b" and "b < length B" and "\<And>i. a \<le> i \<Longrightarrow> i < b \<Longrightarrow> B ! i \<noteq> 0" and "B ! b = (0 :: u8)"
  shows "takeWhile (\<lambda>c. c \<noteq> 0) (drop a B) = take (b - a) (drop a B)"
proof -
  have "drop a B = take (b - a) (drop a B) @ B ! b # drop (Suc b) B"
    using assms(1,2) by (metis Cons_nth_drop_Suc append_take_drop_id drop_drop le_add_diff_inverse2)
  moreover have "\<forall>x\<in>set (take (b - a) (drop a B)). x \<noteq> 0" using assms(1-3) by (auto simp: set_conv_nth)
  ultimately show ?thesis using assms(4) by (metis (mono_tags, lifting) takeWhile_append2 takeWhile.simps(2) append.right_neutral)
qed

text \<open>The string that a pointer to the start of a token denotes once the line has been terminated.\<close>

definition string_at :: "u8 list \<Rightarrow> u8 list \<Rightarrow> slice \<Rightarrow> u8 list" where
  "string_at line buf w = takeWhile (\<lambda>c. c \<noteq> 0) (drop (length line - length (fst w)) buf)"

text \<open>
  C33. Terminating the words of a command line in place is safe: after \<^verbatim>\<open>parsecmd\<close>, the string behind every argument and
  file name of the command is exactly the word of the line at that place, since no NUL that \<^verbatim>\<open>nulterminate\<close> writes for one
  word falls into another. The line is one without NUL bytes, followed by its terminating NUL.
\<close>

theorem shell_words_terminated:
  assumes "parsecmd line = Parsed c" and "0 \<notin> set line"
  shows "\<forall>w\<in>set_cmd c. string_at line (nulterminate line c (line @ [0])) w = word w
    \<and> suffix (fst w) line \<and> (\<forall>x\<in>set (word w). in_word x) \<and> (snd w = [] \<or> \<not> in_word (hd (snd w)))"
proof
  fix w assume w: "w \<in> set_cmd c"
  from assms(1) obtain s' where "parseline line = Parsed (c, s')"
    by (auto simp: parsecmd_def pbind_Parsed_iff peek_def Let_def split: if_splits)
  then have toks: "tok_of line v" if "v \<in> set_cmd c" for v using parse_toks(1) that by (auto simp: toks_of_def)
  let ?n = "length line" and ?B = "nulterminate line c (line @ [0])"
  have split: "\<exists>pre ww. line = pre @ ww @ snd v \<and> fst v = ww @ snd v \<and> word v = ww \<and> (\<forall>x\<in>set ww. in_word x)
      \<and> (snd v = [] \<or> \<not> in_word (hd (snd v)))" if v: "v \<in> set_cmd c" for v
  proof -
    obtain pre where "line = pre @ fst v" and e: "snd v = dropWhile in_word (fst v)"
      using toks[OF v] by (auto simp: tok_of_def suffix_def)
    moreover have q: "fst v = takeWhile in_word (fst v) @ snd v" by (simp add: e)
    moreover have "length (fst v) - length (snd v) = length (takeWhile in_word (fst v))" using arg_cong[OF q, of length] by simp
    then have "word v = takeWhile in_word (fst v)" unfolding word_def by (simp add: takeWhile_eq_take[symmetric])
    ultimately show ?thesis
      using hd_dropWhile[of in_word "fst v"] by (intro exI[of _ pre] exI[of _ "takeWhile in_word (fst v)"]) (auto dest: set_takeWhileD)
  qed
  obtain pre ww where s: "line = pre @ ww @ snd w" "fst w = ww @ snd w" "word w = ww" "\<forall>x\<in>set ww. in_word x"
      "snd w = [] \<or> \<not> in_word (hd (snd w))" using split[OF w] by blast
  have nz: "x \<noteq> 0" if "x \<in> set ww" for x using assms(2) that s(1) by auto
  have pos: "?n - length (fst w) = length pre" "?n - length (snd w) = length pre + length ww" using s(1,2) by simp_all
  have "?B ! i = ww ! (i - length pre)" if i: "length pre \<le> i" "i < length pre + length ww" for i
  proof -
    have li: "(line @ [0]) ! i = ww ! (i - length pre)" "i < ?n" using i s(1) by (auto simp: nth_append)
    then have "in_word ((line @ [0]) ! i)" using s(4) i by simp
    have "i \<noteq> ?n - length (snd v)" if v: "v \<in> set_cmd c" for v
    proof
      assume "i = ?n - length (snd v)"
      moreover obtain pre' ww' where v': "line = pre' @ ww' @ snd v" "snd v = [] \<or> \<not> in_word (hd (snd v))" using split[OF v] by blast
      ultimately have "snd v \<noteq> []" "(line @ [0]) ! i = hd (snd v)"
        using li(2) by (auto simp: nth_append hd_conv_nth)
      then show False using v'(2) \<open>in_word ((line @ [0]) ! i)\<close> by simp
    qed
    then show ?thesis using li by (auto simp: nulterminate_nth)
  qed
  note mid = this
  have last: "?B ! (length pre + length ww) = 0" using w pos(2) s(1) by (auto simp: nulterminate_nth)
  have "takeWhile (\<lambda>c. c \<noteq> 0) (drop (length pre) ?B) = take (length pre + length ww - length pre) (drop (length pre) ?B)"
    by (rule takeWhile_string) (use mid nz last s(1) in auto)
  also have "\<dots> = ww" by (rule nth_equalityI) (use mid s(1) in auto)
  finally have "string_at line ?B w = word w" by (simp add: string_at_def pos s(3))
  moreover have "suffix (fst w) line" using s(1,2) by (auto simp: suffix_def)
  ultimately show "string_at line ?B w = word w \<and> suffix (fst w) line \<and> (\<forall>x\<in>set (word w). in_word x)
      \<and> (snd w = [] \<or> \<not> in_word (hd (snd w)))" using s(3-5) by simp
qed

theorem shell_words_terminated_witness:
  "\<exists>line c. parsecmd line = Parsed c \<and> 0 \<notin> set line
     \<and> (\<forall>w\<in>set_cmd c. string_at line (nulterminate line c (line @ [0])) w = word w)
     \<and> map_cmd word c = PIPE (REDIR (EXEC [[97], [98]]) [102] 0 0) (EXEC [[99]])"
proof -
  let ?line = "[97, 32, 98, 60, 102, 124, 99, 10] :: u8 list"
  have "\<exists>c. parsecmd ?line = Parsed c \<and> map_cmd word c = PIPE (REDIR (EXEC [[97], [98]]) [102] 0 0) (EXEC [[99]])"
  proof -
    have "(case parsecmd ?line of Parsed c \<Rightarrow> map_cmd word c = PIPE (REDIR (EXEC [[97], [98]]) [102] 0 0) (EXEC [[99]]) | Syntax _ \<Rightarrow> False)"
      by code_simp
    then show ?thesis by (simp split: parse.splits)
  qed
  then obtain c where c: "parsecmd ?line = Parsed c" "map_cmd word c = PIPE (REDIR (EXEC [[97], [98]]) [102] 0 0) (EXEC [[99]])" by blast
  moreover have "0 \<notin> set ?line" by simp
  moreover from shell_words_terminated[OF c(1) this]
  have "\<forall>w\<in>set_cmd c. string_at ?line (nulterminate ?line c (?line @ [0])) w = word w" by blast
  ultimately show ?thesis by blast
qed

section \<open>Printing and parsing\<close>

text \<open>
  The concrete syntax of a command, with a space after every word and symbol and with parentheses where a command of
  lower precedence stands. The level is 0 for a simple command, 1 for a pipeline, 2 before \<^verbatim>\<open>&\<close> and 3 for a line.
\<close>

definition paren :: "bool \<Rightarrow> u8 list \<Rightarrow> u8 list" where
  "paren b s = (if b then LPAR # 32 # s @ [RPAR, 32] else s)"

primrec show_cmd :: "nat \<Rightarrow> u8 list cmd \<Rightarrow> u8 list" where
  "show_cmd lv (EXEC ws) = concat (map (\<lambda>w. w @ [32]) ws)"
| "show_cmd lv (REDIR c f mode fd) = show_cmd 0 c @ (if fd = 0 then LT else GT) # 32 # f @ [32]"
| "show_cmd lv (PIPE l r) = paren (lv < 1) (show_cmd 0 l @ BAR # 32 # show_cmd 1 r)"
| "show_cmd lv (LIST l r) = paren (lv < 3) (show_cmd 2 l @ SEMI # 32 # show_cmd 3 r)"
| "show_cmd lv (BACK c) = paren (lv < 2) (show_cmd 2 c @ [AMP, 32])"

definition wf_word :: "u8 list \<Rightarrow> bool" where
  "wf_word w \<longleftrightarrow> w \<noteq> [] \<and> (\<forall>c\<in>set w. in_word c \<and> c \<noteq> 0)"

primrec wf_cmd :: "u8 list cmd \<Rightarrow> bool" where
  "wf_cmd (EXEC ws) \<longleftrightarrow> length ws < MAXARGS \<and> (\<forall>w\<in>set ws. wf_word w)"
| "wf_cmd (REDIR c f mode fd) \<longleftrightarrow> wf_cmd c \<and> wf_word f \<and> (mode = 0 \<and> fd = 0 \<or> mode = O_WRCREATE \<and> fd = 1)"
| "wf_cmd (PIPE l r) \<longleftrightarrow> wf_cmd l \<and> wf_cmd r"
| "wf_cmd (LIST l r) \<longleftrightarrow> wf_cmd l \<and> wf_cmd r"
| "wf_cmd (BACK c) \<longleftrightarrow> wf_cmd c"

text \<open>What may follow: the end, or one of a set of symbols.\<close>

definition follow :: "u8 list \<Rightarrow> u8 list \<Rightarrow> bool" where
  "follow syms k \<longleftrightarrow> k = [] \<or> hd k \<in> set syms"

definition yields :: "(slice cmd \<times> u8 list) parse \<Rightarrow> u8 list cmd \<Rightarrow> u8 list \<Rightarrow> bool" where
  "yields m c k \<longleftrightarrow> (\<exists>d. m = Parsed (d, k) \<and> map_cmd word d = c)"

lemmas sym_defs = LT_def GT_def BAR_def AMP_def SEMI_def LPAR_def RPAR_def

lemma skip_ws_sym [simp]: "c \<in> set symbols \<Longrightarrow> skip_ws (c # s) = c # s"
  by (auto simp: skip_ws_def whitespace_def symbols_def sym_defs)

lemma skip_ws_follow: "follow syms k \<Longrightarrow> set syms \<subseteq> set symbols \<Longrightarrow> skip_ws k = k"
  by (cases k) (auto simp: follow_def skip_ws_def whitespace_def symbols_def sym_defs)

lemma skip_ws_word [simp]: "wf_word w \<Longrightarrow> skip_ws (w @ s) = w @ s"
  by (cases w) (auto simp: wf_word_def in_word_def skip_ws_def)

lemma skip_ws_space [simp]: "skip_ws (32 # s) = skip_ws s"
  by (simp add: skip_ws_def whitespace_def)

lemma not_in_word_space [simp]: "\<not> in_word 32"
  by (simp add: in_word_def whitespace_def)

lemma gettoken_word:
  assumes "wf_word w"
  shows "gettoken (w @ 32 # s) = (WORD, (w @ 32 # s, 32 # s), skip_ws s)"
proof -
  obtain c w' where w: "w = c # w'" "in_word c" using assms by (cases w) (auto simp: wf_word_def)
  have "dropWhile in_word (w @ 32 # s) = 32 # s" using assms by (simp add: wf_word_def)
  moreover have "c \<notin> set symbols" using w(2) by (simp add: in_word_def)
  ultimately show ?thesis using skip_ws_word[OF assms, of "32 # s"] w(1) by (simp add: gettoken_def symbols_def)
qed

lemma word_slice [simp]: "word (w @ s, s) = w"
  by (simp add: word_def)

lemma after_sym: "c \<in> set symbols \<Longrightarrow> after (c # 32 # s) = skip_ws s"
  by (auto simp: after_def gettoken_def symbols_def sym_defs)

lemma gettoken_redir: "c = LT \<or> c = GT \<Longrightarrow> \<exists>w. gettoken (c # 32 # s) = (c, w, skip_ws s)"
  by (auto simp: gettoken_def symbols_def sym_defs)

lemma peek_sym: "c \<in> set symbols \<Longrightarrow> peek (c # s) toks = (c \<in> set toks, c # s)"
  by (simp add: peek_def)

lemma peek_follow: "follow syms k \<Longrightarrow> set syms \<subseteq> set symbols \<Longrightarrow> peek k toks = (k \<noteq> [] \<and> hd k \<in> set toks, k)"
  by (simp add: peek_def skip_ws_follow)

lemma peek_word:
  assumes "wf_word w" and "set toks \<subseteq> set symbols"
  shows "peek (w @ s) toks = (False, w @ s)"
proof -
  have "hd w \<in> set w" using assms(1) by (simp add: wf_word_def)
  then have "hd w \<notin> set toks" using assms by (auto simp: wf_word_def in_word_def)
  then show ?thesis using assms(1) by (simp add: peek_def wf_word_def)
qed

definition show_redirs :: "(u8 list \<times> int \<times> int) list \<Rightarrow> u8 list" where
  "show_redirs rs = concat (map (\<lambda>(f, mode, fd). (if fd = 0 then LT else GT) # 32 # f @ [32]) rs)"

definition wf_redir :: "u8 list \<times> int \<times> int \<Rightarrow> bool" where
  "wf_redir r \<longleftrightarrow> wf_word (fst r) \<and> (snd r = (0, 0) \<or> snd r = (O_WRCREATE, 1))"

lemma show_redirs_simps [simp]:
  "show_redirs [] = []"
  "show_redirs ((f, mode, fd) # rs) = (if fd = 0 then LT else GT) # 32 # f @ 32 # show_redirs rs"
  by (simp_all add: show_redirs_def)

text \<open>After the words and redirections of a command comes the end or one of the four separators.\<close>

abbreviation stops :: "u8 list \<Rightarrow> bool" where
  "stops k \<equiv> follow [BAR, RPAR, AMP, SEMI] k"

lemma stops_facts:
  assumes "stops k"
  shows "skip_ws k = k" and "peek k [LT, GT] = (False, k)" and "peek k [LPAR] = (False, k)"
    and "peek k [BAR, RPAR, AMP, SEMI] = (k \<noteq> [], k)"
  using assms peek_follow[OF assms] skip_ws_follow[OF assms] by (auto simp: follow_def symbols_def sym_defs)

lemma skip_redirs: "skip_ws k = k \<Longrightarrow> skip_ws (show_redirs rs @ k) = show_redirs rs @ k"
  by (cases rs) (auto simp: symbols_def)

lemma parseredirs_none: "peek s [LT, GT] = (False, s') \<Longrightarrow> parseredirs rs s = Parsed (rs, s')"
  by (simp add: parseredirs.simps[of rs s])

lemma parseredirs_show:
  assumes "list_all wf_redir rs" and "skip_ws k = k" and "peek k [LT, GT] = (False, k)"
  shows "\<exists>rs2. parseredirs rs1 (show_redirs rs @ k) = Parsed (rs1 @ rs2, k) \<and> map (apfst word) rs2 = rs"
  using assms(1)
proof (induction rs arbitrary: rs1)
  case Nil
  then show ?case using parseredirs_none[OF assms(3)] by simp
next
  case (Cons r rs)
  obtain f mode fd where r: "r = (f, mode, fd)" by (cases r)
  have f: "wf_word f" and m: "redir_of (if fd = 0 then LT else GT) = (mode, fd)"
    using Cons.prems r by (auto simp: wf_redir_def redir_of_def sym_defs)
  let ?c = "if fd = 0 then LT else GT" and ?s = "show_redirs rs @ k"
  have sk: "skip_ws ?s = ?s" by (rule skip_redirs[OF assms(2)])
  obtain w where g: "gettoken (?c # 32 # f @ 32 # ?s) = (?c, w, f @ 32 # ?s)"
    using gettoken_redir[of ?c "f @ 32 # ?s"] f by (cases "fd = 0") auto
  have p: "peek (?c # 32 # f @ 32 # ?s) [LT, GT] = (True, ?c # 32 # f @ 32 # ?s)"
    using peek_sym[of ?c] by (simp add: symbols_def)
  let ?rs1 = "rs1 @ [((f @ 32 # ?s, 32 # ?s), mode, fd)]"
  have "parseredirs rs1 (show_redirs (r # rs) @ k) = parseredirs ?rs1 ?s"
    using p g gettoken_word[OF f, of ?s] sk m
    by (simp add: r parseredirs.simps[of rs1 "?c # 32 # f @ 32 # ?s"] split del: if_split)
  moreover obtain rs2 where "parseredirs ?rs1 ?s = Parsed (?rs1 @ rs2, k)" "map (apfst word) rs2 = rs"
    using Cons.IH[of ?rs1] Cons.prems by auto
  ultimately show ?case by (intro exI[of _ "((f @ 32 # ?s, 32 # ?s), mode, fd) # rs2"]) (simp add: r)
qed

abbreviation show_words :: "u8 list list \<Rightarrow> u8 list" where
  "show_words ws \<equiv> concat (map (\<lambda>w. w @ [32]) ws)"

lemma show_words_facts:
  assumes "ws \<noteq> []" and "\<forall>w\<in>set ws. wf_word w"
  shows "skip_ws (show_words ws @ s) = show_words ws @ s"
    and "set toks \<subseteq> set symbols \<Longrightarrow> peek (show_words ws @ s) toks = (False, show_words ws @ s)"
  using assms peek_word[of "hd ws" toks "32 # show_words (tl ws) @ s"] skip_ws_word[of "hd ws" "32 # show_words (tl ws) @ s"]
  by (cases ws; simp)+

lemma parse_args_end: "stops k \<Longrightarrow> parse_args args rs k = Parsed (args, rs, k)"
  unfolding parse_args.simps[of args rs k] using stops_facts[of k] by (cases k) (simp_all add: gettoken_def skip_ws_def)

lemma parse_args_show:
  assumes "stops k" and "list_all wf_redir rs"
    and "ws \<noteq> [] \<or> rs = []" and "\<forall>w\<in>set ws. wf_word w" and "length args + length ws < MAXARGS"
  shows "\<exists>ws2 rs2. parse_args args rs1 (show_words ws @ show_redirs rs @ k) = Parsed (args @ ws2, rs1 @ rs2, k)
    \<and> map word ws2 = ws \<and> map (apfst word) rs2 = rs"
  using assms(3-)
proof (induction ws arbitrary: args)
  case Nil
  then show ?case using parse_args_end[OF assms(1)] by simp
next
  case (Cons w ws)
  let ?u = "show_redirs rs @ k" and ?toks = "[BAR, RPAR, AMP, SEMI]"
  let ?s = "show_words ws @ ?u" and ?v = "(w @ 32 # show_words ws @ show_redirs rs @ k, 32 # show_words ws @ show_redirs rs @ k)"
  have w: "wf_word w" and len: "\<not> Suc (length args) \<ge> MAXARGS" using Cons.prems by auto
  have sk: "skip_ws ?s = ?s"
    using show_words_facts(1)[of ws ?u] Cons.prems skip_redirs[OF stops_facts(1)[OF assms(1)]] by (cases ws) auto
  have step: "parse_args args rs1 (w @ 32 # ?s) = pbind (parseredirs rs1 ?s) (\<lambda>(rs, s). parse_args (args @ [?v]) rs s)"
    using peek_word[OF w, of ?toks "32 # ?s"] gettoken_word[OF w, of ?s] sk len
    by (simp add: parse_args.simps[of args rs1 "w @ 32 # ?s"] symbols_def WORD_def)
  have "\<exists>ws2 rs2. parse_args args rs1 (w @ 32 # ?s) = Parsed ((args @ [?v]) @ ws2, rs1 @ rs2, k)
    \<and> map word ws2 = ws \<and> map (apfst word) rs2 = rs"
  proof (cases "ws = []")
    case True
    obtain rs2 where "parseredirs rs1 ?u = Parsed (rs1 @ rs2, k)" "map (apfst word) rs2 = rs"
      using parseredirs_show[OF assms(2) stops_facts(1,2)[OF assms(1)]] by blast
    then show ?thesis using step True parse_args_end[OF assms(1)] by simp
  next
    case False
    then have "parseredirs rs1 ?s = Parsed (rs1, ?s)"
      using parseredirs_none[OF show_words_facts(2)[of ws "[LT, GT]" ?u]] Cons.prems by (simp add: symbols_def)
    then show ?thesis using step Cons.IH[of "args @ [?v]"] Cons.prems False by simp
  qed
  then obtain ws2 rs2 where "parse_args args rs1 (w @ 32 # ?s) = Parsed (args @ ?v # ws2, rs1 @ rs2, k)"
    "map word ws2 = ws" "map (apfst word) rs2 = rs" by auto
  then show ?case by (intro exI[of _ "?v # ws2"] exI[of _ rs2]) simp
qed

lemma map_cmd_wrap: "map_cmd g (wrap rs c) = wrap (map (apfst g) rs) (map_cmd g c)"
  by (induction rs arbitrary: c) (auto simp: wrap_def)

lemma wrap_Cons: "wrap ((f, mode, fd) # rs) c = wrap rs (REDIR c f mode fd)"
  by (simp add: wrap_def)

lemma show_skip:
  assumes "wf_cmd c" and "skip_ws k = k"
  shows "skip_ws (show_cmd lv c @ k) = show_cmd lv c @ k"
  using assms
proof (induction c arbitrary: lv k)
  case (EXEC ws)
  then show ?case using show_words_facts(1)[of ws k] by (cases ws) auto
qed (auto simp: paren_def symbols_def)

text \<open>
  What each parsing function makes of a printed command followed by a text it must leave alone. A simple command may be
  followed by redirections, which wrap it, and a command before \<^verbatim>\<open>&\<close> by more of these.
\<close>

definition parses_exec :: "u8 list cmd \<Rightarrow> bool" where
  "parses_exec c \<longleftrightarrow> (\<forall>rs k. list_all wf_redir rs \<longrightarrow> stops k \<longrightarrow>
     yields (parseexec (show_cmd 0 c @ show_redirs rs @ k)) (wrap rs c) k)"

definition parses_pipe :: "u8 list cmd \<Rightarrow> bool" where
  "parses_pipe c \<longleftrightarrow> (\<forall>k. follow [RPAR, AMP, SEMI] k \<longrightarrow> yields (parsepipe (show_cmd 1 c @ k)) c k)"

definition show_backs :: "nat \<Rightarrow> u8 list" where
  "show_backs n = concat (replicate n [AMP, 32])"

definition parses_back :: "u8 list cmd \<Rightarrow> bool" where
  "parses_back c \<longleftrightarrow> (\<forall>n k. follow [RPAR, SEMI] k \<longrightarrow>
     yields (pbind (parsepipe (show_cmd 2 c @ show_backs n @ k)) (\<lambda>(c, s). Parsed (parse_backs c s))) ((BACK ^^ n) c) k)"

definition parses_line :: "u8 list cmd \<Rightarrow> bool" where
  "parses_line c \<longleftrightarrow> (\<forall>k. follow [RPAR] k \<longrightarrow> yields (parseline (show_cmd 3 c @ k)) c k)"

lemma yieldsE: "yields m c k \<Longrightarrow> (\<And>d. m = Parsed (d, k) \<Longrightarrow> map_cmd word d = c \<Longrightarrow> P) \<Longrightarrow> P"
  by (auto simp: yields_def)

lemma follow_mono: "follow a k \<Longrightarrow> set a \<subseteq> set b \<Longrightarrow> follow b k"
  by (auto simp: follow_def)

lemma exec_EXEC:
  assumes "wf_cmd (EXEC ws)"
  shows "parses_exec (EXEC ws)"
  unfolding parses_exec_def
proof (intro allI impI)
  fix rs k
  assume rs: "list_all wf_redir rs" and k: "stops k"
  let ?s = "show_words ws @ show_redirs rs @ k"
  have sk: "skip_ws ?s = ?s" using show_skip[OF assms, of "show_redirs rs @ k"] skip_redirs[OF stops_facts(1)[OF k]] by simp
  have lp: "peek ?s [LPAR] = (False, ?s)"
  proof (cases "ws = []")
    case True
    then show ?thesis using stops_facts(3)[OF k]
      by (cases rs) (auto simp: peek_sym symbols_def sym_defs)
  next
    case False
    then show ?thesis using show_words_facts(2)[of ws "[LPAR]"] assms by (simp add: symbols_def)
  qed
  have "\<exists>rs1 s1 ws2 rs2. parseredirs [] ?s = Parsed (rs1, s1) \<and> parse_args [] rs1 s1 = Parsed (ws2, rs1 @ rs2, k)
    \<and> map word ws2 = ws \<and> map (apfst word) (rs1 @ rs2) = rs"
  proof (cases "ws = []")
    case True
    then show ?thesis using parseredirs_show[OF rs stops_facts(1,2)[OF k], of "[]"] parse_args_end[OF k] by fastforce
  next
    case False
    then have "parseredirs [] ?s = Parsed ([], ?s)"
      using parseredirs_none[OF show_words_facts(2)[of ws "[LT, GT]"]] assms by (simp add: symbols_def)
    then show ?thesis using parse_args_show[OF k rs, of ws "[]" "[]"] False assms by simp
  qed
  then obtain rs1 s1 ws2 rs2 where r: "parseredirs [] ?s = Parsed (rs1, s1)" "parse_args [] rs1 s1 = Parsed (ws2, rs1 @ rs2, k)"
    "map word ws2 = ws" "map (apfst word) (rs1 @ rs2) = rs" by blast
  have "parseexec ?s = Parsed (wrap (rs1 @ rs2) (EXEC ws2), k)" using lp r(1,2) by (simp add: parseexec.simps[of ?s])
  moreover have "map_cmd word (wrap (rs1 @ rs2) (EXEC ws2)) = wrap rs (EXEC ws)" using r(3,4) by (simp add: map_cmd_wrap)
  ultimately show "yields (parseexec (show_cmd 0 (EXEC ws) @ show_redirs rs @ k)) (wrap rs (EXEC ws)) k"
    by (simp add: yields_def)
qed

lemma exec_REDIR:
  assumes "wf_cmd (REDIR c f mode fd)" and "parses_exec c"
  shows "parses_exec (REDIR c f mode fd)"
  unfolding parses_exec_def
proof (intro allI impI)
  fix rs k
  assume "list_all wf_redir rs" and k: "stops k"
  then have "list_all wf_redir ((f, mode, fd) # rs)" using assms(1) by (simp add: wf_redir_def)
  then have "yields (parseexec (show_cmd 0 c @ show_redirs ((f, mode, fd) # rs) @ k)) (wrap ((f, mode, fd) # rs) c) k"
    using assms(2) k unfolding parses_exec_def by blast
  then show "yields (parseexec (show_cmd 0 (REDIR c f mode fd) @ show_redirs rs @ k)) (wrap rs (REDIR c f mode fd)) k"
    by (simp add: wrap_Cons)
qed

lemma line_exec:
  assumes "wf_cmd c" and "parses_line c" and "show_cmd 0 c = paren True (show_cmd 3 c)"
  shows "parses_exec c"
  unfolding parses_exec_def
proof (intro allI impI)
  fix rs k
  assume rs: "list_all wf_redir rs" and k: "stops k"
  let ?u = "show_redirs rs @ k"
  let ?b = "show_cmd 3 c @ RPAR # 32 # ?u"
  let ?s = "LPAR # 32 # ?b"
  have p: "peek ?s [LPAR] = (True, ?s)" using peek_sym[of LPAR] by (simp add: symbols_def)
  have "follow [RPAR] (RPAR # 32 # ?u)" by (simp add: follow_def)
  then obtain d where d: "parseline ?b = Parsed (d, RPAR # 32 # ?u)" "map_cmd word d = c"
    using assms(2) unfolding parses_line_def by (blast elim: yieldsE)
  have a: "after ?s = ?b" using after_sym[of LPAR ?b] show_skip[OF assms(1), of "RPAR # 32 # ?u" 3] by (simp add: symbols_def)
  have p2: "peek (RPAR # 32 # ?u) [RPAR] = (True, RPAR # 32 # ?u)" using peek_sym[of RPAR] by (simp add: symbols_def)
  have a2: "after (RPAR # 32 # ?u) = ?u"
    using after_sym[of RPAR ?u] skip_redirs[OF stops_facts(1)[OF k], of rs] by (simp add: symbols_def)
  obtain rs2 where r: "parseredirs [] ?u = Parsed (rs2, k)" "map (apfst word) rs2 = rs"
    using parseredirs_show[OF rs stops_facts(1,2)[OF k], of "[]"] by auto
  have "parseexec ?s = Parsed (wrap rs2 d, k)"
    using p a d(1) p2 a2 r(1) by (simp add: parseexec.simps[of ?s] parseblock.simps[of ?s])
  then show "yields (parseexec (show_cmd 0 c @ ?u)) (wrap rs c) k"
    using assms(3) d(2) r(2) by (simp add: yields_def paren_def map_cmd_wrap)
qed

lemma exec_pipe:
  assumes "parses_exec c" and "show_cmd 1 c = show_cmd 0 c"
  shows "parses_pipe c"
  unfolding parses_pipe_def
proof (intro allI impI)
  fix k
  assume k: "follow [RPAR, AMP, SEMI] k"
  then have "stops k" by (rule follow_mono) auto
  then obtain d where "parseexec (show_cmd 0 c @ k) = Parsed (d, k)" "map_cmd word d = c"
    using assms(1) unfolding parses_exec_def by (force elim: yieldsE simp: wrap_def dest: spec[of _ "[]"])
  moreover have "peek k [BAR] = (False, k)" using peek_follow[OF k, of "[BAR]"] k by (auto simp: follow_def symbols_def sym_defs)
  ultimately show "yields (parsepipe (show_cmd 1 c @ k)) c k"
    using assms(2) by (simp add: parsepipe.simps[of "show_cmd 0 c @ k"] yields_def)
qed

lemma show_backs_simps [simp]:
  "show_backs 0 = []" "show_backs (Suc n) = AMP # 32 # show_backs n"
  by (simp_all add: show_backs_def)

lemma skip_backs: "skip_ws k = k \<Longrightarrow> skip_ws (show_backs n @ k) = show_backs n @ k"
  by (cases n) (auto simp: symbols_def)

lemma parse_backs_show:
  assumes "follow [RPAR, SEMI] k"
  shows "parse_backs d (show_backs n @ k) = ((BACK ^^ n) d, k)"
proof (induction n arbitrary: d)
  case 0
  have "peek k [AMP] = (False, k)" using peek_follow[OF assms, of "[AMP]"] assms by (auto simp: follow_def symbols_def sym_defs)
  then show ?case by (simp add: parse_backs.simps[of d k])
next
  case (Suc n)
  have sk: "skip_ws k = k" using skip_ws_follow[OF assms] by (simp add: symbols_def)
  let ?s = "AMP # 32 # show_backs n @ k"
  have "peek ?s [AMP] = (True, ?s)" using peek_sym[of AMP] by (simp add: symbols_def)
  moreover have "after ?s = show_backs n @ k" using after_sym[of AMP] skip_backs[OF sk, of n] by (simp add: symbols_def)
  ultimately have "parse_backs d ?s = parse_backs (BACK d) (show_backs n @ k)" by (simp add: parse_backs.simps[of d ?s])
  then show ?case using Suc.IH[of "BACK d"] by (simp add: funpow_swap1)
qed

lemma map_cmd_BACKs: "map_cmd g ((BACK ^^ n) d) = (BACK ^^ n) (map_cmd g d)"
  by (induction n) auto

lemma pipe_back:
  assumes "parses_pipe c" and "show_cmd 2 c = show_cmd 1 c"
  shows "parses_back c"
  unfolding parses_back_def
proof (intro allI impI)
  fix n k
  assume k: "follow [RPAR, SEMI] k"
  then have "follow [RPAR, AMP, SEMI] (show_backs n @ k)" by (cases n) (auto simp: follow_def)
  then obtain d where "parsepipe (show_cmd 1 c @ show_backs n @ k) = Parsed (d, show_backs n @ k)" "map_cmd word d = c"
    using assms(1) unfolding parses_pipe_def by (blast elim: yieldsE)
  then show "yields (pbind (parsepipe (show_cmd 2 c @ show_backs n @ k)) (\<lambda>(c, s). Parsed (parse_backs c s))) ((BACK ^^ n) c) k"
    using assms(2) parse_backs_show[OF k] by (simp add: yields_def map_cmd_BACKs)
qed

lemma back_BACK:
  assumes "parses_back c"
  shows "parses_back (BACK c)"
  unfolding parses_back_def
proof (intro allI impI)
  fix n k
  assume k: "follow [RPAR, SEMI] k"
  have "yields (pbind (parsepipe (show_cmd 2 c @ show_backs (Suc n) @ k)) (\<lambda>(c, s). Parsed (parse_backs c s))) ((BACK ^^ Suc n) c) k"
    using assms k unfolding parses_back_def by blast
  then show "yields (pbind (parsepipe (show_cmd 2 (BACK c) @ show_backs n @ k)) (\<lambda>(c, s). Parsed (parse_backs c s)))
    ((BACK ^^ n) (BACK c)) k"
    by (simp add: paren_def funpow_swap1)
qed

lemma back_parts:
  assumes "parses_back c" and "follow [RPAR, SEMI] k"
  obtains d1 s1 d where "parsepipe (show_cmd 2 c @ k) = Parsed (d1, s1)" "parse_backs d1 s1 = (d, k)" "map_cmd word d = c"
proof -
  have "yields (pbind (parsepipe (show_cmd 2 c @ show_backs 0 @ k)) (\<lambda>(c, s). Parsed (parse_backs c s))) ((BACK ^^ 0) c) k"
    using assms unfolding parses_back_def by blast
  then have "yields (pbind (parsepipe (show_cmd 2 c @ k)) (\<lambda>(c, s). Parsed (parse_backs c s))) c k" by simp
  then show ?thesis using that by (auto simp: yields_def pbind_Parsed_iff)
qed

lemma back_line:
  assumes "parses_back c" and "show_cmd 3 c = show_cmd 2 c"
  shows "parses_line c"
  unfolding parses_line_def
proof (intro allI impI)
  fix k
  assume k: "follow [RPAR] k"
  then have k2: "follow [RPAR, SEMI] k" by (rule follow_mono) auto
  obtain d1 s1 d where p: "parsepipe (show_cmd 2 c @ k) = Parsed (d1, s1)" "parse_backs d1 s1 = (d, k)" "map_cmd word d = c"
    by (rule back_parts[OF assms(1) k2])
  have "peek k [SEMI] = (False, k)" using peek_follow[OF k, of "[SEMI]"] k by (auto simp: follow_def symbols_def sym_defs)
  then show "yields (parseline (show_cmd 3 c @ k)) c k"
    using p assms(2) by (simp add: parseline.simps[of "show_cmd 2 c @ k"] yields_def)
qed

lemma line_LIST:
  assumes "wf_cmd r" and "parses_back l" and "parses_line r"
  shows "parses_line (LIST l r)"
  unfolding parses_line_def
proof (intro allI impI)
  fix k
  assume k: "follow [RPAR] k"
  let ?u = "show_cmd 3 r @ k" and ?s = "show_cmd 2 l @ SEMI # 32 # show_cmd 3 r @ k"
  have "follow [RPAR, SEMI] (SEMI # 32 # ?u)" by (simp add: follow_def)
  then obtain d1 s1 d where p: "parsepipe ?s = Parsed (d1, s1)" "parse_backs d1 s1 = (d, SEMI # 32 # ?u)" "map_cmd word d = l"
    by (rule back_parts[OF assms(2)])
  obtain e where e: "parseline ?u = Parsed (e, k)" "map_cmd word e = r"
    using assms(3) k unfolding parses_line_def by (blast elim: yieldsE)
  have "peek (SEMI # 32 # ?u) [SEMI] = (True, SEMI # 32 # ?u)" using peek_sym[of SEMI] by (simp add: symbols_def)
  moreover have "after (SEMI # 32 # ?u) = ?u"
    using after_sym[of SEMI ?u] show_skip[OF assms(1), of k 3] skip_ws_follow[OF k] by (simp add: symbols_def)
  ultimately have "parseline ?s = Parsed (LIST d e, k)" using p(1,2) e(1) by (simp add: parseline.simps[of ?s])
  then show "yields (parseline (show_cmd 3 (LIST l r) @ k)) (LIST l r) k"
    using p(3) e(2) by (simp add: yields_def paren_def)
qed

lemma pipe_PIPE:
  assumes "wf_cmd r" and "parses_exec l" and "parses_pipe r"
  shows "parses_pipe (PIPE l r)"
  unfolding parses_pipe_def
proof (intro allI impI)
  fix k
  assume k: "follow [RPAR, AMP, SEMI] k"
  let ?u = "show_cmd 1 r @ k" and ?s = "show_cmd 0 l @ BAR # 32 # show_cmd 1 r @ k"
  have "stops (BAR # 32 # ?u)" by (simp add: follow_def)
  then have "yields (parseexec (show_cmd 0 l @ show_redirs [] @ BAR # 32 # ?u)) (wrap [] l) (BAR # 32 # ?u)"
    using assms(2)[unfolded parses_exec_def, rule_format, of "[]"] by simp
  then obtain d where d: "parseexec ?s = Parsed (d, BAR # 32 # ?u)" "map_cmd word d = l"
    by (auto simp: yields_def wrap_def)
  obtain e where e: "parsepipe ?u = Parsed (e, k)" "map_cmd word e = r"
    using assms(3) k unfolding parses_pipe_def by (blast elim: yieldsE)
  have "peek (BAR # 32 # ?u) [BAR] = (True, BAR # 32 # ?u)" using peek_sym[of BAR] by (simp add: symbols_def)
  moreover have "after (BAR # 32 # ?u) = ?u"
    using after_sym[of BAR ?u] show_skip[OF assms(1), of k 1] skip_ws_follow[OF k] by (simp add: symbols_def)
  ultimately have "parsepipe ?s = Parsed (PIPE d e, k)"
    unfolding parsepipe.simps[of ?s] using d(1) e(1) by simp
  then show "yields (parsepipe (show_cmd 1 (PIPE l r) @ k)) (PIPE l r) k"
    using d(2) e(2) by (simp add: yields_def paren_def)
qed

text \<open>Every level parses every command: each constructor gives the contract of its own level and the others follow around.\<close>

lemma parses_all: "wf_cmd c \<Longrightarrow> parses_exec c \<and> parses_pipe c \<and> parses_back c \<and> parses_line c"
proof (induction c)
  case (EXEC ws)
  then have "parses_exec (EXEC ws)" by (rule exec_EXEC)
  then show ?case by (intro conjI back_line pipe_back exec_pipe) simp_all
next
  case (REDIR c f mode fd)
  then have "parses_exec (REDIR c f mode fd)" by (intro exec_REDIR) auto
  then show ?case by (intro conjI back_line pipe_back exec_pipe) simp_all
next
  case (PIPE l r)
  then have "parses_pipe (PIPE l r)" by (intro pipe_PIPE) auto
  moreover have "parses_back (PIPE l r)" by (rule pipe_back[OF calculation(1)]) (simp add: paren_def)
  moreover have "parses_line (PIPE l r)" by (rule back_line[OF calculation(2)]) (simp add: paren_def)
  moreover have "parses_exec (PIPE l r)" by (rule line_exec[OF PIPE.prems calculation(3)]) (simp add: paren_def)
  ultimately show ?case by simp
next
  case (LIST l r)
  then have "parses_line (LIST l r)" by (intro line_LIST) auto
  moreover have "parses_exec (LIST l r)" by (rule line_exec[OF LIST.prems calculation(1)]) (simp add: paren_def)
  moreover have "parses_pipe (LIST l r)" by (rule exec_pipe[OF calculation(2)]) (simp add: paren_def)
  moreover have "parses_back (LIST l r)" by (rule pipe_back[OF calculation(3)]) (simp add: paren_def)
  ultimately show ?case by simp
next
  case (BACK c)
  then have "parses_back (BACK c)" by (intro back_BACK) auto
  moreover have "parses_line (BACK c)" by (rule back_line[OF calculation(1)]) (simp add: paren_def)
  moreover have "parses_exec (BACK c)" by (rule line_exec[OF BACK.prems calculation(2)]) (simp add: paren_def)
  moreover have "parses_pipe (BACK c)" by (rule exec_pipe[OF calculation(3)]) (simp add: paren_def)
  ultimately show ?case by simp
qed

text \<open>
  C12. The parser inverts the printer: a command of any nesting whose words are non-empty and free of blanks, symbols and
  NUL, with fewer than ten arguments in each simple command and redirections of the two modes the parser makes, is
  parsed back from its text without a syntax error, with its precedences, its redirections in order and its words intact.
\<close>

theorem shell_parse_show:
  assumes "wf_cmd c"
  shows "\<exists>d. parsecmd (show_cmd 3 c) = Parsed d \<and> map_cmd word d = c"
proof -
  have "yields (parseline (show_cmd 3 c @ [])) c []"
    using parses_all[OF assms] unfolding parses_line_def by (simp add: follow_def)
  then show ?thesis by (auto simp: yields_def parsecmd_def peek_def skip_ws_def)
qed

theorem shell_parse_show_witness:
  "\<exists>d. parsecmd [97, 32, 98, 32, 124, 32, 40, 32, 99, 32, 38, 32, 59, 32, 100, 32, 41, 32, 62, 32, 102, 32] = Parsed d
     \<and> map_cmd word d
       = PIPE (EXEC [[97], [98]]) (REDIR (LIST (BACK (EXEC [[99]])) (EXEC [[100]])) [102] O_WRCREATE 1)"
proof -
  let ?c = "PIPE (EXEC [[97], [98]]) (REDIR (LIST (BACK (EXEC [[99]])) (EXEC [[100]])) [102] O_WRCREATE 1) :: u8 list cmd"
  have "wf_cmd ?c" by code_simp
  moreover have "show_cmd 3 ?c = [97, 32, 98, 32, 124, 32, 40, 32, 99, 32, 38, 32, 59, 32, 100, 32, 41, 32, 62, 32, 102, 32]"
    by code_simp
  ultimately show ?thesis using shell_parse_show[of ?c] by simp
qed

section \<open>The shape of parsed commands\<close>

definition redir_shape :: "int \<Rightarrow> int \<Rightarrow> bool" where
  "redir_shape mode fd \<longleftrightarrow> mode = 0 \<and> fd = 0 \<or> mode = O_WRCREATE \<and> fd = 1"

primrec shaped :: "'w cmd \<Rightarrow> bool" where
  "shaped (EXEC ws) \<longleftrightarrow> length ws < MAXARGS"
| "shaped (REDIR c f mode fd) \<longleftrightarrow> shaped c \<and> redir_shape mode fd"
| "shaped (PIPE l r) \<longleftrightarrow> shaped l \<and> shaped r"
| "shaped (LIST l r) \<longleftrightarrow> shaped l \<and> shaped r"
| "shaped (BACK c) \<longleftrightarrow> shaped c"

lemma shaped_wrap: "shaped (wrap rs c) \<longleftrightarrow> shaped c \<and> (\<forall>(f, mode, fd)\<in>set rs. redir_shape mode fd)"
  unfolding wrap_def by (induction rs arbitrary: c) auto

lemma parseredirs_shape:
  "parseredirs rs s = Parsed (rs', s') \<Longrightarrow> \<forall>(f, mode, fd)\<in>set rs. redir_shape mode fd
   \<Longrightarrow> \<forall>(f, mode, fd)\<in>set rs'. redir_shape mode fd"
proof (induction rs s rule: parseredirs.induct)
  case (1 rs s)
  obtain b s1 where p: "peek s [LT, GT] = (b, s1)" by (cases "peek s [LT, GT]")
  obtain tok w1 s2 where g: "gettoken s1 = (tok, w1, s2)" by (cases "gettoken s1")
  obtain tok2 w s3 where g2: "gettoken s2 = (tok2, w, s3)" by (cases "gettoken s2")
  show ?case
  proof (cases b)
    case True
    then have k: "tok2 = WORD" and r: "parseredirs (rs @ [(w, redir_of tok)]) s3 = Parsed (rs', s')"
      using 1(2) p g g2 by (auto simp: parseredirs.simps[of rs s] split: if_splits)
    have "\<forall>(f, mode, fd)\<in>set (rs @ [(w, redir_of tok)]). redir_shape mode fd"
      using 1(3) by (auto simp: redir_of_def redir_shape_def)
    then show ?thesis using 1(1)[OF p[symmetric] _ g[symmetric] refl g2[symmetric] refl _ r] True k by simp
  next
    case False
    then show ?thesis using 1(2,3) p by (simp add: parseredirs.simps[of rs s])
  qed
qed

lemma parse_args_shape:
  "parse_args args rs s = Parsed (args', rs', s') \<Longrightarrow> \<forall>(f, mode, fd)\<in>set rs. redir_shape mode fd \<Longrightarrow> length args < MAXARGS
   \<Longrightarrow> length args' < MAXARGS \<and> (\<forall>(f, mode, fd)\<in>set rs'. redir_shape mode fd)"
proof (induction args rs s rule: parse_args.induct)
  case (1 args rs s)
  obtain b s1 where p: "peek s [BAR, RPAR, AMP, SEMI] = (b, s1)" by (cases "peek s [BAR, RPAR, AMP, SEMI]")
  obtain tok w s2 where g: "gettoken s1 = (tok, w, s2)" by (cases "gettoken s1")
  show ?case
  proof (cases "b \<or> tok = 0")
    case True
    then show ?thesis using 1(2-) p g by (auto simp: parse_args.simps[of args rs s] split: if_splits bool.splits)
  next
    case False
    then have t: "tok = WORD" "\<not> Suc (length args) \<ge> MAXARGS"
      and "\<exists>r u. parseredirs rs s2 = Parsed (r, u) \<and> parse_args (args @ [w]) r u = Parsed (args', rs', s')"
      using 1(2) p g by (auto simp: parse_args.simps[of args rs s] pbind_Parsed_iff split: if_splits)
    then obtain r u where r: "parseredirs rs s2 = Parsed (r, u)" "parse_args (args @ [w]) r u = Parsed (args', rs', s')" by blast
    then show ?thesis using 1(1)[OF p[symmetric] _ g[symmetric] refl _ _ _ r(1) refl r(2)] False t parseredirs_shape[OF r(1) 1(3)] by simp
  qed
qed

lemma parse_backs_shape: "parse_backs c s = (c', s') \<Longrightarrow> shaped c' \<longleftrightarrow> shaped c"
proof (induction c s rule: parse_backs.induct)
  case (1 c s)
  obtain b s1 where p: "peek s [AMP] = (b, s1)" by (cases "peek s [AMP]")
  then show ?case using 1 by (cases b) (auto simp: parse_backs.simps[of c s])
qed

lemma parse_shape:
  "parseline s = Parsed (c, s') \<Longrightarrow> shaped c"
  "parsepipe s = Parsed (c, s') \<Longrightarrow> shaped c"
  "parseexec s = Parsed (c, s') \<Longrightarrow> shaped c"
  "parseblock s = Parsed (c, s') \<Longrightarrow> shaped c"
proof (induction s and s and s and s arbitrary: c s' and c s' and c s' and c s' rule: parseline_parsepipe_parseexec_parseblock.induct)
  case (1 s)
  from 1(3) obtain c1 s1 where r: "parsepipe s = Parsed (c1, s1)" by (auto simp: parseline.simps[of s] pbind_Parsed_iff)
  obtain c2 s2 where b: "parse_backs c1 s1 = (c2, s2)" by (cases "parse_backs c1 s1")
  obtain x s3 where p: "peek s2 [SEMI] = (x, s3)" by (cases "peek s2 [SEMI]")
  have c2: "shaped c2" using parse_backs_shape[OF b] 1(1)[OF r] by simp
  show ?case
  proof (cases x)
    case True
    then obtain c4 where r4: "parseline (after s3) = Parsed (c4, s')" and c: "c = LIST c2 c4"
      using 1(3) r b p by (auto simp: parseline.simps[of s] pbind_Parsed_iff)
    then show ?thesis using 1(2)[OF r refl b[symmetric] p[symmetric] _ r4] True c2 by simp
  next
    case False
    then show ?thesis using 1(3) r b p c2 by (simp add: parseline.simps[of s])
  qed
next
  case (2 s)
  from 2(3) obtain c1 s1 where r: "parseexec s = Parsed (c1, s1)" by (auto simp: parsepipe.simps[of s] pbind_Parsed_iff)
  obtain x s3 where p: "peek s1 [BAR] = (x, s3)" by (cases "peek s1 [BAR]")
  show ?case
  proof (cases x)
    case True
    then obtain c4 where r4: "parsepipe (after s3) = Parsed (c4, s')" and c: "c = PIPE c1 c4"
      using 2(3) r p by (auto simp: parsepipe.simps[of s] pbind_Parsed_iff)
    then show ?thesis using 2(2)[OF r refl p[symmetric] _ r4] True 2(1)[OF r] by simp
  next
    case False
    then show ?thesis using 2(3) r p 2(1)[OF r] by (simp add: parsepipe.simps[of s])
  qed
next
  case (3 s)
  obtain x s1 where p: "peek s [LPAR] = (x, s1)" by (cases "peek s [LPAR]")
  show ?case
  proof (cases x)
    case True
    then have "parseblock s1 = Parsed (c, s')" using 3(2) p by (simp add: parseexec.simps[of s])
    then show ?thesis using 3(1)[OF p[symmetric]] True by simp
  next
    case False
    then obtain rs s2 args rs' where r: "parseredirs [] s1 = Parsed (rs, s2)" "parse_args [] rs s2 = Parsed (args, rs', s')"
      and c: "c = wrap rs' (EXEC args)"
      using 3(2) p by (auto simp: parseexec.simps[of s] pbind_Parsed_iff)
    then show ?thesis using parse_args_shape[OF r(2) parseredirs_shape[OF r(1)]] by (simp add: shaped_wrap MAXARGS_def)
  qed
next
  case (4 s)
  obtain x s1 where p: "peek s [LPAR] = (x, s1)" by (cases "peek s [LPAR]")
  have x: x using 4(2) p by (cases x) (simp_all add: parseblock.simps[of s])
  from 4(2) p x obtain c1 s2 where r: "parseline (after s1) = Parsed (c1, s2)"
    by (auto simp: parseblock.simps[of s] pbind_Parsed_iff)
  obtain y s3 where q: "peek s2 [RPAR] = (y, s3)" by (cases "peek s2 [RPAR]")
  have y: y using 4(2) p x r q by (cases y) (simp_all add: parseblock.simps[of s])
  obtain rs where rs: "parseredirs [] (after s3) = Parsed (rs, s')" and c: "c = wrap rs c1"
    using 4(2) p x r q y by (auto simp: parseblock.simps[of s] pbind_Parsed_iff)
  then show ?case using 4(1)[OF p[symmetric] _ r] x parseredirs_shape[OF rs] by (simp add: shaped_wrap)
qed

lemma tok_of_wf: "tok_of s w \<Longrightarrow> 0 \<notin> set s \<Longrightarrow> wf_word (word w)"
proof -
  assume t: "tok_of s w" and z: "0 \<notin> set s"
  have w: "word w = takeWhile in_word (fst w)"
  proof -
    have "length (takeWhile in_word (fst w)) + length (snd w) = length (fst w)"
      using t unfolding tok_of_def by (metis length_append takeWhile_dropWhile_id)
    then have "word w = take (length (takeWhile in_word (fst w))) (fst w)" unfolding word_def by (metis add_diff_cancel_right')
    then show ?thesis by (simp flip: takeWhile_eq_take)
  qed
  moreover have "set (fst w) \<subseteq> set s" using t by (auto simp: tok_of_def suffix_def)
  moreover have "takeWhile in_word (fst w) \<noteq> []" using t by (cases "fst w") (auto simp: tok_of_def)
  ultimately show ?thesis using z by (auto simp: wf_word_def dest: set_takeWhileD)
qed

lemma shaped_wf: "shaped c \<Longrightarrow> \<forall>w\<in>set_cmd c. wf_word (g w) \<Longrightarrow> wf_cmd (map_cmd g c)"
  by (induction c) (auto simp: redir_shape_def)

text \<open>
  C30. The parser builds only well-formed commands: every simple command has fewer than ten arguments, so that the NULL
  after them still fits the array of the node, every redirection is one of the two modes with its descriptor, and every
  word is non-empty and free of blanks, symbols and NUL. These are exactly the commands whose text parses back to them.
\<close>

theorem shell_parse_typed:
  assumes "parsecmd line = Parsed c" and "0 \<notin> set line"
  shows "wf_cmd (map_cmd word c)"
proof -
  obtain s where p: "parseline line = Parsed (c, s)" using assms(1) by (auto simp: parsecmd_def peek_def pbind_Parsed_iff split: if_splits)
  have "\<forall>w\<in>set_cmd c. wf_word (word w)" using parse_toks(1)[OF p] tok_of_wf assms(2) by (auto simp: toks_of_def)
  then show ?thesis by (rule shaped_wf[OF parse_shape(1)[OF p]])
qed

theorem shell_parse_typed_witness:
  "\<exists>line c. parsecmd line = Parsed c \<and> 0 \<notin> set line \<and> wf_cmd (map_cmd word c) \<and> c \<noteq> EXEC []"
proof -
  let ?line = "[97, 32, 98, 60, 102, 124, 99, 10] :: u8 list"
  have "(case parsecmd ?line of Parsed c \<Rightarrow> c \<noteq> EXEC [] | Syntax _ \<Rightarrow> False)" by code_simp
  then obtain c where c: "parsecmd ?line = Parsed c" "c \<noteq> EXEC []" by (auto split: parse.splits)
  then show ?thesis using shell_parse_typed[OF c(1)] by (intro exI[of _ ?line] exI[of _ c]) simp
qed

end
