(* ===== verification/UShellRun.thy ===== *)
theory UShellRun
  imports UShell
begin

text \<open>
  \<^verbatim>\<open>user/sh.c\<close>: running a parsed command and the command loop. The system calls of every process that a command line
  starts are those of \<open>runcmd\<close> along one path of replies of \<^verbatim>\<open>fork\<close>.
\<close>

section \<open>Running a command\<close>

definition shell_panic :: "string \<Rightarrow> 'a prog" where
  "shell_panic s = gthen (fprintf 2 (endl ''%s'') [UStr (Some (cbytes s))]) (Stop 1)"

definition fork1 :: "int prog" where
  "fork1 = gbind (sysret CFork) (\<lambda>pid. if pid = -1 then shell_panic ''fork'' else Done pid)"

text \<open>\<^verbatim>\<open>runcmd\<close> on the tree of strings. It does not return: every branch ends in \<^verbatim>\<open>exit\<close>.\<close>

primrec runcmd :: "u8 list cmd \<Rightarrow> unit prog" where
  "runcmd (EXEC argv) =
     (case argv of [] \<Rightarrow> Stop 1
      | path # _ \<Rightarrow>
          gthen (sys (CExec path argv)) (gthen (fprintf 2 (endl ''exec %s failed'') [UStr (Some path)]) (Stop 0)))"
| "runcmd (REDIR c f mode fd) =
     gthen (sys (CClose fd)) (
     gbind (sysret (COpen f mode)) (\<lambda>r.
     if r < 0 then gthen (fprintf 2 (endl ''open %s failed'') [UStr (Some f)]) (Stop 1)
     else gthen (runcmd c) (Stop 0)))"
| "runcmd (LIST l r) =
     gbind fork1 (\<lambda>pid.
     gthen (if pid = 0 then runcmd l else Done ()) (
     gthen (sys CWait) (
     gthen (runcmd r) (Stop 0))))"
| "runcmd (PIPE l r) =
     gbind (sys CPipe) (\<lambda>p.
     if ret p < 0 then shell_panic ''pipe''
     else case pfds p of (p0, p1) \<Rightarrow>
       gbind fork1 (\<lambda>pid.
       gthen (if pid = 0
              then gthen (sys (CClose 1)) (gthen (sys (CDup p1)) (gthen (sys (CClose p0)) (gthen (sys (CClose p1)) (runcmd l))))
              else Done ()) (
       gbind fork1 (\<lambda>pid.
       gthen (if pid = 0
              then gthen (sys (CClose 0)) (gthen (sys (CDup p0)) (gthen (sys (CClose p0)) (gthen (sys (CClose p1)) (runcmd r))))
              else Done ()) (
       gthen (sys (CClose p0)) (gthen (sys (CClose p1)) (gthen (sys CWait) (gthen (sys CWait) (Stop 0)))))))))"
| "runcmd (BACK c) =
     gbind fork1 (\<lambda>pid. gthen (if pid = 0 then runcmd c else Done ()) (Stop 0))"

section \<open>The command loop\<close>

text \<open>\<^verbatim>\<open>getcmd\<close>: the line before its NUL, or \<open>None\<close> at the end of the input.\<close>

definition getcmd :: "nat \<Rightarrow> u8 list option prog" where
  "getcmd nbuf =
     gthen (fprintf 2 ''$ '' []) (
     gbind (gets nbuf) (\<lambda>buf.
     let line = takeWhile (\<lambda>c. c \<noteq> 0) buf in Done (if line = [] then None else Some line)))"

text \<open>One command line: \<^verbatim>\<open>cd\<close> by the shell itself, anything else by a child.\<close>

definition run_line :: "u8 list \<Rightarrow> unit prog" where
  "run_line line =
     (if take 3 line = cbytes ''cd '' then
        let dir = drop 3 (butlast line) in
        gbind (sysret (CChdir dir)) (\<lambda>r.
        if r < 0 then fprintf 2 (endl ''cannot cd %s'') [UStr (Some dir)] else Done ())
      else
        gbind fork1 (\<lambda>pid.
        gthen (if pid = 0
               then (case parsecmd line of
                       Syntax msg \<Rightarrow> gthen (geach (putc 2) msg) (Stop 1)
                     | Parsed c \<Rightarrow> runcmd (map_cmd (string_at line (nulterminate line c (line @ [0]))) c))
               else Done ()) (
        gthen (sys CWait) (Done ()))))"

function sh_open :: "unit uproc" where
  "sh_open rs =
     ubind (urun (sysret (COpen (cbytes ''console'') 2))) (\<lambda>fd rs.
     if fd \<ge> 0 then (if fd \<ge> 3 then urun (gthen (sys (CClose fd)) (Done ())) rs else sh_open rs) else ([], Some ((), rs))) rs"
  by pat_completeness auto

termination sh_open
  by (relation "measure length") (auto dest: sysret_less)

declare sh_open.simps [simp del]

lemma prompt_eq: "gthen (fprintf 2 ''$ '' []) m = Call (CWrite 2 [36]) (\<lambda>_. Call (CWrite 2 [32]) (\<lambda>_. m))"
  by (simp add: fprintf_def vprintf_def cbytes_def PERCENT_def putc_def)

lemma getcmd_less: "urun (getcmd n) rs = (t, Some (x, rs')) \<Longrightarrow> length rs' < length rs"
  unfolding getcmd_def prompt_eq by (rule urun_Call_less)

lemma sh_step:
  "urun (getcmd n) rs = (t, Some (l, rs1)) \<Longrightarrow> urun (run_line line) rs1 = (t', Some (x, rs2)) \<Longrightarrow> length rs2 < length rs"
  using getcmd_less[of n rs t l rs1] urun_le[of "run_line line" rs1 t' x rs2] by simp

function sh_loop :: "unit uproc" where
  "sh_loop rs =
     ubind (urun (getcmd 100)) (\<lambda>line rs.
     case line of None \<Rightarrow> urun (Stop 0) rs
     | Some line \<Rightarrow> ubind (urun (run_line line)) (\<lambda>_ rs. sh_loop rs) rs) rs"
  by pat_completeness auto

termination sh_loop
  by (relation "measure length") (auto intro: sh_step)

declare sh_loop.simps [simp del]

definition sh_main :: "unit uproc" where
  "sh_main = ubind sh_open (\<lambda>_. sh_loop)"

section \<open>Descriptors\<close>

text \<open>
  What the calls do to the descriptors of the process: \<^verbatim>\<open>open\<close>, \<^verbatim>\<open>dup\<close> and \<^verbatim>\<open>pipe\<close> take the lowest free descriptors, a
  child has a copy of its parent's. A pipe is named by the forks that led to its creation, \<open>True\<close> for the child's side.
\<close>

datatype fobj = FStd nat | FFile "u8 list" int | PipeR "bool list" | PipeW "bool list"

record ufds =
  tab :: "int \<Rightarrow> fobj option"
  path :: "bool list"

definition lowest :: "(int \<Rightarrow> fobj option) \<Rightarrow> int" where
  "lowest T = (case filter (\<lambda>n. T n = None) [0..15] of [] \<Rightarrow> 16 | n # _ \<Rightarrow> n)"

text \<open>The descriptors after a call with its reply; \<open>None\<close> for a reply that the kernel does not give.\<close>

definition fd_reply :: "ucall \<Rightarrow> reply \<Rightarrow> ufds \<Rightarrow> ufds option" where
  "fd_reply c r \<sigma> =
     (let T = tab \<sigma>; a = lowest T in
      case c of
        CClose fd \<Rightarrow> Some (\<sigma>\<lparr>tab := T(fd := None)\<rparr>)
      | CDup fd \<Rightarrow> if T fd \<noteq> None \<and> ret r = a then Some (\<sigma>\<lparr>tab := T(a := T fd)\<rparr>) else None
      | COpen f mode \<Rightarrow>
          if ret r < 0 then Some \<sigma>
          else if ret r = a then Some (\<sigma>\<lparr>tab := T(a \<mapsto> FFile f mode)\<rparr>) else None
      | CPipe \<Rightarrow>
          if ret r < 0 then Some \<sigma>
          else let T1 = T(a \<mapsto> PipeR (path \<sigma>)); b = lowest T1 in
            if pfds r = (a, b) then Some (\<sigma>\<lparr>tab := T1(b \<mapsto> PipeW (path \<sigma>))\<rparr>) else None
      | CFork \<Rightarrow> if ret r = -1 then Some \<sigma> else Some (\<sigma>\<lparr>path := path \<sigma> @ [ret r = 0]\<rparr>)
      | _ \<Rightarrow> Some \<sigma>)"

fun fd_run :: "ufds \<Rightarrow> ucall list \<Rightarrow> reply list \<Rightarrow> ufds option" where
  "fd_run \<sigma> (c # t) (r # rs) = (case fd_reply c r \<sigma> of None \<Rightarrow> None | Some \<sigma> \<Rightarrow> fd_run \<sigma> t rs)"
| "fd_run \<sigma> t rs = Some \<sigma>"

text \<open>
  The simple commands of a command, each with the forks that lead to it, its standard input and its standard output.
\<close>

primrec plumbing :: "u8 list cmd \<Rightarrow> bool list \<Rightarrow> fobj \<Rightarrow> fobj \<Rightarrow> (bool list \<times> u8 list list \<times> fobj \<times> fobj) list" where
  "plumbing (EXEC argv) \<pi> i out = [(\<pi>, argv, i, out)]"
| "plumbing (REDIR c f mode fd) \<pi> i out =
     (if fd = 0 then plumbing c \<pi> (FFile f mode) out else plumbing c \<pi> i (FFile f mode))"
| "plumbing (PIPE l r) \<pi> i out =
     plumbing l (\<pi> @ [True]) i (PipeW \<pi>) @ plumbing r (\<pi> @ [False, True]) (PipeR \<pi>) out"
| "plumbing (LIST l r) \<pi> i out = plumbing l (\<pi> @ [True]) i out @ plumbing r (\<pi> @ [False]) i out"
| "plumbing (BACK c) \<pi> i out = plumbing c (\<pi> @ [True]) i out"

text \<open>All paths of a program: what holds at each \<^verbatim>\<open>exec\<close> and when it returns.\<close>

primrec gwp :: "(ufds \<Rightarrow> u8 list list \<Rightarrow> bool) \<Rightarrow> ('a \<Rightarrow> ufds \<Rightarrow> bool) \<Rightarrow> 'a prog \<Rightarrow> ufds \<Rightarrow> bool" where
  "gwp E Q (Done x) \<sigma> = Q x \<sigma>"
| "gwp E Q (Stop n) \<sigma> = True"
| "gwp E Q (Call c k) \<sigma> =
     ((case c of CExec p argv \<Rightarrow> E \<sigma> argv | _ \<Rightarrow> True)
      \<and> (\<forall>r. case fd_reply c r \<sigma> of None \<Rightarrow> True | Some \<sigma>' \<Rightarrow> gwp E Q (k r) \<sigma>'))"

lemma gwp_gbind [simp]: "gwp E Q (gbind m f) \<sigma> = gwp E (\<lambda>x. gwp E Q (f x)) m \<sigma>"
proof (induction m arbitrary: \<sigma>)
  case (Call c k)
  then show ?case using Call.IH[OF rangeI] by (simp split: option.splits)
qed auto

lemma gwp_gthen [simp]: "gwp E Q (gthen m n) \<sigma> = gwp E (\<lambda>_. gwp E Q n) m \<sigma>"
  by (simp add: gthen_def)

lemma gwp_mono: "gwp E Q m \<sigma> \<Longrightarrow> (\<And>x \<sigma>. Q x \<sigma> \<Longrightarrow> Q' x \<sigma>) \<Longrightarrow> gwp E Q' m \<sigma>"
proof (induction m arbitrary: \<sigma>)
  case (Call c k)
  then show ?case using Call.IH[OF rangeI] by (auto split: option.splits)
qed auto

lemma gwp_putc [simp]: "gwp E Q (geach (putc fd) s) \<sigma> = Q () \<sigma>"
  by (induction s) (simp_all add: putc_def fd_reply_def Let_def)

lemma gwp_print [simp]: "gwp E Q (fprintf fd fmt args) \<sigma> = Q () \<sigma>"
  by (simp add: fprintf_def vprintf_def)

lemma gwp_panic [simp]: "gwp E Q (shell_panic s) \<sigma>"
  by (simp add: shell_panic_def)

text \<open>From the paths to the runs.\<close>

lemma gwp_run:
  "gwp E Q m \<sigma> \<Longrightarrow> fst (urun m rs) = t1 @ CExec p argv # t2 \<Longrightarrow> fd_run \<sigma> t1 rs = Some \<sigma>' \<Longrightarrow> E \<sigma>' argv"
proof (induction m arbitrary: \<sigma> rs t1)
  case (Call c k)
  show ?case
  proof (cases t1)
    case Nil
    then have "c = CExec p argv" "\<sigma>' = \<sigma>" using Call.prems(2,3) by (auto split: list.splits prod.splits)
    then show ?thesis using Call.prems(1) by simp
  next
    case (Cons d t)
    then obtain r rs' where r: "rs = r # rs'" "d = c" "fst (urun (k r) rs') = t @ CExec p argv # t2"
      using Call.prems(2) by (cases rs) (auto split: prod.splits)
    then obtain \<sigma>1 where s: "fd_reply c r \<sigma> = Some \<sigma>1" "fd_run \<sigma>1 t rs' = Some \<sigma>'"
      using Call.prems(3) Cons by (auto split: option.splits)
    then show ?thesis using Call.IH[OF rangeI _ r(3) s(2)] Call.prems(1) by (auto split: option.splits)
  qed
qed (auto simp: Cons_eq_append_conv)

text \<open>Descriptors 0, 1 and 2 open and no others.\<close>

definition std_fds :: "fobj \<Rightarrow> fobj \<Rightarrow> fobj \<Rightarrow> int \<Rightarrow> fobj option" where
  "std_fds i out err = [0 \<mapsto> i, 1 \<mapsto> out, 2 \<mapsto> err]"

lemma upto_16: "[0..15] = [0, 1, 2, 3, 4, 5, 6, 7, 8, 9, 10, 11, 12, 13, 14, 15 :: int]"
  by code_simp

lemma std_fds_steps:
  "lowest (std_fds i out err) = 3"
  "lowest ((std_fds i out err)(3 := Some a)) = 4"
  "lowest ((std_fds i out err)(0 := None)) = 0" "lowest ((std_fds i out err)(1 := None)) = 1"
  "lowest ((std_fds i out err)(3 := Some a, 4 := Some b, 0 := None)) = 0"
  "lowest ((std_fds i out err)(3 := Some a, 4 := Some b, 1 := None)) = 1"
  by (simp_all add: lowest_def std_fds_def upto_16)

definition plumbed :: "(bool list \<times> u8 list list \<times> fobj \<times> fobj) list \<Rightarrow> fobj \<Rightarrow> ufds \<Rightarrow> u8 list list \<Rightarrow> bool" where
  "plumbed ps err \<sigma> argv \<longleftrightarrow> (\<exists>i out. tab \<sigma> = std_fds i out err \<and> (path \<sigma>, argv, i, out) \<in> set ps)"

lemma std_fds_done:
  "(std_fds i out err)(3 := Some a, 4 := Some b, 1 := Some b, 3 := None, 4 := None) = std_fds i b err"
  "(std_fds i out err)(3 := Some a, 4 := Some b, 0 := Some a, 3 := None, 4 := None) = std_fds a out err"
  "(std_fds i out err)(0 := Some a) = std_fds a out err" "(std_fds i out err)(1 := Some a) = std_fds i a err"
  "(std_fds i out err)(3 := None, 4 := None) = std_fds i out err"
  by (auto simp: std_fds_def fun_eq_iff)

lemma gwp_call:
  "gwp E Q (Call (CClose fd) k) \<sigma> = (\<forall>r. gwp E Q (k r) (\<sigma>\<lparr>tab := (tab \<sigma>)(fd := None)\<rparr>))"
  "gwp E Q (Call CWait k) \<sigma> = (\<forall>r. gwp E Q (k r) \<sigma>)"
  "gwp E Q (Call (CExec p argv) k) \<sigma> = (E \<sigma> argv \<and> (\<forall>r. gwp E Q (k r) \<sigma>))"
  by (simp_all add: fd_reply_def Let_def)

lemma gwp_dup: "T fd = Some x \<Longrightarrow> tab \<sigma> = T \<Longrightarrow> lowest T = a
    \<Longrightarrow> (\<And>r. gwp E Q (k r) (\<sigma>\<lparr>tab := T(a := Some x)\<rparr>)) \<Longrightarrow> gwp E Q (Call (CDup fd) k) \<sigma>"
  by (simp add: fd_reply_def Let_def)

lemma gwp_open: "tab \<sigma> = T \<Longrightarrow> lowest T = a \<Longrightarrow> (\<And>r. ret r < 0 \<Longrightarrow> gwp E Q (k r) \<sigma>)
    \<Longrightarrow> (\<And>r. ret r = a \<Longrightarrow> gwp E Q (k r) (\<sigma>\<lparr>tab := T(a \<mapsto> FFile f mode)\<rparr>)) \<Longrightarrow> gwp E Q (Call (COpen f mode) k) \<sigma>"
  by (simp add: fd_reply_def Let_def)

lemma gwp_pipe: "tab \<sigma> = T \<Longrightarrow> lowest T = a \<Longrightarrow> lowest (T(a := Some (PipeR (path \<sigma>)))) = b \<Longrightarrow> (\<And>r. ret r < 0 \<Longrightarrow> gwp E Q (k r) \<sigma>)
    \<Longrightarrow> (\<And>r. \<not> ret r < 0 \<Longrightarrow> pfds r = (a, b)
          \<Longrightarrow> gwp E Q (k r) (\<sigma>\<lparr>tab := T(a \<mapsto> PipeR (path \<sigma>), b \<mapsto> PipeW (path \<sigma>))\<rparr>))
    \<Longrightarrow> gwp E Q (Call CPipe k) \<sigma>"
  by (simp add: fd_reply_def Let_def)

lemma gwp_fork1: "(\<And>pid. gwp E Q (f pid) (\<sigma>\<lparr>path := path \<sigma> @ [pid = 0]\<rparr>)) \<Longrightarrow> gwp E Q (gbind fork1 f) \<sigma>"
  by (simp add: fork1_def fd_reply_def Let_def)

lemma gwp_child:
  "(pid = 0 \<Longrightarrow> gwp E (\<lambda>_ _. False) m \<sigma>) \<Longrightarrow> (pid \<noteq> 0 \<Longrightarrow> gwp E Q n \<sigma>) \<Longrightarrow> gwp E Q (gthen (if pid = 0 then m else Done ()) n) \<sigma>"
  by (auto elim: gwp_mono)

text \<open>The two children of a pipeline move the ends of the pipe to descriptors 1 and 0.\<close>

lemma gwp_pipe_children:
  assumes "tab \<sigma> = (std_fds i out err)(3 := Some a, 4 := Some b)"
  shows "gwp E Q m (\<sigma>\<lparr>tab := std_fds i b err\<rparr>)
      \<Longrightarrow> gwp E Q (gthen (sys (CClose 1)) (gthen (sys (CDup 4)) (gthen (sys (CClose 3)) (gthen (sys (CClose 4)) m)))) \<sigma>"
    and "gwp E Q m (\<sigma>\<lparr>tab := std_fds a out err\<rparr>)
      \<Longrightarrow> gwp E Q (gthen (sys (CClose 0)) (gthen (sys (CDup 3)) (gthen (sys (CClose 3)) (gthen (sys (CClose 4)) m)))) \<sigma>"
proof -
  let ?T = "(std_fds i out err)(3 := Some a, 4 := Some b)"
  show "gwp E Q (gthen (sys (CClose 1)) (gthen (sys (CDup 4)) (gthen (sys (CClose 3)) (gthen (sys (CClose 4)) m)))) \<sigma>"
    if "gwp E Q m (\<sigma>\<lparr>tab := std_fds i b err\<rparr>)"
    unfolding sys_simps gwp_call
  proof (intro allI gwp_dup[where T = "?T(1 := None)" and a = 1 and x = b])
    show "lowest (?T(1 := None)) = 1" by (rule std_fds_steps)
  qed (use that assms in \<open>simp_all add: gwp_call std_fds_done del: gwp.simps(3)\<close>)
  show "gwp E Q (gthen (sys (CClose 0)) (gthen (sys (CDup 3)) (gthen (sys (CClose 3)) (gthen (sys (CClose 4)) m)))) \<sigma>"
    if "gwp E Q m (\<sigma>\<lparr>tab := std_fds a out err\<rparr>)"
    unfolding sys_simps gwp_call
  proof (intro allI gwp_dup[where T = "?T(0 := None)" and a = 0 and x = a])
    show "lowest (?T(0 := None)) = 0" by (rule std_fds_steps)
  qed (use that assms in \<open>simp_all add: gwp_call std_fds_done del: gwp.simps(3)\<close>)
qed

lemma runcmd_plumbed:
  assumes "shaped c" and "set (plumbing c (path \<sigma>) i out) \<subseteq> set ps" and "tab \<sigma> = std_fds i out err"
  shows "gwp (plumbed ps err) (\<lambda>_ _. False) (runcmd c) \<sigma>"
  using assms
proof (induction c arbitrary: \<sigma> i out)
  case (EXEC argv)
  then show ?case by (cases argv) (auto simp: gwp_call plumbed_def simp del: gwp.simps(3))
next
  case (REDIR c f mode fd)
  have fd: "fd = 0 \<or> fd = 1" using REDIR.prems(1) by (auto simp: redir_shape_def)
  define x where "x = FFile f mode"
  define j where "j = (if fd = 0 then x else i)"
  define q where "q = (if fd = 0 then out else x)"
  have T: "lowest ((std_fds i out err)(fd := None)) = fd" "(std_fds i out err)(fd := Some x) = std_fds j q err"
    using fd by (auto simp: std_fds_steps std_fds_done j_def q_def)
  have c: "gwp (plumbed ps err) (\<lambda>_ _. False) (runcmd c) (\<sigma>\<lparr>tab := std_fds j q err\<rparr>)"
    using REDIR.prems by (intro REDIR.IH[of _ j q]) (auto simp: j_def q_def x_def split: if_splits)
  show ?case unfolding runcmd.simps sys_simps gwp_call
    by (intro allI gwp_open[OF refl]) (use T c fd REDIR.prems(3) in \<open>auto simp: x_def[symmetric] elim!: gwp_mono\<close>)
next
  case (PIPE l r)
  let ?T = "(std_fds i out err)(3 \<mapsto> PipeR (path \<sigma>), 4 \<mapsto> PipeW (path \<sigma>))"
  have l: "gwp (plumbed ps err) (\<lambda>_ _. False) (runcmd l) (\<sigma>\<lparr>path := path \<sigma> @ [True], tab := std_fds i (PipeW (path \<sigma>)) err\<rparr>)"
    using PIPE.prems by (intro PIPE.IH(1)[of _ i "PipeW (path \<sigma>)"]) auto
  have r: "gwp (plumbed ps err) (\<lambda>_ _. False) (runcmd r) (\<sigma>\<lparr>path := path \<sigma> @ [False, True], tab := std_fds (PipeR (path \<sigma>)) out err\<rparr>)"
    using PIPE.prems by (intro PIPE.IH(2)[of _ "PipeR (path \<sigma>)" out]) auto
  show ?case unfolding runcmd.simps sys_simps(1)
    apply (rule gwp_pipe[OF PIPE.prems(3) std_fds_steps(1,2)])
     apply simp
    apply (simp only: if_False prod.case)
    apply (intro gwp_fork1 gwp_child)
      apply (rule gwp_pipe_children(1)[of _ i out err "PipeR (path \<sigma>)" "PipeW (path \<sigma>)"])
       apply simp
      apply (use l in simp)
     apply (rule gwp_pipe_children(2)[of _ i out err "PipeR (path \<sigma>)" "PipeW (path \<sigma>)"])
      apply simp
     apply (use r in simp)
    apply (simp add: gwp_call del: gwp.simps(3))
    done
next
  case (LIST l r)
  have "gwp (plumbed ps err) (\<lambda>_ _. False) (runcmd l) (\<sigma>\<lparr>path := path \<sigma> @ [True]\<rparr>)"
    "gwp (plumbed ps err) (\<lambda>_ _. False) (runcmd r) (\<sigma>\<lparr>path := path \<sigma> @ [False]\<rparr>)"
    using LIST.prems by (intro LIST.IH[of _ i out]; auto)+
  then show ?case unfolding runcmd.simps
    by (intro gwp_fork1) (auto simp: gwp_call simp del: gwp.simps(3) elim!: gwp_mono)
next
  case (BACK c)
  have "gwp (plumbed ps err) (\<lambda>_ _. False) (runcmd c) (\<sigma>\<lparr>path := path \<sigma> @ [True]\<rparr>)"
    using BACK.prems by (intro BACK.IH[of _ i out]) auto
  then show ?case unfolding runcmd.simps by (intro gwp_fork1) (auto elim!: gwp_mono)
qed

text \<open>
  C18. The processes of a command line get the right descriptors. A command whose redirections are of descriptors 0 and 1
  is run by a process with descriptors 0, 1 and 2 open. Then every process that \<^verbatim>\<open>runcmd\<close> lets call \<^verbatim>\<open>exec\<close>, along every
  sequence of replies, is one of the simple commands of the tree with its own arguments; its descriptor 1 is the write
  end of exactly the pipe whose read end is descriptor 0 of its right neighbour, or the file of its innermost
  redirection, or what the shell had; and no other descriptor is open, so that no end of a pipe is left over.
\<close>

theorem shell_plumbing:
  assumes "shaped c" and "tab \<sigma> = std_fds i out err" and "path \<sigma> = []"
    and "fst (urun (runcmd c) rs) = t1 @ CExec p argv # t2" and "fd_run \<sigma> t1 rs = Some \<sigma>'"
  shows "\<exists>i' out'. tab \<sigma>' = std_fds i' out' err \<and> (path \<sigma>', argv, i', out') \<in> set (plumbing c [] i out)"
proof -
  have "gwp (plumbed (plumbing c [] i out) err) (\<lambda>_ _. False) (runcmd c) \<sigma>"
    using runcmd_plumbed[OF assms(1) _ assms(2)] assms(3) by simp
  from gwp_run[OF this assms(4,5)] show ?thesis by (simp add: plumbed_def)
qed

text \<open>The left side of \<^verbatim>\<open>a | b > f\<close>.\<close>

theorem shell_plumbing_witness:
  "\<exists>\<sigma> \<sigma>' rs t2 i' out'.
     fst (urun (runcmd (PIPE (EXEC [[97]]) (REDIR (EXEC [[98]]) [102] O_WRCREATE 1))) rs)
       = [CPipe, CFork, CClose 1, CDup 4, CClose 3, CClose 4] @ CExec [97] [[97]] # t2
   \<and> fd_run \<sigma> [CPipe, CFork, CClose 1, CDup 4, CClose 3, CClose 4] rs = Some \<sigma>'
   \<and> tab \<sigma>' = std_fds i' out' (FStd 2) \<and> i' = FStd 0 \<and> out' = PipeW []"
proof -
  let ?c = "PIPE (EXEC [[97]]) (REDIR (EXEC [[98]]) [102] O_WRCREATE 1) :: u8 list cmd"
  let ?r = "\<lambda>n. \<lparr>ret = n, bytes = [], pfds = (3, 4), rstat = \<lparr>st_type = 0, st_ino = 0, st_size = 0\<rparr>\<rparr>"
  let ?rs = "map ?r [0, 0, 0, 1, 0, 0]"
  let ?t = "[CPipe, CFork, CClose 1, CDup 4, CClose 3, CClose 4]"
  let ?s = "\<lparr>tab = std_fds (FStd 0) (FStd 1) (FStd 2), path = []\<rparr>"
  have t: "fst (urun (runcmd ?c) ?rs) = ?t @ CExec [97] [[97]] # []"
    by (simp add: fork1_def)
  have "tab ?s = std_fds (FStd 0) (FStd 1) (FStd 2)" "path ?s = []" by simp_all
  moreover have sh: "shaped ?c" by (simp add: redir_shape_def MAXARGS_def)
  moreover obtain \<sigma>' where s: "fd_run ?s ?t ?rs = Some \<sigma>'" "path \<sigma>' = [True]"
    by (simp add: fd_reply_def Let_def lowest_def upto_16 std_fds_def)
  ultimately obtain i' out' where "tab \<sigma>' = std_fds i' out' (FStd 2)"
    "(path \<sigma>', [[97]], i', out') \<in> set (plumbing ?c [] (FStd 0) (FStd 1))"
    using shell_plumbing[OF sh _ _ t s(1)] by blast
  then have "tab \<sigma>' = std_fds i' out' (FStd 2) \<and> i' = FStd 0 \<and> out' = PipeW []" using s(2) by auto
  with t s(1) show ?thesis by blast
qed

end
