(* ===== verification/UMalloc.thy ===== *)
theory UMalloc
  imports Prelude
begin

text \<open>
  \<^verbatim>\<open>user/umalloc.c\<close>: the allocator of user programs. The headers live in memory, as the two fields \<^verbatim>\<open>ptr\<close> and
  \<^verbatim>\<open>size\<close> at each address; the free blocks form a ring through \<^verbatim>\<open>ptr\<close> that starts at the static header \<^verbatim>\<open>base\<close>.
  What the successive calls of \<^verbatim>\<open>sbrk\<close> return is part of the state, and so is what they were asked for. The two loops
  run until they find their block; running forever is the result \<open>None\<close>.
\<close>

section \<open>The code\<close>

record umem =
  base :: u64
  freep :: u64
  hptr :: "u64 \<Rightarrow> u64"
  hsize :: "u64 \<Rightarrow> u32"
  sbrk_in :: "u64 list"
  sbrk_out :: "int list"

definition HDR :: u64 where "HDR = 16"

text \<open>Pointer arithmetic on headers: \<^verbatim>\<open>p + n\<close>.\<close>

definition hdr_add :: "u64 \<Rightarrow> u32 \<Rightarrow> u64" where
  "hdr_add p n = p + HDR * ucast n"

definition set_ptr :: "u64 \<Rightarrow> u64 \<Rightarrow> umem \<Rightarrow> umem" where
  "set_ptr p q s = s\<lparr>hptr := (hptr s)(p := q)\<rparr>"

definition set_size :: "u64 \<Rightarrow> u32 \<Rightarrow> umem \<Rightarrow> umem" where
  "set_size p n s = s\<lparr>hsize := (hsize s)(p := n)\<rparr>"

text \<open>The loop of \<^verbatim>\<open>free\<close>: the block after which \<open>bp\<close> belongs.\<close>

partial_function (option) free_find :: "u64 \<Rightarrow> u64 \<Rightarrow> umem \<Rightarrow> u64 option" where
  "free_find bp p s =
     (if bp > p \<and> bp < hptr s p then Some p
      else if p \<ge> hptr s p \<and> (bp > p \<or> bp < hptr s p) then Some p
      else free_find bp (hptr s p) s)"

definition free_join_up :: "u64 \<Rightarrow> u64 \<Rightarrow> umem \<Rightarrow> umem" where
  "free_join_up bp p s =
     (if hdr_add bp (hsize s bp) = hptr s p
      then set_ptr bp (hptr s (hptr s p)) (set_size bp (hsize s bp + hsize s (hptr s p)) s)
      else set_ptr bp (hptr s p) s)"

definition free_join_down :: "u64 \<Rightarrow> u64 \<Rightarrow> umem \<Rightarrow> umem" where
  "free_join_down bp p s =
     (if hdr_add p (hsize s p) = bp
      then set_ptr p (hptr s bp) (set_size p (hsize s p + hsize s bp) s)
      else set_ptr p bp s)"

definition free :: "u64 \<Rightarrow> umem \<Rightarrow> umem option" where
  "free ap s =
     (let bp = ap - HDR in
      Option.bind (free_find bp (freep s) s) (\<lambda>p.
      Some ((free_join_down bp p (free_join_up bp p s))\<lparr>freep := p\<rparr>)))"

definition sbrk :: "u64 \<Rightarrow> umem \<Rightarrow> u64 \<times> umem" where
  "sbrk n s =
     (let s = s\<lparr>sbrk_out := sbrk_out s @ [sint (ucast n :: 32 word)]\<rparr> in
      case sbrk_in s of [] \<Rightarrow> (-1, s) | r # rs \<Rightarrow> (r, s\<lparr>sbrk_in := rs\<rparr>))"

definition core_units :: "u32 \<Rightarrow> u32" where
  "core_units nu = (if nu < 4096 then 4096 else nu)"

definition morecore :: "u32 \<Rightarrow> umem \<Rightarrow> (u64 \<times> umem) option" where
  "morecore nu s =
     (let nu = core_units nu; (p, s) = sbrk (ucast nu * HDR) s in
      if p = -1 then Some (0, s)
      else Option.bind (free (p + HDR) (set_size p nu s)) (\<lambda>s. Some (freep s, s)))"

definition malloc_take :: "u32 \<Rightarrow> u64 \<Rightarrow> u64 \<Rightarrow> umem \<Rightarrow> u64 \<times> umem" where
  "malloc_take nunits prevp p s =
     (if hsize s p = nunits
      then (p + HDR, (set_ptr prevp (hptr s p) s)\<lparr>freep := prevp\<rparr>)
      else let s = set_size p (hsize s p - nunits) s; p = hdr_add p (hsize s p)
           in (p + HDR, (set_size p nunits s)\<lparr>freep := prevp\<rparr>))"

partial_function (option) malloc_loop :: "u32 \<Rightarrow> u64 \<Rightarrow> u64 \<Rightarrow> umem \<Rightarrow> (u64 \<times> umem) option" where
  "malloc_loop nunits prevp p s =
     (if hsize s p \<ge> nunits then Some (malloc_take nunits prevp p s)
      else if p = freep s then
        Option.bind (morecore nunits s) (\<lambda>(p, s).
        if p = 0 then Some (0, s) else malloc_loop nunits p (hptr s p) s)
      else malloc_loop nunits p (hptr s p) s)"

definition malloc_units :: "u32 \<Rightarrow> u32" where
  "malloc_units nbytes = ucast ((ucast nbytes + HDR - 1) div HDR + 1)"

definition malloc_init :: "umem \<Rightarrow> umem" where
  "malloc_init s =
     (if freep s = 0 then set_size (base s) 0 (set_ptr (base s) (base s) (s\<lparr>freep := base s\<rparr>)) else s)"

definition malloc :: "u32 \<Rightarrow> umem \<Rightarrow> (u64 \<times> umem) option" where
  "malloc nbytes s =
     (let s = malloc_init s in malloc_loop (malloc_units nbytes) (freep s) (hptr s (freep s)) s)"

lemma set_field_simps [simp]:
  "base (set_ptr p q s) = base s" "freep (set_ptr p q s) = freep s" "hptr (set_ptr p q s) = (hptr s)(p := q)"
  "hsize (set_ptr p q s) = hsize s" "sbrk_in (set_ptr p q s) = sbrk_in s" "sbrk_out (set_ptr p q s) = sbrk_out s"
  "base (set_size p n s) = base s" "freep (set_size p n s) = freep s" "hptr (set_size p n s) = hptr s"
  "hsize (set_size p n s) = (hsize s)(p := n)" "sbrk_in (set_size p n s) = sbrk_in s" "sbrk_out (set_size p n s) = sbrk_out s"
  by (simp_all add: set_ptr_def set_size_def)

section \<open>The ring of free blocks\<close>

text \<open>A block is its address and its number of units; it covers the bytes from \<open>lo\<close> up to \<open>hi\<close>.\<close>

type_synonym block = "u64 \<times> u32"

definition lo :: "block \<Rightarrow> nat" where "lo b = unat (fst b)"
definition hi :: "block \<Rightarrow> nat" where "hi b = unat (fst b) + 16 * unat (snd b)"

definition units :: "block list \<Rightarrow> nat" where
  "units bs = sum_list (map (\<lambda>b. unat (snd b)) bs)"

definition apart :: "block \<Rightarrow> block \<Rightarrow> bool" where
  "apart x y \<longleftrightarrow> hi x \<le> lo y \<or> hi y \<le> lo x"

text \<open>Following \<^verbatim>\<open>ptr\<close> from block to block and from the last one to \<open>e\<close>.\<close>

fun chain :: "(u64 \<Rightarrow> u64) \<Rightarrow> u64 list \<Rightarrow> u64 \<Rightarrow> bool" where
  "chain f [] e = True"
| "chain f [x] e = (f x = e)"
| "chain f (x # y # xs) e = (f x = y \<and> chain f (y # xs) e)"

text \<open>
  The free blocks \<open>L\<close>, with \<^verbatim>\<open>base\<close> first, in ascending order with a gap between neighbours, and the blocks \<open>A\<close> that
  the program holds: all of them apart from each other and below 64 GB.
\<close>

definition heap_ok :: "umem \<Rightarrow> block list \<Rightarrow> block set \<Rightarrow> bool" where
  "heap_ok s L A \<longleftrightarrow>
     base s \<noteq> 0 \<and> L \<noteq> [] \<and> hd L = (base s, 0)
   \<and> chain (hptr s) (map fst L) (base s)
   \<and> sorted_wrt (\<lambda>x y. hi x < lo y) L
   \<and> pairwise apart A \<and> (\<forall>x\<in>set L. \<forall>y\<in>A. apart x y)
   \<and> (\<forall>b\<in>set L \<union> A. hsize s (fst b) = snd b \<and> hi b < 2 ^ 36)
   \<and> (\<forall>b\<in>set (tl L) \<union> A. snd b \<noteq> 0 \<and> unat (base s) < lo b)
   \<and> freep s \<in> fst ` set L"

lemma chain_append: "chain f (xs @ y # ys) e \<longleftrightarrow> chain f xs y \<and> chain f (y # ys) e"
proof (induction xs)
  case (Cons x xs)
  then show ?case by (cases xs) auto
qed simp

lemma chain_cong: "(\<And>x. x \<in> set xs \<Longrightarrow> f x = g x) \<Longrightarrow> chain f xs e = chain g xs e"
  by (induction f xs e rule: chain.induct) auto

lemma chain_other: "chain f (map fst M) e \<Longrightarrow> p \<notin> fst ` set M \<Longrightarrow> \<forall>a. a \<noteq> p \<longrightarrow> g a = f a \<Longrightarrow> chain g (map fst M) e"
  using chain_cong[of "map fst M" f g e] by (metis list.set_map)

lemma chain_next: "chain f (xs @ y # ys) e \<Longrightarrow> f y = (case ys of [] \<Rightarrow> e | z # _ \<Rightarrow> z)"
  by (cases ys) (auto simp: chain_append)

section \<open>Termination of the loop of \<^verbatim>\<open>free\<close>\<close>

text \<open>At the place where \<open>bp\<close> belongs, from a block before it, from a block after it, and so from any block.\<close>

lemma free_find_at:
  assumes "chain (hptr s) (xs @ p # zs) b" and "p < bp" and "zs = [] \<or> bp < hd zs" and "b \<le> p"
  shows "free_find bp p s = Some p"
  using assms(2-) chain_next[OF assms(1)] by (subst free_find.simps) (auto split: list.splits)

lemma free_find_before:
  assumes "chain (hptr s) (xs @ q # ys @ p # zs) b" and "sorted_wrt (<) (xs @ q # ys @ p # zs)"
    and "p < bp" and "zs = [] \<or> bp < hd zs" and "b \<le> p"
  shows "free_find bp q s = Some p"
  using assms(1,2)
proof (induction ys arbitrary: xs q)
  case Nil
  have "hptr s q = p" using chain_next[of "hptr s" xs q "p # zs" b] Nil.prems by simp
  moreover have "free_find bp p s = Some p" using free_find_at[of s "xs @ [q]" p zs b bp] Nil.prems assms(3-) by simp
  moreover have "q < p" using Nil.prems by (simp add: sorted_wrt_append)
  ultimately show ?case using assms(3) by (subst free_find.simps) auto
next
  case (Cons y ys)
  have "free_find bp y s = Some p" using Cons.IH[of "xs @ [q]" y] Cons.prems by simp
  moreover have "hptr s q = y" using chain_next[of "hptr s" xs q "y # ys @ p # zs" b] Cons.prems by simp
  moreover have "q < y" "y < p" using Cons.prems by (simp_all add: sorted_wrt_append)
  ultimately show ?case using assms(3) by (subst (1) free_find.simps) auto
qed

lemma free_find_after:
  assumes "chain (hptr s) (xs @ q # ys) b" and "sorted_wrt (<) (xs @ q # ys)" and "bp < q" and "b < bp"
    and "free_find bp b s = Some p"
  shows "free_find bp q s = Some p"
  using assms(1-3)
proof (induction ys arbitrary: xs q)
  case Nil
  then have "hptr s q = b" using chain_next[of "hptr s" xs q "[]" b] by simp
  then show ?case using assms(4,5) Nil.prems(3) by (subst free_find.simps) auto
next
  case (Cons y ys)
  have l: "q < y" using Cons.prems by (simp add: sorted_wrt_append)
  have "free_find bp y s = Some p" using Cons.IH[of "xs @ [q]" y] Cons.prems l by simp
  moreover have "hptr s q = y" using chain_next[of "hptr s" xs q "y # ys" b] Cons.prems by simp
  ultimately show ?case using Cons.prems(3) l by (subst free_find.simps) auto
qed

lemma free_find_ring:
  assumes c: "chain (hptr s) (xs @ p # zs) b" and o: "sorted_wrt (<) (xs @ p # zs)" and b: "hd (xs @ p # zs) = b"
    and p: "p < bp" "zs = [] \<or> bp < hd zs" and q: "q \<in> set (xs @ p # zs)"
  shows "free_find bp q s = Some p"
proof -
  have bp: "b \<le> p" using b o by (cases xs) (auto simp: sorted_wrt_append)
  have low: "free_find bp q s = Some p" if "q \<in> set (xs @ [p])" for q
  proof (cases "q = p")
    case True
    then show ?thesis using free_find_at[OF c p bp] by simp
  next
    case False
    then obtain us vs where "xs = us @ q # vs" using \<open>q \<in> set (xs @ [p])\<close> by (auto dest: split_list)
    then show ?thesis using free_find_before[of s us q vs p zs b bp] c o p bp by simp
  qed
  have "b \<in> set (xs @ [p])" using b by (cases xs) auto
  then have fb: "free_find bp b s = Some p" by (rule low)
  show ?thesis
  proof (cases "q \<in> set (xs @ [p])")
    case False
    then obtain us vs where z: "zs = us @ q # vs" using q by (auto dest: split_list)
    then have "bp < q" using p(2) o by (cases us) (auto simp: sorted_wrt_append)
    then show ?thesis using free_find_after[of s "xs @ p # us" q vs b bp p] c o fb z p(1) bp by simp
  qed (rule low)
qed

section \<open>Inserting a block\<close>

text \<open>A block in front of a list of blocks, joined with the first of them if they touch.\<close>

fun join :: "block \<Rightarrow> block list \<Rightarrow> block list" where
  "join b [] = [b]"
| "join b (c # L) = (if hi b = lo c then (fst b, snd b + snd c) # L else b # c # L)"

lemma join_head: "\<exists>m M. join b L = (fst b, m) # M \<and> set M \<subseteq> set L"
  by (cases L) (auto simp: prod_eq_iff)

lemma hdr_add_eq:
  assumes "hi (p, n) < 2 ^ 36"
  shows "unat (hdr_add p n) = hi (p, n)"
proof -
  have "unat (HDR * ucast n) = 16 * unat n"
    using assms by (simp add: HDR_def hi_def unat_word_ariths)
  then show ?thesis using assms unfolding hdr_add_def by (simp add: hi_def unat_plus_u64)
qed

lemma hdr_add_iff: "hi (p, n) < 2 ^ 36 \<Longrightarrow> hdr_add p n = q \<longleftrightarrow> hi (p, n) = unat q"
  using hdr_add_eq[of p n] by (metis word_unat_eq_iff)

lemma hi_join:
  assumes "hi (p, m) = lo (q, n)" and "hi (q, n) < 2 ^ 36"
  shows "hi (p, m + n) = hi (q, n)" and "unat (m + n) = unat m + unat n"
proof -
  have "unat m + unat n < 2 ^ 32" using assms by (simp add: hi_def lo_def)
  then show u: "unat (m + n) = unat m + unat n" by (simp add: unat_plus_u32)
  show "hi (p, m + n) = hi (q, n)" using assms u by (simp add: hi_def lo_def)
qed

lemma lo_le_hi: "lo b \<le> hi b"
  by (simp add: lo_def hi_def)

lemma lo_less_hi: "snd b \<noteq> 0 \<Longrightarrow> lo b < hi b"
  by (simp add: lo_def hi_def unat_gt_0)

lemma apart_join:
  assumes "hi b = lo c" and "hi c < 2 ^ 36" and "apart b y" and "apart c y" and "lo y < hi y"
  shows "apart (fst b, snd b + snd c) y"
  using assms hi_join[of "fst b" "snd b" "fst c" "snd c"] lo_le_hi[of b] lo_le_hi[of c]
  by (auto simp: apart_def lo_def)

text \<open>Joining keeps the order, the bounds, the number of units and the distance to other blocks.\<close>

lemma join_props:
  assumes "sorted_wrt (\<lambda>x y. hi x < lo y) L" and "L = [] \<or> hi b \<le> lo (hd L)" and "\<forall>x\<in>set (b # L). hi x < 2 ^ 36"
  shows join_hd: "join b L \<noteq> [] \<and> fst (hd (join b L)) = fst b \<and> hi b \<le> hi (hd (join b L))"
    and join_sorted: "sorted_wrt (\<lambda>x y. hi x < lo y) (join b L)"
    and join_bound: "\<forall>x\<in>set (join b L). hi x < 2 ^ 36"
    and join_units: "units (join b L) = unat (snd b) + units L"
    and join_apart: "lo y < hi y \<Longrightarrow> \<forall>x\<in>set (b # L). apart x y \<Longrightarrow> \<forall>x\<in>set (join b L). apart x y"
    and join_pos: "\<forall>x\<in>set (b # L). snd x \<noteq> 0 \<and> l < lo x \<Longrightarrow> \<forall>x\<in>set (join b L). snd x \<noteq> 0 \<and> l < lo x"
    and join_lo: "\<forall>x\<in>set (tl (join b L)). x \<in> set L"
proof -
  have h: "hi (fst b, snd b + snd (hd L)) = hi (hd L) \<and> unat (snd b + snd (hd L)) = unat (snd b) + unat (snd (hd L))"
    if "L \<noteq> []" "hi b = lo (hd L)"
    using that assms(3) hi_join[of "fst b" "snd b" "fst (hd L)" "snd (hd L)"] by simp
  have z: "snd b + snd (hd L) \<noteq> 0" if "L \<noteq> []" "hi b = lo (hd L)" "snd b \<noteq> 0"
    using h[OF that(1,2)] that(3) by (metis add_is_0 unat_eq_zero)
  show "join b L \<noteq> [] \<and> fst (hd (join b L)) = fst b \<and> hi b \<le> hi (hd (join b L))"
    using h lo_le_hi[of "hd L"] by (cases L) auto
  show "sorted_wrt (\<lambda>x y. hi x < lo y) (join b L)"
  proof (cases L)
    case (Cons c M)
    then have "hi b < lo x" if "x \<in> set M" for x
      using assms(1,2) that lo_le_hi[of c] by fastforce
    then show ?thesis using assms(1,2) h Cons by auto
  qed simp
  show "\<forall>x\<in>set (join b L). hi x < 2 ^ 36" using assms h by (cases L) auto
  show "units (join b L) = unat (snd b) + units L" using h by (cases L) (auto simp: units_def)
  show "\<forall>x\<in>set (join b L). apart x y" if "lo y < hi y" "\<forall>x\<in>set (b # L). apart x y"
    using that assms(3) apart_join[of b "hd L" y] by (cases L) auto
  show "\<forall>x\<in>set (join b L). snd x \<noteq> 0 \<and> l < lo x" if "\<forall>x\<in>set (b # L). snd x \<noteq> 0 \<and> l < lo x"
    using that z by (cases L) (auto simp: lo_def)
  show "\<forall>x\<in>set (tl (join b L)). x \<in> set L" by (cases L) auto
qed

text \<open>The assignments of \<^verbatim>\<open>free\<close> do that.\<close>

lemma free_join_up_chain:
  assumes "chain (hptr s) (p # map fst L) e" and "\<forall>x\<in>set ((bp, k) # L). hsize s (fst x) = snd x"
    and "bp \<notin> fst ` set L" and "bp \<noteq> p" and "p \<notin> fst ` set L" and "hi (bp, k) < 2 ^ 36" and "unat e < hi (bp, k)"
  defines "t \<equiv> free_join_up bp p s"
  shows "chain (hptr t) (map fst (join (bp, k) L)) e" and "\<forall>x\<in>set (join (bp, k) L). hsize t (fst x) = snd x"
    and "\<forall>a. a \<noteq> bp \<longrightarrow> hptr t a = hptr s a \<and> hsize t a = hsize s a" and "base t = base s"
proof -
  show other: "\<forall>a. a \<noteq> bp \<longrightarrow> hptr t a = hptr s a \<and> hsize t a = hsize s a" and "base t = base s"
    by (simp_all add: t_def free_join_up_def)
  have sz: "hsize s bp = k" using assms(2) by simp
  have touch: "hdr_add bp k = hptr s p \<longleftrightarrow> L \<noteq> [] \<and> hi (bp, k) = lo (hd L)"
    using hdr_add_iff[OF assms(6), of "hptr s p"] assms(1,7) by (cases L) (auto simp: lo_def)
  have cc: "chain (hptr t) (map fst M) e" if "chain (hptr s) (map fst M) e" "set M \<subseteq> set L" for M
    using chain_other[OF that(1), of bp "hptr t"] that(2) assms(3) other by auto
  show "chain (hptr t) (map fst (join (bp, k) L)) e"
  proof (cases L)
    case Nil
    then show ?thesis using assms(1) touch sz by (simp add: t_def free_join_up_def)
  next
    case (Cons q M)
    have cM: "chain (hptr s) (map fst (q # M)) e" and np: "hptr s p = fst q" using assms(1) Cons by simp_all
    then have cM2: "chain (hptr s) (map fst M) e" and nq: "hptr s (fst q) = (case M of [] \<Rightarrow> e | z # _ \<Rightarrow> fst z)"
      by (cases M; simp)+
    have "fst q \<noteq> bp" using assms(3) Cons by auto
    then show ?thesis using cc[OF cM] cc[OF cM2] np nq touch sz Cons
      by (cases M) (auto simp: t_def free_join_up_def)
  qed
  show "\<forall>x\<in>set (join (bp, k) L). hsize t (fst x) = snd x"
  proof (cases L)
    case (Cons q M)
    have ne: "fst x \<noteq> bp" if "x \<in> set L" for x using that assms(3) by auto
    have "hptr s p = fst q" "hsize s (fst q) = snd q" using assms(1,2) Cons by simp_all
    then have "hsize t bp = (if hi (bp, k) = lo q then k + snd q else k)"
      using touch sz Cons by (simp add: t_def free_join_up_def)
    then show ?thesis using other ne assms(2) Cons by auto
  qed (use sz touch in \<open>simp add: t_def free_join_up_def\<close>)
qed

lemma free_join_down_chain:
  assumes "chain (hptr s) (map fst (b # M)) e" and "\<forall>x\<in>set ((p, m) # b # M). hsize s (fst x) = snd x"
    and "p \<notin> fst ` set (b # M)" and "hi (p, m) < 2 ^ 36"
  defines "t \<equiv> free_join_down (fst b) p s"
  shows "chain (hptr t) (map fst (join (p, m) (b # M))) e" and "\<forall>x\<in>set (join (p, m) (b # M)). hsize t (fst x) = snd x"
    and "\<forall>a. a \<noteq> p \<longrightarrow> hptr t a = hptr s a \<and> hsize t a = hsize s a" and "base t = base s"
proof -
  show other: "\<forall>a. a \<noteq> p \<longrightarrow> hptr t a = hptr s a \<and> hsize t a = hsize s a" and "base t = base s"
    by (simp_all add: t_def free_join_down_def)
  have sz: "hsize s p = m" "hsize s (fst b) = snd b" using assms(2) by simp_all
  have touch: "hdr_add p m = fst b \<longleftrightarrow> hi (p, m) = lo b"
    using hdr_add_iff[OF assms(4), of "fst b"] by (simp add: lo_def)
  have cM: "chain (hptr s) (map fst M) e" and nb: "hptr s (fst b) = (case M of [] \<Rightarrow> e | z # _ \<Rightarrow> fst z)"
    using assms(1) by (cases M; simp)+
  have "chain (hptr t) (map fst (b # M)) e" "chain (hptr t) (map fst M) e"
    using chain_other[OF assms(1), of p "hptr t"] chain_other[OF cM, of p "hptr t"] assms(3) other by auto
  moreover have "hptr t p = (if hi (p, m) = lo b then hptr s (fst b) else fst b)"
    using touch sz by (simp add: t_def free_join_down_def)
  ultimately show "chain (hptr t) (map fst (join (p, m) (b # M))) e" using nb by (cases M) auto
  have "hsize t p = (if hi (p, m) = lo b then m + snd b else m)"
    using touch sz by (simp add: t_def free_join_down_def)
  moreover have "fst x \<noteq> p" if "x \<in> set (b # M)" for x using that assms(3) by auto
  ultimately show "\<forall>x\<in>set (join (p, m) (b # M)). hsize t (fst x) = snd x" using other assms(2) by auto
qed

section \<open>\<^verbatim>\<open>free\<close>\<close>

lemma split_below:
  assumes "P (hd L)" and "L \<noteq> []"
  obtains L1 x L2 where "L = L1 @ x # L2" and "P x" and "L2 = [] \<or> \<not> P (hd L2)"
proof -
  have "takeWhile P L \<noteq> []" using assms by (cases L) auto
  then obtain L1 x where t: "takeWhile P L = L1 @ [x]" by (metis rev_exhaust)
  then have "L = L1 @ x # dropWhile P L" using takeWhile_dropWhile_id[of P L] by simp
  moreover have "P x" using t set_takeWhileD[of x P L] by simp
  moreover have "dropWhile P L = [] \<or> \<not> P (hd (dropWhile P L))" using hd_dropWhile by blast
  ultimately show ?thesis by (rule that)
qed

lemma gap_lo: "hi x < lo y \<Longrightarrow> lo x < lo y"
  using lo_le_hi[of x] by simp

lemma sorted_lo: "sorted_wrt (\<lambda>x y. hi x < lo y) L \<Longrightarrow> sorted_wrt (\<lambda>x y. lo x < lo y) L"
  by (rule sorted_wrt_mono_rel[OF gap_lo])

lemma sorted_addr: "sorted_wrt (\<lambda>x y. hi x < lo y) L \<Longrightarrow> sorted_wrt (<) (map fst L)"
  using sorted_lo[of L] by (simp add: sorted_wrt_map lo_def word_less_nat_alt)

lemma sorted_hd_lo: "sorted_wrt (\<lambda>x y. hi x < lo y) L \<Longrightarrow> x \<in> set L \<Longrightarrow> lo (hd L) \<le> lo x"
  using sorted_lo[of L] by (cases L) auto

lemma apart_addr: "apart x y \<Longrightarrow> snd x \<noteq> 0 \<Longrightarrow> snd y \<noteq> 0 \<Longrightarrow> fst x \<noteq> fst y"
  using lo_less_hi[of x] lo_less_hi[of y] by (auto simp: apart_def lo_def)

lemma heap_block:
  assumes "heap_ok s L A" and "y \<in> A"
  shows "snd y \<noteq> 0" and "lo y < hi y" and "unat (base s) < lo y" and "hi y < 2 ^ 36" and "hsize s (fst y) = snd y"
    and "x \<in> set L \<Longrightarrow> fst x \<noteq> fst y" and "x \<in> A \<Longrightarrow> x \<noteq> y \<Longrightarrow> fst x \<noteq> fst y"
proof -
  show y: "snd y \<noteq> 0" "unat (base s) < lo y" "hi y < 2 ^ 36" "hsize s (fst y) = snd y"
    using assms unfolding heap_ok_def by auto
  then show "lo y < hi y" by (simp add: lo_less_hi)
  show "fst x \<noteq> fst y" if "x \<in> A" "x \<noteq> y"
    using that assms apart_addr[of x y] unfolding heap_ok_def pairwise_def by auto
  show "fst x \<noteq> fst y" if "x \<in> set L"
  proof (cases "x = hd L")
    case True
    then show ?thesis using y assms(1) unfolding heap_ok_def by (auto simp: lo_def)
  next
    case False
    then have "x \<in> set (tl L)" using that by (cases L) auto
    then show ?thesis using that assms apart_addr[of x y] unfolding heap_ok_def by auto
  qed
qed

text \<open>The place of a block of the program in the ring.\<close>

lemma free_place:
  assumes H: "heap_ok s L (insert (bp, k) A)"
  obtains L1 p m L2 where "L = L1 @ (p, m) # L2" and "p < bp" and "free_find bp (freep s) s = Some p"
    and "hi (p, m) \<le> unat bp" and "L2 = [] \<or> hi (bp, k) \<le> lo (hd L2)" and "p = base s \<longrightarrow> m = 0 \<and> L1 = []"
proof -
  note h = H[unfolded heap_ok_def]
  have b: "fst (hd L) < bp" using h by (auto simp: lo_def word_less_nat_alt)
  obtain L1 x L2 where L: "L = L1 @ x # L2" "fst x < bp" "L2 = [] \<or> \<not> fst (hd L2) < bp"
    using split_below[of "\<lambda>b. fst b < bp" L] b h by metis
  obtain p m where x: "x = (p, m)" by (cases x)
  have ne: "fst y \<noteq> bp" if "y \<in> set L" for y using heap_block(6)[OF H, of "(bp, k)" y] that by simp
  have z0: "L2 = [] \<or> bp < fst (hd L2)" using L(3) ne[of "hd L2"] L(1) by (cases L2) auto
  then have z: "map fst L2 = [] \<or> bp < hd (map fst L2)" by (cases L2) auto
  have mL: "map fst L1 @ p # map fst L2 = map fst L" using L(1) x by simp
  have "free_find bp (freep s) s = Some p"
  proof (rule free_find_ring)
    show "chain (hptr s) (map fst L1 @ p # map fst L2) (base s)" unfolding mL using h by blast
    show "sorted_wrt (<) (map fst L1 @ p # map fst L2)" unfolding mL using h sorted_addr by blast
    show "hd (map fst L1 @ p # map fst L2) = base s" unfolding mL using h by (simp add: hd_map)
    show "freep s \<in> set (map fst L1 @ p # map fst L2)" unfolding mL using h by simp
  qed (use L(2) x z in auto)
  moreover have "apart x (bp, k)" "L2 = [] \<or> apart (hd L2) (bp, k)" using h L(1) by auto
  then have "hi (p, m) \<le> unat bp" "L2 = [] \<or> hi (bp, k) \<le> lo (hd L2)"
    using L(2) x z0 heap_block(2)[OF H, of "(bp, k)"] by (auto simp: apart_def lo_def hi_def word_less_nat_alt)
  moreover have "m = 0 \<and> L1 = []" if "p = base s"
  proof -
    have "sorted_wrt (<) (map fst L)" "fst (hd L) = base s" using h sorted_addr by auto
    then have "L1 = []" using that L(1) x by (cases L1) auto
    moreover have "hd L = (base s, 0)" using h by blast
    ultimately show ?thesis using L(1) x by simp
  qed
  ultimately show ?thesis using that L(1,2) x by simp
qed

text \<open>The ring after the block has been put in its place: as a list of blocks, and as the links in memory.\<close>

definition put_free :: "block list \<Rightarrow> block \<Rightarrow> block \<Rightarrow> block list \<Rightarrow> block list" where
  "put_free L1 a b L2 = L1 @ join a (join b L2)"

lemma put_free_list:
  assumes "sorted_wrt (\<lambda>x y. hi x < lo y) (L1 @ a # L2)" and "hi a \<le> lo b" and "L2 = [] \<or> hi b \<le> lo (hd L2)"
    and "\<forall>x\<in>set (L1 @ a # b # L2). hi x < 2 ^ 36"
  shows "sorted_wrt (\<lambda>x y. hi x < lo y) (put_free L1 a b L2)"
    and "\<forall>x\<in>set (put_free L1 a b L2). hi x < 2 ^ 36"
    and "units (put_free L1 a b L2) = units (L1 @ a # L2) + unat (snd b)"
    and "lo y < hi y \<Longrightarrow> \<forall>x\<in>set (L1 @ a # b # L2). apart x y \<Longrightarrow> \<forall>x\<in>set (put_free L1 a b L2). apart x y"
    and "\<exists>c\<in>set (put_free L1 a b L2). snd b \<le> snd c"
    and "\<exists>c R. join a (join b L2) = c # R \<and> fst c = fst a \<and> (hi a < lo b \<longrightarrow> c = a)
      \<and> (\<forall>l. (\<forall>x\<in>set (b # L2). snd x \<noteq> 0 \<and> l < lo x) \<longrightarrow> (\<forall>x\<in>set R. snd x \<noteq> 0 \<and> l < lo x))
      \<and> (snd a \<noteq> 0 \<longrightarrow> snd c \<noteq> 0)"
proof -
  let ?U = "join b L2"
  have s2: "sorted_wrt (\<lambda>x y. hi x < lo y) L2" and b2: "\<forall>x\<in>set (b # L2). hi x < 2 ^ 36"
    using assms(1,4) by (auto simp: sorted_wrt_append)
  note U = join_props[OF s2 assms(3) b2]
  have b3: "\<forall>x\<in>set (a # ?U). hi x < 2 ^ 36" using U(3) assms(4) by auto
  have g3: "?U = [] \<or> hi a \<le> lo (hd ?U)" using U(1) assms(2) by (simp add: lo_def)
  note R = join_props[OF U(2) g3 b3]
  have lowR: "lo a \<le> lo x" if "x \<in> set (join a ?U)" for x using sorted_hd_lo[OF R(2) that] R(1) by (simp add: lo_def)
  show "sorted_wrt (\<lambda>x y. hi x < lo y) (put_free L1 a b L2)"
    using assms(1) R(2) lowR unfolding put_free_def sorted_wrt_append by (auto intro: less_le_trans)
  show "\<forall>x\<in>set (put_free L1 a b L2). hi x < 2 ^ 36" using assms(4) R(3) by (auto simp: put_free_def)
  show "units (put_free L1 a b L2) = units (L1 @ a # L2) + unat (snd b)"
    using R(4) U(4) by (simp add: put_free_def units_def)
  show "\<forall>x\<in>set (put_free L1 a b L2). apart x y" if "lo y < hi y" "\<forall>x\<in>set (L1 @ a # b # L2). apart x y"
  proof -
    have "\<forall>x\<in>set ?U. apart x y" by (rule U(5)[OF that(1)]) (use that(2) in simp)
    then have "\<forall>x\<in>set (join a ?U). apart x y" by (intro R(5)[OF that(1)]) (use that(2) in simp)
    then show ?thesis using that(2) by (auto simp: put_free_def)
  qed
  obtain d M where d: "?U = d # M" "fst d = fst b" "hi b \<le> hi d" using U(1) by (cases ?U) auto
  have "snd b \<le> snd d" using d(2,3) by (simp add: hi_def word_le_nat_alt)
  moreover have "\<exists>c\<in>set (join a ?U). snd d \<le> snd c"
  proof (cases "hi a = lo d")
    case True
    then have "unat (snd a + snd d) = unat (snd a) + unat (snd d)"
      using hi_join(2)[of "fst a" "snd a" "fst d" "snd d"] b3 d(1) by simp
    then show ?thesis using True d(1) by (simp add: word_le_nat_alt)
  qed (simp add: d(1))
  ultimately show "\<exists>c\<in>set (put_free L1 a b L2). snd b \<le> snd c"
    unfolding put_free_def set_append by (meson UnI2 order_trans)
  have nz: "snd a + snd d \<noteq> 0" if "hi a = lo d" "snd a \<noteq> 0"
  proof -
    have "unat (snd a + snd d) = unat (snd a) + unat (snd d)"
      using that(1) hi_join(2)[of "fst a" "snd a" "fst d" "snd d"] b3 d(1) by simp
    then show ?thesis using that(2) by (metis add_is_0 unat_eq_zero)
  qed
  have gap: "hi a < lo b \<longrightarrow> hi a \<noteq> lo d" using d(2) by (simp add: lo_def)
  have pos: "\<forall>l. (\<forall>x\<in>set (b # L2). snd x \<noteq> 0 \<and> l < lo x) \<longrightarrow> (\<forall>x\<in>set (d # M). snd x \<noteq> 0 \<and> l < lo x)"
    using U(6) d(1) by metis
  then have pos': "\<forall>l. (\<forall>x\<in>set (b # L2). snd x \<noteq> 0 \<and> l < lo x) \<longrightarrow> (\<forall>x\<in>set M. snd x \<noteq> 0 \<and> l < lo x)"
    by (metis list.set_intros(2))
  show "\<exists>c R. join a (join b L2) = c # R \<and> fst c = fst a \<and> (hi a < lo b \<longrightarrow> c = a)
      \<and> (\<forall>l. (\<forall>x\<in>set (b # L2). snd x \<noteq> 0 \<and> l < lo x) \<longrightarrow> (\<forall>x\<in>set R. snd x \<noteq> 0 \<and> l < lo x))
      \<and> (snd a \<noteq> 0 \<longrightarrow> snd c \<noteq> 0)"
  proof (cases "hi a = lo d")
    case True
    have "join a (join b L2) = (fst a, snd a + snd d) # M" using True d(1) by simp
    moreover have "hi a < lo b \<longrightarrow> (fst a, snd a + snd d) = a" using gap True by blast
    moreover have "snd a \<noteq> 0 \<longrightarrow> snd (fst a, snd a + snd d) \<noteq> 0" using nz[OF True] by simp
    ultimately show ?thesis using pos' by (metis fst_conv)
  next
    case False
    have "join a (join b L2) = a # d # M" using False d(1) by simp
    then show ?thesis using pos by metis
  qed
qed

lemma free_joins:
  assumes c: "chain (hptr s) (map fst (L1 @ (p, m) # L2)) e" and srt: "sorted_wrt (\<lambda>x y. hi x < lo y) (L1 @ (p, m) # L2)"
    and sz: "\<forall>x\<in>set (L1 @ (p, m) # (bp, k) # L2). hsize s (fst x) = snd x"
    and bnd: "hi (p, m) < 2 ^ 36" "hi (bp, k) < 2 ^ 36"
    and bn: "\<forall>x\<in>set (L1 @ (p, m) # L2). fst x \<noteq> bp" and e: "unat e < hi (bp, k)"
  defines "t \<equiv> free_join_down bp p (free_join_up bp p s)"
  shows "chain (hptr t) (map fst (put_free L1 (p, m) (bp, k) L2)) e"
    and "\<forall>x\<in>set (put_free L1 (p, m) (bp, k) L2). hsize t (fst x) = snd x"
    and "\<forall>a. a \<noteq> p \<and> a \<noteq> bp \<longrightarrow> hptr t a = hptr s a \<and> hsize t a = hsize s a"
proof -
  let ?s1 = "free_join_up bp p s"
  have c0: "chain (hptr s) (map fst L1) p" and c1: "chain (hptr s) (p # map fst L2) e" using c by (auto simp: chain_append)
  have "sorted_wrt (<) (map fst L1 @ p # map fst L2)" using sorted_addr[OF srt] by simp
  then have pn: "p \<notin> fst ` set L1" "p \<notin> fst ` set L2" by (auto simp: sorted_wrt_append)
  have bn': "bp \<notin> fst ` set L2" "bp \<noteq> p" using bn by auto
  have "\<forall>x\<in>set ((bp, k) # L2). hsize s (fst x) = snd x" using sz by simp
  note u = free_join_up_chain[OF c1 this bn' pn(2) bnd(2) e]
  obtain b M where U0: "join (bp, k) L2 = b # M" "fst b = bp" "set M \<subseteq> set L2"
    using join_head[of "(bp, k)" L2] by auto
  have pM: "p \<notin> fst ` set (b # M)" using U0 bn'(2) pn(2) by auto
  have ub: "\<forall>x\<in>set ((p, m) # b # M). hsize ?s1 (fst x) = snd x" using u(2,3) bn'(2) sz U0 by simp
  have uc: "chain (hptr ?s1) (map fst (b # M)) e" using u(1) U0 by simp
  note d = free_join_down_chain[OF uc ub pM bnd(1), unfolded U0(1)[symmetric] U0(2)]
  show keep: "\<forall>a. a \<noteq> p \<and> a \<noteq> bp \<longrightarrow> hptr t a = hptr s a \<and> hsize t a = hsize s a"
    using d(3) u(3) by (simp add: t_def)
  have ne: "x \<noteq> p \<and> x \<noteq> bp" if "x \<in> set (map fst L1)" for x using that pn(1) bn by auto
  have "chain (hptr t) (map fst L1) p = chain (hptr s) (map fst L1) p" using keep ne by (intro chain_cong) simp
  moreover obtain m' R' where "join (p, m) (join (bp, k) L2) = (p, m') # R'"
    using join_head[of "(p, m)" "join (bp, k) L2"] by auto
  ultimately show "chain (hptr t) (map fst (put_free L1 (p, m) (bp, k) L2)) e"
    using c0 d(1) by (simp add: put_free_def chain_append t_def)
  have "hsize t (fst x) = snd x" if "x \<in> set L1" for x using that keep ne[of "fst x"] sz by simp
  then show "\<forall>x\<in>set (put_free L1 (p, m) (bp, k) L2). hsize t (fst x) = snd x" using d(2) by (auto simp: put_free_def t_def)
qed

lemma free_heap:
  assumes H: "heap_ok s L (insert (bp, k) A)" and new: "(bp, k) \<notin> A"
  shows "\<exists>t L'. free (bp + HDR) s = Some t \<and> heap_ok t L' A \<and> units L' = units L + unat k
    \<and> (\<exists>b\<in>set L'. k \<le> snd b) \<and> base t = base s \<and> sbrk_in t = sbrk_in s \<and> sbrk_out t = sbrk_out s"
proof -
  obtain L1 p m L2 where L: "L = L1 @ (p, m) # L2" and pb: "p < bp" and f: "free_find bp (freep s) s = Some p"
    and g: "hi (p, m) \<le> unat bp" "L2 = [] \<or> hi (bp, k) \<le> lo (hd L2)" and pbase: "p = base s \<longrightarrow> m = 0 \<and> L1 = []"
    by (rule free_place[OF H])
  note h = H[unfolded heap_ok_def L]
  note bl = heap_block[OF H insertI1]
  let ?P = "put_free L1 (p, m) (bp, k) L2"
  let ?t = "(free_join_down bp p (free_join_up bp p s))\<lparr>freep := p\<rparr>"
  have srt: "sorted_wrt (\<lambda>x y. hi x < lo y) (L1 @ (p, m) # L2)" and bnd: "\<forall>x\<in>set (L1 @ (p, m) # (bp, k) # L2). hi x < 2 ^ 36"
    and sz: "\<forall>x\<in>set (L1 @ (p, m) # (bp, k) # L2). hsize s (fst x) = snd x"
    and c: "chain (hptr s) (map fst (L1 @ (p, m) # L2)) (base s)" using h by auto
  have g1: "hi (p, m) \<le> lo (bp, k)" using g(1) by (simp add: lo_def)
  note l = put_free_list[OF srt g1 g(2) bnd]
  have bn: "\<forall>x\<in>set (L1 @ (p, m) # L2). fst x \<noteq> bp" using bl(6) L by auto
  have e: "unat (base s) < hi (bp, k)" using bl(2,3) by simp
  have pm: "hi (p, m) < 2 ^ 36" using bnd by simp
  note j = free_joins[OF c srt sz pm bl(4) bn e]
  have ap: "\<forall>x\<in>set ?P. apart x y" if "y \<in> A" for y
    using heap_block(2)[OF H, of y] h that new by (intro l(4)) (auto simp: pairwise_def)
  have szA: "hsize ?t (fst y) = snd y" if "y \<in> A" for y
  proof -
    have "y \<noteq> (bp, k)" using that new by auto
    then show ?thesis using heap_block(5)[OF H, of y] heap_block(6)[OF H, of y "(p, m)"] heap_block(7)[OF H, of y "(bp, k)"] j(3) L that by auto
  qed
  obtain c' R where R: "join (p, m) (join (bp, k) L2) = c' # R" "fst c' = fst (p, m)" "hi (p, m) < lo (bp, k) \<longrightarrow> c' = (p, m)"
    "\<forall>l. (\<forall>x\<in>set ((bp, k) # L2). snd x \<noteq> 0 \<and> l < lo x) \<longrightarrow> (\<forall>x\<in>set R. snd x \<noteq> 0 \<and> l < lo x)"
    "snd (p, m) \<noteq> 0 \<longrightarrow> snd c' \<noteq> 0"
    using l(6) by (elim exE conjE) (rule that)
  have P: "?P = L1 @ c' # R" by (simp add: put_free_def R(1))
  have posR: "\<forall>x\<in>set R. snd x \<noteq> 0 \<and> unat (base s) < lo x"
    by (rule R(4)[THEN spec, THEN mp]) (use h in \<open>cases L1; auto\<close>)
  have hdP: "hd ?P = (base s, 0) \<and> (\<forall>x\<in>set (tl ?P). snd x \<noteq> 0 \<and> unat (base s) < lo x)"
  proof (cases L1)
    case Nil
    then have "p = base s" "m = 0" using h by auto
    then have "c' = (base s, 0)" using R(3) bl(3) by (simp add: hi_def)
    then show ?thesis using Nil P posR by simp
  next
    case (Cons x L1')
    have hx: "x = (base s, 0)" using h Cons by simp
    have tl: "\<forall>y\<in>set (L1' @ (p, m) # L2). snd y \<noteq> 0 \<and> unat (base s) < lo y" using h Cons by simp
    then have "snd c' \<noteq> 0 \<and> unat (base s) < lo c'" using R(2,5) by (simp add: lo_def)
    then show ?thesis using P posR tl Cons hx by auto
  qed
  have "free (bp + HDR) s = Some ?t" by (simp add: free_def f)
  moreover have sb: "base ?t = base s \<and> sbrk_in ?t = sbrk_in s \<and> sbrk_out ?t = sbrk_out s"
    by (simp add: free_join_down_def free_join_up_def)
  moreover have "heap_ok ?t ?P A"
    unfolding heap_ok_def
  proof (intro conjI)
    show "pairwise apart A" using h by (simp add: pairwise_insert)
    show "\<forall>b\<in>set ?P \<union> A. hsize ?t (fst b) = snd b \<and> hi b < 2 ^ 36" using l(2) j(2) szA heap_block(4)[OF H] by auto
    show "\<forall>b\<in>set (tl ?P) \<union> A. snd b \<noteq> 0 \<and> unat (base ?t) < lo b" using hdP sb heap_block(1,3)[OF H] by auto
    show "freep ?t \<in> fst ` set ?P" using P R(2) by force
  qed (use l(1) j(1) ap hdP P sb h in auto)
  ultimately show ?thesis using l(3,5) L by auto
qed

section \<open>\<^verbatim>\<open>malloc\<close>\<close>

text \<open>One turn around the ring, ending at \<^verbatim>\<open>freep\<close>: the first block that is large enough, or a call of \<^verbatim>\<open>morecore\<close>.\<close>

lemma malloc_loop_walk:
  assumes "chain (hptr s) (prevp # ys @ [freep s]) e" and "freep s \<notin> set ys"
  shows "(\<exists>q y. hptr s q = y \<and> q \<in> set (prevp # ys) \<and> y \<in> set (ys @ [freep s]) \<and> hsize s y \<ge> nu
        \<and> malloc_loop nu prevp (hd (ys @ [freep s])) s = Some (malloc_take nu q y s))
    \<or> (\<forall>y\<in>set (ys @ [freep s]). hsize s y < nu) \<and> malloc_loop nu prevp (hd (ys @ [freep s])) s
        = Option.bind (morecore nu s) (\<lambda>(p, s). if p = 0 then Some (0, s) else malloc_loop nu p (hptr s p) s)"
  using assms
proof (induction ys arbitrary: prevp)
  case Nil
  have "hptr s prevp = freep s" using Nil by simp
  then show ?case by (cases "hsize s (freep s) \<ge> nu") (auto simp: malloc_loop.simps[of nu prevp "freep s"])
next
  case (Cons y ys)
  have n: "hptr s prevp = y" "chain (hptr s) (y # ys @ [freep s]) e" "hptr s y = hd (ys @ [freep s])" "y \<noteq> freep s"
    using Cons.prems by (auto, cases ys, auto)
  show ?case
  proof (cases "hsize s y \<ge> nu")
    case True
    then show ?thesis using n by (intro disjI1 exI[of _ prevp] exI[of _ y]) (simp add: malloc_loop.simps[of nu prevp y])
  next
    case False
    then have "malloc_loop nu prevp y s = malloc_loop nu y (hd (ys @ [freep s])) s"
      using n(3,4) by (simp add: malloc_loop.simps[of nu prevp y])
    then show ?thesis using Cons.IH[OF n(2)] Cons.prems(2) False by auto
  qed
qed

text \<open>Taking a block, or the upper end of one, out of the ring.\<close>

lemma take_whole:
  assumes H: "heap_ok s (L1 @ (q, n) # (y, nu) # L2) A" and "nu \<noteq> 0"
  shows "heap_ok ((set_ptr q (hptr s y) s)\<lparr>freep := q\<rparr>) (L1 @ (q, n) # L2) (insert (y, nu) A)" and "(y, nu) \<notin> A"
proof -
  let ?t = "(set_ptr q (hptr s y) s)\<lparr>freep := q\<rparr>"
  note h = H[unfolded heap_ok_def]
  have srt: "sorted_wrt (\<lambda>x y. hi x < lo y) (L1 @ (q, n) # (y, nu) # L2)" using h by blast
  have ne: "q \<notin> fst ` set L1" "q \<notin> fst ` set L2" "y \<noteq> q" using sorted_addr[OF srt] by (auto simp: sorted_wrt_append)
  have c: "chain (hptr s) (map fst L1) q" "chain (hptr s) (y # map fst L2) (base s)" using h by (auto simp: chain_append)
  have c2: "chain (hptr s) (map fst L2) (base s)" "hptr s y = (case L2 of [] \<Rightarrow> base s | z # _ \<Rightarrow> fst z)"
    using c(2) by (cases L2; simp)+
  have o: "\<forall>a. a \<noteq> q \<longrightarrow> hptr ?t a = hptr s a" by simp
  have "chain (hptr ?t) (map fst L1) q" by (rule chain_other[OF c(1) ne(1) o])
  moreover have "chain (hptr ?t) (map fst L2) (base s)" by (rule chain_other[OF c2(1) ne(2) o])
  moreover have "hptr ?t q = (case L2 of [] \<Rightarrow> base s | z # _ \<Rightarrow> fst z)" using c2(2) by simp
  ultimately have "chain (hptr ?t) (map fst (L1 @ (q, n) # L2)) (base s)"
    unfolding map_append list.map chain_append fst_conv by (cases L2) (simp_all del: umem.simps set_field_simps)
  moreover have "sorted_wrt (\<lambda>x y. hi x < lo y) (L1 @ (q, n) # L2)" using srt by (auto simp: sorted_wrt_append)
  moreover have ap: "\<forall>x\<in>set (L1 @ (q, n) # L2). apart x (y, nu)" using srt by (auto simp: sorted_wrt_append apart_def less_imp_le)
  moreover have "\<forall>x\<in>A. apart (y, nu) x \<and> apart x (y, nu)" using h by (auto simp: apart_def)
  moreover have "hd (L1 @ (q, n) # L2) = (base s, 0)" using h by (cases L1) auto
  moreover have "\<forall>b\<in>set (tl (L1 @ (q, n) # L2)) \<union> insert (y, nu) A. snd b \<noteq> 0 \<and> unat (base s) < lo b"
    using h by (cases L1) auto
  ultimately show "heap_ok ?t (L1 @ (q, n) # L2) (insert (y, nu) A)"
    unfolding heap_ok_def using h by (auto simp: pairwise_insert)
  show "(y, nu) \<notin> A" using heap_block(6)[OF H, of "(y, nu)" "(y, nu)"] by auto
qed

lemma take_part:
  assumes H: "heap_ok s (L1 @ (y, m) # L2) A" and "nu \<noteq> 0" and "nu < m" and q: "q \<in> fst ` set (L1 @ (y, m) # L2)"
  defines "a \<equiv> hdr_add y (m - nu)"
  shows "heap_ok ((set_size a nu (set_size y (m - nu) s))\<lparr>freep := q\<rparr>) (L1 @ (y, m - nu) # L2) (insert (a, nu) A)"
    and "(a, nu) \<notin> A"
proof -
  let ?t = "(set_size a nu (set_size y (m - nu) s))\<lparr>freep := q\<rparr>" and ?L = "L1 @ (y, m - nu) # L2"
  note h = H[unfolded heap_ok_def]
  have um: "unat (m - nu) = unat m - unat nu" "unat nu < unat m" "0 < unat nu"
    using assms(2,3) unat_minus_word[OF less_imp_le[OF assms(3)]] by (simp_all add: word_less_nat_alt unat_gt_0)
  have hy: "hi (y, m) < 2 ^ 36" using h by auto
  have "hi (y, m - nu) < 2 ^ 36" using hy um by (simp add: hi_def)
  then have ua: "unat a = unat y + 16 * (unat m - unat nu)" using hdr_add_eq[of y "m - nu"] um by (simp add: a_def hi_def)
  have parts: "lo (y, m - nu) = lo (y, m)" "hi (y, m - nu) = lo (a, nu)" "hi (a, nu) = hi (y, m)" "lo (y, m) < lo (a, nu)"
    "lo (a, nu) < hi (a, nu)"
    using um ua by (simp_all add: lo_def hi_def)
  have y0: "y \<noteq> base s" "L1 \<noteq> []" using h um by (cases L1; auto simp: lo_def)+
  have srt: "sorted_wrt (\<lambda>x y. hi x < lo y) (L1 @ (y, m) # L2)" using h by blast
  have srt': "sorted_wrt (\<lambda>x y. hi x < lo y) ?L" using srt parts by (auto simp: sorted_wrt_append)
  have apL: "apart x (a, nu) \<and> fst x \<noteq> a" if "x \<in> set ?L" for x
    using srt that parts lo_le_hi[of x] lo_le_hi[of "(y, m)"] by (auto simp: sorted_wrt_append apart_def lo_def)
  have apA: "apart (y, m - nu) x \<and> apart (a, nu) x \<and> apart x (a, nu) \<and> fst x \<noteq> a \<and> fst x \<noteq> y" if "x \<in> A" for x
  proof -
    have "apart (y, m) x" "lo x < hi x" using h heap_block(2)[OF H that] that by auto
    then show ?thesis using parts by (auto simp: apart_def lo_def)
  qed
  have ny: "fst x \<noteq> y" if "x \<in> set (L1 @ L2)" for x using sorted_addr[OF srt] that by (auto simp: sorted_wrt_append)
  have yy: "y \<noteq> a" using parts(4) by (auto simp: lo_def)
  show "heap_ok ?t ?L (insert (a, nu) A)"
    unfolding heap_ok_def
  proof (intro conjI)
    show "chain (hptr ?t) (map fst ?L) (base ?t)" using h by simp
    show "hd ?L = (base ?t, 0)" using h y0(2) by simp
    show "pairwise apart (insert (a, nu) A)" using h apA by (auto simp: pairwise_insert)
    show "\<forall>x\<in>set ?L. \<forall>z\<in>insert (a, nu) A. apart x z" using h apA apL by auto
    show "\<forall>b\<in>set ?L \<union> insert (a, nu) A. hsize ?t (fst b) = snd b \<and> hi b < 2 ^ 36"
    proof -
      have "hsize ?t (fst b) = snd b \<and> hi b < 2 ^ 36" if "b \<in> set (L1 @ L2) \<union> A" for b
      proof -
        have "fst b \<noteq> a" "fst b \<noteq> y" using that apA[of b] apL[of b] ny[of b] by auto
        then show ?thesis using that h by auto
      qed
      moreover have "hi (y, m - nu) < 2 ^ 36" "hi (a, nu) < 2 ^ 36" using hy parts by simp_all
      ultimately show ?thesis using yy by auto
    qed
    show "\<forall>b\<in>set (tl ?L) \<union> insert (a, nu) A. snd b \<noteq> 0 \<and> unat (base ?t) < lo b"
      using h y0(2) um parts by (auto simp: lo_def)
    show "freep ?t \<in> fst ` set ?L" using q by auto
  qed (use srt' h in auto)
  show "(a, nu) \<notin> A" using apA[of "(a, nu)"] by auto
qed

lemma units_remove: "units (L1 @ b # L2) = units (L1 @ L2) + unat (snd b)"
  by (simp add: units_def)

lemma malloc_take_heap:
  assumes H: "heap_ok s L A" and "q \<in> fst ` set L" and "hptr s q \<in> fst ` set L" and nu: "nu \<noteq> 0" and "hsize s (hptr s q) \<ge> nu"
  shows "\<exists>a t L'. malloc_take nu q (hptr s q) s = (a + HDR, t) \<and> heap_ok t L' (insert (a, nu) A) \<and> (a, nu) \<notin> A
    \<and> units L' + unat nu = units L \<and> base t = base s \<and> sbrk_in t = sbrk_in s \<and> sbrk_out t = sbrk_out s"
proof -
  let ?y = "hptr s q"
  note h = H[unfolded heap_ok_def]
  obtain m where m0: "(?y, m) \<in> set L" using assms(3) by auto
  have sizes: "\<forall>b\<in>set L. hsize s (fst b) = snd b" using h by blast
  note m = m0 bspec[OF sizes m0, simplified]
  have "?y \<noteq> base s" using m assms(5) nu h by (cases L) (auto simp: lo_def)
  obtain L1 n M where L: "L = L1 @ (q, n) # M" using assms(2) by (auto dest!: split_list)
  have "?y = (case map fst M of [] \<Rightarrow> base s | z # _ \<Rightarrow> z)" using chain_next[of "hptr s" "map fst L1" q "map fst M" "base s"] h L by auto
  then obtain n' L2 where M: "M = (?y, n') # L2" using \<open>?y \<noteq> base s\<close> by (cases M) auto
  have n': "n' = m" using sizes L M m(2) by auto
  show ?thesis
  proof (cases "m = nu")
    case True
    have "heap_ok s (L1 @ (q, n) # (?y, nu) # L2) A" using H L M n' True by simp
    note tk = take_whole[OF this nu]
    show ?thesis using tk m(2) True L M n' units_remove[of "L1 @ [(q, n)]" "(?y, nu)" L2]
      by (intro exI[of _ ?y] exI[of _ "(set_ptr q (hptr s ?y) s)\<lparr>freep := q\<rparr>"] exI[of _ "L1 @ (q, n) # L2"])
        (simp add: malloc_take_def)
  next
    case False
    then have lt: "nu < m" using assms(5) m(2) by simp
    have "heap_ok s ((L1 @ [(q, n)]) @ (?y, m) # L2) A" using H L M n' by simp
    note tk = take_part[OF this nu lt, of q]
    have "unat (m - nu) + unat nu = unat m" using lt unat_minus_word[OF less_imp_le[OF lt]] by (simp add: word_less_nat_alt)
    then show ?thesis using tk m(2) False L M n'
      by (intro exI[of _ "hdr_add ?y (m - nu)"]
          exI[of _ "(set_size (hdr_add ?y (m - nu)) nu (set_size ?y (m - nu) s))\<lparr>freep := q\<rparr>"]
          exI[of _ "(L1 @ [(q, n)]) @ (?y, m - nu) # L2"]) (simp add: malloc_take_def Let_def units_def)
  qed
qed

lemma ring_turn:
  assumes "chain f (us @ q # vs) b" and "hd (us @ q # vs) = b"
  shows "chain f (q # (vs @ us) @ [q]) (f q)"
proof (cases us)
  case Nil
  then show ?thesis using assms chain_append[of f "q # vs" q "[]" "f q"] by simp
next
  case (Cons u us')
  then have "chain f (q # vs) u" "chain f us q" using assms chain_append[of f us q vs b] by simp_all
  then show ?thesis
    using Cons chain_append[of f "q # vs" u "us' @ [q]" "f q"] chain_append[of f us q "[]" "f q"] by simp
qed

lemma malloc_turn:
  assumes H: "heap_ok s L A" and nu: "nu \<noteq> 0"
  shows "(\<exists>a t L'. malloc_loop nu (freep s) (hptr s (freep s)) s = Some (a + HDR, t) \<and> heap_ok t L' (insert (a, nu) A)
      \<and> (a, nu) \<notin> A \<and> units L' + unat nu = units L \<and> base t = base s \<and> sbrk_in t = sbrk_in s \<and> sbrk_out t = sbrk_out s)
    \<or> (\<forall>b\<in>set L. snd b < nu) \<and> malloc_loop nu (freep s) (hptr s (freep s)) s
        = Option.bind (morecore nu s) (\<lambda>(p, s). if p = 0 then Some (0, s) else malloc_loop nu p (hptr s p) s)"
proof -
  note h = H[unfolded heap_ok_def]
  obtain us vs where x: "map fst L = us @ freep s # vs" using h by (metis list.set_map split_list)
  have "hd (map fst L) = base s" using h by (simp add: hd_map)
  then have c: "chain (hptr s) (freep s # (vs @ us) @ [freep s]) (hptr s (freep s))"
    using ring_turn[of "hptr s" us "freep s" vs "base s"] h x by simp
  have n: "freep s \<notin> set (vs @ us)"
    using sorted_addr[of L] h x by (auto simp: sorted_wrt_append)
  have hn: "hptr s (freep s) = hd ((vs @ us) @ [freep s])" using c by (cases "vs @ us") auto
  have set: "set ((vs @ us) @ [freep s]) = fst ` set L" "set (freep s # vs @ us) = fst ` set L"
    using arg_cong[OF x, of set] by auto
  from malloc_loop_walk[OF c n, of nu] show ?thesis
  proof (elim disjE exE conjE)
    fix q y
    assume "hptr s q = y" "q \<in> set (freep s # vs @ us)" "y \<in> set ((vs @ us) @ [freep s])" "hsize s y \<ge> nu"
      and r: "malloc_loop nu (freep s) (hd ((vs @ us) @ [freep s])) s = Some (malloc_take nu q y s)"
    then show ?thesis using malloc_take_heap[OF H, of q nu] set hn nu by auto
  next
    assume "\<forall>y\<in>set ((vs @ us) @ [freep s]). hsize s y < nu"
    then have "\<forall>b\<in>set L. snd b < nu" using h unfolding set(1) by auto
    moreover assume "malloc_loop nu (freep s) (hd ((vs @ us) @ [freep s])) s
        = Option.bind (morecore nu s) (\<lambda>(p, s). if p = 0 then Some (0, s) else malloc_loop nu p (hptr s p) s)"
    ultimately show ?thesis using hn by simp
  qed
qed

text \<open>
  What the allocator expects of \<^verbatim>\<open>sbrk\<close>: it fails with -1 or returns the start of that many new bytes, which are part of
  no block.
\<close>

definition core_fresh :: "umem \<Rightarrow> block list \<Rightarrow> block set \<Rightarrow> u32 \<Rightarrow> bool" where
  "core_fresh s L A n \<longleftrightarrow>
     (case sbrk_in s of [] \<Rightarrow> True
      | r # _ \<Rightarrow> r = -1 \<or> unat (base s) < unat r \<and> hi (r, n) < 2 ^ 36 \<and> (\<forall>x\<in>set L \<union> A. apart x (r, n)))"

lemma core_units_facts: "nu \<noteq> 0 \<Longrightarrow> core_units nu \<noteq> 0 \<and> nu \<le> core_units nu"
  by (auto simp: core_units_def)

lemma sbrk_request:
  assumes "unat (n :: u32) < 2 ^ 27"
  shows "sint (ucast (ucast n * HDR) :: 32 word) = 16 * int (unat n)"
proof -
  have u: "unat (ucast n * HDR) = 16 * unat n" using assms by (simp add: HDR_def unat_word_ariths)
  then have "unat (ucast (ucast n * HDR) :: 32 word) = 16 * unat n"
    using assms by (simp add: unsigned_ucast_eq take_bit_nat_eq_self u)
  then have "uint (ucast (ucast n * HDR) :: 32 word) = 16 * int (unat n)"
    by (metis int_ops(7) of_nat_numeral unat_eq_nat_uint uint_ge_0 int_nat_eq)
  moreover have "uint n < 134217728" using assms unfolding unat_eq_nat_uint by (subst (asm) nat_less_iff) simp_all
  moreover have "0 \<le> uint n" by simp
  ultimately have "-2147483648 \<le> 16 * uint n" "16 * uint n < 2147483648" by linarith+
  then have "signed_take_bit 31 (16 * uint n) = 16 * uint n" by (intro signed_take_bit_int_eq_self) simp_all
  then show ?thesis using \<open>uint _ = 16 * int (unat n)\<close> by (simp add: sint_uint)
qed

lemma heap_ok_core:
  assumes H: "heap_ok s L A" and "n \<noteq> 0" and "unat (base s) < unat r" and "hi (r, n) < 2 ^ 36" and ap: "\<forall>x\<in>set L \<union> A. apart x (r, n)"
  shows "heap_ok (set_size r n (s\<lparr>sbrk_out := j, sbrk_in := i\<rparr>)) L (insert (r, n) A)" and "(r, n) \<notin> A"
proof -
  note h = H[unfolded heap_ok_def]
  have rn: "lo (r, n) < hi (r, n)" using assms(2) lo_less_hi[of "(r, n)"] by simp
  have ne: "fst x \<noteq> r" if "x \<in> set L \<union> A" for x
  proof (cases "snd x = 0")
    case True
    then have "x = hd L" using that h by (cases L) auto
    then show ?thesis using h assms(3) by auto
  next
    case False
    then show ?thesis using ap that apart_addr[of x "(r, n)"] assms(2) by auto
  qed
  have sym: "apart (r, n) x" if "x \<in> A" for x using ap that by (auto simp: apart_def)
  have sz: "\<forall>b\<in>set L \<union> insert (r, n) A. ((hsize s)(r := n)) (fst b) = snd b \<and> hi b < 2 ^ 36"
    using h ne assms(4) by auto
  show "heap_ok (set_size r n (s\<lparr>sbrk_out := j, sbrk_in := i\<rparr>)) L (insert (r, n) A)"
    unfolding heap_ok_def using h ap sym assms(2,3) sz by (simp add: pairwise_insert lo_def)
  show "(r, n) \<notin> A" using ne[of "(r, n)"] by auto
qed

lemma morecore_heap:
  assumes H: "heap_ok s L A" and "core_fresh s L A (core_units nu)" and nu: "nu \<noteq> 0" and small: "unat nu < 2 ^ 27"
  shows "\<exists>p t L'. morecore nu s = Some (p, t) \<and> base t = base s
    \<and> sbrk_out t = sbrk_out s @ [16 * int (unat (core_units nu))] \<and> heap_ok t L' A
    \<and> (p = 0 \<and> L' = L \<and> (sbrk_in s = [] \<or> hd (sbrk_in s) = -1)
       \<or> p = freep t \<and> p \<noteq> 0 \<and> units L' = units L + unat (core_units nu) \<and> (\<exists>b\<in>set L'. nu \<le> snd b))"
proof -
  let ?n = "core_units nu"
  have "unat ?n < 2 ^ 27" using small by (simp add: core_units_def)
  note q = sbrk_request[OF this]
  let ?j = "sbrk_out s @ [16 * int (unat ?n)]"
  show ?thesis
  proof (cases "sbrk_in s = [] \<or> hd (sbrk_in s) = -1")
    case True
    have "morecore nu s = Some (0, s\<lparr>sbrk_in := tl (sbrk_in s), sbrk_out := ?j\<rparr>)"
      using True q by (cases "sbrk_in s") (simp_all add: morecore_def sbrk_def Let_def)
    moreover have "heap_ok (s\<lparr>sbrk_in := tl (sbrk_in s), sbrk_out := ?j\<rparr>) L A" using H by (simp add: heap_ok_def)
    ultimately show ?thesis using True by auto
  next
    case False
    then obtain r rs where r: "sbrk_in s = r # rs" "r \<noteq> -1" by (cases "sbrk_in s") auto
    let ?s = "set_size r ?n (s\<lparr>sbrk_out := ?j, sbrk_in := rs\<rparr>)"
    have cf: "unat (base s) < unat r" "hi (r, ?n) < 2 ^ 36" "\<forall>x\<in>set L \<union> A. apart x (r, ?n)"
      using assms(2) r by (auto simp: core_fresh_def)
    note hc = heap_ok_core[OF H _ cf] core_units_facts[OF nu]
    obtain t L' where t: "free (r + HDR) ?s = Some t" "heap_ok t L' A" "units L' = units L + unat ?n"
      "\<exists>b\<in>set L'. ?n \<le> snd b" "base t = base s" "sbrk_out t = ?j"
      using free_heap[of ?s L r ?n A] hc by auto
    have "morecore nu s = Some (freep t, t)" using r q t(1) by (simp add: morecore_def sbrk_def Let_def)
    moreover have "freep t \<noteq> 0"
    proof -
      obtain b where b: "b \<in> set L'" "fst b = freep t" using t(2) unfolding heap_ok_def by auto
      have "lo (hd L') \<le> lo b" using sorted_hd_lo[OF _ b(1)] t(2) unfolding heap_ok_def by blast
      then show ?thesis using t(2) b(2) unfolding heap_ok_def by (auto simp: lo_def unat_eq_zero)
    qed
    moreover have "\<exists>b\<in>set L'. nu \<le> snd b" using t(4) core_units_facts[OF nu] by (meson order_trans)
    ultimately show ?thesis using t(2,3,5,6) by blast
  qed
qed

lemma malloc_units_eq:
  "unat (malloc_units nbytes) = (unat nbytes + 15) div 16 + 1"
proof -
  have n: "unat nbytes < 4294967296" by (rule unat_lt_u32)
  have "unat (ucast nbytes + HDR - 1 :: u64) = unat nbytes + 15"
    using n by (simp add: HDR_def unat_word_ariths)
  then have "unat ((ucast nbytes + HDR - 1) div HDR + 1 :: u64) = (unat nbytes + 15) div 16 + 1"
    using n by (simp add: HDR_def unat_word_ariths unat_div)
  then show ?thesis using n by (simp add: malloc_units_def unsigned_ucast_eq take_bit_nat_eq_self)
qed

lemma malloc_init_simps [simp]:
  "base (malloc_init s) = base s" "sbrk_in (malloc_init s) = sbrk_in s" "sbrk_out (malloc_init s) = sbrk_out s"
  by (simp_all add: malloc_init_def)

lemma held_nonzero: "heap_ok t L (insert (a, n) A) \<Longrightarrow> a + HDR \<noteq> 0"
proof
  assume "heap_ok t L (insert (a, n) A)" and z: "a + HDR = 0"
  then have "unat a < 2 ^ 36" using heap_block(4)[of t L "insert (a, n) A" "(a, n)"] by (simp add: hi_def)
  then have "unat (a + HDR) = unat a + 16" by (simp add: HDR_def unat_plus_u64)
  then show False using z by simp
qed

lemma malloc_loop_total:
  assumes H: "heap_ok s L A" and cf: "core_fresh s L A (core_units nu)" and nu: "nu \<noteq> 0" "unat nu < 2 ^ 27"
  defines "r \<equiv> malloc_loop nu (freep s) (hptr s (freep s)) s"
  shows "(\<exists>t L' a. r = Some (a + HDR, t) \<and> heap_ok t L' (insert (a, nu) A) \<and> (a, nu) \<notin> A
      \<and> (sbrk_out t = sbrk_out s \<and> units L' + unat nu = units L
         \<or> sbrk_out t = sbrk_out s @ [16 * int (unat (core_units nu))] \<and> units L' + unat nu = units L + unat (core_units nu)))
    \<or> (\<exists>t. r = Some (0, t) \<and> heap_ok t L A \<and> (\<forall>b\<in>set L. snd b < nu) \<and> (sbrk_in s = [] \<or> hd (sbrk_in s) = -1))"
proof (rule disjE[OF malloc_turn[OF H nu(1), folded r_def]])
  assume none: "(\<forall>b\<in>set L. snd b < nu)
      \<and> r = Option.bind (morecore nu s) (\<lambda>(p, s). if p = 0 then Some (0, s) else malloc_loop nu p (hptr s p) s)"
  obtain p t L' where t: "morecore nu s = Some (p, t)" "sbrk_out t = sbrk_out s @ [16 * int (unat (core_units nu))]"
    "heap_ok t L' A" and alt: "p = 0 \<and> L' = L \<and> (sbrk_in s = [] \<or> hd (sbrk_in s) = -1)
      \<or> p = freep t \<and> p \<noteq> 0 \<and> units L' = units L + unat (core_units nu) \<and> (\<exists>b\<in>set L'. nu \<le> snd b)"
    using morecore_heap[OF H cf nu] by auto
  from alt show ?thesis
  proof
    assume "p = 0 \<and> L' = L \<and> (sbrk_in s = [] \<or> hd (sbrk_in s) = -1)"
    then show ?thesis using none t by auto
  next
    assume a: "p = freep t \<and> p \<noteq> 0 \<and> units L' = units L + unat (core_units nu) \<and> (\<exists>b\<in>set L'. nu \<le> snd b)"
    then have "\<not> (\<forall>b\<in>set L'. snd b < nu)" by (meson not_le)
    then obtain x t' L'' where x: "malloc_loop nu (freep t) (hptr t (freep t)) t = Some (x + HDR, t')"
      "heap_ok t' L'' (insert (x, nu) A)" "(x, nu) \<notin> A" "units L'' + unat nu = units L'" "sbrk_out t' = sbrk_out t"
      using malloc_turn[OF t(3) nu(1)] by auto
    have "r = Some (x + HDR, t')" using none t(1) a x(1) by auto
    then show ?thesis using x(2-5) t(2) a by auto
  qed
qed blast

text \<open>
  C13. \<^verbatim>\<open>malloc\<close> always returns. In a heap whose free ring is well formed and whose allocated blocks lie apart from it and
  from each other, a request of less than \<open>2 ^ 31 - 64\<close> bytes ends with a block of the units it needs that is apart from
  every free and every allocated block, the ring well formed again and no unit lost; \<^verbatim>\<open>sbrk\<close> is asked at most once, for
  the units needed and at least 4096. Otherwise \<^verbatim>\<open>sbrk\<close> failed, no free block was large enough, the result is 0 and
  the heap is unchanged.
\<close>

theorem malloc_total:
  assumes H: "heap_ok (malloc_init s) L A" and cf: "core_fresh s L A (core_units (malloc_units nbytes))"
    and small: "unat nbytes < 2 ^ 31 - 64"
  defines "nu \<equiv> malloc_units nbytes"
  shows "unat nbytes + 16 \<le> 16 * unat nu
    \<and> ((\<exists>t L' a. malloc nbytes s = Some (a + HDR, t) \<and> heap_ok t L' (insert (a, nu) A) \<and> (a, nu) \<notin> A \<and> a + HDR \<noteq> 0
         \<and> (sbrk_out t = sbrk_out s \<and> units L' + unat nu = units L
            \<or> sbrk_out t = sbrk_out s @ [16 * int (unat (core_units nu))] \<and> units L' + unat nu = units L + unat (core_units nu)))
      \<or> (\<exists>t. malloc nbytes s = Some (0, t) \<and> heap_ok t L A \<and> (\<forall>b\<in>set L. snd b < nu) \<and> (sbrk_in s = [] \<or> hd (sbrk_in s) = -1)))"
proof -
  note u = malloc_units_eq[of nbytes, folded nu_def]
  have b: "unat nbytes + 16 \<le> 16 * unat nu" unfolding u by simp
  have nu: "nu \<noteq> 0" "unat nu < 2 ^ 27" using u small by auto
  have cf': "core_fresh (malloc_init s) L A (core_units nu)"
    using cf unfolding core_fresh_def nu_def malloc_init_simps .
  have m: "malloc_loop nu (freep (malloc_init s)) (hptr (malloc_init s) (freep (malloc_init s))) (malloc_init s) = malloc nbytes s"
    by (simp add: malloc_def Let_def nu_def)
  show ?thesis using malloc_loop_total[OF H cf' nu, unfolded m malloc_init_simps] b held_nonzero by blast
qed

theorem malloc_total_witness:
  "\<exists>s t L' a. freep s = 0 \<and> malloc 100 s = Some (a + HDR, t) \<and> heap_ok t L' {(a, 8)} \<and> sbrk_out t = [65536]"
proof -
  let ?s = "\<lparr>base = 4096, freep = 0, hptr = (\<lambda>_. 0), hsize = (\<lambda>_. 0), sbrk_in = [16384], sbrk_out = []\<rparr>"
  let ?L = "[(4096, 0)] :: block list"
  have h: "heap_ok (malloc_init ?s) ?L {}"
    by (simp add: heap_ok_def malloc_init_def hi_def)
  have n: "malloc_units 100 = 8" "core_units 8 = 4096" by code_simp+
  have c: "core_fresh ?s ?L {} (core_units (malloc_units 100))"
    unfolding n by (simp add: core_fresh_def apart_def hi_def lo_def)
  obtain t L' a where "malloc 100 ?s = Some (a + HDR, t)" "heap_ok t L' {(a, 8)}" "sbrk_out t = [65536]"
    using malloc_total[OF h c] by (auto simp: n units_def)
  moreover have "freep ?s = 0" by simp
  ultimately show ?thesis by blast
qed

text \<open>
  C26. \<^verbatim>\<open>free\<close> of a block that the program holds always returns: the walk around the ring ends at the place of the block
  whatever \<^verbatim>\<open>freep\<close> points to. The block is then free, joined with the neighbours it touches, the ring is well formed
  again, its free units have grown by those of the block, and the other blocks of the program are untouched.
\<close>

theorem free_total:
  assumes "heap_ok s L A" and "(a, n) \<in> A"
  shows "\<exists>t L'. free (a + HDR) s = Some t \<and> heap_ok t L' (A - {(a, n)}) \<and> units L' = units L + unat n"
  using free_heap[of s L a n "A - {(a, n)}"] assms by (auto simp: insert_absorb)

theorem free_total_witness:
  "\<exists>s t L'. heap_ok s [(4096, 0), (8192, 4)] {(8256, 2), (16384, 3)} \<and> free 8272 s = Some t
     \<and> heap_ok t L' {(16384, 3)} \<and> units L' = 6"
proof -
  let ?s = "\<lparr>base = 4096, freep = 4096, hptr = (\<lambda>_. 0)(4096 := 8192, 8192 := 4096),
    hsize = (\<lambda>_. 0)(8192 := 4, 8256 := 2, 16384 := 3), sbrk_in = [], sbrk_out = []\<rparr>"
  let ?L = "[(4096, 0), (8192, 4)] :: block list" and ?A = "{(8256, 2), (16384, 3)} :: block set"
  have h: "heap_ok ?s ?L ?A" by (simp add: heap_ok_def hi_def lo_def apart_def pairwise_insert)
  have d: "?A - {(8256, 2)} = {(16384, 3)}" by auto
  obtain t L' where "free (8256 + HDR) ?s = Some t" "heap_ok t L' (?A - {(8256, 2)})" "units L' = units ?L + unat (2 :: u32)"
    using free_total[OF h, of 8256 2] by auto
  then show ?thesis using h unfolding d by (intro exI[of _ ?s] exI[of _ t] exI[of _ L']) (simp add: HDR_def units_def)
qed

text \<open>A request close to \<open>2 ^ 31\<close> bytes makes \<^verbatim>\<open>morecore\<close> ask \<^verbatim>\<open>sbrk\<close> for a negative number of bytes.\<close>

lemma morecore_negative: "sint (ucast (ucast (malloc_units 0x80000000) * HDR) :: 32 word) < 0"
  by code_simp

end
