(* ===== verification/Spec2Isabelle.thy ===== *)
theory Spec2Isabelle
  imports Prelude KString KSpin KList KSched KBytes KAlloc KVm KPaging KMap KBio KLog KRecover KFs KBlocks KPrintf KRing
    KConsole KFile KProc KFair KExec KSysfile KVirtio KTrap KAsm KBuddy KBuddyInit ULib UProgs UGrep UShell UShellRun UMalloc
begin

text \<open>
  A verification development for mushroom_os, a RISC-V teaching kernel derived from xv6, and its user programs. The
  sources are \<^verbatim>\<open>src/kernel\<close> and \<^verbatim>\<open>src/user\<close>; definitions keep the names of the C functions, with a suffix or prefix
  where HOL has the name already.

  \<^bold>\<open>The program and the model.\<close> A trap enters the kernel through the assembly code, is dispatched by \<^verbatim>\<open>trap.c\<close> and
  \<^verbatim>\<open>syscall.c\<close>, and runs a handler that works on processes, memory and files. Files live in inodes, inodes in blocks,
  blocks in the buffer cache, and all writes of an operation go through the log. Each layer calls only the ones below it,
  and so do the theories.

  The state of the kernel is one record that grows along the layers: memory and held locks, process table, free pages,
  buffers and disks, log, inodes, console, open files, and at last control registers and interrupt controller. An
  operation is a function on any extension of the record of its layer. Its result is an \<open>outcome\<close> (theory \<open>Prelude\<close>): it
  returns (\<open>Ok\<close>), calls \<^verbatim>\<open>panic\<close> (\<open>Panic\<close> with the message), or gives up the CPU in \<^verbatim>\<open>sleep\<close> (\<open>Sleep\<close> with the channel).
  \<open>returns P r\<close> says that \<open>r\<close> is \<open>Ok\<close> and its value satisfies \<open>P\<close>: it is total
  correctness, and rules out panics and waiting. Integers have the width of the code wherever they can wrap.

  \<^bold>\<open>Base.\<close>
  \<^item> \<open>Prelude\<close>: integer types, outcomes and the rules of \<open>returns\<close>, shared lemmas on lists and words.
  \<^item> \<open>KString\<close> (\<^verbatim>\<open>string.c\<close>): byte routines on a flat memory. \<^verbatim>\<open>memmove\<close> copies as if at once, also when the ranges overlap;
    \<^verbatim>\<open>strncpy\<close> and \<^verbatim>\<open>strncmp\<close> agree on fixed-size name fields; \<^verbatim>\<open>safestrcpy\<close> stays in its buffer.
  \<^item> \<open>KBytes\<close>: little-endian layout of integers, for every structure that is read through a pointer cast.
  \<^item> \<open>KList\<close> (\<^verbatim>\<open>list.c\<close>): circular lists over a store of \<^verbatim>\<open>next\<close> and \<^verbatim>\<open>prev\<close>. The locale \<open>linked_list\<close> is the contract,
    interpreted on the operations of the code as \<open>lst\<close>.
  \<^item> \<open>KRing\<close>: the locale \<open>ring_buffer\<close> of a queue between two 32-bit counters that wrap, interpreted for the console and
    for pipes.

  \<^bold>\<open>Concurrency and scheduling.\<close>
  \<^item> \<open>KSpin\<close> (\<^verbatim>\<open>spinlock.c\<close>): a step relation that interleaves the harts at the atomic swap and the stores of the lock. Mutual
    exclusion and the nesting of \<^verbatim>\<open>push_off\<close> and \<^verbatim>\<open>pop_off\<close> hold in every reachable state. The other theories use the list
    \<open>held\<close> of the locks this hart has, of which the lock structures are shown to be a refinement.
  \<^item> \<open>KSched\<close> (\<^verbatim>\<open>proc.c\<close>, \<^verbatim>\<open>sleeplock.c\<close>): \<^verbatim>\<open>sleep\<close>, \<^verbatim>\<open>wakeup\<close>, \<^verbatim>\<open>yield\<close>, \<^verbatim>\<open>sched\<close> and the scheduler loop. No wakeup is
    lost between the test of a condition and the sleep; \<^verbatim>\<open>sleep\<close> handles its two locks as specified for every lock. Sleep
    locks are the locale \<open>sleeplock_place\<close>, interpreted for the locks of buffers in \<open>KBio\<close>.
  \<^item> \<open>KFair\<close>: whatever the processes that run do, one pass of the scheduler runs every process that was runnable.
  \<^item> \<open>KProc\<close> (rest of \<^verbatim>\<open>proc.c\<close>): creating, growing, forking, exiting, waiting.

  \<^bold>\<open>Memory.\<close>
  \<^item> \<open>KAlloc\<close> (\<^verbatim>\<open>kalloc.c\<close>): the free list through the free pages. The locale \<open>page_allocator\<close> is its contract, with the
    interpretation \<open>kmem\<close>, on which \<open>KMap\<close> rests.
  \<^item> \<open>KVm\<close>, \<open>KPaging\<close>, \<open>KMap\<close> (\<^verbatim>\<open>vm.c\<close>): page tables in physical memory; what the lookups compute; a table as a tree of pages
    of its own, in which \<^verbatim>\<open>mappages\<close> and \<^verbatim>\<open>uvmunmap\<close> change exactly the entries of their range.
  \<^item> \<open>KBuddy\<close>, \<open>KBuddyInit\<close> (\<^verbatim>\<open>buddy.c\<close>): the free lists and bit arrays represent a tree of blocks, \<^verbatim>\<open>bd_malloc\<close> and
    \<^verbatim>\<open>bd_free\<close> are the operations on the tree, and \<^verbatim>\<open>bd_init\<close> builds it or panics, with the exact condition.

  \<^bold>\<open>Storage.\<close>
  \<^item> \<open>KVirtio\<close> (\<^verbatim>\<open>virtio_disk.c\<close>): the driver, split where it waits for the device.
  \<^item> \<open>KBio\<close> (\<^verbatim>\<open>bio.c\<close>): the cache is transparent, and replaces the least recently used buffer. Every disk write is appended to
    a trace.
  \<^item> \<open>KLog\<close>, \<open>KRecover\<close> (\<^verbatim>\<open>log.c\<close>): the exact writes of \<^verbatim>\<open>commit\<close> and of recovery. A crash after any prefix of them, and
    crashes of recovery itself, leave all of a transaction or none of it (locale \<open>redo_log\<close>, interpreted on the header
    format as \<open>hdr\<close>). Space reserved by \<^verbatim>\<open>begin_op\<close> suffices for a log area of the size that the code assumes, and does not
    for the one it gets.
  \<^item> \<open>KFs\<close> (\<^verbatim>\<open>fs.c\<close>): blocks, inodes, directories and paths. \<open>KBlocks\<close> shows the block allocator correct on the blocks as a
    transaction sees them through cache and log.
  \<^item> \<open>KFile\<close> (\<^verbatim>\<open>file.c\<close>, \<^verbatim>\<open>pipe.c\<close>): open files and pipes; a pipe is a bounded queue under any sequence of calls.
  \<^item> \<open>KSysfile\<close> (\<^verbatim>\<open>sysfile.c\<close>) and \<open>KExec\<close> (\<^verbatim>\<open>exec.c\<close>, arguments in \<^verbatim>\<open>syscall.c\<close>): the handlers, with all error exits.

  \<^bold>\<open>Console and traps.\<close>
  \<^item> \<open>KPrintf\<close> (\<^verbatim>\<open>printf.c\<close>): the bytes printed; numbers read back as what was printed.
  \<^item> \<open>KConsole\<close> (\<^verbatim>\<open>console.c\<close>, \<^verbatim>\<open>uart.c\<close>): the line discipline, for typing and for reading.
  \<^item> \<open>KTrap\<close> (\<^verbatim>\<open>trap.c\<close>, \<^verbatim>\<open>syscall.c\<close>, \<^verbatim>\<open>sysproc.c\<close>, \<^verbatim>\<open>plic.c\<close>): from an interrupt or exception to its handler.
  \<^item> \<open>KAsm\<close> (\<^verbatim>\<open>trampoline.S\<close>, \<^verbatim>\<open>kernelvec.S\<close>, \<^verbatim>\<open>swtch.S\<close>, \<^verbatim>\<open>entry.S\<close>): the instructions as lists with an interpreter; traps keep
    all registers, and \<^verbatim>\<open>swtch\<close> exchanges two contexts. The address translation is a parameter.

  \<^bold>\<open>User programs.\<close>
  \<^item> \<open>ULib\<close>, \<open>UProgs\<close>: the library and the small programs, as the system calls they make depending on the replies.
  \<^item> \<open>UGrep\<close> (\<^verbatim>\<open>grep.c\<close>): the matcher decides the language of the pattern; which lines are printed.
  \<^item> \<open>UShell\<close>, \<open>UShellRun\<close> (\<^verbatim>\<open>sh.c\<close>): parsing inverts printing; the parsed command is well typed and terminated; how the
    processes of a pipeline are connected.
  \<^item> \<open>UMalloc\<close> (\<^verbatim>\<open>umalloc.c\<close>): \<^verbatim>\<open>malloc\<close> and \<^verbatim>\<open>free\<close> return on every proper ring, with their effect on the free blocks.

  \<^bold>\<open>Loops and bounds.\<close> A loop that may run forever is a \<open>partial_function\<close> with \<open>None\<close> for running forever
  (\<^verbatim>\<open>strlen\<close>, \<^verbatim>\<open>strcpy\<close>, \<^verbatim>\<open>strcmp\<close>, \<^verbatim>\<open>lst_print\<close>, \<^verbatim>\<open>firstk\<close>, the two loops of the user allocator). Two have fuel: \<^verbatim>\<open>freewalk\<close> has
  the number of levels of a page table, which is three; the scans of the buffer list have \<open>Suc NBUF\<close> steps, in which a
  proper list reaches its head. A user program with a loop around a system call consumes one reply in each round and ends
  with the list of replies.

  \<^bold>\<open>Simplifications.\<close> The nesting depth of \<^verbatim>\<open>push_off\<close> is an unbounded integer; overflow of the C \<^verbatim>\<open>int\<close> is undefined and
  takes \<open>2 ^ 31\<close> nested locks. Calls that only name a lock or print a message are left out of the initialisers. In
  \<^verbatim>\<open>sched\<close> the test that interrupts are off is left out, since it cannot fail while a lock is held (\<open>KSpin\<close>). The buffer cache
  uses the transfer of a block as the driver completes it. The shell is taken to get memory for its nodes.

  \<^bold>\<open>Not modelled.\<close> The boot code (\<^verbatim>\<open>main.c\<close>, \<^verbatim>\<open>start.c\<close>), which only calls the initialisers and sets machine-mode registers; the
  unused RAM disk; headers with only declarations; the linker script, the generated system call stubs and
  \<^verbatim>\<open>initcode.S\<close>; \<^verbatim>\<open>mkfs\<close>, a program of the host; the second shell \<^verbatim>\<open>nsh.c\<close>; the exercise programs \<^verbatim>\<open>find\<close>, \<^verbatim>\<open>xargs\<close>,
  \<^verbatim>\<open>primes\<close>, \<^verbatim>\<open>call\<close> and \<^verbatim>\<open>uthread\<close>; the test programs. The virtio device, the UART hardware and the user code between two
  traps are outside of the program.
\<close>

end
